(* ===== verification/Prelude.thy ===== *)
theory Prelude
  imports Main "HOL-Library.Word" "HOL-Library.AList" "HOL-Library.List_Lexorder"
    "HOL-Library.Product_Lexorder"
begin

text \<open>
  Shared ground of the development: the byte and integer types of the Rust code, its error type
  (\<^verbatim>\<open>src/src/error.rs\<close>), little-endian integers (\<^verbatim>\<open>to_le_bytes\<close>, \<^verbatim>\<open>from_le_bytes\<close>), slices,
  and the lemmas on lists and association lists that the components use. A Rust \<^verbatim>\<open>HashMap\<close> is an
  association list with distinct keys, a \<^verbatim>\<open>Result<T>\<close> is \<open>error + 'a\<close>. A \<^verbatim>\<open>u64\<close> that counts bytes,
  records or log positions is a \<open>nat\<close>; a cast to a narrower type is written out (\<open>as_u32\<close>), and the
  encoders take the low bytes of what they are given, as the casts do.
\<close>

unbundle bit_operations_syntax

section \<open>Automation collections\<close>

named_theorems le_simps \<open>lengths and round trips of little-endian integers\<close>
named_theorems codec_simps \<open>lengths and round trips of the encoders\<close>
named_theorems fs_simps \<open>what the fault-free filesystem operations do\<close>

section \<open>Types\<close>

type_synonym byte = "8 word"
type_synonym bytes = "byte list"
type_synonym u32 = "32 word"

datatype io_kind = NotFound | UnexpectedEof | InvalidData | OtherKind | DeviceFault

datatype error =
    Io io_kind string
  | Corrupt nat nat string
  | InvalidKey string
  | ValueTooLarge nat

type_synonym 'a res = "error + 'a"

definition u32_max :: nat where
  "u32_max = 2 ^ 32 - 1"

definition u64_max :: nat where
  "u64_max = 2 ^ 64 - 1"

text \<open>The cast \<^verbatim>\<open>n as u32\<close>.\<close>

definition as_u32 :: "nat \<Rightarrow> nat" where
  "as_u32 n = n mod 2 ^ 32"

lemma as_u32_id [simp]: "n < 2 ^ 32 \<Longrightarrow> as_u32 n = n"
  by (simp add: as_u32_def)

lemma as_u32_less: "as_u32 n < 2 ^ 32"
  by (simp add: as_u32_def)

lemma as_u32_le: "as_u32 n \<le> n"
  by (simp add: as_u32_def)

section \<open>Little-endian integers\<close>

fun le_bytes :: "nat \<Rightarrow> nat \<Rightarrow> bytes" where
  "le_bytes 0 n = []"
| "le_bytes (Suc k) n = word_of_nat (n mod 256) # le_bytes k (n div 256)"

fun from_le :: "bytes \<Rightarrow> nat" where
  "from_le [] = 0"
| "from_le (b # bs) = unat b + 256 * from_le bs"

lemma length_le_bytes [simp, le_simps]: "length (le_bytes k n) = k"
  by (induction k arbitrary: n) auto

lemma unat_byte_less: "unat (b :: byte) < 256"
proof -
  have "unat b < 2 ^ LENGTH(8)" by (rule unsigned_less)
  then show ?thesis by simp
qed

lemma unat_byte_of_nat: "n < 256 \<Longrightarrow> unat (word_of_nat n :: byte) = n"
  by (simp add: unat_of_nat take_bit_eq_mod)

lemma from_le_le_bytes: "from_le (le_bytes k n) = n mod 256 ^ k"
proof (induction k arbitrary: n)
  case 0
  then show ?case by simp
next
  case (Suc k)
  have "unat (word_of_nat (n mod 256) :: byte) = n mod 256"
    by (rule unat_byte_of_nat) simp
  then show ?case
    using Suc by (simp add: mod_mult2_eq)
qed

lemma from_le_le_bytes_id [simp, le_simps]: "n < 256 ^ k \<Longrightarrow> from_le (le_bytes k n) = n"
  by (simp add: from_le_le_bytes)

lemma from_le_less: "from_le bs < 256 ^ length bs"
proof (induction bs)
  case Nil
  then show ?case by simp
next
  case (Cons b bs)
  have "unat b < 256" by (rule unat_byte_less)
  then show ?case using Cons by simp
qed

lemma le_bytes_from_le [simp, le_simps]: "length bs = k \<Longrightarrow> le_bytes k (from_le bs) = bs"
proof (induction bs arbitrary: k)
  case Nil
  then show ?case by simp
next
  case (Cons b bs)
  have b: "unat b < 256" by (rule unat_byte_less)
  then have "(unat b + 256 * from_le bs) mod 256 = unat b"
    and "(unat b + 256 * from_le bs) div 256 = from_le bs"
    by simp_all
  then show ?case using Cons by auto
qed

lemma from_le_inject: "length xs = length ys \<Longrightarrow> from_le xs = from_le ys \<longleftrightarrow> xs = ys"
  by (metis le_bytes_from_le)

lemma le_bytes_inject:
  "m < 256 ^ k \<Longrightarrow> n < 256 ^ k \<Longrightarrow> le_bytes k m = le_bytes k n \<longleftrightarrow> m = n"
  by (metis from_le_le_bytes_id)

section \<open>Words\<close>

lemma word_xor_eq_0: "x XOR y = 0 \<longleftrightarrow> x = (y :: 'a::len word)"
  by (metis xor.assoc xor_self_eq xor.left_neutral xor.right_neutral)

lemma word_xor_cancel_right: "x XOR z = y XOR z \<longleftrightarrow> x = (y :: 'a::len word)"
  by (metis xor.assoc xor_self_eq xor.right_neutral)

lemma word_xor_cancel_left: "z XOR x = z XOR y \<longleftrightarrow> x = (y :: 'a::len word)"
  by (metis xor.assoc xor_self_eq xor.left_neutral)

section \<open>Slices\<close>

text \<open>\<open>slice i j xs\<close> is \<^verbatim>\<open>xs[i..j]\<close> in range; \<open>get_range\<close> is \<^verbatim>\<open>xs.get(i..j)\<close>.\<close>

definition slice :: "nat \<Rightarrow> nat \<Rightarrow> 'a list \<Rightarrow> 'a list" where
  "slice i j xs = take (j - i) (drop i xs)"

definition get_range :: "nat \<Rightarrow> nat \<Rightarrow> 'a list \<Rightarrow> 'a list option" where
  "get_range i j xs = (if i \<le> j \<and> j \<le> length xs then Some (slice i j xs) else None)"

lemma length_slice [simp]: "j \<le> length xs \<Longrightarrow> length (slice i j xs) = j - i"
  by (simp add: slice_def)

lemma slice_append_left: "j \<le> length xs \<Longrightarrow> slice i j (xs @ ys) = slice i j xs"
  by (simp add: slice_def)

lemma slice_append_right: "length xs \<le> i \<Longrightarrow> slice i j (xs @ ys) = slice (i - length xs) (j - length xs) ys"
  by (simp add: slice_def)

lemma slice_middle:
  "i = length xs \<Longrightarrow> j = i + length ys \<Longrightarrow> slice i j (xs @ ys @ zs) = ys"
  by (simp add: slice_def)

lemma get_range_Some: "get_range i j xs = Some ys \<longleftrightarrow> i \<le> j \<and> j \<le> length xs \<and> ys = slice i j xs"
  by (auto simp: get_range_def)

lemma slice_split: "xs = take a xs @ slice a (a + b) xs @ drop (a + b) xs"
  by (metis append_assoc append_take_drop_id slice_def take_add add_diff_cancel_left')

lemma map_slice: "map f (slice i j xs) = slice i j (map f xs)"
  by (simp add: slice_def take_map drop_map)

section \<open>Association lists\<close>

abbreviation adom :: "('k \<times> 'v) list \<Rightarrow> 'k list" where
  "adom al \<equiv> map fst al"

lemma map_of_update [simp]: "map_of (AList.update k v al) = (map_of al)(k \<mapsto> v)"
  by (rule update_conv')

lemma map_of_delete [simp]: "map_of (AList.delete k al) = (map_of al)(k := None)"
  by (rule delete_conv')

lemma distinct_adom_update [simp]: "distinct (adom al) \<Longrightarrow> distinct (adom (AList.update k v al))"
  by (rule distinct_update)

lemma distinct_adom_delete [simp]: "distinct (adom al) \<Longrightarrow> distinct (adom (AList.delete k al))"
  by (rule distinct_delete)

lemma set_adom_update [simp]: "set (adom (AList.update k v al)) = insert k (set (adom al))"
  by (metis dom_map_of_conv_image_fst dom_fun_upd map_of_update list.set_map option.distinct(1))

lemma set_adom_delete [simp]: "set (adom (AList.delete k al)) = set (adom al) - {k}"
  by (metis dom_map_of_conv_image_fst dom_fun_upd map_of_delete list.set_map)

lemmas fst_set_update [simp] = set_adom_update [unfolded list.set_map]
lemmas fst_set_delete [simp] = set_adom_delete [unfolded list.set_map]

lemma map_of_in_adom: "map_of al k = Some v \<Longrightarrow> k \<in> set (adom al)"
  by (metis map_of_eq_None_iff list.set_map option.distinct(1))

lemma in_adom: "k \<in> set (adom al) \<longleftrightarrow> map_of al k \<noteq> None"
  by (metis map_of_eq_None_iff list.set_map)

lemma adom_map_of: "k \<in> set (adom al) \<Longrightarrow> \<exists>v. map_of al k = Some v"
  by (metis map_of_eq_None_iff list.set_map option.exhaust)

lemma set_update_subset: "set (AList.update k v al) \<subseteq> insert (k, v) (set al)"
  by (induction al) auto

text \<open>A measure summed over an association list, as the code's running totals are.\<close>

lemma sum_list_alist_delete:
  fixes f :: "'k \<times> 'v \<Rightarrow> nat"
  assumes "distinct (adom al)" and "map_of al k = Some v"
  shows "sum_list (map f (AList.delete k al)) + f (k, v) = sum_list (map f al)"
  using assms
proof (induction al)
  case Nil
  then show ?case by simp
next
  case (Cons p al)
  obtain k' v' where p: "p = (k', v')" by (cases p)
  show ?case
  proof (cases "k' = k")
    case True
    with Cons.prems p have "k \<notin> set (adom al)" and "v' = v" by auto
    moreover from this have "AList.delete k al = al"
      by (simp add: delete_id)
    ultimately show ?thesis using True p by simp
  next
    case False
    with Cons p show ?thesis by auto
  qed
qed

lemma sum_list_alist_update_new:
  fixes f :: "'k \<times> 'v \<Rightarrow> nat"
  assumes "k \<notin> set (adom al)"
  shows "sum_list (map f (AList.update k v al)) = sum_list (map f al) + f (k, v)"
  using assms by (induction al) auto

lemma sum_list_alist_dom:
  fixes f :: "'k \<times> 'v \<Rightarrow> nat"
  assumes "distinct (adom al)"
  shows "sum_list (map f al) = (\<Sum>k \<in> set (adom al). f (k, the (map_of al k)))"
  using assms
proof (induction al)
  case Nil
  then show ?case by simp
next
  case (Cons p al)
  obtain k v where p: "p = (k, v)" by (cases p)
  have "(\<Sum>j \<in> set (adom al). f (j, the (map_of (p # al) j))) = (\<Sum>j \<in> set (adom al). f (j, the (map_of al j)))"
    using Cons.prems p by (intro sum.cong) auto
  with Cons p show ?case by simp
qed

section \<open>Lists\<close>

lemma take_length_append [simp]: "take (length xs) (xs @ ys) = xs"
  by simp

lemma concat_map_append: "concat (map f (xs @ ys)) = concat (map f xs) @ concat (map f ys)"
  by simp

lemma foldl_cong_step:
  assumes "\<And>s x. x \<in> set xs \<Longrightarrow> f s x = g s x"
  shows "foldl f a xs = foldl g a xs"
  using assms by (induction xs arbitrary: a) auto

end
