(* ===== verification/Crc.thy ===== *)
theory Crc
  imports Prelude
begin

text \<open>
  CRC-32 (\<^verbatim>\<open>src/src/crc.rs\<close>): the table built at compile time, the table-driven update, the
  checksum of several buffers and the running checksum. The table-driven update is shown equal to
  eight steps of the bit-serial register, which is linear and injective; from that, the checksum
  of two messages of the same length that differ only inside four consecutive bytes always
  differs.
\<close>

section \<open>Definitions\<close>

definition POLY :: u32 where
  "POLY = 0xEDB88320"

text \<open>The body of the inner loop of \<^verbatim>\<open>build_table\<close>: one bit of the register.\<close>

definition crc_bit :: "u32 \<Rightarrow> u32" where
  "crc_bit crc = (if crc AND 1 = 1 then drop_bit 1 crc XOR POLY else drop_bit 1 crc)"

definition table_entry :: "nat \<Rightarrow> u32" where
  "table_entry i = (crc_bit ^^ 8) (word_of_nat i)"

definition build_table :: "u32 list" where
  "build_table = map table_entry [0..<256]"

definition crc_step :: "u32 \<Rightarrow> byte \<Rightarrow> u32" where
  "crc_step crc b = build_table ! unat ((crc XOR ucast b) AND 0xFF) XOR drop_bit 8 crc"

definition crc_update :: "u32 \<Rightarrow> bytes \<Rightarrow> u32" where
  "crc_update crc data = foldl crc_step crc data"

definition crc32_parts :: "bytes list \<Rightarrow> u32" where
  "crc32_parts parts = foldl crc_update 0xFFFFFFFF parts XOR 0xFFFFFFFF"

text \<open>The running checksum \<^verbatim>\<open>Crc32\<close>.\<close>

datatype crc32_running = Crc32 u32

definition crc32_new :: crc32_running where
  "crc32_new = Crc32 0xFFFFFFFF"

fun crc32_feed :: "crc32_running \<Rightarrow> bytes \<Rightarrow> crc32_running" where
  "crc32_feed (Crc32 c) data = Crc32 (crc_update c data)"

fun crc32_finish :: "crc32_running \<Rightarrow> u32" where
  "crc32_finish (Crc32 c) = c XOR 0xFFFFFFFF"

section \<open>The bit-serial register\<close>

lemma crc_bit_alt: "crc_bit x = drop_bit 1 x XOR (if bit x 0 then POLY else 0)"
  by (simp add: crc_bit_def and_one_eq odd_iff_mod_2_eq_one bit_0)

lemma crc_bit_xor: "crc_bit (x XOR y) = crc_bit x XOR crc_bit y"
  by (simp add: crc_bit_alt bit_xor_iff drop_bit_xor ac_simps)

lemma crc_bits_xor: "(crc_bit ^^ n) (x XOR y) = (crc_bit ^^ n) x XOR (crc_bit ^^ n) y"
  by (induction n) (simp_all add: crc_bit_xor)

lemma crc_bit_0 [simp]: "crc_bit 0 = 0"
  by (simp add: crc_bit_alt)

lemma crc_bits_0 [simp]: "(crc_bit ^^ n) 0 = 0"
  by (induction n) simp_all

lemma crc_bit_eq_0: "crc_bit z = 0 \<Longrightarrow> z = 0"
proof -
  assume z: "crc_bit z = 0"
  have top: "bit (drop_bit 1 z) 31 = False"
    using bit_imp_le_length [of z 32] by (auto simp: bit_drop_bit_eq)
  have poly: "bit POLY 31" by (simp add: POLY_def)
  have b0: "\<not> bit z 0"
  proof
    assume "bit z 0"
    with z have "drop_bit 1 z = POLY" by (simp add: crc_bit_alt word_xor_eq_0)
    with top poly show False by simp
  qed
  with z have d: "drop_bit 1 z = 0" by (simp add: crc_bit_alt)
  show "z = 0"
  proof (rule bit_eqI)
    fix n assume "possible_bit TYPE(32 word) n"
    show "bit z n \<longleftrightarrow> bit 0 n"
    proof (cases n)
      case 0
      with b0 show ?thesis by simp
    next
      case (Suc m)
      from d have "\<not> bit (drop_bit 1 z) m" by simp
      with Suc show ?thesis by (simp add: bit_drop_bit_eq)
    qed
  qed
qed

lemma crc_bits_eq_0: "(crc_bit ^^ n) z = 0 \<Longrightarrow> z = 0"
  by (induction n) (auto dest: crc_bit_eq_0)

lemma crc_bits_inject: "(crc_bit ^^ n) x = (crc_bit ^^ n) y \<longleftrightarrow> x = y"
proof
  assume "(crc_bit ^^ n) x = (crc_bit ^^ n) y"
  then have "(crc_bit ^^ n) (x XOR y) = 0" by (simp add: crc_bits_xor)
  then have "x XOR y = 0" by (rule crc_bits_eq_0)
  then show "x = y" by (simp add: word_xor_eq_0)
qed simp

text \<open>A register whose low bits are clear is only shifted.\<close>

lemma crc_bits_shift:
  "(\<And>i. i < n \<Longrightarrow> \<not> bit x i) \<Longrightarrow> (crc_bit ^^ n) x = drop_bit n x"
proof (induction n arbitrary: x)
  case 0
  then show ?case by simp
next
  case (Suc n)
  have "crc_bit x = drop_bit 1 x"
    using Suc.prems [of 0] by (simp add: crc_bit_alt)
  moreover have "(crc_bit ^^ n) (drop_bit 1 x) = drop_bit n (drop_bit 1 x)"
    by (rule Suc.IH) (simp add: bit_drop_bit_eq Suc.prems)
  ultimately show ?case
    by (simp add: funpow_swap1)
qed

section \<open>The table-driven update\<close>

lemma build_table_nth: "i < 256 \<Longrightarrow> build_table ! i = table_entry i"
  by (simp add: build_table_def)

lemma unat_and_255_less: "unat ((w :: u32) AND 0xFF) < 256"
proof -
  have "w AND 0xFF \<le> 0xFF" by (rule word_and_le1)
  then show ?thesis by (simp add: word_le_nat_alt)
qed

lemma and_255: "(w :: u32) AND 0xFF = take_bit 8 w"
  by (simp add: take_bit_eq_mask mask_eq_exp_minus_1)

lemma crc_bits_8: "(crc_bit ^^ 8) s = table_entry (unat (s AND 0xFF)) XOR drop_bit 8 s"
proof -
  have split: "s = (s AND 0xFF) XOR push_bit 8 (drop_bit 8 s)"
    unfolding and_255
    by (rule bit_eqI) (auto simp: bit_xor_iff bit_take_bit_iff bit_push_bit_iff bit_drop_bit_eq)
  have "(crc_bit ^^ 8) (push_bit 8 (drop_bit 8 s)) = drop_bit 8 (push_bit 8 (drop_bit 8 s))"
    by (rule crc_bits_shift) (simp add: bit_push_bit_iff)
  also have "\<dots> = drop_bit 8 s"
    by (rule bit_eqI) (auto simp: bit_push_bit_iff bit_drop_bit_eq dest: bit_imp_le_length)
  finally have "(crc_bit ^^ 8) s = (crc_bit ^^ 8) (s AND 0xFF) XOR drop_bit 8 s"
    by (subst split) (simp only: crc_bits_xor)
  then show ?thesis by (simp add: table_entry_def)
qed

lemma crc_step_bits: "crc_step crc b = (crc_bit ^^ 8) (crc XOR ucast b)"
proof -
  have "drop_bit 8 (crc XOR ucast b) = drop_bit 8 crc"
    by (rule bit_eqI) (auto simp: bit_drop_bit_eq bit_xor_iff bit_ucast_iff dest: bit_imp_le_length)
  then show ?thesis
    by (simp add: crc_bits_8 crc_step_def build_table_nth unat_and_255_less)
qed

lemma crc_step_inject: "crc_step x b = crc_step y b \<longleftrightarrow> x = y"
  by (simp add: crc_step_bits crc_bits_inject word_xor_cancel_right)

lemma crc_update_Nil [simp]: "crc_update c [] = c"
  by (simp add: crc_update_def)

lemma crc_update_Cons [simp]: "crc_update c (b # bs) = crc_update (crc_step c b) bs"
  by (simp add: crc_update_def)

lemma crc_update_append [simp]: "crc_update c (xs @ ys) = crc_update (crc_update c xs) ys"
  by (simp add: crc_update_def)

lemma crc_update_inject: "crc_update x bs = crc_update y bs \<longleftrightarrow> x = y"
  by (induction bs arbitrary: x y) (simp_all add: crc_step_inject)

lemma crc_update_parts: "foldl crc_update c parts = crc_update c (concat parts)"
  by (induction parts arbitrary: c) simp_all

lemma crc32_parts_eq_iff: "crc32_parts ps = crc32_parts qs \<longleftrightarrow>
  crc_update 0xFFFFFFFF (concat ps) = crc_update 0xFFFFFFFF (concat qs)"
  by (simp add: crc32_parts_def crc_update_parts word_xor_cancel_right)

section \<open>Bursts\<close>

text \<open>Up to four bytes, read as one little-endian word, enter the register together.\<close>

definition word_le :: "bytes \<Rightarrow> u32" where
  "word_le es = word_of_nat (from_le es)"

lemma word_le_Nil [simp]: "word_le [] = 0"
  by (simp add: word_le_def)

lemma word_le_Cons: "word_le (b # es) = ucast b XOR push_bit 8 (word_le es)"
proof -
  have "word_le (b # es) = ucast b + push_bit 8 (word_le es)"
    by (simp add: word_le_def push_bit_eq_mult mult.commute)
  also have "\<dots> = ucast b OR push_bit 8 (word_le es)"
    by (rule disjunctive_add) (auto simp: bit_ucast_iff bit_push_bit_iff dest: bit_imp_le_length)
  also have "\<dots> = ucast b XOR push_bit 8 (word_le es)"
    by (rule bit_eqI)
      (auto simp: bit_or_iff bit_xor_iff bit_ucast_iff bit_push_bit_iff dest: bit_imp_le_length)
  finally show ?thesis .
qed

lemma word_le_bit: "bit (word_le es) i \<Longrightarrow> i < 8 * length es"
proof (induction es arbitrary: i)
  case Nil
  then show ?case by simp
next
  case (Cons b es)
  show ?case
  proof (cases "i < 8")
    case False
    then have "\<not> bit b i" using bit_imp_le_length [of b i] by auto
    with Cons.prems False have "bit (word_le es) (i - 8)"
      by (auto simp: word_le_Cons bit_xor_iff bit_ucast_iff bit_push_bit_iff)
    then have "i - 8 < 8 * length es" by (rule Cons.IH)
    then show ?thesis by simp
  qed simp
qed

lemma crc_bits_8_push:
  assumes "\<And>i. bit w i \<Longrightarrow> i < 24"
  shows "(crc_bit ^^ 8) (push_bit 8 w) = w"
proof -
  have "(crc_bit ^^ 8) (push_bit 8 w) = drop_bit 8 (push_bit 8 w)"
    by (rule crc_bits_shift) (simp add: bit_push_bit_iff)
  also have "\<dots> = w"
    by (rule bit_eqI) (auto simp: bit_push_bit_iff bit_drop_bit_eq dest: assms)
  finally show ?thesis .
qed

lemma crc_update_word:
  "length es \<le> 4 \<Longrightarrow> crc_update s es = (crc_bit ^^ (8 * length es)) (s XOR word_le es)"
proof (induction es arbitrary: s)
  case Nil
  then show ?case by simp
next
  case (Cons b es)
  have w: "(crc_bit ^^ 8) (push_bit 8 (word_le es)) = word_le es"
    using Cons.prems by (intro crc_bits_8_push) (auto dest!: word_le_bit)
  have "crc_update s (b # es) = (crc_bit ^^ (8 * length es)) (crc_step s b XOR word_le es)"
    using Cons by simp
  also have "crc_step s b XOR word_le es
      = (crc_bit ^^ 8) (s XOR ucast b XOR push_bit 8 (word_le es))"
    by (simp add: crc_step_bits crc_bits_xor w xor.assoc)
  also have "s XOR ucast b XOR push_bit 8 (word_le es) = s XOR word_le (b # es)"
    by (simp add: word_le_Cons xor.assoc)
  finally have eq: "crc_update s (b # es)
      = (crc_bit ^^ (8 * length es)) ((crc_bit ^^ 8) (s XOR word_le (b # es)))" .
  have "8 * length (b # es) = 8 * length es + 8" by simp
  then show ?case by (simp only: eq funpow_add comp_apply)
qed

lemma word_le_inject:
  assumes "length xs = length ys" and "length xs \<le> 4"
  shows "word_le xs = word_le ys \<longleftrightarrow> xs = ys"
proof
  assume eq: "word_le xs = word_le ys"
  have "from_le zs < 2 ^ 32" if "length zs \<le> 4" for zs
  proof -
    have "from_le zs < 256 ^ length zs" by (rule from_le_less)
    also have "\<dots> \<le> 256 ^ 4" using that by (intro power_increasing) auto
    finally show ?thesis by simp
  qed
  with assms have "from_le xs < 2 ^ 32" and "from_le ys < 2 ^ 32" by simp_all
  then have "unat (word_le xs) = from_le xs" and "unat (word_le ys) = from_le ys"
    by (simp_all add: word_le_def unat_of_nat take_bit_eq_mod)
  with eq have "from_le xs = from_le ys" by simp
  with assms(1) show "xs = ys" by (simp add: from_le_inject)
qed simp

lemma crc_update_burst:
  assumes "length es = length es'" and "length es \<le> 4"
  shows "crc_update c (xs @ es @ ys) = crc_update c (xs @ es' @ ys) \<longleftrightarrow> es = es'"
  using assms
  by (simp add: crc_update_inject crc_update_word crc_bits_inject word_xor_cancel_left
      word_le_inject)

section \<open>Properties\<close>

text \<open>(C40) The table-driven update computes the bit-serial CRC: for every register value and every
  buffer, each byte is eight steps of the reflected shift register with polynomial
  \<^verbatim>\<open>0xEDB88320\<close>.\<close>

theorem crc_update_bit_serial:
  "crc_update crc data = foldl (\<lambda>c b. (crc_bit ^^ 8) (c XOR ucast b)) crc data"
  unfolding crc_update_def by (rule foldl_cong_step) (rule crc_step_bits)

text \<open>A checksum fed piece by piece equals the one-shot checksum of the pieces, and both equal
  the checksum of the concatenation, however the data is cut.\<close>

theorem crc32_running_matches:
  "crc32_finish (foldl crc32_feed crc32_new parts) = crc32_parts parts
   \<and> crc32_parts parts = crc32_parts [concat parts]"
proof -
  have "foldl crc32_feed (Crc32 c) parts = Crc32 (foldl crc_update c parts)" for c
    by (induction parts arbitrary: c) simp_all
  then show ?thesis
    by (simp add: crc32_new_def crc32_parts_def crc_update_parts)
qed

text \<open>Every error burst of at most four bytes is caught: two messages of equal length that
  differ only inside a window of up to 32 bits have different checksums, wherever the window
  is.\<close>

theorem crc32_detects_bursts:
  assumes "length es = length es'" and "length es \<le> 4" and "es \<noteq> es'"
  shows "crc32_parts [xs @ es @ ys] \<noteq> crc32_parts [xs @ es' @ ys]"
  using assms crc_update_burst [OF assms(1,2)] by (simp add: crc32_parts_eq_iff del: crc_update_append)

theorem crc32_detects_bursts_witness:
  "crc32_parts [[7] @ [1, 2] @ [9]] \<noteq> crc32_parts [[7] @ [1, 3] @ [9 :: byte]]"
  by (rule crc32_detects_bursts) simp_all

text \<open>The check value of the CRC-32/ISO-HDLC catalogue, \<^verbatim>\<open>crc32(b"123456789")\<close>, as the source's
  own test has it.\<close>

lemma crc_bits_8_unfold:
  "(crc_bit ^^ 8) x = crc_bit (crc_bit (crc_bit (crc_bit (crc_bit (crc_bit (crc_bit (crc_bit x)))))))"
  by (simp add: eval_nat_numeral)

lemma crc32_check_value:
  "crc32_parts [[49, 50, 51, 52, 53, 54, 55, 56, 57]] = 0xCBF43926"
  by (simp add: crc32_parts_def crc_step_bits crc_bits_8_unfold crc_bit_def POLY_def)

end
