(* ===== verification/RecordFormat.thy ===== *)
theory RecordFormat
  imports Crc
begin

text \<open>
  The on-disk record (\<^verbatim>\<open>src/src/record.rs\<close>): a 21-byte header (checksum, timestamp, key length,
  value length, flags), then the key and the value. \<open>encode_record\<close> is \<^verbatim>\<open>record::encode\<close>; the
  methods of \<^verbatim>\<open>Header\<close> keep their names with the prefix \<open>header_\<close>. Shown: the header codec is a
  bijection between 21-byte buffers and headers in range, an encoded record reads back, and what
  \<open>header_verify\<close> checks depends on the bytes alone, so a damaged record fails it.
\<close>

section \<open>Definitions\<close>

definition HEADER_LEN :: nat where
  "HEADER_LEN = 21"

definition FLAG_TOMBSTONE :: byte where
  "FLAG_TOMBSTONE = 1"

record header =
  hdr_crc :: u32
  hdr_tstamp :: nat
  hdr_key_len :: nat
  hdr_value_len :: nat
  hdr_flags :: byte

definition header_record_len :: "header \<Rightarrow> nat" where
  "header_record_len h = HEADER_LEN + hdr_key_len h + hdr_value_len h"

definition header_is_tombstone :: "header \<Rightarrow> bool" where
  "header_is_tombstone h \<longleftrightarrow> hdr_flags h AND FLAG_TOMBSTONE \<noteq> 0"

text \<open>The argument of \<open>header_decode\<close> is an array of exactly 21 bytes.\<close>

definition header_decode :: "bytes \<Rightarrow> header" where
  "header_decode buf = \<lparr>
     hdr_crc = word_of_nat (from_le (slice 0 4 buf)),
     hdr_tstamp = from_le (slice 4 12 buf),
     hdr_key_len = from_le (slice 12 16 buf),
     hdr_value_len = from_le (slice 16 20 buf),
     hdr_flags = buf ! 20 \<rparr>"

definition header_encode :: "header \<Rightarrow> bytes" where
  "header_encode h =
     le_bytes 4 (unat (hdr_crc h)) @ le_bytes 8 (hdr_tstamp h) @ le_bytes 4 (hdr_key_len h)
     @ le_bytes 4 (hdr_value_len h) @ [hdr_flags h]"

definition header_verify :: "header \<Rightarrow> bytes \<Rightarrow> bytes \<Rightarrow> bool" where
  "header_verify h key val \<longleftrightarrow>
     hdr_crc h = crc32_parts [drop 4 (header_encode h), key, val]"

definition encode_record :: "bytes \<Rightarrow> bytes option \<Rightarrow> nat \<Rightarrow> bytes res" where
  "encode_record key val tstamp =
     (if key = [] then Inl (InvalidKey ''keys may not be empty'')
      else if length key > u32_max then Inl (InvalidKey ''key exceeds the u32 length prefix'')
      else
        let payload = (case val of Some v \<Rightarrow> v | None \<Rightarrow> []) in
        if length payload > u32_max then Inl (ValueTooLarge (length payload))
        else
          let h = \<lparr> hdr_crc = 0, hdr_tstamp = tstamp, hdr_key_len = as_u32 (length key),
                    hdr_value_len = as_u32 (length payload),
                    hdr_flags = (if val = None then FLAG_TOMBSTONE else 0) \<rparr>;
              draft = header_encode h;
              h' = h\<lparr> hdr_crc := crc32_parts [drop 4 draft, key, payload] \<rparr>
          in Inr (header_encode h' @ key @ payload))"

section \<open>Headers in range\<close>

definition header_wf :: "header \<Rightarrow> bool" where
  "header_wf h \<longleftrightarrow> hdr_tstamp h < 2 ^ 64 \<and> hdr_key_len h < 2 ^ 32 \<and> hdr_value_len h < 2 ^ 32"

lemma length_header_encode [simp, codec_simps]: "length (header_encode h) = HEADER_LEN"
  by (simp add: header_encode_def HEADER_LEN_def)

lemma from_le_slice_less:
  "j \<le> length buf \<Longrightarrow> from_le (slice i j buf) < 256 ^ (j - i)"
  using from_le_less [of "slice i j buf"] by simp

lemma header_decode_wf: "length buf = HEADER_LEN \<Longrightarrow> header_wf (header_decode buf)"
  using from_le_slice_less [of 12 buf 4] from_le_slice_less [of 16 buf 12]
    from_le_slice_less [of 20 buf 16]
  by (simp add: header_decode_def header_wf_def HEADER_LEN_def)

lemma unat_u32_of_nat: "n < 2 ^ 32 \<Longrightarrow> unat (word_of_nat n :: u32) = n"
  by (simp add: unat_of_nat take_bit_eq_mod)

lemma u32_less: "unat (w :: u32) < 256 ^ 4"
proof -
  have "unat w < 2 ^ LENGTH(32)" by (rule unsigned_less)
  then show ?thesis by simp
qed

lemma header_decode_encode [codec_simps]:
  assumes "header_wf h"
  shows "header_decode (header_encode h) = h"
proof -
  have "slice 0 4 (header_encode h) = le_bytes 4 (unat (hdr_crc h))"
    and "slice 4 12 (header_encode h) = le_bytes 8 (hdr_tstamp h)"
    and "slice 12 16 (header_encode h) = le_bytes 4 (hdr_key_len h)"
    and "slice 16 20 (header_encode h) = le_bytes 4 (hdr_value_len h)"
    and "header_encode h ! 20 = hdr_flags h"
    by (simp_all add: header_encode_def slice_def nth_append)
  with assms show ?thesis
    by (simp add: header_decode_def header_wf_def u32_less [simplified])
qed

lemma slices_header:
  "length buf = 21 \<Longrightarrow>
   buf = slice 0 4 buf @ slice 4 12 buf @ slice 12 16 buf @ slice 16 20 buf @ [buf ! 20]"
  by (rule nth_equalityI) (auto simp: slice_def nth_append nth_Cons' Suc_diff_le intro: arg_cong)

lemma header_encode_decode [codec_simps]:
  assumes "length buf = HEADER_LEN"
  shows "header_encode (header_decode buf) = buf"
proof -
  have len: "length buf = 21" using assms by (simp add: HEADER_LEN_def)
  have "from_le (slice 0 4 buf) < 2 ^ 32"
    using from_le_slice_less [of 4 buf 0] len by simp
  then have "header_encode (header_decode buf)
      = slice 0 4 buf @ slice 4 12 buf @ slice 12 16 buf @ slice 16 20 buf @ [buf ! 20]"
    using len by (simp add: header_encode_def header_decode_def unat_u32_of_nat)
  with slices_header [OF len] show ?thesis by simp
qed

section \<open>Whole records\<close>

text \<open>\<open>record_crc_ok\<close> is what verification comes to on the bytes of a whole record: the first four
  bytes are the checksum of the rest.\<close>

definition record_crc_ok :: "bytes \<Rightarrow> bool" where
  "record_crc_ok bs \<longleftrightarrow> word_of_nat (from_le (take 4 bs)) = crc32_parts [drop 4 bs]"

lemma header_verify_bytes:
  assumes "length hb = HEADER_LEN"
  shows "header_verify (header_decode hb) key val \<longleftrightarrow> record_crc_ok (hb @ key @ val)"
proof -
  have "hdr_crc (header_decode hb) = word_of_nat (from_le (take 4 (hb @ key @ val)))"
    using assms by (simp add: header_decode_def slice_def HEADER_LEN_def)
  moreover have "crc32_parts [drop 4 hb, key, val] = crc32_parts [drop 4 (hb @ key @ val)]"
    using assms by (simp add: crc32_parts_eq_iff HEADER_LEN_def del: crc_update_append)
  ultimately show ?thesis
    using assms by (simp add: header_verify_def record_crc_ok_def header_encode_decode)
qed

text \<open>The logical content of a record, and the bytes that stand for it.\<close>

datatype krec = KRec (rkey: bytes) (rval: "bytes option") (rtime: nat)

definition rpayload :: "krec \<Rightarrow> bytes" where
  "rpayload r = (case rval r of Some v \<Rightarrow> v | None \<Rightarrow> [])"

definition rec_ok :: "krec \<Rightarrow> bool" where
  "rec_ok r \<longleftrightarrow> rkey r \<noteq> [] \<and> length (rkey r) < 2 ^ 32 \<and> length (rpayload r) < 2 ^ 32
     \<and> rtime r < 2 ^ 64"

definition rec_flags :: "krec \<Rightarrow> byte" where
  "rec_flags r = (if rval r = None then FLAG_TOMBSTONE else 0)"

definition rec_tail :: "krec \<Rightarrow> bytes" where
  "rec_tail r = le_bytes 8 (rtime r) @ le_bytes 4 (length (rkey r))
     @ le_bytes 4 (length (rpayload r)) @ [rec_flags r]"

definition rec_header :: "krec \<Rightarrow> header" where
  "rec_header r = \<lparr> hdr_crc = crc32_parts [rec_tail r, rkey r, rpayload r],
     hdr_tstamp = rtime r, hdr_key_len = length (rkey r),
     hdr_value_len = length (rpayload r), hdr_flags = rec_flags r \<rparr>"

definition rec_bytes :: "krec \<Rightarrow> bytes" where
  "rec_bytes r = header_encode (rec_header r) @ rkey r @ rpayload r"

lemma encode_record_Inr:
  "encode_record key val t = Inr bs \<longleftrightarrow>
     key \<noteq> [] \<and> length key < 2 ^ 32 \<and> length (rpayload (KRec key val t)) < 2 ^ 32
     \<and> bs = rec_bytes (KRec key val t)"
  by (auto simp: encode_record_def u32_max_def Let_def rec_bytes_def rec_header_def rec_tail_def
      rec_flags_def rpayload_def header_encode_def split: if_splits option.splits)

lemma encode_record_rec_ok:
  "rec_ok r \<Longrightarrow> encode_record (rkey r) (rval r) (rtime r) = Inr (rec_bytes r)"
  by (simp add: encode_record_Inr rec_ok_def)

lemma length_rec_bytes [codec_simps]:
  "length (rec_bytes r) = HEADER_LEN + length (rkey r) + length (rpayload r)"
  by (simp add: rec_bytes_def)

lemma rec_bytes_not_short [simp]: "HEADER_LEN \<le> length (rec_bytes r)"
  by (simp add: length_rec_bytes)

lemma rec_bytes_not_Nil [simp]: "rec_bytes r \<noteq> []"
  using rec_bytes_not_short [of r] by (auto simp: HEADER_LEN_def)

lemma rec_header_wf: "rec_ok r \<Longrightarrow> header_wf (rec_header r)"
  by (simp add: rec_ok_def rec_header_def header_wf_def)

lemma take_rec_bytes: "take HEADER_LEN (rec_bytes r) = header_encode (rec_header r)"
  by (simp add: rec_bytes_def)

lemma drop_rec_bytes: "drop HEADER_LEN (rec_bytes r) = rkey r @ rpayload r"
  by (simp add: rec_bytes_def)

lemma decode_rec_bytes [codec_simps]:
  "rec_ok r \<Longrightarrow> header_decode (take HEADER_LEN (rec_bytes r @ rest)) = rec_header r"
  by (simp add: take_rec_bytes header_decode_encode rec_header_wf)

lemma header_verify_rec [simp]: "header_verify (rec_header r) (rkey r) (rpayload r)"
  by (simp add: header_verify_def rec_header_def header_encode_def rec_tail_def)

lemma record_len_rec [simp]: "header_record_len (rec_header r) = length (rec_bytes r)"
  by (simp add: header_record_len_def rec_header_def length_rec_bytes)

lemma rec_header_fields [simp]:
  "hdr_key_len (rec_header r) = length (rkey r)"
  "hdr_value_len (rec_header r) = length (rpayload r)"
  "hdr_tstamp (rec_header r) = rtime r"
  by (simp_all add: rec_header_def)

lemma tombstone_rec [simp]: "header_is_tombstone (rec_header r) \<longleftrightarrow> rval r = None"
  by (simp add: header_is_tombstone_def rec_header_def rec_flags_def FLAG_TOMBSTONE_def)

lemma record_crc_ok_rec [simp]: "record_crc_ok (rec_bytes r)"
proof -
  have "hdr_crc (rec_header r) = crc32_parts [drop 4 (rec_bytes r)]"
    by (simp add: rec_header_def rec_bytes_def header_encode_def rec_tail_def crc32_parts_eq_iff
        del: crc_update_append)
  moreover have "from_le (take 4 (rec_bytes r)) = unat (hdr_crc (rec_header r))"
    using u32_less by (simp add: rec_bytes_def header_encode_def)
  ultimately show ?thesis by (simp add: record_crc_ok_def)
qed

text \<open>Damage confined to four bytes, on one side of the end of the checksum field, is caught.\<close>

lemma record_crc_burst:
  assumes ok: "record_crc_ok (xs @ es @ ys)"
    and len: "length es = length es'" "length es \<le> 4" and ne: "es \<noteq> es'"
    and side: "length xs + length es \<le> 4 \<or> 4 \<le> length xs"
    and long: "4 \<le> length (xs @ es @ ys)"
  shows "\<not> record_crc_ok (xs @ es' @ ys)"
  using side
proof
  assume s: "length xs + length es \<le> 4"
  let ?z = "take (4 - length xs - length es) ys"
  have eq: "drop 4 (xs @ es' @ ys) = drop 4 (xs @ es @ ys)"
    and t: "take 4 (xs @ es @ ys) = xs @ es @ ?z" and t': "take 4 (xs @ es' @ ys) = xs @ es' @ ?z"
    using s len by simp_all
  have small: "from_le ts < 2 ^ 32" if "length ts = 4" for ts
    using from_le_less [of ts] that by simp
  have l: "length (xs @ es @ ?z) = 4" "length (xs @ es' @ ?z) = 4"
    using s long len by auto
  show ?thesis
  proof
    assume "record_crc_ok (xs @ es' @ ys)"
    with ok have "(word_of_nat (from_le (xs @ es @ ?z)) :: u32) = word_of_nat (from_le (xs @ es' @ ?z))"
      unfolding record_crc_ok_def eq t t' by simp
    then have "from_le (xs @ es @ ?z) = from_le (xs @ es' @ ?z)"
      by (metis small l unat_u32_of_nat)
    with l ne show False by (simp add: from_le_inject)
  qed
next
  assume s: "4 \<le> length xs"
  then have t: "take 4 (xs @ es' @ ys) = take 4 (xs @ es @ ys)"
    and d: "drop 4 (xs @ ts @ ys) = drop 4 xs @ ts @ ys" for ts
    by simp_all
  show ?thesis
  proof
    assume "record_crc_ok (xs @ es' @ ys)"
    with ok have "crc32_parts [drop 4 xs @ es @ ys] = crc32_parts [drop 4 xs @ es' @ ys]"
      unfolding record_crc_ok_def t d by simp
    with crc_update_burst [OF len] ne show False
      by (simp add: crc32_parts_eq_iff del: crc_update_append)
  qed
qed

section \<open>Properties\<close>

text \<open>Every record \<^verbatim>\<open>record::encode\<close> produces reads back: its header decodes to the lengths, the
  timestamp and the deletion flag that were encoded, it verifies against the key and value bytes
  that follow it, and \<^verbatim>\<open>record_len\<close> is the number of bytes written.\<close>

theorem encode_record_round_trip:
  assumes "encode_record key val t = Inr bs" and "t < 2 ^ 64"
  shows "let h = header_decode (take HEADER_LEN bs); e = HEADER_LEN + hdr_key_len h in
    hdr_tstamp h = t \<and> (header_is_tombstone h \<longleftrightarrow> val = None) \<and>
    slice HEADER_LEN e bs = key \<and> drop e bs = (case val of Some v \<Rightarrow> v | None \<Rightarrow> []) \<and>
    header_verify h key (drop e bs) \<and> header_record_len h = length bs"
proof -
  define r where "r = KRec key val t"
  from assms have ok: "rec_ok r" and bs: "bs = rec_bytes r"
    by (simp_all add: encode_record_Inr rec_ok_def r_def)
  have h: "header_decode (take HEADER_LEN bs) = rec_header r"
    using decode_rec_bytes [OF ok, of "[]"] by (simp add: bs)
  have k: "slice HEADER_LEN (HEADER_LEN + length (rkey r)) bs = rkey r"
    and v: "drop (HEADER_LEN + length (rkey r)) bs = rpayload r"
    by (simp_all add: bs rec_bytes_def slice_def)
  have p: "rpayload r = (case val of Some v \<Rightarrow> v | None \<Rightarrow> [])" and kr: "rkey r = key"
    by (simp_all add: r_def rpayload_def)
  show ?thesis
    using header_verify_rec [of r] k v
    by (simp add: h Let_def kr p) (simp add: bs r_def)
qed

theorem encode_record_round_trip_witness:
  "\<exists>bs. encode_record [99] (Some [103]) 42 = Inr bs \<and>
     hdr_tstamp (header_decode (take HEADER_LEN bs)) = 42"
proof -
  have e: "encode_record [99] (Some [103]) 42 = Inr (rec_bytes (KRec [99] (Some [103]) 42))"
    by (simp add: encode_record_Inr rpayload_def)
  show ?thesis
    using encode_record_round_trip [OF e] e by (simp add: Let_def)
qed

end
