(* ===== verification/FileSystem.thy ===== *)
theory FileSystem
  imports RecordFormat
begin

text \<open>
  The part of \<^verbatim>\<open>std::fs\<close> the program uses, for one directory: named files, what of each has been
  synced, and the names the store gives its files (\<^verbatim>\<open>data_file_path\<close>, \<^verbatim>\<open>list_data_files\<close> and
  \<^verbatim>\<open>write_atomically\<close> of \<^verbatim>\<open>src/src/log.rs\<close>). Every call may fail: \<open>faults\<close> lists what the device does to
  the calls to come, in order, and an empty list is a device that works. A write that fails may
  have put some of its bytes in the file, and the number in the list says how many.
  A missing file, a short read and the like fail as the library documents.
\<close>

section \<open>Files and faults\<close>

record dfile =
  fdata :: bytes
  fsynced :: nat

record fs =
  files :: "(string \<times> dfile) list"
  faults :: "nat option list"

type_synonym 'a io = "'a res \<times> fs"

definition fs_file :: "fs \<Rightarrow> string \<Rightarrow> dfile option" where
  "fs_file d n = map_of (files d) n"

definition fs_put :: "string \<Rightarrow> dfile \<Rightarrow> fs \<Rightarrow> fs" where
  "fs_put n f d = d\<lparr> files := AList.update n f (files d) \<rparr>"

definition fs_del :: "string \<Rightarrow> fs \<Rightarrow> fs" where
  "fs_del n d = d\<lparr> files := AList.delete n (files d) \<rparr>"

definition device_fault :: error where
  "device_fault = Io DeviceFault ''device fault''"

definition not_found :: error where
  "not_found = Io NotFound ''no such file''"

definition eof_error :: error where
  "eof_error = Io UnexpectedEof ''failed to fill whole buffer''"

text \<open>One call to the device: it consumes the next fault, if one is scheduled.\<close>

definition fs_op :: "(fs \<Rightarrow> 'a io) \<Rightarrow> fs \<Rightarrow> 'a io" where
  "fs_op f d = (case faults d of
      [] \<Rightarrow> f d
    | None # fl \<Rightarrow> f (d\<lparr> faults := fl \<rparr>)
    | Some _ # fl \<Rightarrow> (Inl device_fault, d\<lparr> faults := fl \<rparr>))"

text \<open>The \<^verbatim>\<open>?\<close> operator on a call.\<close>

definition io_bind :: "'a io \<Rightarrow> ('a \<Rightarrow> fs \<Rightarrow> 'b io) \<Rightarrow> 'b io" where
  "io_bind m f = (case m of (Inl e, d) \<Rightarrow> (Inl e, d) | (Inr x, d) \<Rightarrow> f x d)"

definition fs_with :: "string \<Rightarrow> (dfile \<Rightarrow> fs \<Rightarrow> 'a io) \<Rightarrow> fs \<Rightarrow> 'a io" where
  "fs_with n f = fs_op (\<lambda>d. case fs_file d n of None \<Rightarrow> (Inl not_found, d) | Some x \<Rightarrow> f x d)"

definition fs_read :: "string \<Rightarrow> fs \<Rightarrow> bytes io" where
  "fs_read n = fs_with n (\<lambda>x d. (Inr (fdata x), d))"

definition fs_len :: "string \<Rightarrow> fs \<Rightarrow> nat io" where
  "fs_len n = fs_with n (\<lambda>x d. (Inr (length (fdata x)), d))"

definition fs_open :: "string \<Rightarrow> fs \<Rightarrow> unit io" where
  "fs_open n = fs_with n (\<lambda>x d. (Inr (), d))"

definition fs_read_dir :: "fs \<Rightarrow> string list io" where
  "fs_read_dir = fs_op (\<lambda>d. (Inr (adom (files d)), d))"

definition fs_exists :: "string \<Rightarrow> fs \<Rightarrow> bool" where
  "fs_exists n d \<longleftrightarrow> fs_file d n \<noteq> None"

text \<open>\<^verbatim>\<open>OpenOptions::create(true)\<close> with append (the file is kept) or truncate (it is emptied).\<close>

definition fs_open_append :: "string \<Rightarrow> fs \<Rightarrow> unit io" where
  "fs_open_append n = fs_op (\<lambda>d. (Inr (),
     case fs_file d n of None \<Rightarrow> fs_put n \<lparr> fdata = [], fsynced = 0 \<rparr> d | Some _ \<Rightarrow> d))"

definition fs_create :: "string \<Rightarrow> fs \<Rightarrow> unit io" where
  "fs_create n = fs_op (\<lambda>d. (Inr (), fs_put n \<lparr> fdata = [], fsynced = 0 \<rparr> d))"

definition fs_append :: "string \<Rightarrow> bytes \<Rightarrow> fs \<Rightarrow> fs" where
  "fs_append n bs d = (case fs_file d n of
      None \<Rightarrow> d
    | Some x \<Rightarrow> fs_put n (x\<lparr> fdata := fdata x @ bs \<rparr>) d)"

definition fs_write_all :: "string \<Rightarrow> bytes \<Rightarrow> fs \<Rightarrow> unit io" where
  "fs_write_all n bs d = (case faults d of
      [] \<Rightarrow> (Inr (), fs_append n bs d)
    | None # fl \<Rightarrow> (Inr (), fs_append n bs (d\<lparr> faults := fl \<rparr>))
    | Some k # fl \<Rightarrow> (Inl device_fault, fs_append n (take (min k (length bs - 1)) bs) (d\<lparr> faults := fl \<rparr>)))"

definition fs_sync :: "string \<Rightarrow> fs \<Rightarrow> unit io" where
  "fs_sync n = fs_with n (\<lambda>x d. (Inr (), fs_put n (x\<lparr> fsynced := length (fdata x) \<rparr>) d))"

definition fs_set_len :: "string \<Rightarrow> nat \<Rightarrow> fs \<Rightarrow> unit io" where
  "fs_set_len n k = fs_with n (\<lambda>x d. (Inr (), fs_put n
     \<lparr> fdata = take k (fdata x) @ replicate (k - length (fdata x)) 0,
       fsynced = min k (fsynced x) \<rparr> d))"

definition fs_remove :: "string \<Rightarrow> fs \<Rightarrow> unit io" where
  "fs_remove n = fs_with n (\<lambda>x d. (Inr (), fs_del n d))"

definition fs_rename :: "string \<Rightarrow> string \<Rightarrow> fs \<Rightarrow> unit io" where
  "fs_rename a b = fs_with a (\<lambda>x d. (Inr (), fs_put b x (fs_del a d)))"

definition fs_sync_dir :: "fs \<Rightarrow> unit io" where
  "fs_sync_dir = fs_op (\<lambda>d. (Inr (), d))"

definition fs_create_dir_all :: "fs \<Rightarrow> unit io" where
  "fs_create_dir_all = fs_op (\<lambda>d. (Inr (), d))"

text \<open>What a power cut leaves: of each file, the part that was synced.\<close>

definition fs_power_cut :: "fs \<Rightarrow> fs" where
  "fs_power_cut d = d\<lparr> files := map (\<lambda>(n, f). (n, f\<lparr> fdata := take (fsynced f) (fdata f) \<rparr>)) (files d) \<rparr>"

section \<open>Names\<close>

definition digit_char :: "nat \<Rightarrow> char" where
  "digit_char k = char_of (48 + k)"

fun dec_digits :: "nat \<Rightarrow> string" where
  "dec_digits n = (if n < 10 then [digit_char n] else dec_digits (n div 10) @ [digit_char (n mod 10)])"

declare dec_digits.simps [simp del]

text \<open>\<^verbatim>\<open>format!("{n:010}")\<close>.\<close>

definition pad10 :: "nat \<Rightarrow> string" where
  "pad10 n = replicate (10 - length (dec_digits n)) CHR ''0'' @ dec_digits n"

definition data_file_name :: "nat \<Rightarrow> string" where
  "data_file_name i = pad10 i @ ''.log''"

definition hint_name :: "nat \<Rightarrow> string" where
  "hint_name i = pad10 i @ ''.hint''"

definition part_name :: "nat \<Rightarrow> string" where
  "part_name i = pad10 i @ ''.log.part''"

text \<open>\<^verbatim>\<open>str::parse::<u64>\<close>: an optional plus sign, at least one digit, no overflow.\<close>

definition is_digit :: "char \<Rightarrow> bool" where
  "is_digit c \<longleftrightarrow> 48 \<le> (of_char c :: nat) \<and> of_char c \<le> (57 :: nat)"

definition digit_val :: "char \<Rightarrow> nat" where
  "digit_val c = of_char c - 48"

definition parse_digits :: "string \<Rightarrow> nat" where
  "parse_digits s = foldl (\<lambda>n c. 10 * n + digit_val c) 0 s"

definition parse_u64 :: "string \<Rightarrow> nat option" where
  "parse_u64 s =
     (let t = (case s of c # r \<Rightarrow> if c = CHR ''+'' then r else s | [] \<Rightarrow> s) in
      if t = [] \<or> \<not> list_all is_digit t then None
      else if parse_digits t \<le> u64_max then Some (parse_digits t) else None)"

text \<open>\<^verbatim>\<open>Path::file_stem\<close> and \<^verbatim>\<open>Path::extension\<close>: the last dot splits them, unless it comes first.\<close>

definition split_ext :: "string \<Rightarrow> string \<times> string option" where
  "split_ext n =
     (let e = takeWhile (\<lambda>c. c \<noteq> CHR ''.'') (rev n); r = drop (length e + 1) (rev n) in
      if length e = length n \<or> r = [] then (n, None) else (rev r, Some (rev e)))"

definition id_of_name :: "string \<Rightarrow> string \<Rightarrow> nat option" where
  "id_of_name ext n = (case split_ext n of
      (stem, Some e) \<Rightarrow> if e = ext then parse_u64 stem else None
    | (_, None) \<Rightarrow> None)"

definition list_data_files :: "fs \<Rightarrow> nat list io" where
  "list_data_files d = io_bind (fs_read_dir d) (\<lambda>names d.
     (Inr (sort (List.map_filter (id_of_name ''log'') names)), d))"

definition write_atomically :: "string \<Rightarrow> bytes \<Rightarrow> fs \<Rightarrow> unit io" where
  "write_atomically name bs d =
     (let tmp = name @ ''.tmp'' in
      io_bind (fs_create tmp d) (\<lambda>_ d.
      io_bind (fs_write_all tmp bs d) (\<lambda>_ d.
      io_bind (fs_sync tmp d) (\<lambda>_ d.
      io_bind (fs_rename tmp name d) (\<lambda>_ d.
      fs_sync_dir d)))))"

section \<open>Names read back\<close>

lemma of_char_digit: "k < 10 \<Longrightarrow> of_char (digit_char k) = 48 + (k :: nat)"
  by (simp add: digit_char_def)

lemma is_digit_char [simp]: "k < 10 \<Longrightarrow> is_digit (digit_char k)"
  by (simp add: is_digit_def of_char_digit)

lemma digit_val_char [simp]: "k < 10 \<Longrightarrow> digit_val (digit_char k) = k"
  by (simp add: digit_val_def of_char_digit)

lemma is_digit_neq:
  "is_digit c \<Longrightarrow> c \<noteq> CHR ''.''" "is_digit c \<Longrightarrow> c \<noteq> CHR ''+''"
  by (auto simp: is_digit_def)

lemma dec_digits_digits: "list_all is_digit (dec_digits n)"
proof (induction n rule: dec_digits.induct)
  case (1 n)
  then show ?case by (subst dec_digits.simps) auto
qed

lemma dec_digits_not_Nil: "dec_digits n \<noteq> []"
  by (subst dec_digits.simps) simp

lemma parse_digits_snoc: "parse_digits (s @ [c]) = 10 * parse_digits s + digit_val c"
  by (simp add: parse_digits_def)

lemma parse_dec_digits: "parse_digits (dec_digits n) = n"
proof (induction n rule: dec_digits.induct)
  case (1 n)
  then show ?case
    by (subst dec_digits.simps) (auto simp: parse_digits_snoc parse_digits_def)
qed

lemma parse_digits_zeros: "parse_digits (replicate k CHR ''0'' @ s) = parse_digits s"
  by (induction k) (simp_all add: parse_digits_def digit_val_def)

lemma pad10_digits: "list_all is_digit (pad10 n)"
proof -
  have "is_digit CHR ''0''" by (simp add: is_digit_def)
  with dec_digits_digits [of n] show ?thesis by (auto simp: pad10_def list_all_iff)
qed

lemma pad10_not_Nil [simp]: "pad10 n \<noteq> []"
  by (simp add: pad10_def dec_digits_not_Nil)

lemma parse_pad10: "parse_digits (pad10 n) = n"
  by (simp add: pad10_def parse_digits_zeros parse_dec_digits)

lemma pad10_inject [simp]: "pad10 m = pad10 n \<longleftrightarrow> m = n"
  by (metis parse_pad10)

lemma pad10_no_dot: "CHR ''.'' \<notin> set (pad10 n)"
  using pad10_digits [of n] by (auto simp: list_all_iff dest: is_digit_neq)

lemma parse_u64_pad10 [simp]: "n \<le> u64_max \<Longrightarrow> parse_u64 (pad10 n) = Some n"
proof -
  assume n: "n \<le> u64_max"
  obtain c r where cr: "pad10 n = c # r" by (cases "pad10 n") auto
  then have "c \<noteq> CHR ''+''"
    using pad10_digits [of n] by (auto dest: is_digit_neq)
  then show ?thesis
    using n parse_pad10 [of n] pad10_digits [of n] by (simp add: parse_u64_def cr)
qed

lemma takeWhile_rev_ext:
  "CHR ''.'' \<notin> set e \<Longrightarrow> takeWhile (\<lambda>c. c \<noteq> CHR ''.'') (rev (s @ CHR ''.'' # e)) = rev e"
proof -
  assume e: "CHR ''.'' \<notin> set e"
  have "takeWhile (\<lambda>c. c \<noteq> CHR ''.'') (rev e @ CHR ''.'' # rev s) = rev e"
    using e by (subst takeWhile_append2) auto
  then show ?thesis by simp
qed

lemma split_ext_dot:
  assumes "CHR ''.'' \<notin> set e" and "s \<noteq> []"
  shows "split_ext (s @ CHR ''.'' # e) = (s, Some e)"
  using assms takeWhile_rev_ext [OF assms(1), of s] by (simp add: split_ext_def Let_def)

lemma id_of_data_file_name [simp]: "i \<le> u64_max \<Longrightarrow> id_of_name ''log'' (data_file_name i) = Some i"
  using split_ext_dot [of "''log''" "pad10 i"] by (simp add: id_of_name_def data_file_name_def)

lemma id_of_hint_name [simp]:
  "i \<le> u64_max \<Longrightarrow> id_of_name ''hint'' (hint_name i) = Some i"
  "id_of_name ''log'' (hint_name i) = None"
  using split_ext_dot [of "''hint''" "pad10 i"] by (simp_all add: id_of_name_def hint_name_def)

lemma id_of_data_not_hint [simp]: "id_of_name ''hint'' (data_file_name i) = None"
  using split_ext_dot [of "''log''" "pad10 i"] by (simp add: id_of_name_def data_file_name_def)

lemma id_of_name_tmp [simp]:
  "n \<noteq> [] \<Longrightarrow> id_of_name ''log'' (n @ ''.tmp'') = None"
  "n \<noteq> [] \<Longrightarrow> id_of_name ''hint'' (n @ ''.tmp'') = None"
  using split_ext_dot [of "''tmp''" n] by (simp_all add: id_of_name_def)

lemma id_of_part_name [simp]: "id_of_name ''log'' (part_name i) = None" "id_of_name ''hint'' (part_name i) = None"
  using split_ext_dot [of "''part''" "pad10 i @ ''.log''"] by (simp_all add: id_of_name_def part_name_def)

lemma names_not_Nil [simp]: "data_file_name i \<noteq> []" "hint_name i \<noteq> []"
  by (simp_all add: data_file_name_def hint_name_def)

lemma data_file_name_inject [simp]: "data_file_name i = data_file_name j \<longleftrightarrow> i = j"
  by (simp add: data_file_name_def)

lemma hint_name_inject [simp]: "hint_name i = hint_name j \<longleftrightarrow> i = j"
  by (simp add: hint_name_def)

lemma last_neq: "last a \<noteq> last b \<Longrightarrow> a \<noteq> b"
  by auto

lemma names_distinct [simp]:
  "data_file_name i \<noteq> hint_name j" "hint_name j \<noteq> data_file_name i"
  "data_file_name i \<noteq> hint_name j @ ''.tmp''" "hint_name j @ ''.tmp'' \<noteq> data_file_name i"
  "hint_name j \<noteq> hint_name i @ ''.tmp''" "hint_name i @ ''.tmp'' \<noteq> hint_name j"
  by (rule last_neq, simp add: data_file_name_def hint_name_def)+

lemma part_name_distinct [simp]:
  "part_name i \<noteq> data_file_name j" "data_file_name j \<noteq> part_name i"
  "part_name i \<noteq> hint_name j" "hint_name j \<noteq> part_name i"
proof -
  have "take 2 (rev (part_name i)) = ''tr''" "take 2 (rev (data_file_name j)) = ''go''" "take 2 (rev (hint_name j)) = ''tn''"
    by (simp_all add: part_name_def data_file_name_def hint_name_def)
  then show "part_name i \<noteq> data_file_name j" "data_file_name j \<noteq> part_name i"
    "part_name i \<noteq> hint_name j" "hint_name j \<noteq> part_name i" by auto
qed

section \<open>The fault-free device\<close>

lemma fs_file_put [simp]: "fs_file (fs_put n f d) m = (if m = n then Some f else fs_file d m)"
  by (simp add: fs_file_def fs_put_def)

lemma fs_file_del [simp]: "fs_file (fs_del n d) m = (if m = n then None else fs_file d m)"
  by (simp add: fs_file_def fs_del_def)

lemma faults_put [simp]: "faults (fs_put n f d) = faults d" "faults (fs_del n d) = faults d"
  by (simp_all add: fs_put_def fs_del_def)

lemma faults_append [simp]: "faults (fs_append n bs d) = faults d"
  by (simp add: fs_append_def split: option.splits)

lemma fs_file_append:
  "fs_file d n = Some x \<Longrightarrow>
   fs_file (fs_append n bs d) m = (if m = n then Some (x\<lparr> fdata := fdata x @ bs \<rparr>) else fs_file d m)"
  by (simp add: fs_append_def)

lemma fs_op_ok [fs_simps]: "faults d = [] \<Longrightarrow> fs_op f d = f d"
  by (simp add: fs_op_def)

lemma fs_with_ok [fs_simps]: "faults d = [] \<Longrightarrow> fs_file d n = Some x \<Longrightarrow> fs_with n f d = f x d"
  by (simp add: fs_with_def fs_op_def)

lemma fs_write_all_ok [fs_simps]: "faults d = [] \<Longrightarrow> fs_write_all n bs d = (Inr (), fs_append n bs d)"
  by (simp add: fs_write_all_def)

lemma io_bind_simps [simp]:
  "io_bind (Inl e, d) f = (Inl e, d)" "io_bind (Inr x, d) f = f x d"
  by (simp_all add: io_bind_def)

lemmas fs_calls = fs_read_def fs_len_def fs_open_def fs_sync_def fs_set_len_def fs_remove_def
  fs_rename_def fs_read_dir_def fs_open_append_def fs_create_def fs_sync_dir_def

definition fs_wf :: "fs \<Rightarrow> bool" where
  "fs_wf d \<longleftrightarrow> distinct (adom (files d))"

lemma fs_wf_put [simp]: "fs_wf d \<Longrightarrow> fs_wf (fs_put n f d)"
  by (simp add: fs_wf_def fs_put_def)

lemma fs_wf_del [simp]: "fs_wf d \<Longrightarrow> fs_wf (fs_del n d)"
  by (simp add: fs_wf_def fs_del_def)

lemma fs_wf_append [simp]: "fs_wf d \<Longrightarrow> fs_wf (fs_append n bs d)"
  by (simp add: fs_append_def split: option.splits)

text \<open>The names in a directory are exactly those of its files.\<close>

lemma fs_names: "n \<in> set (adom (files d)) \<longleftrightarrow> fs_file d n \<noteq> None"
  by (metis fs_file_def map_of_eq_None_iff list.set_map)

text \<open>A directory on a working device, and what a call leaves alone.\<close>

definition fs_ok :: "fs \<Rightarrow> bool" where
  "fs_ok d \<longleftrightarrow> faults d = [] \<and> fs_wf d"

definition fs_frame :: "string set \<Rightarrow> fs \<Rightarrow> fs \<Rightarrow> bool" where
  "fs_frame N d d' \<longleftrightarrow> (\<forall>m. m \<notin> N \<longrightarrow> fs_file d' m = fs_file d m)"

lemma fs_ok_faults [simp]: "fs_ok d \<Longrightarrow> faults d = []"
  by (simp add: fs_ok_def)

lemma fs_ok_put [simp]: "fs_ok d \<Longrightarrow> fs_ok (fs_put n f d)" "fs_ok d \<Longrightarrow> fs_ok (fs_del n d)"
  "fs_ok d \<Longrightarrow> fs_ok (fs_append n bs d)"
  by (simp_all add: fs_ok_def)

lemma fs_frame_refl [simp]: "fs_frame N d d"
  by (simp add: fs_frame_def)

lemma fs_frame_trans: "fs_frame N d d' \<Longrightarrow> fs_frame M d' d'' \<Longrightarrow> fs_frame (N \<union> M) d d''"
  by (simp add: fs_frame_def)

lemma fs_frame_mono: "fs_frame N d d' \<Longrightarrow> N \<subseteq> M \<Longrightarrow> fs_frame M d d'"
  by (auto simp: fs_frame_def)

lemma fs_frame_file: "fs_frame N d d' \<Longrightarrow> m \<notin> N \<Longrightarrow> fs_file d' m = fs_file d m"
  by (simp add: fs_frame_def)

lemma fs_frame_put: "n \<in> N \<Longrightarrow> fs_frame N d (fs_put n f d)" "n \<in> N \<Longrightarrow> fs_frame N d (fs_del n d)"
  by (auto simp: fs_frame_def)

text \<open>Written, synced and renamed: on a working device the target holds exactly the new bytes, all
  of them synced, and every other file but the temporary one is as it was.\<close>

lemma write_atomically_ok:
  assumes "fs_ok d"
  shows "\<exists>d'. write_atomically n bs d = (Inr (), d') \<and> fs_ok d' \<and>
    fs_file d' n = Some \<lparr> fdata = bs, fsynced = length bs \<rparr> \<and>
    fs_frame {n, n @ ''.tmp''} d d' \<and> fs_file d' (n @ ''.tmp'') = None"
  using assms
  by (simp add: write_atomically_def Let_def fs_calls fs_simps fs_file_append fs_append_def
      fs_frame_def)

end
