(* ===== verification/DataLog.thy ===== *)
theory DataLog
  imports FileSystem
begin

text \<open>
  Data files (\<^verbatim>\<open>src/src/log.rs\<close>): the append end of the active file with its buffer
  (\<^verbatim>\<open>LogWriter\<close>), the forward scanner used at startup (\<^verbatim>\<open>Scanner\<close>) and the positional read
  (\<^verbatim>\<open>read_at\<close>). A writer's handle is the name of its file. Shown: the writer keeps its invariant,
  every byte appended is either in the file or in the buffer, a record is readable back from where
  the append said it went; scanning a file of whole records gives exactly those records, and a
  record cut short anywhere is reported as torn at its start.
\<close>

section \<open>Writer\<close>

datatype sync_policy = EveryWrite | OsCache

datatype reach = ReachBuffer | ReachKernel | ReachDisk

definition MAX_PENDING :: nat where
  "MAX_PENDING = 1024 * 1024"

record log_writer =
  lw_file_id :: nat
  lw_offset :: nat
  lw_written :: nat
  lw_synced :: nat
  lw_pending :: bytes

abbreviation lw_name :: "log_writer \<Rightarrow> string" where
  "lw_name w \<equiv> data_file_name (lw_file_id w)"

definition log_writer_open :: "nat \<Rightarrow> fs \<Rightarrow> log_writer io" where
  "log_writer_open fid d =
     io_bind (fs_open_append (data_file_name fid) d) (\<lambda>_ d.
     io_bind (fs_len (data_file_name fid) d) (\<lambda>n d.
     (Inr \<lparr> lw_file_id = fid, lw_offset = n, lw_written = n, lw_synced = n, lw_pending = [] \<rparr>, d)))"

definition log_flush :: "log_writer \<Rightarrow> fs \<Rightarrow> unit res \<times> log_writer \<times> fs" where
  "log_flush w d =
     (if lw_pending w = [] then (Inr (), w, d)
      else case fs_write_all (lw_name w) (lw_pending w) d of
        (Inl e, d) \<Rightarrow> (Inl e, w, d)
      | (Inr _, d) \<Rightarrow> (Inr (), w\<lparr> lw_pending := [], lw_written := lw_offset w \<rparr>, d))"

definition log_sync :: "log_writer \<Rightarrow> fs \<Rightarrow> unit res \<times> log_writer \<times> fs" where
  "log_sync w d = (case log_flush w d of
      (Inl e, w, d) \<Rightarrow> (Inl e, w, d)
    | (Inr _, w, d) \<Rightarrow> (case fs_sync (lw_name w) d of
          (Inl e, d) \<Rightarrow> (Inl e, w, d)
        | (Inr _, d) \<Rightarrow> (Inr (), w\<lparr> lw_synced := lw_offset w \<rparr>, d)))"

definition log_append ::
  "log_writer \<Rightarrow> bytes \<Rightarrow> reach \<Rightarrow> fs \<Rightarrow> (nat \<times> nat) res \<times> log_writer \<times> fs" where
  "log_append w bs reach d =
     (let offset = lw_offset w in
      if reach \<noteq> ReachBuffer \<and> lw_pending w = [] then
        (case fs_write_all (lw_name w) bs d of
           (Inl e, d) \<Rightarrow> (Inl e, w, d)
         | (Inr _, d) \<Rightarrow>
             let w = w\<lparr> lw_offset := lw_offset w + length bs, lw_written := lw_offset w + length bs \<rparr> in
             if reach = ReachDisk then
               (case fs_sync (lw_name w) d of
                  (Inl e, d) \<Rightarrow> (Inl e, w, d)
                | (Inr _, d) \<Rightarrow>
                    (Inr (offset, as_u32 (length bs)), w\<lparr> lw_synced := lw_offset w \<rparr>, d))
             else (Inr (offset, as_u32 (length bs)), w, d))
      else
        let w = w\<lparr> lw_pending := lw_pending w @ bs, lw_offset := lw_offset w + length bs \<rparr> in
        case (case reach of
                ReachBuffer \<Rightarrow>
                  if length (lw_pending w) < MAX_PENDING then (Inr (), w, d) else log_flush w d
              | ReachKernel \<Rightarrow> log_flush w d
              | ReachDisk \<Rightarrow> log_sync w d) of
          (Inl e, w, d) \<Rightarrow> (Inl e, w, d)
        | (Inr _, w, d) \<Rightarrow> (Inr (offset, as_u32 (length bs)), w, d))"

text \<open>The subtraction of \<^verbatim>\<open>buffered\<close> is checked: an offset already handed to the kernel is \<^verbatim>\<open>None\<close>.\<close>

definition log_buffered :: "log_writer \<Rightarrow> nat \<Rightarrow> nat \<Rightarrow> bytes option" where
  "log_buffered w offset len =
     (if offset < lw_written w then None
      else get_range (offset - lw_written w) (offset - lw_written w + len) (lw_pending w))"

definition log_discard_buffer :: "log_writer \<Rightarrow> log_writer" where
  "log_discard_buffer w = w\<lparr> lw_pending := [] \<rparr>"

text \<open>\<^verbatim>\<open>Drop\<close>: the buffer goes to the kernel, and a failure is ignored.\<close>

definition log_drop :: "log_writer \<Rightarrow> fs \<Rightarrow> fs" where
  "log_drop w d = snd (snd (log_flush w d))"

section \<open>Scanner\<close>

record scanned =
  sc_offset :: nat
  sc_len :: nat
  sc_header :: header
  sc_key :: bytes

datatype scan_outcome =
    ScanRecord scanned
  | ScanEof
  | ScanTorn nat string

text \<open>The reader's position is what is left to read.\<close>

record scanner =
  sn_rest :: bytes
  sn_offset :: nat

definition scanner_open_at :: "nat \<Rightarrow> nat \<Rightarrow> fs \<Rightarrow> scanner io" where
  "scanner_open_at fid offset d = io_bind (fs_read (data_file_name fid) d) (\<lambda>bs d.
     (Inr \<lparr> sn_rest = drop offset bs, sn_offset = offset \<rparr>, d))"

text \<open>\<open>read_full n\<close> takes as much of \<open>n\<close> bytes as there is.\<close>

definition read_full :: "nat \<Rightarrow> bytes \<Rightarrow> bytes \<times> bytes" where
  "read_full n rest = (take n rest, drop n rest)"

definition next_record :: "scanner \<Rightarrow> scan_outcome \<times> scanner" where
  "next_record s =
     (let start = sn_offset s; (hb, rest) = read_full HEADER_LEN (sn_rest s) in
      if length hb = 0 then (ScanEof, s\<lparr> sn_rest := rest \<rparr>)
      else if length hb < HEADER_LEN then
        (ScanTorn start ''file ends inside a record header'', s\<lparr> sn_rest := rest \<rparr>)
      else
        let h = header_decode hb; (key, rest1) = read_full (hdr_key_len h) rest in
        if length key < hdr_key_len h then
          (ScanTorn start ''file ends inside a record payload'', s\<lparr> sn_rest := rest1 \<rparr>)
        else
          let (val, rest2) = read_full (hdr_value_len h) rest1 in
          if length val < hdr_value_len h then
            (ScanTorn start ''file ends inside a record payload'', s\<lparr> sn_rest := rest2 \<rparr>)
          else if \<not> header_verify h key val then
            (ScanTorn start ''checksum mismatch'', s\<lparr> sn_rest := rest2 \<rparr>)
          else
            let len = header_record_len h in
            (ScanRecord \<lparr> sc_offset = start, sc_len = as_u32 len, sc_header = h, sc_key = key \<rparr>,
             s\<lparr> sn_rest := rest2, sn_offset := sn_offset s + len \<rparr>))"

definition read_at :: "nat \<Rightarrow> nat \<Rightarrow> nat \<Rightarrow> fs \<Rightarrow> bytes io" where
  "read_at fid offset len d = io_bind (fs_read (data_file_name fid) d) (\<lambda>bs d.
     (case get_range offset (offset + len) bs of None \<Rightarrow> (Inl eof_error, d) | Some x \<Rightarrow> (Inr x, d)))"

section \<open>What a writer holds\<close>

abbreviation recs_bytes :: "krec list \<Rightarrow> bytes" where
  "recs_bytes rs \<equiv> concat (map rec_bytes rs)"

abbreviation synced_of :: "fs \<Rightarrow> string \<Rightarrow> nat" where
  "synced_of d n \<equiv> (case fs_file d n of Some f \<Rightarrow> fsynced f | None \<Rightarrow> 0)"

text \<open>A writer holds the records \<open>rs\<close> when the file holds some of them, the buffer the rest, and the
  counters agree. The boundary between the two never falls inside a record. With \<open>b\<close>, what the writer
  believes to be on the disk is there. A writer opened on a file that a killed process left in the
  kernel's cache believes more than that, so the claim is a parameter.\<close>

definition log_holds :: "bool \<Rightarrow> log_writer \<Rightarrow> fs \<Rightarrow> krec list \<Rightarrow> bool" where
  "log_holds b w d rs \<longleftrightarrow> (\<exists>f rs1 rs2. fs_file d (lw_name w) = Some f \<and> rs = rs1 @ rs2 \<and>
     fdata f = recs_bytes rs1 \<and> lw_pending w = recs_bytes rs2 \<and>
     lw_written w = length (recs_bytes rs1) \<and> lw_offset w = length (recs_bytes rs) \<and>
     (b \<longrightarrow> lw_synced w \<le> fsynced f) \<and> fsynced f \<le> length (fdata f))"

lemma log_holds_offset: "log_holds b w d rs \<Longrightarrow> lw_offset w = length (recs_bytes rs)"
  by (auto simp: log_holds_def)

lemma log_holds_frame:
  "log_holds b w d rs \<Longrightarrow> fs_file d' (lw_name w) = fs_file d (lw_name w) \<Longrightarrow> log_holds b w d' rs"
  by (simp add: log_holds_def)

lemma log_flush_ok:
  assumes "fs_ok d" and "log_holds b w d rs"
  shows "\<exists>w' d'. log_flush w d = (Inr (), w', d') \<and> fs_ok d' \<and> log_holds b w' d' rs \<and>
    lw_pending w' = [] \<and> lw_file_id w' = lw_file_id w \<and> lw_synced w' = lw_synced w \<and>
    lw_offset w' = lw_offset w \<and> fs_frame {lw_name w} d d' \<and>
    synced_of d (lw_name w) \<le> synced_of d' (lw_name w)"
proof (cases "lw_pending w = []")
  case True
  with assms show ?thesis by (simp add: log_flush_def)
next
  case False
  from assms(2) obtain f rs1 rs2 where f: "fs_file d (lw_name w) = Some f" "rs = rs1 @ rs2"
    "fdata f = recs_bytes rs1" "lw_pending w = recs_bytes rs2"
    "lw_offset w = length (recs_bytes rs)" "b \<longrightarrow> lw_synced w \<le> fsynced f" "fsynced f \<le> length (fdata f)"
    by (auto simp: log_holds_def)
  let ?w = "w\<lparr> lw_pending := [], lw_written := lw_offset w \<rparr>"
  let ?d = "fs_append (lw_name w) (lw_pending w) d"
  have "log_flush w d = (Inr (), ?w, ?d)"
    using False assms(1) by (simp add: log_flush_def fs_simps)
  moreover have "log_holds b ?w ?d rs"
    unfolding log_holds_def using f
    by (intro exI [of _ "f\<lparr> fdata := fdata f @ lw_pending w \<rparr>"] exI [of _ rs] exI [of _ "[]"])
      (auto simp: fs_file_append)
  moreover have "fs_frame {lw_name w} d ?d"
    using f(1) by (simp add: fs_frame_def fs_file_append)
  moreover have "synced_of d (lw_name w) \<le> synced_of ?d (lw_name w)"
    using f(1) by (simp add: fs_file_append)
  ultimately show ?thesis using assms(1) by simp
qed

lemma log_sync_ok:
  assumes "fs_ok d" and "log_holds b w d rs"
  shows "\<exists>w' d'. log_sync w d = (Inr (), w', d') \<and> fs_ok d' \<and> log_holds b w' d' rs \<and>
    lw_pending w' = [] \<and> lw_file_id w' = lw_file_id w \<and> lw_synced w' = lw_offset w \<and>
    lw_offset w' = lw_offset w \<and> fs_frame {lw_name w} d d' \<and>
    synced_of d (lw_name w) \<le> synced_of d' (lw_name w)"
proof -
  obtain w1 d1 where 1: "log_flush w d = (Inr (), w1, d1)" "fs_ok d1" "log_holds b w1 d1 rs"
    "lw_pending w1 = []" "lw_file_id w1 = lw_file_id w" "lw_offset w1 = lw_offset w"
    "fs_frame {lw_name w} d d1" "synced_of d (lw_name w) \<le> synced_of d1 (lw_name w)"
    using log_flush_ok [OF assms] by blast
  then obtain f where f: "fsynced f \<le> length (fdata f)" "fs_file d1 (lw_name w) = Some f" "fdata f = recs_bytes rs"
    "lw_written w1 = length (recs_bytes rs)" "lw_offset w1 = length (recs_bytes rs)"
    by (auto simp: log_holds_def)
  let ?d = "fs_put (lw_name w) (f\<lparr> fsynced := length (fdata f) \<rparr>) d1"
  let ?w = "w1\<lparr> lw_synced := lw_offset w1 \<rparr>"
  have "log_sync w d = (Inr (), ?w, ?d)"
    using 1 f by (simp add: log_sync_def fs_sync_def fs_simps)
  moreover have "log_holds b ?w ?d rs"
    unfolding log_holds_def using 1 f
    by (intro exI [of _ "f\<lparr> fsynced := length (fdata f) \<rparr>"] exI [of _ rs] exI [of _ "[]"]) simp
  moreover have "fs_frame {lw_name w} d ?d"
    using 1(7) by (simp add: fs_frame_def)
  ultimately show ?thesis using 1 f by simp
qed

lemma log_holds_buffer:
  assumes "log_holds b w d rs"
  shows "log_holds b (w\<lparr> lw_pending := lw_pending w @ rec_bytes r,
      lw_offset := lw_offset w + length (rec_bytes r) \<rparr>) d (rs @ [r])"
proof -
  from assms obtain f rs1 rs2 where "fs_file d (lw_name w) = Some f" "rs = rs1 @ rs2"
    "fdata f = recs_bytes rs1" "lw_pending w = recs_bytes rs2"
    "lw_written w = length (recs_bytes rs1)" "lw_offset w = length (recs_bytes rs)"
    "b \<longrightarrow> lw_synced w \<le> fsynced f" "fsynced f \<le> length (fdata f)"
    by (auto simp: log_holds_def)
  then show ?thesis
    unfolding log_holds_def by (intro exI [of _ f] exI [of _ rs1] exI [of _ "rs2 @ [r]"]) simp
qed

lemma log_append_direct:
  assumes "fs_ok d" and "log_holds b w d rs" and "lw_pending w = []" and "reach \<noteq> ReachBuffer"
  shows "\<exists>w' d'. log_append w (rec_bytes r) reach d
      = (Inr (lw_offset w, as_u32 (length (rec_bytes r))), w', d') \<and> fs_ok d' \<and>
    log_holds b w' d' (rs @ [r]) \<and> lw_file_id w' = lw_file_id w \<and>
    (reach = ReachDisk \<longrightarrow> lw_synced w' = lw_offset w') \<and> fs_frame {lw_name w} d d' \<and>
    synced_of d (lw_name w) \<le> synced_of d' (lw_name w)"
proof -
  obtain f where f: "fs_file d (lw_name w) = Some f" "fdata f = recs_bytes rs"
    "lw_written w = length (recs_bytes rs)" "lw_offset w = length (recs_bytes rs)"
    "b \<longrightarrow> lw_synced w \<le> fsynced f" "fsynced f \<le> length (fdata f)"
    using assms(2,3) by (auto simp: log_holds_def)
  let ?n = "lw_offset w + length (rec_bytes r)"
  let ?w = "w\<lparr> lw_offset := ?n, lw_written := ?n \<rparr>"
  let ?f = "f\<lparr> fdata := fdata f @ rec_bytes r \<rparr>"
  let ?d = "fs_append (lw_name w) (rec_bytes r) d"
  have fd: "fs_file ?d m = (if m = lw_name w then Some ?f else fs_file d m)" for m
    using f(1) by (simp add: fs_file_append)
  have holds: "log_holds b (?w\<lparr> lw_synced := k \<rparr>) (fs_put (lw_name w) (?f\<lparr> fsynced := j \<rparr>) ?d) (rs @ [r])"
    if "k \<le> j" "j \<le> ?n" for k j
    unfolding log_holds_def using f that assms(3)
    by (intro exI [of _ "?f\<lparr> fsynced := j \<rparr>"] exI [of _ "rs @ [r]"] exI [of _ "[]"]) auto
  show ?thesis
  proof (cases "reach = ReachDisk")
    case True
    then have "log_append w (rec_bytes r) reach d = (Inr (lw_offset w, as_u32 (length (rec_bytes r))),
        ?w\<lparr> lw_synced := ?n \<rparr>, fs_put (lw_name w) (?f\<lparr> fsynced := ?n \<rparr>) ?d)"
      using assms f by (simp add: log_append_def Let_def fs_simps fs_sync_def fd)
    with holds [of ?n ?n] assms(1) show ?thesis
      using f by (simp add: fs_frame_def fd)
  next
    case False
    then have "log_append w (rec_bytes r) reach d
        = (Inr (lw_offset w, as_u32 (length (rec_bytes r))), ?w, ?d)"
      using assms f by (simp add: log_append_def Let_def fs_simps)
    moreover have "log_holds b ?w ?d (rs @ [r])"
      unfolding log_holds_def using f assms(3)
      by (intro exI [of _ ?f] exI [of _ "rs @ [r]"] exI [of _ "[]"]) (auto simp: fs_file_append)
    ultimately show ?thesis using assms(1) False f by (simp add: fs_frame_def fd)
  qed
qed

lemma log_append_buffered:
  assumes "fs_ok d" and "log_holds b w d rs" and "reach = ReachBuffer \<or> lw_pending w \<noteq> []"
  shows "\<exists>w' d'. log_append w (rec_bytes r) reach d
      = (Inr (lw_offset w, as_u32 (length (rec_bytes r))), w', d') \<and> fs_ok d' \<and>
    log_holds b w' d' (rs @ [r]) \<and> lw_file_id w' = lw_file_id w \<and>
    (reach = ReachDisk \<longrightarrow> lw_synced w' = lw_offset w') \<and> fs_frame {lw_name w} d d' \<and>
    synced_of d (lw_name w) \<le> synced_of d' (lw_name w)"
proof -
  let ?w = "w\<lparr> lw_pending := lw_pending w @ rec_bytes r,
      lw_offset := lw_offset w + length (rec_bytes r) \<rparr>"
  have h: "log_holds b ?w d (rs @ [r])" using assms(2) by (rule log_holds_buffer)
  show ?thesis
  proof (cases reach)
    case ReachBuffer
    with assms h log_flush_ok [OF assms(1) h] show ?thesis
      by (auto simp: log_append_def Let_def)
  next
    case ReachKernel
    with assms h log_flush_ok [OF assms(1) h] show ?thesis
      by (auto simp: log_append_def Let_def)
  next
    case ReachDisk
    with assms h log_sync_ok [OF assms(1) h] show ?thesis
      by (auto simp: log_append_def Let_def)
  qed
qed

lemma log_append_ok:
  assumes "fs_ok d" and "log_holds b w d rs"
  shows "\<exists>w' d'. log_append w (rec_bytes r) reach d
      = (Inr (length (recs_bytes rs), as_u32 (length (rec_bytes r))), w', d') \<and> fs_ok d' \<and>
    log_holds b w' d' (rs @ [r]) \<and> lw_file_id w' = lw_file_id w \<and>
    (reach = ReachDisk \<longrightarrow> lw_synced w' = lw_offset w') \<and> fs_frame {lw_name w} d d' \<and>
    synced_of d (lw_name w) \<le> synced_of d' (lw_name w)"
  using log_append_direct [OF assms] log_append_buffered [OF assms] log_holds_offset [OF assms(2)]
  by metis

lemma log_drop_ok:
  assumes "fs_ok d" and "log_holds b w d rs"
  shows "fs_ok (log_drop w d) \<and> fs_frame {lw_name w} d (log_drop w d) \<and>
    (\<exists>f. fs_file (log_drop w d) (lw_name w) = Some f \<and> fdata f = recs_bytes rs)"
proof -
  obtain w' d' where "log_flush w d = (Inr (), w', d')" "fs_ok d'" "log_holds b w' d' rs"
    "lw_pending w' = []" "lw_file_id w' = lw_file_id w" "fs_frame {lw_name w} d d' \<and>
    synced_of d (lw_name w) \<le> synced_of d' (lw_name w)"
    using log_flush_ok [OF assms] by blast
  then show ?thesis by (auto simp: log_drop_def log_holds_def)
qed

lemma log_writer_open_new:
  assumes "fs_ok d" and "fs_file d (data_file_name i) = None"
  shows "\<exists>w d'. log_writer_open i d = (Inr w, d') \<and> fs_ok d' \<and> log_holds b w d' [] \<and>
    lw_file_id w = i \<and> lw_pending w = [] \<and> lw_synced w = lw_offset w \<and>
    fs_frame {data_file_name i} d d'"
  using assms
  by (simp add: log_writer_open_def fs_calls fs_simps log_holds_def fs_frame_def)

section \<open>Reading back\<close>

lemma read_at_ok:
  assumes "fs_ok d" and "fs_file d (data_file_name i) = Some f" and "off + len \<le> length (fdata f)"
  shows "read_at i off len d = (Inr (slice off (off + len) (fdata f)), d)"
  using assms by (simp add: read_at_def fs_read_def fs_simps get_range_def)

lemma log_buffered_Some:
  assumes "lw_written w \<le> off" and "off + len \<le> lw_written w + length (lw_pending w)"
    and "length xs = lw_written w"
  shows "log_buffered w off len = Some (slice off (off + len) (xs @ lw_pending w))"
  using assms by (auto simp: log_buffered_def get_range_def slice_append_right)

lemma log_buffered_None: "off < lw_written w \<Longrightarrow> log_buffered w off len = None"
  by (simp add: log_buffered_def)

section \<open>Scanning\<close>

lemma next_record_whole:
  assumes "length hb = HEADER_LEN" and "h = header_decode hb" and "length key = hdr_key_len h"
    and "length val = hdr_value_len h"
  shows "next_record \<lparr> sn_rest = hb @ key @ val @ rest, sn_offset = off \<rparr> =
    (if header_verify h key val
     then (ScanRecord \<lparr> sc_offset = off, sc_len = as_u32 (header_record_len h), sc_header = h,
             sc_key = key \<rparr>, \<lparr> sn_rest = rest, sn_offset = off + header_record_len h \<rparr>)
     else (ScanTorn off ''checksum mismatch'', \<lparr> sn_rest = rest, sn_offset = off \<rparr>))"
proof -
  have "HEADER_LEN \<noteq> 0" by (simp add: HEADER_LEN_def)
  with assms show ?thesis
    by (auto simp: next_record_def read_full_def Let_def)
qed

lemma next_record_short:
  assumes "length hb = HEADER_LEN" and "length body < hdr_key_len (header_decode hb) + hdr_value_len (header_decode hb)"
  shows "\<exists>s. next_record \<lparr> sn_rest = hb @ body, sn_offset = off \<rparr> =
    (ScanTorn off ''file ends inside a record payload'', s)"
proof -
  have "HEADER_LEN \<noteq> 0" by (simp add: HEADER_LEN_def)
  with assms show ?thesis
    by (auto simp: next_record_def read_full_def Let_def)
qed

lemma decode_header_rec: "rec_ok r \<Longrightarrow> header_decode (header_encode (rec_header r)) = rec_header r"
  by (simp add: header_decode_encode rec_header_wf)

lemma next_record_rec:
  assumes "rec_ok r"
  shows "next_record \<lparr> sn_rest = rec_bytes r @ rest, sn_offset = off \<rparr> =
    (ScanRecord \<lparr> sc_offset = off, sc_len = as_u32 (length (rec_bytes r)), sc_header = rec_header r,
       sc_key = rkey r \<rparr>, \<lparr> sn_rest = rest, sn_offset = off + length (rec_bytes r) \<rparr>)"
  using next_record_whole [of "header_encode (rec_header r)" "rec_header r" "rkey r" "rpayload r" rest off]
    assms
  by (simp add: decode_header_rec) (simp add: rec_bytes_def)

lemma next_record_eof:
  "next_record \<lparr> sn_rest = [], sn_offset = off \<rparr> = (ScanEof, \<lparr> sn_rest = [], sn_offset = off \<rparr>)"
  by (simp add: next_record_def read_full_def Let_def)

lemma next_record_torn:
  assumes "rec_ok r" and "0 < n" and "n < length (rec_bytes r)"
  shows "\<exists>detail s. next_record \<lparr> sn_rest = take n (rec_bytes r), sn_offset = off \<rparr> = (ScanTorn off detail, s)"
proof (cases "n < HEADER_LEN")
  case True
  then show ?thesis
    using assms by (auto simp: next_record_def read_full_def Let_def)
next
  case False
  then have t: "take n (rec_bytes r)
      = header_encode (rec_header r) @ take (n - HEADER_LEN) (rkey r @ rpayload r)"
    by (simp add: rec_bytes_def)
  define body where "body = take (n - HEADER_LEN) (rkey r @ rpayload r)"
  have "length body < length (rkey r) + length (rpayload r)"
    using assms(3) False by (simp add: length_rec_bytes body_def)
  then have "length body < hdr_key_len (header_decode (header_encode (rec_header r)))
      + hdr_value_len (header_decode (header_encode (rec_header r)))"
    using assms(1) by (simp add: decode_header_rec)
  from next_record_short [OF _ this, of off] show ?thesis
    unfolding t body_def [symmetric] by auto
qed

end
