(* ===== verification/HintFile.thy ===== *)
theory HintFile
  imports DataLog
begin

text \<open>
  Hint files (\<^verbatim>\<open>src/src/hint.rs\<close>): the index of a data file, written beside it. \<open>hint_write\<close> and
  \<open>hint_load\<close> are the module's \<^verbatim>\<open>write\<close> and \<^verbatim>\<open>load\<close>; what \<open>hint_load\<close> does to the bytes of the file is
  \<open>hint_decode\<close>, and the loop over the entries is \<open>hint_entries\<close>. Shown: a hint reads back exactly
  what was written, also when the data file has grown since, and whatever a hint says, its entries
  tile the prefix of the data file it claims to describe.
\<close>

section \<open>Definitions\<close>

definition HINT_HEADER_LEN :: nat where
  "HINT_HEADER_LEN = 4 + 8"

definition ENTRY_FIXED :: nat where
  "ENTRY_FIXED = 8 + 4 + 8 + 1 + 4"

record hint_entry =
  he_key :: bytes
  he_offset :: nat
  he_len :: nat
  he_tstamp :: nat
  he_tombstone :: bool

definition hint_list :: "fs \<Rightarrow> nat list io" where
  "hint_list d = io_bind (fs_read_dir d) (\<lambda>names d.
     (Inr (List.map_filter (id_of_name ''hint'') names), d))"

definition hint_entry_bytes :: "hint_entry \<Rightarrow> bytes" where
  "hint_entry_bytes e =
     le_bytes 8 (he_offset e) @ le_bytes 4 (he_len e) @ le_bytes 8 (he_tstamp e)
     @ [if he_tombstone e then FLAG_TOMBSTONE else 0]
     @ le_bytes 4 (as_u32 (length (he_key e))) @ he_key e"

definition hint_bytes :: "nat \<Rightarrow> hint_entry list \<Rightarrow> bytes" where
  "hint_bytes data_len entries =
     (let body = le_bytes 8 data_len @ concat (map hint_entry_bytes entries) in
      le_bytes 4 (unat (crc32_parts [body])) @ body)"

definition hint_write :: "nat \<Rightarrow> nat \<Rightarrow> hint_entry list \<Rightarrow> fs \<Rightarrow> unit io" where
  "hint_write fid data_len entries d =
     write_atomically (hint_name fid) (hint_bytes data_len entries) d"

text \<open>The loop of \<^verbatim>\<open>load\<close> over what is left of the file, with the bytes of the data file covered so
  far. The additions are checked ones.\<close>

function hint_entries :: "bytes \<Rightarrow> nat \<Rightarrow> (hint_entry list \<times> nat) option" where
  "hint_entries rest covered =
     (if rest = [] then Some ([], covered)
      else if length rest < ENTRY_FIXED then None
      else
        let fixed = take ENTRY_FIXED rest; rest1 = drop ENTRY_FIXED rest;
            offset = from_le (slice 0 8 fixed); len = from_le (slice 8 12 fixed);
            tstamp = from_le (slice 12 20 fixed); flags = fixed ! 20;
            key_len = from_le (slice 21 25 fixed)
        in if length rest1 < key_len then None
           else if offset \<noteq> covered then None
           else if offset + len > u64_max then None
           else case hint_entries (drop key_len rest1) (offset + len) of
             None \<Rightarrow> None
           | Some (es, c) \<Rightarrow> Some (\<lparr> he_key = take key_len rest1, he_offset = offset, he_len = len,
               he_tstamp = tstamp, he_tombstone = (flags AND FLAG_TOMBSTONE \<noteq> 0) \<rparr> # es, c))"
  by pat_completeness auto
termination
  by (relation "measure (\<lambda>(rest, covered). length rest)") (auto simp: ENTRY_FIXED_def)

declare hint_entries.simps [simp del]

definition hint_decode :: "bytes \<Rightarrow> nat \<Rightarrow> (hint_entry list \<times> nat) option" where
  "hint_decode bs file_len =
     (if length bs < HINT_HEADER_LEN then None
      else if crc32_parts [drop 4 bs] \<noteq> word_of_nat (from_le (slice 0 4 bs)) then None
      else
        let data_len = from_le (slice 4 12 bs) in
        if data_len > file_len then None
        else case hint_entries (drop HINT_HEADER_LEN bs) 0 of
          None \<Rightarrow> None
        | Some (entries, covered) \<Rightarrow> if covered = data_len then Some (entries, data_len) else None)"

text \<open>\<^verbatim>\<open>load\<close> treats every failure, of the read too, as no hint.\<close>

definition hint_load :: "nat \<Rightarrow> nat \<Rightarrow> fs \<Rightarrow> (hint_entry list \<times> nat) option \<times> fs" where
  "hint_load fid file_len d = (case fs_read (hint_name fid) d of
      (Inl _, d) \<Rightarrow> (None, d)
    | (Inr bs, d) \<Rightarrow> (hint_decode bs file_len, d))"

section \<open>Tiling\<close>

text \<open>Entries tile \<open>[c, c')\<close> when each starts where the one before it ended.\<close>

fun hint_tiles :: "nat \<Rightarrow> hint_entry list \<Rightarrow> nat \<Rightarrow> bool" where
  "hint_tiles c [] c' \<longleftrightarrow> c = c'"
| "hint_tiles c (e # es) c' \<longleftrightarrow> he_offset e = c \<and> hint_tiles (c + he_len e) es c'"

definition hint_entry_ok :: "hint_entry \<Rightarrow> bool" where
  "hint_entry_ok e \<longleftrightarrow> he_offset e + he_len e \<le> u64_max \<and> he_len e < 2 ^ 32
     \<and> he_tstamp e < 2 ^ 64 \<and> length (he_key e) < 2 ^ 32"

lemma hint_entries_tile: "hint_entries rest c = Some (es, c') \<Longrightarrow> hint_tiles c es c'"
proof (induction "length rest" arbitrary: rest c es rule: less_induct)
  case less
  show ?case
  proof (cases "rest = []")
    case True
    with less.prems show ?thesis by (simp add: hint_entries.simps)
  next
    case False
    with less.prems obtain e rest' es' where
      e: "es = e # es'" "he_offset e = c" "hint_entries rest' (c + he_len e) = Some (es', c')"
        "length rest' < length rest"
      by (subst (asm) hint_entries.simps)
        (auto simp: Let_def ENTRY_FIXED_def split: if_splits option.splits)
    then show ?thesis using less.hyps by simp
  qed
qed

lemma hint_entries_Cons:
  assumes ok: "hint_entry_ok e" and off: "he_offset e = c"
    and rest: "hint_entries rest (c + he_len e) = Some (es, c')"
  shows "hint_entries (hint_entry_bytes e @ rest) c = Some (e # es, c')"
proof -
  define flag where "flag = (if he_tombstone e then FLAG_TOMBSTONE else 0)"
  define fx where "fx = le_bytes 8 (he_offset e) @ le_bytes 4 (he_len e)
      @ le_bytes 8 (he_tstamp e) @ [flag] @ le_bytes 4 (length (he_key e))"
  have small: "he_offset e < 256 ^ 8" "he_len e < 256 ^ 4" "he_tstamp e < 256 ^ 8"
    "length (he_key e) < 256 ^ 4"
    using ok by (simp_all add: hint_entry_ok_def u64_max_def)
  have bytes: "hint_entry_bytes e = fx @ he_key e"
    using small by (simp add: hint_entry_bytes_def fx_def flag_def)
  have lfx: "length fx = ENTRY_FIXED" by (simp add: fx_def ENTRY_FIXED_def)
  have take: "take ENTRY_FIXED (fx @ he_key e @ rest) = fx"
    and drop: "drop ENTRY_FIXED (fx @ he_key e @ rest) = he_key e @ rest"
    and len: "\<not> length (fx @ he_key e @ rest) < ENTRY_FIXED"
    by (simp_all add: lfx)
  have nn: "fx @ he_key e @ rest \<noteq> []" by (simp add: fx_def)
  have sl: "slice 0 8 fx = le_bytes 8 (he_offset e)" "slice 8 12 fx = le_bytes 4 (he_len e)"
      "slice 12 20 fx = le_bytes 8 (he_tstamp e)" "fx ! 20 = flag"
      "slice 21 25 fx = le_bytes 4 (length (he_key e))"
    by (simp_all add: fx_def slice_def nth_append)
  have vals: "from_le (slice 0 8 fx) = he_offset e" "from_le (slice 8 12 fx) = he_len e"
      "from_le (slice 12 20 fx) = he_tstamp e" "from_le (slice 21 25 fx) = length (he_key e)"
    using small by (simp_all only: sl from_le_le_bytes_id)
  have tomb: "(flag AND FLAG_TOMBSTONE \<noteq> 0) = he_tombstone e"
    by (simp add: flag_def FLAG_TOMBSTONE_def)
  have fits: "\<not> he_offset e + he_len e > u64_max" using ok by (simp add: hint_entry_ok_def)
  have "hint_entries (fx @ he_key e @ rest) c = Some (e # es, c')"
    apply (subst hint_entries.simps)
    unfolding Let_def take drop vals sl(4) tomb
    using nn len fits off rest by simp
  then show ?thesis by (simp add: bytes)
qed

lemma hint_entries_bytes:
  assumes "list_all hint_entry_ok es" and "hint_tiles c es c'"
  shows "hint_entries (concat (map hint_entry_bytes es)) c = Some (es, c')"
  using assms
proof (induction es arbitrary: c)
  case Nil
  then show ?case by (simp add: hint_entries.simps)
next
  case (Cons e es)
  then have "hint_entries (concat (map hint_entry_bytes es)) (c + he_len e) = Some (es, c')"
    by simp
  with Cons.prems show ?case by (simp add: hint_entries_Cons)
qed

lemma hint_bytes_crc:
  "crc32_parts [drop 4 (hint_bytes n es)] = word_of_nat (from_le (slice 0 4 (hint_bytes n es)))"
  using u32_less by (simp add: hint_bytes_def Let_def slice_def)

lemma hint_decode_bytes:
  assumes "list_all hint_entry_ok es" and "hint_tiles 0 es n" and "n \<le> file_len" and "n \<le> u64_max"
  shows "hint_decode (hint_bytes n es) file_len = Some (es, n)"
proof -
  have n: "n < 256 ^ 8" using assms(4) by (simp add: u64_max_def)
  have d: "drop HINT_HEADER_LEN (hint_bytes n es) = concat (map hint_entry_bytes es)"
    and l: "\<not> length (hint_bytes n es) < HINT_HEADER_LEN"
    and s: "from_le (slice 4 12 (hint_bytes n es)) = n"
    using n by (simp_all add: hint_bytes_def Let_def HINT_HEADER_LEN_def slice_def)
  show ?thesis
    using assms hint_bytes_crc [of n es] hint_entries_bytes [OF assms(1,2)]
    by (simp add: hint_decode_def l d s)
qed

text \<open>The length of the data file only decides whether a hint is accepted, never what it says.\<close>

lemma hint_decode_grow: "hint_decode bs k = Some x \<Longrightarrow> k \<le> k' \<Longrightarrow> hint_decode bs k' = Some x"
  by (auto simp: hint_decode_def Let_def split: if_splits option.splits)

lemma hint_decode_only:
  assumes "list_all hint_entry_ok es" and "hint_tiles 0 es n" and "n \<le> u64_max"
    and "hint_decode (hint_bytes n es) k = Some (es', m)"
  shows "es' = es \<and> m = n"
  using hint_decode_grow [OF assms(4), of "max k n"] hint_decode_bytes [OF assms(1,2) _ assms(3), of "max k n"]
  by simp

lemma hint_entries_ok: "hint_entries rest c = Some (es, c') \<Longrightarrow> list_all hint_entry_ok es"
proof (induction "length rest" arbitrary: rest c es rule: less_induct)
  case less
  show ?case
  proof (cases "rest = []")
    case True
    with less.prems show ?thesis by (simp add: hint_entries.simps)
  next
    case False
    with less.prems obtain e rest' c1 es' where
      e: "es = e # es'" "hint_entries rest' c1 = Some (es', c')" "length rest' < length rest"
      and ok: "hint_entry_ok e"
    proof -
      define fx where "fx = take ENTRY_FIXED rest"
      define kl where "kl = from_le (slice 21 25 fx)"
      assume that: "\<And>e es' rest' c1. es = e # es' \<Longrightarrow> hint_entries rest' c1 = Some (es', c') \<Longrightarrow>
        length rest' < length rest \<Longrightarrow> hint_entry_ok e \<Longrightarrow> thesis"
      from False less.prems have "ENTRY_FIXED \<le> length rest"
        by (subst (asm) hint_entries.simps) (auto split: if_splits)
      then have lf: "length fx = 25" by (simp add: fx_def ENTRY_FIXED_def)
      have b: "kl < 2 ^ 32" "from_le (slice 8 12 fx) < 2 ^ 32" "from_le (slice 12 20 fx) < 2 ^ 64"
        using from_le_slice_less [of 25 fx 21] from_le_slice_less [of 12 fx 8]
          from_le_slice_less [of 20 fx 12] lf
        by (simp_all add: kl_def)
      show thesis
        using less.prems False b
        apply (subst (asm) hint_entries.simps)
        apply (auto simp: Let_def simp flip: fx_def kl_def split: if_splits option.splits)
        apply (rule that, assumption, assumption)
         apply (auto simp: hint_entry_ok_def ENTRY_FIXED_def)
        done
    qed
    then show ?thesis using less.hyps by auto
  qed
qed

lemma hint_decode_ok: "hint_decode bs k = Some (es, m) \<Longrightarrow> list_all hint_entry_ok es \<and> hint_tiles 0 es m \<and> m \<le> k"
  by (auto simp: hint_decode_def Let_def split: if_splits option.splits
      dest: hint_entries_ok hint_entries_tile)

section \<open>Properties\<close>

text \<open>A hint reads back: entries in range that tile the first \<open>n\<close> bytes of a data file are
  written to and loaded from the hint file unchanged, whatever the data file has grown to since,
  and no other file of the directory but the temporary one is touched.\<close>

theorem hint_round_trip:
  assumes "list_all hint_entry_ok es" and "hint_tiles 0 es n" and "n \<le> file_len" and "n \<le> u64_max"
    and "fs_ok d"
  shows "\<exists>d'. hint_write fid n es d = (Inr (), d') \<and> fst (hint_load fid file_len d') = Some (es, n)
    \<and> fs_frame {hint_name fid, hint_name fid @ ''.tmp''} d d'"
proof -
  from write_atomically_ok [OF assms(5)] obtain d' where
    d': "hint_write fid n es d = (Inr (), d')" "fs_ok d'"
      "fs_file d' (hint_name fid) = Some \<lparr> fdata = hint_bytes n es, fsynced = length (hint_bytes n es) \<rparr>"
      "fs_frame {hint_name fid, hint_name fid @ ''.tmp''} d d'"
    unfolding hint_write_def by metis
  then have "fst (hint_load fid file_len d') = Some (es, n)"
    using hint_decode_bytes [OF assms(1-4)] by (simp add: hint_load_def fs_read_def fs_simps)
  with d' show ?thesis by blast
qed

theorem hint_round_trip_witness:
  "\<exists>d'. hint_write 3 40 [\<lparr> he_key = [97], he_offset = 0, he_len = 40, he_tstamp = 7,
        he_tombstone = False \<rparr>] \<lparr> files = [], faults = [] \<rparr> = (Inr (), d')
     \<and> fst (hint_load 3 1000 d') = Some ([\<lparr> he_key = [97], he_offset = 0, he_len = 40,
        he_tstamp = 7, he_tombstone = False \<rparr>], 40)"
  using hint_round_trip [of "[\<lparr> he_key = [97], he_offset = 0, he_len = 40, he_tstamp = 7,
        he_tombstone = False \<rparr>]" 40 1000 "\<lparr> files = [], faults = [] \<rparr>" 3]
  by (auto simp: hint_entry_ok_def u64_max_def fs_ok_def fs_wf_def)

text \<open>Whatever bytes a hint file holds, a hint that loads is never ahead of its data file, and
  its entries tile exactly the prefix it claims, from offset 0, without a gap or an overlap.\<close>

theorem hint_load_tiles:
  assumes "fst (hint_load fid file_len d) = Some (es, n)"
  shows "n \<le> file_len \<and> hint_tiles 0 es n"
proof -
  obtain bs where "hint_decode bs file_len = Some (es, n)"
    using assms by (auto simp: hint_load_def split: prod.splits sum.splits)
  then show ?thesis
    by (auto simp: hint_decode_def Let_def split: if_splits option.splits dest: hint_entries_tile)
qed

theorem hint_load_tiles_witness:
  "\<exists>d es n. fst (hint_load 3 1000 d) = Some (es, n) \<and> n \<le> 1000 \<and> hint_tiles 0 es n"
proof -
  let ?d = "\<lparr> files = [(hint_name 3, \<lparr> fdata = hint_bytes 0 [], fsynced = 0 \<rparr>)], faults = [] \<rparr>"
  have "fst (hint_load 3 1000 ?d) = Some ([], 0)"
    using hint_decode_bytes [of "[]" 0 1000]
    by (simp add: hint_load_def fs_read_def fs_simps fs_file_def)
  then show ?thesis using hint_load_tiles by blast
qed

end
