(* ===== verification/Store.thy ===== *)
theory Store
  imports HintFile Complex_Main
begin

text \<open>
  The store (\<^verbatim>\<open>src/src/store.rs\<close>): an index over append-only data files. The record \<open>store\<close> has the
  fields of the struct and, as \<open>st_fs\<close>, the directory they live in; a file handle is the id of its
  data file. A clock reading is an argument (\<^verbatim>\<open>record::now_millis\<close> is called twice by a write, so a
  write takes two), and so is \<open>ord\<close>, the order in which a \<^verbatim>\<open>HashMap\<close> iterates over its keys where the
  code depends on it. An operation returns its result and the store it leaves behind, on every
  error path too. This theory holds the definitions; the theories after it hold the proofs.
\<close>

section \<open>Data\<close>

record location =
  loc_file_id :: nat
  loc_offset :: nat
  loc_len :: nat
  loc_tstamp :: nat

record options =
  opt_sync :: sync_policy
  opt_max_file_bytes :: nat
  opt_verify_on_open :: bool

definition default_options :: options where
  "default_options = \<lparr> opt_sync = EveryWrite, opt_max_file_bytes = 64 * 1024 * 1024,
     opt_verify_on_open = False \<rparr>"

record stats =
  sts_keys :: nat
  sts_files :: nat
  sts_live_bytes :: nat
  sts_disk_bytes :: nat

definition reclaimable_bytes :: "stats \<Rightarrow> nat" where
  "reclaimable_bytes s = sts_disk_bytes s - sts_live_bytes s"

definition fragmentation :: "stats \<Rightarrow> rat" where
  "fragmentation s = (if sts_disk_bytes s = 0 then 0
     else of_nat (reclaimable_bytes s) / of_nat (sts_disk_bytes s))"

record compact_report =
  cr_files_before :: nat
  cr_bytes_before :: nat
  cr_bytes_after :: nat

definition reclaimed_bytes :: "compact_report \<Rightarrow> nat" where
  "reclaimed_bytes r = cr_bytes_before r - cr_bytes_after r"

record store =
  st_keydir :: "(bytes \<times> location) list"
  st_readers :: "nat list"
  st_writer :: log_writer
  st_opts :: options
  st_live_bytes :: nat
  st_disk_bytes :: nat
  st_sealed_synced :: "(nat \<times> nat) list"
  st_active_hints :: "hint_entry list"
  st_scanned_at_open :: nat
  st_compacting :: bool
  st_restoring :: bool
  st_fs :: fs

definition readers_insert :: "nat \<Rightarrow> nat list \<Rightarrow> nat list" where
  "readers_insert i rs = (if i \<in> set rs then rs else rs @ [i])"

definition restore_in_progress :: error where
  "restore_in_progress =
     Io OtherKind ''the store is being restored and takes no writes until it is done''"

definition compaction_in_progress :: error where
  "compaction_in_progress = Io OtherKind ''a compaction is already in progress''"

section \<open>Reading a value\<close>

definition decode_value :: "bytes \<Rightarrow> location \<Rightarrow> bytes res" where
  "decode_value bs loc =
     (if length bs < HEADER_LEN
      then Inl (Corrupt (loc_file_id loc) (loc_offset loc) ''record shorter than a header'')
      else
        let h = header_decode (take HEADER_LEN bs) in
        if header_record_len h \<noteq> length bs
        then Inl (Corrupt (loc_file_id loc) (loc_offset loc) ''record header does not match its length'')
        else
          let key_end = HEADER_LEN + hdr_key_len h; val = drop key_end bs in
          if \<not> header_verify h (slice HEADER_LEN key_end bs) val
          then Inl (Corrupt (loc_file_id loc) (loc_offset loc) ''checksum mismatch on read'')
          else Inr val)"

definition not_open :: "location \<Rightarrow> error" where
  "not_open loc = Corrupt (loc_file_id loc) (loc_offset loc)
     ''index points at a data file that is not open''"

definition read_value :: "nat list \<Rightarrow> location \<Rightarrow> fs \<Rightarrow> bytes io" where
  "read_value readers loc d =
     (if loc_file_id loc \<notin> set readers then (Inl (not_open loc), d)
      else io_bind (read_at (loc_file_id loc) (loc_offset loc) (loc_len loc) d)
        (\<lambda>bs d. (decode_value bs loc, d)))"

definition store_get :: "store \<Rightarrow> bytes \<Rightarrow> bytes option io" where
  "store_get s key = (case map_of (st_keydir s) key of
      None \<Rightarrow> (Inr None, st_fs s)
    | Some loc \<Rightarrow>
        (case (if loc_file_id loc = lw_file_id (st_writer s)
               then log_buffered (st_writer s) (loc_offset loc) (loc_len loc) else None) of
           Some bs \<Rightarrow> (map_sum (\<lambda>e. e) Some (decode_value bs loc), st_fs s)
         | None \<Rightarrow> io_bind (read_value (st_readers s) loc (st_fs s)) (\<lambda>v d. (Inr (Some v), d))))"

section \<open>Opening\<close>

definition entry_of_scanned :: "scanned \<Rightarrow> hint_entry" where
  "entry_of_scanned r = \<lparr> he_key = sc_key r, he_offset = sc_offset r, he_len = sc_len r,
     he_tstamp = hdr_tstamp (sc_header r), he_tombstone = header_is_tombstone (sc_header r) \<rparr>"

lemma next_record_shrinks:
  "next_record s = (ScanRecord r, s') \<Longrightarrow> length (sn_rest s') < length (sn_rest s)"
  by (auto simp: next_record_def read_full_def Let_def HEADER_LEN_def split: if_splits)

text \<open>The scanning loop of \<^verbatim>\<open>open_with\<close>: the entries, and where and why the file is torn, if it is.\<close>

function scan_entries :: "scanner \<Rightarrow> hint_entry list \<Rightarrow> hint_entry list \<times> (nat \<times> string) option" where
  "scan_entries s entries = (case next_record s of
      (ScanRecord r, s') \<Rightarrow> scan_entries s' (entries @ [entry_of_scanned r])
    | (ScanEof, _) \<Rightarrow> (entries, None)
    | (ScanTorn offset detail, _) \<Rightarrow> (entries, Some (offset, detail)))"
  by pat_completeness auto
termination
  by (relation "measure (\<lambda>(s, es). length (sn_rest s))") (auto dest: next_record_shrinks [OF sym])

declare scan_entries.simps [simp del]

definition truncate_at :: "nat \<Rightarrow> nat \<Rightarrow> fs \<Rightarrow> unit io" where
  "truncate_at fid offset d =
     io_bind (fs_open (data_file_name fid) d) (\<lambda>_ d.
     io_bind (fs_set_len (data_file_name fid) offset d) (\<lambda>_ d.
     fs_sync (data_file_name fid) d))"

text \<open>The variables of the loop over the data files.\<close>

record open_acc =
  oa_keydir :: "(bytes \<times> location) list"
  oa_readers :: "nat list"
  oa_live :: nat
  oa_disk :: nat
  oa_active_hints :: "hint_entry list"
  oa_scanned :: nat

definition index_entry :: "nat \<Rightarrow> open_acc \<Rightarrow> hint_entry \<Rightarrow> open_acc" where
  "index_entry fid a e =
     (let a = a\<lparr> oa_disk := oa_disk a + he_len e \<rparr>;
          a = (case map_of (oa_keydir a) (he_key e) of
                 Some old \<Rightarrow> a\<lparr> oa_keydir := AList.delete (he_key e) (oa_keydir a),
                               oa_live := oa_live a - loc_len old \<rparr>
               | None \<Rightarrow> a)
      in if he_tombstone e then a
         else a\<lparr> oa_live := oa_live a + he_len e,
                 oa_keydir := AList.update (he_key e)
                   \<lparr> loc_file_id = fid, loc_offset = he_offset e, loc_len = he_len e,
                     loc_tstamp = he_tstamp e \<rparr> (oa_keydir a) \<rparr>)"

text \<open>What the scan past the hint does to one file: its entries, or the error that stops the open.\<close>

definition open_scan ::
  "bool \<Rightarrow> nat \<Rightarrow> nat \<Rightarrow> nat \<Rightarrow> hint_entry list \<Rightarrow> fs \<Rightarrow> hint_entry list io" where
  "open_scan is_newest fid file_len hinted entries d =
     io_bind (scanner_open_at fid hinted d) (\<lambda>sc d.
     case scan_entries sc entries of
       (entries, torn) \<Rightarrow>
         io_bind (case torn of
             None \<Rightarrow> (Inr (), d)
           | Some (offset, detail) \<Rightarrow>
               if \<not> is_newest then (Inl (Corrupt fid offset detail), d)
               else truncate_at fid offset d) (\<lambda>_ d.
         if \<not> is_newest then
           io_bind (fs_open (data_file_name fid) d) (\<lambda>_ d.
           io_bind (fs_sync (data_file_name fid) d) (\<lambda>_ d.
           (Inr entries, snd (hint_write fid file_len entries d))))
         else (Inr entries, d)))"

text \<open>What is known of a file before it is scanned: its hint, unless everything is to be verified.\<close>

definition hint_start :: "options \<Rightarrow> nat \<Rightarrow> nat \<Rightarrow> fs \<Rightarrow> (hint_entry list \<times> nat) \<times> fs" where
  "hint_start opts fid file_len d =
     (let (h, d) = (if opt_verify_on_open opts then (None, d) else hint_load fid file_len d)
      in (case h of None \<Rightarrow> ([], 0) | Some p \<Rightarrow> p, d))"

definition open_file :: "options \<Rightarrow> nat option \<Rightarrow> nat \<Rightarrow> open_acc \<Rightarrow> fs \<Rightarrow> open_acc io" where
  "open_file opts newest fid a d =
     (let is_newest = (Some fid = newest) in
      io_bind (fs_len (data_file_name fid) d) (\<lambda>file_len d.
      case hint_start opts fid file_len d of ((entries, hinted), d) \<Rightarrow>
      let a = (if hinted < file_len then a\<lparr> oa_scanned := oa_scanned a + (file_len - hinted) \<rparr> else a) in
      io_bind (if hinted < file_len then open_scan is_newest fid file_len hinted entries d
               else (Inr entries, d)) (\<lambda>entries d.
      let a = foldl (index_entry fid) a entries;
          a = (if is_newest then a\<lparr> oa_active_hints := entries \<rparr> else a)
      in
      io_bind (fs_open (data_file_name fid) d) (\<lambda>_ d.
      (Inr (a\<lparr> oa_readers := readers_insert fid (oa_readers a) \<rparr>), d)))))"

fun open_files :: "options \<Rightarrow> nat option \<Rightarrow> nat list \<Rightarrow> open_acc \<Rightarrow> fs \<Rightarrow> open_acc io" where
  "open_files opts newest [] a d = (Inr a, d)"
| "open_files opts newest (fid # fids) a d =
     io_bind (open_file opts newest fid a d) (\<lambda>a d. open_files opts newest fids a d)"

fun remove_all :: "string list \<Rightarrow> fs \<Rightarrow> unit io" where
  "remove_all [] d = (Inr (), d)"
| "remove_all (n # ns) d = io_bind (fs_remove n d) (\<lambda>_ d. remove_all ns d)"

definition ends_with :: "string \<Rightarrow> string \<Rightarrow> bool" where
  "ends_with n suf \<longleftrightarrow> length suf \<le> length n \<and> drop (length n - length suf) n = suf"

definition store_open :: "options \<Rightarrow> fs \<Rightarrow> store io" where
  "store_open opts d =
     io_bind (fs_create_dir_all d) (\<lambda>_ d.
     io_bind (list_data_files d) (\<lambda>file_ids d.
     let newest = (if file_ids = [] then None else Some (last file_ids)) in
     io_bind (fs_read_dir d) (\<lambda>names d.
     io_bind (remove_all (filter (\<lambda>n. ends_with n ''.log.part'') names) d) (\<lambda>_ d.
     io_bind (hint_list d) (\<lambda>hints d.
     io_bind (remove_all (map hint_name (filter (\<lambda>i. i \<notin> set file_ids) hints)) d) (\<lambda>_ d.
     io_bind (open_files opts newest file_ids
        \<lparr> oa_keydir = [], oa_readers = [], oa_live = 0, oa_disk = 0, oa_active_hints = [],
          oa_scanned = 0 \<rparr> d) (\<lambda>a d.
     let active_id = (case newest of None \<Rightarrow> 1 | Some i \<Rightarrow> i) in
     io_bind (log_writer_open active_id d) (\<lambda>w d.
     io_bind (fs_open (data_file_name active_id) d) (\<lambda>_ d.
     (Inr \<lparr> st_keydir = oa_keydir a, st_readers = readers_insert active_id (oa_readers a),
            st_writer = w, st_opts = opts, st_live_bytes = oa_live a, st_disk_bytes = oa_disk a,
            st_sealed_synced = [], st_active_hints = oa_active_hints a,
            st_scanned_at_open = oa_scanned a, st_compacting = False, st_restoring = False,
            st_fs = d \<rparr>, d))))))))))"

section \<open>Writing\<close>

definition store_reach :: "store \<Rightarrow> reach" where
  "store_reach s = (case opt_sync (st_opts s) of EveryWrite \<Rightarrow> ReachDisk | OsCache \<Rightarrow> ReachKernel)"

definition roll_if_needed :: "store \<Rightarrow> nat \<Rightarrow> unit res \<times> store" where
  "roll_if_needed s incoming =
     (if lw_offset (st_writer s) = 0
         \<or> lw_offset (st_writer s) + incoming \<le> opt_max_file_bytes (st_opts s)
      then (Inr (), s)
      else case log_sync (st_writer s) (st_fs s) of
        (Inl e, w, d) \<Rightarrow> (Inl e, s\<lparr> st_writer := w, st_fs := d \<rparr>)
      | (Inr _, w, d) \<Rightarrow>
          let hints = st_active_hints s;
              d = snd (hint_write (lw_file_id w) (lw_offset w) hints d);
              s = s\<lparr> st_sealed_synced := AList.update (lw_file_id w) (lw_synced w) (st_sealed_synced s),
                     st_active_hints := [], st_writer := w \<rparr>;
              next_id = lw_file_id w + 1
          in case log_writer_open next_id d of
            (Inl e, d) \<Rightarrow> (Inl e, s\<lparr> st_fs := d \<rparr>)
          | (Inr w', d) \<Rightarrow>
              let s = s\<lparr> st_writer := w', st_fs := log_drop w d \<rparr> in
              case fs_open (data_file_name next_id) (st_fs s) of
                (Inl e, d) \<Rightarrow> (Inl e, s\<lparr> st_fs := d \<rparr>)
              | (Inr _, d) \<Rightarrow>
                  (Inr (), s\<lparr> st_readers := readers_insert next_id (st_readers s), st_fs := d \<rparr>))"

text \<open>Forgetting what the index said of a key, with its share of the live bytes.\<close>

definition unindex :: "bytes \<Rightarrow> store \<Rightarrow> store" where
  "unindex key s = (case map_of (st_keydir s) key of
      Some old \<Rightarrow> s\<lparr> st_keydir := AList.delete key (st_keydir s),
                    st_live_bytes := st_live_bytes s - loc_len old \<rparr>
    | None \<Rightarrow> s)"

definition put_with :: "store \<Rightarrow> bytes \<Rightarrow> bytes \<Rightarrow> reach \<Rightarrow> nat \<Rightarrow> nat \<Rightarrow> unit res \<times> store" where
  "put_with s key val reach t1 t2 =
     (if st_restoring s then (Inl restore_in_progress, s)
      else case encode_record key (Some val) t1 of
        Inl e \<Rightarrow> (Inl e, s)
      | Inr bs \<Rightarrow> (case roll_if_needed s (length bs) of
          (Inl e, s) \<Rightarrow> (Inl e, s)
        | (Inr _, s) \<Rightarrow> (case log_append (st_writer s) bs reach (st_fs s) of
            (Inl e, w, d) \<Rightarrow> (Inl e, s\<lparr> st_writer := w, st_fs := d \<rparr>)
          | (Inr (offset, len), w, d) \<Rightarrow>
              let s = s\<lparr> st_writer := w, st_fs := d,
                         st_active_hints := st_active_hints s @
                           [\<lparr> he_key = key, he_offset = offset, he_len = len, he_tstamp = t2,
                              he_tombstone = False \<rparr>],
                         st_disk_bytes := st_disk_bytes s + len \<rparr>;
                  s = unindex key s
              in (Inr (), s\<lparr> st_live_bytes := st_live_bytes s + len,
                    st_keydir := AList.update key
                      \<lparr> loc_file_id = lw_file_id (st_writer s), loc_offset = offset, loc_len = len,
                        loc_tstamp = t2 \<rparr> (st_keydir s) \<rparr>))))"

definition store_put :: "store \<Rightarrow> bytes \<Rightarrow> bytes \<Rightarrow> nat \<Rightarrow> nat \<Rightarrow> unit res \<times> store" where
  "store_put s key val t1 t2 = put_with s key val (store_reach s) t1 t2"

definition put_deferred :: "store \<Rightarrow> bytes \<Rightarrow> bytes \<Rightarrow> nat \<Rightarrow> nat \<Rightarrow> unit res \<times> store" where
  "put_deferred s key val t1 t2 = put_with s key val ReachBuffer t1 t2"

definition delete_with :: "store \<Rightarrow> bytes \<Rightarrow> reach \<Rightarrow> nat \<Rightarrow> nat \<Rightarrow> bool res \<times> store" where
  "delete_with s key reach t1 t2 =
     (if st_restoring s then (Inl restore_in_progress, s)
      else if map_of (st_keydir s) key = None then (Inr False, s)
      else case encode_record key None t1 of
        Inl e \<Rightarrow> (Inl e, s)
      | Inr bs \<Rightarrow> (case roll_if_needed s (length bs) of
          (Inl e, s) \<Rightarrow> (Inl e, s)
        | (Inr _, s) \<Rightarrow> (case log_append (st_writer s) bs reach (st_fs s) of
            (Inl e, w, d) \<Rightarrow> (Inl e, s\<lparr> st_writer := w, st_fs := d \<rparr>)
          | (Inr (offset, len), w, d) \<Rightarrow>
              let s = s\<lparr> st_writer := w, st_fs := d,
                         st_active_hints := st_active_hints s @
                           [\<lparr> he_key = key, he_offset = offset, he_len = len, he_tstamp = t2,
                              he_tombstone = True \<rparr>],
                         st_disk_bytes := st_disk_bytes s + len \<rparr>
              in (Inr True, unindex key s))))"

definition store_delete :: "store \<Rightarrow> bytes \<Rightarrow> nat \<Rightarrow> nat \<Rightarrow> bool res \<times> store" where
  "store_delete s key t1 t2 = delete_with s key (store_reach s) t1 t2"

definition delete_deferred :: "store \<Rightarrow> bytes \<Rightarrow> nat \<Rightarrow> nat \<Rightarrow> bool res \<times> store" where
  "delete_deferred s key t1 t2 = delete_with s key ReachBuffer t1 t2"

definition store_sync :: "store \<Rightarrow> unit res \<times> store" where
  "store_sync s = (case log_sync (st_writer s) (st_fs s) of
     (r, w, d) \<Rightarrow> (r, s\<lparr> st_writer := w, st_fs := d \<rparr>))"

text \<open>Dropping a store drops its writer, which hands its buffer to the kernel.\<close>

definition store_close :: "store \<Rightarrow> fs" where
  "store_close s = log_drop (st_writer s) (st_fs s)"

definition contains_key :: "store \<Rightarrow> bytes \<Rightarrow> bool" where
  "contains_key s key \<longleftrightarrow> map_of (st_keydir s) key \<noteq> None"

definition store_keys :: "store \<Rightarrow> bytes list" where
  "store_keys s = adom (st_keydir s)"

definition store_len :: "store \<Rightarrow> nat" where
  "store_len s = length (st_keydir s)"

definition store_is_empty :: "store \<Rightarrow> bool" where
  "store_is_empty s \<longleftrightarrow> st_keydir s = []"

definition store_stats :: "store \<Rightarrow> stats" where
  "store_stats s = \<lparr> sts_keys = length (st_keydir s), sts_files = length (st_readers s),
     sts_live_bytes = st_live_bytes s, sts_disk_bytes = st_disk_bytes s \<rparr>"

section \<open>Durability\<close>

definition append_point :: "store \<Rightarrow> nat \<times> nat" where
  "append_point s = (lw_file_id (st_writer s), lw_offset (st_writer s))"

text \<open>A \<^verbatim>\<open>SyncHandle\<close> is the file it can sync and the point it will have made durable.\<close>

definition sync_handle :: "store \<Rightarrow> (nat \<times> (nat \<times> nat)) res \<times> store" where
  "sync_handle s = (case log_flush (st_writer s) (st_fs s) of
      (Inl e, w, d) \<Rightarrow> (Inl e, s\<lparr> st_writer := w, st_fs := d \<rparr>)
    | (Inr _, w, d) \<Rightarrow>
        let s = s\<lparr> st_writer := w, st_fs := d \<rparr> in (Inr (lw_file_id w, append_point s), s))"

definition sync_handle_sync :: "nat \<times> (nat \<times> nat) \<Rightarrow> fs \<Rightarrow> (nat \<times> nat) io" where
  "sync_handle_sync h d = io_bind (fs_sync (data_file_name (fst h)) d) (\<lambda>_ d. (Inr (snd h), d))"

definition note_synced :: "store \<Rightarrow> nat \<times> nat \<Rightarrow> store" where
  "note_synced s point =
     (if fst point = lw_file_id (st_writer s) \<and> snd point > lw_synced (st_writer s)
      then s\<lparr> st_writer := (st_writer s)\<lparr> lw_synced := snd point \<rparr> \<rparr> else s)"

definition is_synced :: "store \<Rightarrow> bool" where
  "is_synced s \<longleftrightarrow> lw_synced (st_writer s) = lw_offset (st_writer s)"

fun cut_files :: "(nat \<times> nat) list \<Rightarrow> fs \<Rightarrow> unit io" where
  "cut_files [] d = (Inr (), d)"
| "cut_files ((i, synced) # cs) d =
     (if fs_exists (data_file_name i) d then
        io_bind (fs_len (data_file_name i) d) (\<lambda>n d.
        io_bind (fs_set_len (data_file_name i) (min n synced) d) (\<lambda>_ d. cut_files cs d))
      else cut_files cs d)"

definition simulate_power_cut :: "store \<Rightarrow> unit io" where
  "simulate_power_cut s =
     (let cut = st_sealed_synced s @ [(lw_file_id (st_writer s), lw_synced (st_writer s))];
          w = log_discard_buffer (st_writer s)
      in cut_files cut (log_drop w (st_fs s)))"

section \<open>Compaction\<close>

definition remove_data_file :: "nat \<Rightarrow> fs \<Rightarrow> unit io" where
  "remove_data_file i d =
     io_bind (if fs_exists (hint_name i) d then fs_remove (hint_name i) d else (Inr (), d)) (\<lambda>_ d.
     if fs_exists (data_file_name i) d then fs_remove (data_file_name i) d else (Inr (), d))"

text \<open>The loop that drops replaced files: each leaves the table of readers before it is unlinked.\<close>

fun drop_files :: "nat list \<Rightarrow> store \<Rightarrow> unit res \<times> store" where
  "drop_files [] s = (Inr (), s)"
| "drop_files (i # is) s =
     (let s = s\<lparr> st_readers := removeAll i (st_readers s),
                 st_sealed_synced := AList.delete i (st_sealed_synced s) \<rparr>
      in case remove_data_file i (st_fs s) of
        (Inl e, d) \<Rightarrow> (Inl e, s\<lparr> st_fs := d \<rparr>)
      | (Inr _, d) \<Rightarrow> drop_files is (s\<lparr> st_fs := d \<rparr>))"

record merge_acc =
  mg_keydir :: "(bytes \<times> location) list"
  mg_hints :: "hint_entry list"
  mg_bytes :: nat

fun merge_entries ::
  "nat list \<Rightarrow> (bytes \<times> location) list \<Rightarrow> merge_acc \<Rightarrow> log_writer \<Rightarrow> fs
   \<Rightarrow> merge_acc res \<times> log_writer \<times> fs" where
  "merge_entries readers [] m w d = (Inr m, w, d)"
| "merge_entries readers ((key, loc) # es) m w d =
     (if loc_file_id loc \<notin> set readers then (Inl (not_open loc), w, d)
      else case read_at (loc_file_id loc) (loc_offset loc) (loc_len loc) d of
        (Inl e, d) \<Rightarrow> (Inl e, w, d)
      | (Inr bs, d) \<Rightarrow> (case log_append w bs ReachBuffer d of
          (Inl e, w, d) \<Rightarrow> (Inl e, w, d)
        | (Inr (offset, len), w, d) \<Rightarrow>
            merge_entries readers es
              (m\<lparr> mg_bytes := mg_bytes m + len,
                  mg_hints := mg_hints m @ [\<lparr> he_key = key, he_offset = offset, he_len = len,
                    he_tstamp = loc_tstamp loc, he_tombstone = False \<rparr>],
                  mg_keydir := AList.update key \<lparr> loc_file_id = lw_file_id w, loc_offset = offset,
                    loc_len = len, loc_tstamp = loc_tstamp loc \<rparr> (mg_keydir m) \<rparr>) w d))"

definition loc_key :: "bytes \<times> location \<Rightarrow> nat \<times> nat" where
  "loc_key e = (loc_file_id (snd e), loc_offset (snd e))"

text \<open>A writer that is local to \<open>store_compact\<close> is dropped when it returns early.\<close>

definition store_compact :: "(nat list \<Rightarrow> nat list) \<Rightarrow> store \<Rightarrow> compact_report res \<times> store" where
  "store_compact ord s =
     (if st_compacting s \<or> st_restoring s then (Inl compaction_in_progress, s)
      else case log_flush (st_writer s) (st_fs s) of
        (Inl e, w, d) \<Rightarrow> (Inl e, s\<lparr> st_writer := w, st_fs := d \<rparr>)
      | (Inr _, w, d) \<Rightarrow>
          let s = s\<lparr> st_writer := w, st_fs := d \<rparr>;
              before = store_stats s;
              old_ids = ord (st_readers s);
              merged_id = Max (insert 0 (set old_ids)) + 1;
              entries = sort_key loc_key (st_keydir s)
          in case log_writer_open merged_id d of
            (Inl e, d) \<Rightarrow> (Inl e, s\<lparr> st_fs := d \<rparr>)
          | (Inr wm, d) \<Rightarrow> (case merge_entries (st_readers s) entries
                 \<lparr> mg_keydir = [], mg_hints = [], mg_bytes = 0 \<rparr> wm d of
              (Inl e, wm, d) \<Rightarrow> (Inl e, s\<lparr> st_fs := log_drop wm d \<rparr>)
            | (Inr m, wm, d) \<Rightarrow> (case log_sync wm d of
                (Inl e, wm, d) \<Rightarrow> (Inl e, s\<lparr> st_fs := log_drop wm d \<rparr>)
              | (Inr _, wm, d) \<Rightarrow>
                  let d = snd (hint_write merged_id (lw_offset wm) (mg_hints m) d) in
                  case drop_files old_ids (s\<lparr> st_fs := d \<rparr>) of
                    (Inl e, s) \<Rightarrow> (Inl e, s\<lparr> st_fs := log_drop wm (st_fs s) \<rparr>)
                  | (Inr _, s) \<Rightarrow> (case fs_open (data_file_name merged_id) (st_fs s) of
                      (Inl e, d) \<Rightarrow> (Inl e, s\<lparr> st_fs := log_drop wm d \<rparr>)
                    | (Inr _, d) \<Rightarrow>
                        (Inr \<lparr> cr_files_before = sts_files before,
                               cr_bytes_before = sts_disk_bytes before,
                               cr_bytes_after = mg_bytes m \<rparr>,
                         s\<lparr> st_readers := readers_insert merged_id (st_readers s),
                            st_keydir := mg_keydir m, st_active_hints := mg_hints m,
                            st_writer := wm, st_live_bytes := mg_bytes m,
                            st_disk_bytes := mg_bytes m,
                            st_fs := log_drop (st_writer s) d \<rparr>)))))"

end
