(* ===== verification/StoreInv.thy ===== *)
theory StoreInv
  imports Store
begin

text \<open>
  What a store represents. The specification of a directory is a history: for each data file, in
  ascending order of id, the records it holds. Replaying a history gives a map from keys to values,
  and, with the position of each record, an index. \<open>kd_repr\<close> relates an index and its running totals to
  the positions replayed so far, and is what every operation that touches the index keeps;
  \<open>store_repr\<close> relates a whole store to its history. Shown here: a read of a represented store returns
  exactly what the history says.
\<close>

section \<open>Histories\<close>

type_synonym pos = "nat \<times> nat \<times> nat"
type_synonym hist = "(nat \<times> krec list) list"

fun locs :: "nat \<Rightarrow> nat \<Rightarrow> krec list \<Rightarrow> (krec \<times> pos) list" where
  "locs i off [] = []"
| "locs i off (r # rs) = (r, i, off, length (rec_bytes r)) # locs i (off + length (rec_bytes r)) rs"

definition plocs :: "hist \<Rightarrow> (krec \<times> pos) list" where
  "plocs L = concat (map (\<lambda>(i, rs). locs i 0 rs) L)"

definition hist_recs :: "hist \<Rightarrow> krec list" where
  "hist_recs L = concat (map snd L)"

text \<open>Replay: the newest record of a key decides.\<close>

definition kv_of :: "krec list \<Rightarrow> (bytes \<Rightarrow> bytes option)" where
  "kv_of rs = foldl (\<lambda>m r. m(rkey r := rval r)) (\<lambda>_. None) rs"

definition idx_of :: "(krec \<times> pos) list \<Rightarrow> (bytes \<Rightarrow> (krec \<times> pos) option)" where
  "idx_of ps = foldl (\<lambda>m p. m(rkey (fst p) := (if rval (fst p) = None then None else Some p)))
     (\<lambda>_. None) ps"

definition hist_kv :: "hist \<Rightarrow> (bytes \<Rightarrow> bytes option)" where
  "hist_kv L = kv_of (hist_recs L)"

text \<open>A record the store can index: its length fits the four bytes an index entry has for it.\<close>

definition rec_small :: "krec \<Rightarrow> bool" where
  "rec_small r \<longleftrightarrow> rec_ok r \<and> length (rec_bytes r) < 2 ^ 32"

lemma rec_small_ok [simp]: "rec_small r \<Longrightarrow> rec_ok r"
  by (simp add: rec_small_def)

lemma rec_small_len [simp]: "rec_small r \<Longrightarrow> as_u32 (length (rec_bytes r)) = length (rec_bytes r)"
  by (simp add: rec_small_def as_u32_def)

lemma locs_append [simp]: "locs i off (rs @ rs') = locs i off rs @ locs i (off + length (recs_bytes rs)) rs'"
  by (induction rs arbitrary: off) (simp_all add: add.assoc)

lemma map_fst_locs [simp]: "map fst (locs i off rs) = rs"
  by (induction rs arbitrary: off) simp_all

lemma plocs_append [simp]: "plocs (L @ M) = plocs L @ plocs M"
  by (simp add: plocs_def)

lemma plocs_Nil [simp]: "plocs [] = []" and plocs_one [simp]: "plocs [(i, rs)] = locs i 0 rs"
  by (simp_all add: plocs_def)

lemma plocs_Cons: "plocs ((i, rs) # L) = locs i 0 rs @ plocs L"
  by (simp add: plocs_def)

lemma map_fst_plocs [simp]: "map fst (plocs L) = hist_recs L"
  by (induction L) (auto simp: plocs_def hist_recs_def)

lemma hist_recs_append [simp]: "hist_recs (L @ M) = hist_recs L @ hist_recs M"
  by (simp add: hist_recs_def)

lemma hist_recs_Nil [simp]: "hist_recs [] = []" and hist_recs_one [simp]: "hist_recs [(i, rs)] = rs"
  by (simp_all add: hist_recs_def)

lemma kv_of_snoc [simp]: "kv_of (rs @ [r]) = (kv_of rs)(rkey r := rval r)"
  by (simp add: kv_of_def)

lemma idx_of_snoc [simp]:
  "idx_of (ps @ [p]) = (idx_of ps)(rkey (fst p) := (if rval (fst p) = None then None else Some p))"
  by (simp add: idx_of_def)

lemma idx_of_Nil [simp]: "idx_of [] = (\<lambda>_. None)" and kv_of_Nil [simp]: "kv_of [] = (\<lambda>_. None)"
  by (simp_all add: idx_of_def kv_of_def)

lemma kv_of_idx: "kv_of (map fst ps) k = (case idx_of ps k of None \<Rightarrow> None | Some p \<Rightarrow> rval (fst p))"
  by (induction ps rule: rev_induct) (auto split: option.splits)

lemma idx_of_Some: "idx_of ps k = Some p \<Longrightarrow> p \<in> set ps \<and> rkey (fst p) = k \<and> rval (fst p) \<noteq> None"
  by (induction ps rule: rev_induct) (auto split: if_splits)

lemma hist_kv_idx: "hist_kv L k = (case idx_of (plocs L) k of None \<Rightarrow> None | Some p \<Rightarrow> rval (fst p))"
  using kv_of_idx [of "plocs L" k] by (simp add: hist_kv_def)

text \<open>Where a record lies in the bytes of its file.\<close>

lemma locs_split:
  assumes "(r, p) \<in> set (locs i off rs)"
  shows "\<exists>rs1 rs2. rs = rs1 @ r # rs2 \<and> p = (i, off + length (recs_bytes rs1), length (rec_bytes r))"
  using assms
proof (induction rs arbitrary: off)
  case Nil
  then show ?case by simp
next
  case (Cons a rs)
  show ?case
  proof (cases "(r, p) = (a, i, off, length (rec_bytes a))")
    case True
    then show ?thesis by (intro exI [of _ "[]"] exI [of _ rs]) auto
  next
    case False
    with Cons.prems have "(r, p) \<in> set (locs i (off + length (rec_bytes a)) rs)" by auto
    from Cons.IH [OF this] obtain rs1 rs2 where
      "rs = rs1 @ r # rs2" "p = (i, off + length (rec_bytes a) + length (recs_bytes rs1), length (rec_bytes r))"
      by blast
    then show ?thesis by (intro exI [of _ "a # rs1"] exI [of _ rs2]) auto
  qed
qed

lemma locs_slice:
  assumes "(r, i', o', n) \<in> set (locs i 0 rs)"
  shows "i' = i" and "n = length (rec_bytes r)" and "o' + n \<le> length (recs_bytes rs)"
    and "slice o' (o' + n) (recs_bytes rs @ t) = rec_bytes r"
proof -
  obtain rs1 rs2 where "rs = rs1 @ r # rs2" "i' = i" "o' = length (recs_bytes rs1)"
    "n = length (rec_bytes r)"
    using locs_split [OF assms] by auto
  then show "i' = i" "n = length (rec_bytes r)" "o' + n \<le> length (recs_bytes rs)"
    "slice o' (o' + n) (recs_bytes rs @ t) = rec_bytes r"
    by (simp_all add: slice_middle)
qed

lemma plocs_in:
  assumes "(r, i, o', n) \<in> set (plocs L)"
  shows "\<exists>rs. (i, rs) \<in> set L \<and> (r, i, o', n) \<in> set (locs i 0 rs)"
proof -
  from assms obtain j rs where "(j, rs) \<in> set L" "(r, i, o', n) \<in> set (locs j 0 rs)"
    by (auto simp: plocs_def)
  with locs_slice(1) show ?thesis by metis
qed

section \<open>The index\<close>

definition loc_pos :: "location \<Rightarrow> pos" where
  "loc_pos l = (loc_file_id l, loc_offset l, loc_len l)"

definition pos_len :: "krec \<times> pos \<Rightarrow> nat" where
  "pos_len p = snd (snd (snd p))"

definition kd_live :: "(bytes \<times> location) list \<Rightarrow> nat" where
  "kd_live kd = sum_list (map (\<lambda>e. loc_len (snd e)) kd)"

definition kd_repr :: "(bytes \<times> location) list \<Rightarrow> nat \<Rightarrow> nat \<Rightarrow> (krec \<times> pos) list \<Rightarrow> bool" where
  "kd_repr kd live disk ps \<longleftrightarrow> distinct (adom kd) \<and> live = kd_live kd \<and> live \<le> disk \<and>
     disk = sum_list (map pos_len ps) \<and> (\<forall>e \<in> set kd. loc_tstamp (snd e) < 2 ^ 64) \<and>
     (\<forall>k. map_option loc_pos (map_of kd k) = map_option snd (idx_of ps k))"

lemma kd_repr_Nil [simp]: "kd_repr [] 0 0 []"
  by (simp add: kd_repr_def kd_live_def)

text \<open>Taking a key out of the index and its length off the live bytes, as every write does.\<close>

definition kd_remove :: "bytes \<Rightarrow> (bytes \<times> location) list \<times> nat \<Rightarrow> (bytes \<times> location) list \<times> nat" where
  "kd_remove k c = (case map_of (fst c) k of
      Some old \<Rightarrow> (AList.delete k (fst c), snd c - loc_len old)
    | None \<Rightarrow> c)"

lemma kd_remove_live:
  assumes "distinct (adom kd)" and "kd_remove k (kd, kd_live kd) = (kd', live')"
  shows "distinct (adom kd')" and "live' = kd_live kd'" and "map_of kd' = (map_of kd)(k := None)"
    and "k \<notin> set (adom kd')" and "live' \<le> kd_live kd" and "set kd' \<subseteq> set kd"
proof -
  show "set kd' \<subseteq> set kd"
    using assms(2) by (auto simp: kd_remove_def AList.delete_eq split: option.splits)
  show "live' \<le> kd_live kd"
    using assms(2) by (auto simp: kd_remove_def split: option.splits)
  have *: "distinct (adom kd') \<and> live' = kd_live kd' \<and> map_of kd' = (map_of kd)(k := None)"
  proof (cases "map_of kd k")
    case None
    with assms show ?thesis by (auto simp: kd_remove_def)
  next
    case (Some old)
    with sum_list_alist_delete [OF assms(1) Some, of "\<lambda>e. loc_len (snd e)"] assms show ?thesis
      by (auto simp: kd_remove_def kd_live_def)
  qed
  then show "distinct (adom kd')" "live' = kd_live kd'" "map_of kd' = (map_of kd)(k := None)"
    by simp_all
  with * show "k \<notin> set (adom kd')" by (metis adom_map_of fun_upd_same option.distinct(1))
qed

lemma kd_repr_tombstone:
  assumes "kd_repr kd live disk ps" and "kd_remove (rkey r) (kd, live) = (kd', live')" and "rval r = None"
  shows "kd_repr kd' live' (disk + n) (ps @ [(r, i, off, n)])"
  using assms kd_remove_live [of kd "rkey r" kd' live'] by (auto simp: kd_repr_def pos_len_def)

lemma kd_repr_put:
  assumes "kd_repr kd live disk ps" and "kd_remove (rkey r) (kd, live) = (kd', live')"
    and "rval r = Some v" and "loc_pos loc = (i, off, n)"
    and "loc_tstamp loc < 2 ^ 64"
  shows "kd_repr (AList.update (rkey r) loc kd') (live' + n) (disk + n) (ps @ [(r, i, off, n)])"
proof -
  note k = kd_remove_live [of kd "rkey r" kd' live']
  have "loc_len loc = n" using assms(4) by (simp add: loc_pos_def)
  moreover have "\<forall>e \<in> set (AList.update (rkey r) loc kd'). loc_tstamp (snd e) < 2 ^ 64"
    using assms(1,2,5) k(6) set_update_subset [of "rkey r" loc kd'] by (fastforce simp: kd_repr_def)
  ultimately show ?thesis
    using assms k sum_list_alist_update_new [of "rkey r" kd' "\<lambda>e. loc_len (snd e)" loc]
    by (simp add: kd_repr_def pos_len_def kd_live_def)
qed

lemma kd_repr_lookup:
  assumes "kd_repr kd live disk ps" and "map_of kd k = Some loc"
  shows "\<exists>r. idx_of ps k = Some (r, loc_pos loc)"
proof -
  have "map_option loc_pos (map_of kd k) = map_option snd (idx_of ps k)"
    using assms(1) by (simp add: kd_repr_def)
  with assms(2) show ?thesis by (cases "idx_of ps k") auto
qed

lemma kd_repr_None:
  assumes "kd_repr kd live disk ps"
  shows "map_of kd k = None \<longleftrightarrow> idx_of ps k = None"
proof -
  have "map_option loc_pos (map_of kd k) = map_option snd (idx_of ps k)"
    using assms by (simp add: kd_repr_def)
  then show ?thesis by (metis option.map_disc_iff)
qed

section \<open>Directories\<close>

text \<open>An entry of a hint, or of the running list of the active file, says of a record what the index
  needs: its key, where it is, and whether it is a tombstone.\<close>

definition hint_of :: "krec \<times> pos \<Rightarrow> hint_entry \<Rightarrow> bool" where
  "hint_of p e \<longleftrightarrow> he_key e = rkey (fst p) \<and> (he_offset e, he_len e) = snd (snd p) \<and>
     he_tombstone e = (rval (fst p) = None)"

definition hint_desc :: "nat \<Rightarrow> krec list \<Rightarrow> hint_entry list \<Rightarrow> bool" where
  "hint_desc i rs es \<longleftrightarrow> list_all2 hint_of (locs i 0 rs) es \<and> list_all hint_entry_ok es"

text \<open>The hint beside data file \<open>i\<close>, if it loads at all, describes a prefix of the records; with \<open>b\<close>, of
  those that are on the disk, and is on the disk itself.\<close>

definition hint_true :: "bool \<Rightarrow> fs \<Rightarrow> nat \<Rightarrow> krec list \<Rightarrow> bool" where
  "hint_true b d i rs \<longleftrightarrow> (\<forall>f. fs_file d (hint_name i) = Some f \<longrightarrow> (b \<longrightarrow> fsynced f = length (fdata f)) \<and>
     (\<forall>n es m. hint_decode (fdata f) n = Some (es, m) \<longrightarrow>
        (\<exists>rs1 rs2. rs = rs1 @ rs2 \<and> hint_desc i rs1 es \<and> m = length (recs_bytes rs1) \<and>
           (b \<longrightarrow> m \<le> synced_of d (data_file_name i)))))"

text \<open>The names in the directory: every data file is one of the history, every hint has its data file,
  and names that parse are in the form the store writes.\<close>

definition name_ok :: "nat set \<Rightarrow> string \<Rightarrow> bool" where
  "name_ok ids n \<longleftrightarrow> (\<forall>i. (id_of_name ''log'' n = Some i \<longrightarrow> n = data_file_name i \<and> i \<in> ids) \<and>
     (id_of_name ''hint'' n = Some i \<longrightarrow> n = hint_name i \<and> i \<in> ids))"

definition dir_names :: "fs \<Rightarrow> nat set \<Rightarrow> bool" where
  "dir_names d ids \<longleftrightarrow> (\<forall>n. fs_file d n \<noteq> None \<longrightarrow> name_ok ids n)"

text \<open>A sealed file holds exactly its records; with \<open>b\<close>, all of it is on the disk.\<close>

definition sealed_holds :: "bool \<Rightarrow> fs \<Rightarrow> nat \<Rightarrow> krec list \<Rightarrow> bool" where
  "sealed_holds b d i rs \<longleftrightarrow> (\<exists>f. fs_file d (data_file_name i) = Some f \<and> fdata f = recs_bytes rs \<and>
     fsynced f \<le> length (fdata f) \<and> (b \<longrightarrow> fsynced f = length (fdata f)))"

definition hist_ok :: "hist \<Rightarrow> bool" where
  "hist_ok L \<longleftrightarrow> sorted_wrt (<) (adom L) \<and>
     (\<forall>(i, rs) \<in> set L. i \<le> u64_max \<and> list_all rec_small rs \<and> length (recs_bytes rs) \<le> u64_max)"

section \<open>Stores\<close>

text \<open>\<open>store_repr b s L i rs\<close>: the store's sealed files hold the history \<open>L\<close>, its active file \<open>i\<close> the records
  \<open>rs\<close>, of which the last may still be in the writer's buffer.\<close>

definition store_repr :: "bool \<Rightarrow> store \<Rightarrow> hist \<Rightarrow> nat \<Rightarrow> krec list \<Rightarrow> bool" where
  "store_repr b s L i rs \<longleftrightarrow>
     fs_ok (st_fs s) \<and> hist_ok (L @ [(i, rs)]) \<and> dir_names (st_fs s) (set (adom L) \<union> {i}) \<and>
     lw_file_id (st_writer s) = i \<and> log_holds b (st_writer s) (st_fs s) rs \<and>
     (\<forall>(j, js) \<in> set L. sealed_holds b (st_fs s) j js) \<and>
     (\<forall>(j, js) \<in> set (L @ [(i, rs)]). hint_true b (st_fs s) j js) \<and>
     distinct (st_readers s) \<and> set (st_readers s) = set (adom L) \<union> {i} \<and>
     kd_repr (st_keydir s) (st_live_bytes s) (st_disk_bytes s) (plocs (L @ [(i, rs)])) \<and>
     hint_desc i rs (st_active_hints s)"

lemma hist_ok_rec: "hist_ok L \<Longrightarrow> (r, p) \<in> set (plocs L) \<Longrightarrow> rec_small r"
proof -
  assume L: "hist_ok L" and "(r, p) \<in> set (plocs L)"
  then have "r \<in> set (hist_recs L)" by (metis map_fst_plocs fst_conv image_eqI list.set_map)
  with L show ?thesis by (auto simp: hist_ok_def hist_recs_def list_all_iff)
qed

lemma hist_ok_distinct: "hist_ok L \<Longrightarrow> distinct (adom L)"
  by (simp add: hist_ok_def strict_sorted_iff)

lemma store_reprD:
  assumes "store_repr b s L i rs"
  shows "fs_ok (st_fs s)" and "hist_ok (L @ [(i, rs)])"
    and "dir_names (st_fs s) (set (adom L) \<union> {i})"
    and "lw_file_id (st_writer s) = i" and "log_holds b (st_writer s) (st_fs s) rs"
    and "\<And>j js. (j, js) \<in> set L \<Longrightarrow> sealed_holds b (st_fs s) j js"
    and "\<And>j js. (j, js) \<in> set (L @ [(i, rs)]) \<Longrightarrow> hint_true b (st_fs s) j js"
    and "distinct (st_readers s)" and "set (st_readers s) = set (adom L) \<union> {i}"
    and "kd_repr (st_keydir s) (st_live_bytes s) (st_disk_bytes s) (plocs (L @ [(i, rs)]))"
    and "hint_desc i rs (st_active_hints s)"
  using assms unfolding store_repr_def by blast+

section \<open>Reading\<close>

lemma decode_value_rec:
  assumes "rec_ok r" and "rval r = Some v"
  shows "decode_value (rec_bytes r) loc = Inr v"
proof -
  have d: "header_decode (take HEADER_LEN (rec_bytes r)) = rec_header r"
    using decode_rec_bytes [OF assms(1), of "[]"] by simp
  have "drop (HEADER_LEN + length (rkey r)) (rec_bytes r) = rpayload r"
    and "slice HEADER_LEN (HEADER_LEN + length (rkey r)) (rec_bytes r) = rkey r"
    by (simp_all add: rec_bytes_def slice_def)
  then show ?thesis
    using assms(2) by (simp add: decode_value_def d Let_def not_less) (simp add: rpayload_def)
qed

text \<open>The bytes of a record in a represented file are found through the index, in the writer's buffer or
  in the file.\<close>

lemma log_read:
  assumes "log_holds b w d rs" and "fs_ok d" and "(r, j, o', n) \<in> set (locs i 0 rs)"
    and "lw_file_id w = i"
  shows "case log_buffered w o' n of Some bs \<Rightarrow> bs = rec_bytes r
    | None \<Rightarrow> read_at i o' n d = (Inr (rec_bytes r), d)"
proof -
  from assms(1) obtain f rs1 rs2 where f: "fs_file d (lw_name w) = Some f" "rs = rs1 @ rs2"
    "fdata f = recs_bytes rs1" "lw_pending w = recs_bytes rs2" "lw_written w = length (recs_bytes rs1)"
    by (auto simp: log_holds_def)
  note sl = locs_slice [OF assms(3)]
  consider "(r, j, o', n) \<in> set (locs i 0 rs1)" | "(r, j, o', n) \<in> set (locs i (length (recs_bytes rs1)) rs2)"
    using assms(3) f(2) by auto
  then show ?thesis
  proof cases
    case 1
    note s1 = locs_slice [OF 1]
    have "n > 0" using s1(2) by simp
    then have "log_buffered w o' n = None" using s1(3) f(5) by (simp add: log_buffered_None)
    moreover have "read_at i o' n d = (Inr (rec_bytes r), d)"
      using read_at_ok [OF assms(2), of i f o' n] f(1,3) assms(4) s1(3) s1(4) [of "[]"] by simp
    ultimately show ?thesis by simp
  next
    case 2
    from locs_split [OF 2] have "length (recs_bytes rs1) \<le> o'" by auto
    then have "log_buffered w o' n = Some (slice o' (o' + n) (recs_bytes rs1 @ lw_pending w))"
      using sl(3) f by (intro log_buffered_Some) auto
    with sl(4) [of "[]"] f show ?thesis by simp
  qed
qed

lemma sealed_read:
  assumes "sealed_holds b d i rs" and "fs_ok d" and "(r, j, o', n) \<in> set (locs i 0 rs)"
  shows "read_at i o' n d = (Inr (rec_bytes r), d)"
proof -
  obtain f where "fs_file d (data_file_name i) = Some f" "fdata f = recs_bytes rs"
    using assms(1) by (auto simp: sealed_holds_def)
  with read_at_ok [OF assms(2), of i f o' n] locs_slice(3) [OF assms(3)]
    locs_slice(4) [OF assms(3), of "[]"] show ?thesis by simp
qed

lemma store_get_repr:
  assumes "store_repr b s L i rs"
  shows "store_get s k = (Inr (hist_kv (L @ [(i, rs)]) k), st_fs s)"
proof (cases "map_of (st_keydir s) k")
  case None
  then have "idx_of (plocs (L @ [(i, rs)])) k = None"
    using kd_repr_None [OF store_reprD(10) [OF assms]] by simp
  with None hist_kv_idx [of "L @ [(i, rs)]" k] show ?thesis by (simp add: store_get_def)
next
  case (Some loc)
  note kd = store_reprD(10) [OF assms] and fs = store_reprD(1) [OF assms]
    and w = store_reprD(5,4) [OF assms] and ok = store_reprD(2) [OF assms]
    and rd = store_reprD(9) [OF assms]
  from kd_repr_lookup [OF kd Some] obtain r where
    r: "idx_of (plocs (L @ [(i, rs)])) k = Some (r, loc_pos loc)" by blast
  then have in_p: "(r, loc_file_id loc, loc_offset loc, loc_len loc) \<in> set (plocs (L @ [(i, rs)]))"
    and "rval r \<noteq> None"
    using idx_of_Some [OF r] by (auto simp: loc_pos_def)
  then obtain v where v: "rval r = Some v" by auto
  have dec: "decode_value (rec_bytes r) loc = Inr v"
    using decode_value_rec [OF _ v] hist_ok_rec [OF ok in_p] by simp
  have kv: "hist_kv (L @ [(i, rs)]) k = Some v"
    using hist_kv_idx [of "L @ [(i, rs)]" k] r v by simp
  from plocs_in [OF in_p] obtain js where
    js: "(loc_file_id loc, js) \<in> set (L @ [(i, rs)])"
      "(r, loc_file_id loc, loc_offset loc, loc_len loc) \<in> set (locs (loc_file_id loc) 0 js)" by blast
  have reader: "loc_file_id loc \<in> set (st_readers s)" using js(1) rd by force
  show ?thesis
  proof (cases "loc_file_id loc = i")
    case True
    then have "js = rs" using js(1) hist_ok_distinct [OF ok] by (force simp: image_iff)
    with log_read [OF w(1) fs, of r i "loc_offset loc" "loc_len loc" i] js(2) True w(2) Some dec kv reader
    show ?thesis
      by (auto simp: store_get_def read_value_def split: option.splits)
  next
    case False
    then have "(loc_file_id loc, js) \<in> set L" using js(1) by simp
    then have "sealed_holds b (st_fs s) (loc_file_id loc) js" using assms by (auto simp: store_repr_def)
    from sealed_read [OF this fs js(2)] False w(2) Some dec kv reader show ?thesis
      by (simp add: store_get_def read_value_def)
  qed
qed

end
