(* ===== verification/StoreWrite.thy ===== *)
theory StoreWrite
  imports StoreInv
begin

text \<open>
  Writes keep the invariant. Each operation of the store on a working device is shown to keep
  \<open>store_repr\<close> and to append exactly its own record to the history; the rollover to a new data file
  changes how the history is split over files and nothing else. \<open>store_log\<close> forgets the split, and the
  properties are stated over it.
\<close>

section \<open>Frames\<close>

lemma sealed_holds_frame:
  "sealed_holds b d j js \<Longrightarrow> fs_file d' (data_file_name j) = fs_file d (data_file_name j) \<Longrightarrow>
   sealed_holds b d' j js"
  by (simp add: sealed_holds_def)

lemma hint_true_frame:
  assumes "hint_true b d j js" and "fs_file d' (hint_name j) = fs_file d (hint_name j)"
    and "synced_of d (data_file_name j) \<le> synced_of d' (data_file_name j)"
  shows "hint_true b d' j (js @ ks)"
  unfolding hint_true_def
proof (intro allI impI conjI)
  fix f n es m
  assume f: "fs_file d' (hint_name j) = Some f" and "hint_decode (fdata f) n = Some (es, m)"
  then obtain rs1 rs2 where "js = rs1 @ rs2" "hint_desc j rs1 es" "m = length (recs_bytes rs1)"
    "b \<longrightarrow> m \<le> synced_of d (data_file_name j)"
    using assms(1,2) unfolding hint_true_def by metis
  with assms(3) show "\<exists>rs1 rs2. js @ ks = rs1 @ rs2 \<and> hint_desc j rs1 es \<and> m = length (recs_bytes rs1) \<and>
      (b \<longrightarrow> m \<le> synced_of d' (data_file_name j))"
    by (intro exI [of _ rs1] exI [of _ "rs2 @ ks"]) auto
next
  fix f
  assume "fs_file d' (hint_name j) = Some f" and b
  with assms(1,2) show "fsynced f = length (fdata f)" by (simp add: hint_true_def)
qed

lemmas hint_true_frame_same = hint_true_frame [where ks = "[]", simplified]

lemma dir_names_frame:
  assumes "dir_names d ids" and "fs_frame N d d'" and "ids \<subseteq> ids'"
    and "\<And>n. n \<in> N \<Longrightarrow> fs_file d' n \<noteq> None \<Longrightarrow> name_ok ids' n"
  shows "dir_names d' ids'"
  unfolding dir_names_def
proof (intro allI impI)
  fix n
  assume n: "fs_file d' n \<noteq> None"
  show "name_ok ids' n"
  proof (cases "n \<in> N")
    case True
    with n assms(4) show ?thesis by blast
  next
    case False
    with n assms(1,2) have "name_ok ids n" by (simp add: dir_names_def fs_frame_file)
    with assms(3) show ?thesis by (auto simp: name_ok_def)
  qed
qed

lemma name_ok_names [simp]:
  "i \<in> ids \<Longrightarrow> i \<le> u64_max \<Longrightarrow> name_ok ids (data_file_name i)"
  "i \<in> ids \<Longrightarrow> i \<le> u64_max \<Longrightarrow> name_ok ids (hint_name i)"
  "name_ok ids (hint_name i @ ''.tmp'')"
  by (simp_all add: name_ok_def)

section \<open>Hints of the records so far\<close>

lemma hint_of_tiles:
  "list_all2 hint_of (locs i c rs) es \<Longrightarrow> hint_tiles c es (c + length (recs_bytes rs))"
proof (induction rs arbitrary: c es)
  case Nil
  then show ?case by simp
next
  case (Cons r rs)
  then obtain e es' where "es = e # es'" "hint_of (r, i, c, length (rec_bytes r)) e"
    "list_all2 hint_of (locs i (c + length (rec_bytes r)) rs) es'"
    by (auto simp: list_all2_Cons1)
  with Cons.IH [OF this(3)] show ?case
    by (simp add: hint_of_def add.assoc)
qed

lemma hint_desc_tiles: "hint_desc i rs es \<Longrightarrow> hint_tiles 0 es (length (recs_bytes rs))"
  using hint_of_tiles [of i 0 rs es] by (simp add: hint_desc_def)

lemma hint_desc_Nil [simp]: "hint_desc i [] es \<longleftrightarrow> es = []"
  by (auto simp: hint_desc_def)

lemma hint_desc_snoc:
  assumes "hint_desc i rs es" and "rec_small r" and "length (recs_bytes rs) + length (rec_bytes r) \<le> u64_max"
    and "t < 2 ^ 64"
  shows "hint_desc i (rs @ [r]) (es @ [\<lparr> he_key = rkey r, he_offset = length (recs_bytes rs),
    he_len = length (rec_bytes r), he_tstamp = t, he_tombstone = (rval r = None) \<rparr>])"
  using assms
  by (auto simp: hint_desc_def hint_of_def hint_entry_ok_def rec_small_def rec_ok_def
      intro!: list_all2_appendI)

text \<open>Writing the hint of synced records leaves a true hint and every other file as it was.\<close>

lemma hint_write_true:
  assumes "fs_ok d" and "hint_desc i rs es" and "length (recs_bytes rs) \<le> u64_max"
    and "b \<longrightarrow> length (recs_bytes rs) \<le> synced_of d (data_file_name i)"
  shows "\<exists>d'. hint_write i (length (recs_bytes rs)) es d = (Inr (), d') \<and> fs_ok d' \<and>
    hint_true b d' i rs \<and> fs_frame {hint_name i, hint_name i @ ''.tmp''} d d'"
proof -
  let ?n = "length (recs_bytes rs)"
  from write_atomically_ok [OF assms(1)] obtain d' where
    d': "hint_write i ?n es d = (Inr (), d')" "fs_ok d'"
      "fs_file d' (hint_name i) = Some \<lparr> fdata = hint_bytes ?n es, fsynced = length (hint_bytes ?n es) \<rparr>"
      "fs_frame {hint_name i, hint_name i @ ''.tmp''} d d'"
    unfolding hint_write_def by metis
  have same: "fs_file d' (data_file_name i) = fs_file d (data_file_name i)"
    using d'(4) by (rule fs_frame_file) simp
  have ok: "list_all hint_entry_ok es" and tiles: "hint_tiles 0 es ?n"
    using assms(2) hint_desc_tiles by (simp_all add: hint_desc_def)
  have "hint_true b d' i rs"
    unfolding hint_true_def d'(3)
  proof (intro allI impI conjI)
    fix f n es' m
    assume "Some \<lparr> fdata = hint_bytes ?n es, fsynced = length (hint_bytes ?n es) \<rparr> = Some f"
      and "hint_decode (fdata f) n = Some (es', m)"
    with hint_decode_only [OF ok tiles assms(3)] have "es' = es \<and> m = ?n" by auto
    with assms(2,4) same show "\<exists>rs1 rs2. rs = rs1 @ rs2 \<and> hint_desc i rs1 es' \<and> m = length (recs_bytes rs1) \<and>
        (b \<longrightarrow> m \<le> synced_of d' (data_file_name i))"
      by (intro exI [of _ rs] exI [of _ "[]"]) auto
  qed auto
  with d' show ?thesis by blast
qed

section \<open>Rolling over\<close>

definition rolled :: "hist \<Rightarrow> nat \<Rightarrow> krec list \<Rightarrow> hist \<Rightarrow> nat \<Rightarrow> krec list \<Rightarrow> bool" where
  "rolled L i rs L' i' rs' \<longleftrightarrow> (L', i', rs') = (L, i, rs) \<or> (L', i', rs') = (L @ [(i, rs)], i + 1, [])"

text \<open>Room for \<open>n\<close> more bytes: neither the offsets nor the file ids leave sixty-four bits. Every record
  has at least one byte, so one new file per byte is more than a run of writes can need.\<close>

definition store_room :: "store \<Rightarrow> nat \<Rightarrow> bool" where
  "store_room s n \<longleftrightarrow> lw_file_id (st_writer s) + n \<le> u64_max \<and> st_disk_bytes s + n \<le> u64_max"

lemma store_roomD:
  assumes "store_room s (length (rec_bytes r))"
  shows "lw_file_id (st_writer s) < u64_max" and "st_disk_bytes s + length (rec_bytes r) \<le> u64_max"
proof -
  have "0 < length (rec_bytes r)" by simp
  with assms show "lw_file_id (st_writer s) < u64_max" "st_disk_bytes s + length (rec_bytes r) \<le> u64_max"
    unfolding store_room_def by linarith+
qed

lemma sum_pos_len [simp]: "sum_list (map pos_len (locs i off rs)) = length (recs_bytes rs)"
  by (induction rs arbitrary: off) (simp_all add: pos_len_def)

lemma file_within_disk:
  "store_repr b s L i rs \<Longrightarrow> length (recs_bytes rs) \<le> st_disk_bytes s"
  using store_reprD(10) by (fastforce simp: kd_repr_def)

lemma hist_ok_less: "hist_ok (L @ [(i, rs)]) \<Longrightarrow> j \<in> set (adom L) \<Longrightarrow> j < i"
  by (auto simp: hist_ok_def sorted_wrt_append)

lemma hist_ok_less_in: "hist_ok (L @ [(i, rs)]) \<Longrightarrow> (j, js) \<in> set L \<Longrightarrow> j < i"
  using hist_ok_less by (metis fst_conv image_eqI list.set_map)

lemma hist_ok_new: "hist_ok (L @ [(i, rs)]) \<Longrightarrow> i < k \<Longrightarrow> k \<le> u64_max \<Longrightarrow> hist_ok (L @ [(i, rs), (k, [])])"
  by (auto simp: hist_ok_def sorted_wrt_append)

text \<open>Everything of a store that a write to the log leaves alone.\<close>

definition same_mode :: "store \<Rightarrow> store \<Rightarrow> bool" where
  "same_mode s s' \<longleftrightarrow> st_opts s' = st_opts s \<and> st_compacting s' = st_compacting s \<and>
     st_restoring s' = st_restoring s"

text \<open>Sealing: sync, write the hint, open the file with the next id. A rollover and the start of a
  compaction share it.\<close>

lemma seal_ok:
  assumes repr: "store_repr b s L i rs" and k: "i < k" "k \<le> u64_max"
  shows "\<exists>w1 d1 w2 d3. log_sync (st_writer s) (st_fs s) = (Inr (), w1, d1) \<and> lw_file_id w1 = i \<and>
    lw_offset w1 = length (recs_bytes rs) \<and> lw_pending w1 = [] \<and>
    log_writer_open k (snd (hint_write i (length (recs_bytes rs)) (st_active_hints s) d1)) = (Inr w2, d3) \<and>
    lw_file_id w2 = k \<and> lw_offset w2 = 0 \<and> lw_synced w2 = 0 \<and> lw_pending w2 = [] \<and> log_drop w1 d3 = d3 \<and>
    fs_ok d3 \<and> dir_names d3 (set (adom L) \<union> {i, k}) \<and> log_holds b w2 d3 [] \<and>
    (\<forall>(j, js) \<in> set (L @ [(i, rs)]). sealed_holds b d3 j js) \<and>
    (\<forall>(j, js) \<in> set (L @ [(i, rs), (k, [])]). hint_true b d3 j js)"
proof -
  note D = store_reprD [OF repr]
  obtain w1 d1 where 1: "log_sync (st_writer s) (st_fs s) = (Inr (), w1, d1)" "fs_ok d1"
    "log_holds b w1 d1 rs" "lw_pending w1 = []" "lw_file_id w1 = i" "lw_synced w1 = lw_offset w1"
    "fs_frame {data_file_name i} (st_fs s) d1"
    using log_sync_ok [OF D(1,5)] D(4) by auto
  obtain f where f: "fs_file d1 (data_file_name i) = Some f" "fdata f = recs_bytes rs"
    "lw_offset w1 = length (recs_bytes rs)" "fsynced f \<le> length (fdata f)"
    "b \<longrightarrow> fsynced f = length (fdata f)"
    using 1(3-6) by (auto simp: log_holds_def)
  have len: "length (recs_bytes rs) \<le> u64_max" and i: "i \<le> u64_max"
    using D(2) by (auto simp: hist_ok_def)
  obtain d2 where 2: "hint_write i (length (recs_bytes rs)) (st_active_hints s) d1 = (Inr (), d2)"
    "fs_ok d2" "hint_true b d2 i rs" "fs_frame {hint_name i, hint_name i @ ''.tmp''} d1 d2"
    using hint_write_true [OF 1(2) D(11) len, of b] f by auto
  have keep: "fs_file d2 n = fs_file (st_fs s) n" if "n \<notin> {data_file_name i, hint_name i, hint_name i @ ''.tmp''}" for n
    using that 1(7) 2(4) by (simp add: fs_frame_def)
  have newL: "j \<noteq> i" "j \<noteq> k" if "(j, js) \<in> set L" for j js
    using hist_ok_less_in [OF D(2) that] k(1) by auto
  have fresh: "fs_file d2 (data_file_name k) = None" and freshh: "fs_file d2 (hint_name k) = None"
  proof -
    have "k \<notin> set (adom L) \<union> {i}" using hist_ok_less [OF D(2), of k] k(1) by auto
    then have "fs_file (st_fs s) (data_file_name k) = None" "fs_file (st_fs s) (hint_name k) = None"
      using D(3) k(2) id_of_data_file_name [of k] id_of_hint_name(1) [of k]
      unfolding dir_names_def name_ok_def by blast+
    with keep k(1) show "fs_file d2 (data_file_name k) = None" "fs_file d2 (hint_name k) = None"
      by simp_all
  qed
  obtain w2 d3 where 3: "log_writer_open k d2 = (Inr w2, d3)" "fs_ok d3" "log_holds b w2 d3 []"
    "lw_file_id w2 = k" "lw_pending w2 = []" "lw_synced w2 = lw_offset w2" "fs_frame {data_file_name k} d2 d3"
    using log_writer_open_new [OF 2(2) fresh] by blast
  have keep3: "fs_file d3 n = fs_file d2 n" if "n \<noteq> data_file_name k" for n
    using that 3(7) by (simp add: fs_frame_def)
  have "dir_names d3 (set (adom L) \<union> {i, k})"
  proof (rule dir_names_frame [OF D(3)])
    show "fs_frame {data_file_name i, hint_name i, hint_name i @ ''.tmp'', data_file_name k} (st_fs s) d3"
      using keep keep3 by (simp add: fs_frame_def)
  qed (use i k in auto)
  moreover have "sealed_holds b d3 i rs"
    using f keep3 2(4) k(1) by (simp add: sealed_holds_def fs_frame_def)
  moreover have "sealed_holds b d3 j js" if "(j, js) \<in> set L" for j js
  proof (rule sealed_holds_frame [OF D(6) [OF that]])
    show "fs_file d3 (data_file_name j) = fs_file (st_fs s) (data_file_name j)"
      using keep keep3 newL [OF that] by simp
  qed
  moreover have "hint_true b d3 i rs"
    by (rule hint_true_frame_same [OF 2(3)]) (use keep3 k(1) in auto)
  moreover have "hint_true b d3 j js" if "(j, js) \<in> set L" for j js
    using keep keep3 that newL [OF that] by (intro hint_true_frame_same [OF D(7)]) auto
  moreover have "hint_true b d3 k []"
    using freshh keep3 [of "hint_name k"] by (simp add: hint_true_def)
  moreover have "lw_offset w2 = 0" using log_holds_offset [OF 3(3)] by simp
  moreover have "log_drop w1 d3 = d3" using 1(4) by (simp add: log_drop_def log_flush_def)
  ultimately show ?thesis
    using 1 2 3 f(3) by auto
qed

lemma roll_ok:
  assumes repr: "store_repr b s L i rs" and room: "i < u64_max"
  shows "\<exists>s' L' i' rs'. roll_if_needed s n = (Inr (), s') \<and> store_repr b s' L' i' rs' \<and>
    rolled L i rs L' i' rs' \<and> same_mode s s' \<and> st_disk_bytes s' = st_disk_bytes s \<and>
    st_keydir s' = st_keydir s"
proof (cases "lw_offset (st_writer s) = 0 \<or> lw_offset (st_writer s) + n \<le> opt_max_file_bytes (st_opts s)")
  case True
  then have "roll_if_needed s n = (Inr (), s)" by (simp add: roll_if_needed_def)
  with repr show ?thesis by (auto simp: rolled_def same_mode_def)
next
  case False
  note D = store_reprD [OF repr]
  have k: "i < i + 1" "i + 1 \<le> u64_max" using room by auto
  from seal_ok [OF repr k] obtain w1 d1 w2 d3 where
    1: "log_sync (st_writer s) (st_fs s) = (Inr (), w1, d1)" "lw_file_id w1 = i"
    "lw_offset w1 = length (recs_bytes rs)"
    "log_writer_open (i + 1) (snd (hint_write i (length (recs_bytes rs)) (st_active_hints s) d1)) = (Inr w2, d3)"
    "lw_file_id w2 = i + 1" "log_drop w1 d3 = d3"
    and R: "fs_ok d3" "dir_names d3 (set (adom L) \<union> {i, i + 1})" "log_holds b w2 d3 []"
    "\<forall>(j, js) \<in> set (L @ [(i, rs)]). sealed_holds b d3 j js"
    "\<forall>(j, js) \<in> set (L @ [(i, rs), (i + 1, [])]). hint_true b d3 j js"
    by blast
  have notin: "i + 1 \<notin> set (st_readers s)"
    using hist_ok_less [OF D(2), of "i + 1"] D(9) by auto
  have "fs_open (data_file_name (i + 1)) d3 = (Inr (), d3)"
    using R(1,3) 1(5) by (auto simp: fs_open_def log_holds_def fs_simps)
  then obtain s' where s': "roll_if_needed s n = (Inr (), s')"
    "st_keydir s' = st_keydir s" "st_readers s' = st_readers s @ [i + 1]" "st_writer s' = w2"
    "st_live_bytes s' = st_live_bytes s" "st_disk_bytes s' = st_disk_bytes s" "st_active_hints s' = []"
    "st_fs s' = d3" "same_mode s s'"
    using False 1 notin by (simp add: roll_if_needed_def Let_def readers_insert_def same_mode_def)
  have "store_repr b s' (L @ [(i, rs)]) (i + 1) []"
    unfolding store_repr_def using s' D R 1(5) notin hist_ok_new [OF D(2) k]
    by (simp add: insert_commute plocs_Cons)
  with s' show ?thesis by (auto simp: rolled_def)
qed

section \<open>Appending a record\<close>

definition new_hint :: "krec \<Rightarrow> nat \<Rightarrow> nat \<Rightarrow> hint_entry" where
  "new_hint r off t = \<lparr> he_key = rkey r, he_offset = off, he_len = length (rec_bytes r), he_tstamp = t,
     he_tombstone = (rval r = None) \<rparr>"

text \<open>The part of a represented store that a write to the active file can change.\<close>

lemma store_repr_log_change:
  assumes repr: "store_repr b s L i rs" and d: "fs_ok d" "log_holds b w d (rs @ ks)" "lw_file_id w = i"
    "fs_frame {data_file_name i} (st_fs s) d"
    "synced_of (st_fs s) (data_file_name i) \<le> synced_of d (data_file_name i)"
    and ok: "hist_ok (L @ [(i, rs @ ks)])" and h: "hint_desc i (rs @ ks) es"
    and kd: "kd_repr kd live disk (plocs (L @ [(i, rs @ ks)]))"
    and s': "st_fs s' = d" "st_writer s' = w" "st_keydir s' = kd" "st_live_bytes s' = live"
    "st_disk_bytes s' = disk" "st_active_hints s' = es" "st_readers s' = st_readers s"
  shows "store_repr b s' L i (rs @ ks)"
proof -
  note D = store_reprD [OF repr]
  have i: "i \<le> u64_max" using D(2) by (simp add: hist_ok_def)
  have keep: "fs_file d n = fs_file (st_fs s) n" if "n \<noteq> data_file_name i" for n
    using that d(4) by (simp add: fs_frame_def)
  have "dir_names d (set (adom L) \<union> {i})"
    by (rule dir_names_frame [OF D(3) d(4)]) (use i in auto)
  moreover have "sealed_holds b d j js" if "(j, js) \<in> set L" for j js
    using D(6) [OF that] hist_ok_less_in [OF D(2) that] keep [of "data_file_name j"]
    by (intro sealed_holds_frame [OF D(6) [OF that]]) auto
  moreover have "hint_true b d j js" if "(j, js) \<in> set L" for j js
    using that hist_ok_less_in [OF D(2) that] keep
    by (intro hint_true_frame_same [OF D(7)]) auto
  moreover have "hint_true b d i (rs @ ks)"
    by (rule hint_true_frame [OF D(7)]) (use keep d(5) in auto)
  ultimately show ?thesis
    unfolding store_repr_def using s' D d ok h kd by auto
qed

lemma append_ok:
  assumes repr: "store_repr b s L i rs" and r: "rec_small r" and t: "t < 2 ^ 64"
    and room: "st_disk_bytes s + length (rec_bytes r) \<le> u64_max"
  shows "\<exists>w d. log_append (st_writer s) (rec_bytes r) reach (st_fs s)
      = (Inr (length (recs_bytes rs), length (rec_bytes r)), w, d) \<and> lw_file_id w = i \<and>
    (reach = ReachDisk \<longrightarrow> lw_synced w = lw_offset w) \<and>
    (\<forall>kd live s'. kd_repr kd live (st_disk_bytes s + length (rec_bytes r)) (plocs (L @ [(i, rs @ [r])])) \<longrightarrow>
       st_fs s' = d \<longrightarrow> st_writer s' = w \<longrightarrow> st_keydir s' = kd \<longrightarrow> st_live_bytes s' = live \<longrightarrow>
       st_disk_bytes s' = st_disk_bytes s + length (rec_bytes r) \<longrightarrow>
       st_active_hints s' = st_active_hints s @ [new_hint r (length (recs_bytes rs)) t] \<longrightarrow>
       st_readers s' = st_readers s \<longrightarrow> store_repr b s' L i (rs @ [r]))"
proof -
  note D = store_reprD [OF repr]
  have len: "length (recs_bytes rs) + length (rec_bytes r) \<le> u64_max"
    using room file_within_disk [OF repr] by simp
  have ok: "hist_ok (L @ [(i, rs @ [r])])" using D(2) r len by (simp add: hist_ok_def)
  have h: "hint_desc i (rs @ [r]) (st_active_hints s @ [new_hint r (length (recs_bytes rs)) t])"
    using hint_desc_snoc [OF D(11) r len t] by (simp add: new_hint_def)
  from log_append_ok [OF D(1,5), of r reach] D(4) r obtain w d where
    w: "log_append (st_writer s) (rec_bytes r) reach (st_fs s)
      = (Inr (length (recs_bytes rs), length (rec_bytes r)), w, d)" "fs_ok d"
    "log_holds b w d (rs @ [r])" "lw_file_id w = i" "reach = ReachDisk \<longrightarrow> lw_synced w = lw_offset w"
    "fs_frame {data_file_name i} (st_fs s) d"
    "synced_of (st_fs s) (data_file_name i) \<le> synced_of d (data_file_name i)"
    by auto
  from store_repr_log_change [OF repr w(2,3,4,6,7) ok h] w(1,4,5) show ?thesis by blast
qed

lemma unindex_kd_remove:
  "unindex k s = s\<lparr> st_keydir := fst (kd_remove k (st_keydir s, st_live_bytes s)),
     st_live_bytes := snd (kd_remove k (st_keydir s, st_live_bytes s)) \<rparr>"
  by (simp add: unindex_def kd_remove_def split: option.splits)

lemma plocs_snoc: "plocs (L @ [(i, rs @ [r])])
    = plocs (L @ [(i, rs)]) @ [(r, i, length (recs_bytes rs), length (rec_bytes r))]"
  by simp

lemma put_with_ok:
  assumes repr: "store_repr b s L i rs" and r: "rec_small (KRec key (Some v) t1)" and t2: "t2 < 2 ^ 64"
    and room: "store_room s (length (rec_bytes (KRec key (Some v) t1)))" and "\<not> st_restoring s"
  shows "\<exists>s' L' i' rs'. put_with s key v reach t1 t2 = (Inr (), s') \<and>
    store_repr b s' L' i' (rs' @ [KRec key (Some v) t1]) \<and> rolled L i rs L' i' rs' \<and> same_mode s s' \<and>
    st_disk_bytes s' = st_disk_bytes s + length (rec_bytes (KRec key (Some v) t1)) \<and>
    (reach = ReachDisk \<longrightarrow> is_synced s')"
proof -
  let ?r = "KRec key (Some v) t1"
  let ?n = "length (rec_bytes ?r)"
  have enc: "encode_record key (Some v) t1 = Inr (rec_bytes ?r)"
    using encode_record_rec_ok [of ?r] r by simp
  have i: "i < u64_max" using store_roomD(1) [OF room] store_reprD(4) [OF repr] by simp
  obtain s1 L' i' rs' where
    1: "roll_if_needed s ?n = (Inr (), s1)" "store_repr b s1 L' i' rs'" "rolled L i rs L' i' rs'"
      "same_mode s s1" "st_disk_bytes s1 = st_disk_bytes s"
    using roll_ok [OF repr i, of ?n] by blast
  have room1: "st_disk_bytes s1 + ?n \<le> u64_max" using store_roomD(2) [OF room] 1(5) by simp
  from append_ok [OF 1(2) r t2 room1, of reach] obtain w d where
    2: "log_append (st_writer s1) (rec_bytes ?r) reach (st_fs s1)
      = (Inr (length (recs_bytes rs'), ?n), w, d)" "lw_file_id w = i'"
      "reach = ReachDisk \<longrightarrow> lw_synced w = lw_offset w"
    and keep: "\<And>kd live s'. kd_repr kd live (st_disk_bytes s1 + ?n) (plocs (L' @ [(i', rs' @ [?r])])) \<Longrightarrow>
       st_fs s' = d \<Longrightarrow> st_writer s' = w \<Longrightarrow> st_keydir s' = kd \<Longrightarrow> st_live_bytes s' = live \<Longrightarrow>
       st_disk_bytes s' = st_disk_bytes s1 + ?n \<Longrightarrow>
       st_active_hints s' = st_active_hints s1 @ [new_hint ?r (length (recs_bytes rs')) t2] \<Longrightarrow>
       st_readers s' = st_readers s1 \<Longrightarrow> store_repr b s' L' i' (rs' @ [?r])"
    by blast
  obtain kd' live' where rem: "kd_remove key (st_keydir s1, st_live_bytes s1) = (kd', live')" by fastforce
  define loc where "loc = \<lparr> loc_file_id = i', loc_offset = length (recs_bytes rs'), loc_len = ?n,
    loc_tstamp = t2 \<rparr>"
  have kd: "kd_repr (AList.update key loc kd') (live' + ?n) (st_disk_bytes s1 + ?n)
      (plocs (L' @ [(i', rs' @ [?r])]))"
    unfolding plocs_snoc
    using kd_repr_put [OF store_reprD(10) [OF 1(2)], of ?r kd' live' v loc i' "length (recs_bytes rs')" ?n] rem t2
    by (simp add: loc_def loc_pos_def)
  have "put_with s key v reach t1 t2 = (Inr (), s1\<lparr> st_writer := w, st_fs := d,
      st_active_hints := st_active_hints s1 @ [new_hint ?r (length (recs_bytes rs')) t2],
      st_disk_bytes := st_disk_bytes s1 + ?n, st_live_bytes := live' + ?n,
      st_keydir := AList.update key loc kd' \<rparr>)" (is "_ = (Inr (), ?s')")
    using assms(5) enc 1(1) 2 rem
    by (simp add: put_with_def Let_def unindex_kd_remove new_hint_def loc_def)
  moreover have "store_repr b ?s' L' i' (rs' @ [?r])" by (rule keep [OF kd]) simp_all
  moreover have "same_mode s ?s'" using 1(4) by (simp add: same_mode_def)
  ultimately show ?thesis using 1(3,5) 2(3) by (fastforce simp: is_synced_def)
qed

lemma delete_with_ok:
  assumes repr: "store_repr b s L i rs" and r: "rec_small (KRec key None t1)" and t2: "t2 < 2 ^ 64"
    and room: "store_room s (length (rec_bytes (KRec key None t1)))" and "\<not> st_restoring s"
    and mem: "map_of (st_keydir s) key \<noteq> None"
  shows "\<exists>s' L' i' rs'. delete_with s key reach t1 t2 = (Inr True, s') \<and>
    store_repr b s' L' i' (rs' @ [KRec key None t1]) \<and> rolled L i rs L' i' rs' \<and> same_mode s s' \<and>
    st_disk_bytes s' = st_disk_bytes s + length (rec_bytes (KRec key None t1)) \<and>
    (reach = ReachDisk \<longrightarrow> is_synced s')"
proof -
  let ?r = "KRec key None t1"
  let ?n = "length (rec_bytes ?r)"
  have enc: "encode_record key None t1 = Inr (rec_bytes ?r)"
    using encode_record_rec_ok [of ?r] r by simp
  have i: "i < u64_max" using store_roomD(1) [OF room] store_reprD(4) [OF repr] by simp
  obtain s1 L' i' rs' where
    1: "roll_if_needed s ?n = (Inr (), s1)" "store_repr b s1 L' i' rs'" "rolled L i rs L' i' rs'"
      "same_mode s s1" "st_disk_bytes s1 = st_disk_bytes s"
    using roll_ok [OF repr i, of ?n] by blast
  have room1: "st_disk_bytes s1 + ?n \<le> u64_max" using store_roomD(2) [OF room] 1(5) by simp
  from append_ok [OF 1(2) r t2 room1, of reach] obtain w d where
    2: "log_append (st_writer s1) (rec_bytes ?r) reach (st_fs s1)
      = (Inr (length (recs_bytes rs'), ?n), w, d)"
      "reach = ReachDisk \<longrightarrow> lw_synced w = lw_offset w"
    and keep: "\<And>kd live s'. kd_repr kd live (st_disk_bytes s1 + ?n) (plocs (L' @ [(i', rs' @ [?r])])) \<Longrightarrow>
       st_fs s' = d \<Longrightarrow> st_writer s' = w \<Longrightarrow> st_keydir s' = kd \<Longrightarrow> st_live_bytes s' = live \<Longrightarrow>
       st_disk_bytes s' = st_disk_bytes s1 + ?n \<Longrightarrow>
       st_active_hints s' = st_active_hints s1 @ [new_hint ?r (length (recs_bytes rs')) t2] \<Longrightarrow>
       st_readers s' = st_readers s1 \<Longrightarrow> store_repr b s' L' i' (rs' @ [?r])"
    by blast
  obtain kd' live' where rem: "kd_remove key (st_keydir s1, st_live_bytes s1) = (kd', live')" by fastforce
  have kd: "kd_repr kd' live' (st_disk_bytes s1 + ?n) (plocs (L' @ [(i', rs' @ [?r])]))"
    unfolding plocs_snoc using kd_repr_tombstone [OF store_reprD(10) [OF 1(2)], of ?r kd' live'] rem by simp
  have "delete_with s key reach t1 t2 = (Inr True, s1\<lparr> st_writer := w, st_fs := d,
      st_active_hints := st_active_hints s1 @ [new_hint ?r (length (recs_bytes rs')) t2],
      st_disk_bytes := st_disk_bytes s1 + ?n, st_live_bytes := live', st_keydir := kd' \<rparr>)"
    (is "_ = (Inr True, ?s')")
    using assms(5) mem enc 1(1) 2 rem
    by (simp add: delete_with_def Let_def unindex_kd_remove new_hint_def)
  moreover have "store_repr b ?s' L' i' (rs' @ [?r])" by (rule keep [OF kd]) simp_all
  moreover have "same_mode s ?s'" using 1(4) by (simp add: same_mode_def)
  ultimately show ?thesis using 1(3,5) 2(2) by (fastforce simp: is_synced_def)
qed

lemma delete_with_absent:
  "\<not> st_restoring s \<Longrightarrow> map_of (st_keydir s) key = None \<Longrightarrow> delete_with s key reach t1 t2 = (Inr False, s)"
  by (simp add: delete_with_def)

lemma store_sync_ok:
  assumes repr: "store_repr b s L i rs"
  shows "\<exists>s'. store_sync s = (Inr (), s') \<and> store_repr b s' L i rs \<and> same_mode s s' \<and> is_synced s'"
proof -
  note D = store_reprD [OF repr]
  obtain w d where
    w: "log_sync (st_writer s) (st_fs s) = (Inr (), w, d)" "fs_ok d" "log_holds b w d rs"
    "lw_file_id w = i" "lw_synced w = lw_offset w" "fs_frame {data_file_name i} (st_fs s) d"
    "synced_of (st_fs s) (data_file_name i) \<le> synced_of d (data_file_name i)"
    using log_sync_ok [OF D(1,5)] D(4) by auto
  have "store_repr b (s\<lparr> st_writer := w, st_fs := d \<rparr>) L i (rs @ [])"
    by (rule store_repr_log_change [OF repr, where w = w and d = d]) (use w D in simp_all)
  with w show ?thesis by (simp add: store_sync_def same_mode_def is_synced_def)
qed

lemma store_flush_ok:
  assumes repr: "store_repr b s L i rs"
  shows "\<exists>w d. log_flush (st_writer s) (st_fs s) = (Inr (), w, d) \<and> lw_file_id w = i \<and> lw_pending w = [] \<and>
    lw_offset w = lw_offset (st_writer s) \<and> fs_frame {data_file_name i} (st_fs s) d \<and>
    store_repr b (s\<lparr> st_writer := w, st_fs := d \<rparr>) L i rs"
proof -
  note D = store_reprD [OF repr]
  obtain w d where
    w: "log_flush (st_writer s) (st_fs s) = (Inr (), w, d)" "fs_ok d" "log_holds b w d rs"
    "lw_file_id w = i" "lw_pending w = []" "lw_offset w = lw_offset (st_writer s)"
    "fs_frame {data_file_name i} (st_fs s) d"
    "synced_of (st_fs s) (data_file_name i) \<le> synced_of d (data_file_name i)"
    using log_flush_ok [OF D(1,5)] D(4) by auto
  have "store_repr b (s\<lparr> st_writer := w, st_fs := d \<rparr>) L i (rs @ [])"
    by (rule store_repr_log_change [OF repr, where w = w and d = d]) (use w D in simp_all)
  with w show ?thesis by simp
qed

end
