(* ===== verification/KvStore.thy ===== *)
theory KvStore
  imports StoreWrite
begin

text \<open>
  The store as its clients see it. The locale \<open>kv_store\<close> states what they rely on (what a read returns
  after a write, what every operation keeps of the invariant, that there is room for the next
  one) and proves once that any sequence of operations gives the replies and leaves the contents of a
  plain map. The store's own operations are an instance, both as a caller of \<^verbatim>\<open>put\<close> and \<^verbatim>\<open>delete\<close> uses
  them and as the replicated store does, deferred. The properties of single operations follow.
\<close>

section \<open>The interface\<close>

datatype ('k, 'v, 'c) kv_op = KGet 'k | KPut 'k 'v 'c | KDel 'k 'c

datatype 'v kv_reply = KValue "'v option" | KStored | KDeleted bool

text \<open>The specification: a map, and what each operation does to it and answers.\<close>

fun map_step :: "('k \<Rightarrow> 'v option) \<Rightarrow> ('k, 'v, 'c) kv_op \<Rightarrow> 'v kv_reply \<times> ('k \<Rightarrow> 'v option)" where
  "map_step m (KGet k) = (KValue (m k), m)"
| "map_step m (KPut k v c) = (KStored, m(k \<mapsto> v))"
| "map_step m (KDel k c) = (KDeleted (m k \<noteq> None), m(k := None))"

fun map_run :: "('k \<Rightarrow> 'v option) \<Rightarrow> ('k, 'v, 'c) kv_op list \<Rightarrow> 'v kv_reply list \<times> ('k \<Rightarrow> 'v option)" where
  "map_run m [] = ([], m)"
| "map_run m (x # xs) =
     (let (r, m) = map_step m x; (rs, m) = map_run m xs in (r # rs, m))"

fun kv_run ::
  "('s \<Rightarrow> 'k \<Rightarrow> 'v option res) \<Rightarrow> ('s \<Rightarrow> 'k \<Rightarrow> 'v \<Rightarrow> 'c \<Rightarrow> unit res \<times> 's) \<Rightarrow> ('s \<Rightarrow> 'k \<Rightarrow> 'c \<Rightarrow> bool res \<times> 's)
   \<Rightarrow> 's \<Rightarrow> ('k, 'v, 'c) kv_op list \<Rightarrow> 'v kv_reply list res \<times> 's" where
  "kv_run get put del s [] = (Inr [], s)"
| "kv_run get put del s (x # xs) =
     (let (r, s) = (case x of
          KGet k \<Rightarrow> (map_sum (\<lambda>e. e) KValue (get s k), s)
        | KPut k v c \<Rightarrow> (case put s k v c of (r, s) \<Rightarrow> (map_sum (\<lambda>e. e) (\<lambda>_. KStored) r, s))
        | KDel k c \<Rightarrow> (case del s k c of (r, s) \<Rightarrow> (map_sum (\<lambda>e. e) KDeleted r, s)))
      in case r of Inl e \<Rightarrow> (Inl e, s)
         | Inr r \<Rightarrow> (case kv_run get put del s xs of
               (Inl e, s) \<Rightarrow> (Inl e, s)
             | (Inr rs, s) \<Rightarrow> (Inr (r # rs), s)))"

definition op_cost :: "('k \<Rightarrow> nat) \<Rightarrow> ('k \<Rightarrow> 'v \<Rightarrow> nat) \<Rightarrow> ('k, 'v, 'c) kv_op \<Rightarrow> nat" where
  "op_cost dcost pcost x = (case x of KGet _ \<Rightarrow> 0 | KPut k v _ \<Rightarrow> pcost k v | KDel k _ \<Rightarrow> dcost k)"

definition op_fits :: "('k \<Rightarrow> 'v \<Rightarrow> bool) \<Rightarrow> ('k, 'v, 'c) kv_op \<Rightarrow> bool" where
  "op_fits fits x = (case x of KPut k v _ \<Rightarrow> fits k v | _ \<Rightarrow> True)"

locale kv_store =
  fixes inv :: "'s \<Rightarrow> bool" and abs :: "'s \<Rightarrow> 'k \<Rightarrow> 'v option" and room :: "'s \<Rightarrow> nat \<Rightarrow> bool"
    and fits :: "'k \<Rightarrow> 'v \<Rightarrow> bool" and pcost :: "'k \<Rightarrow> 'v \<Rightarrow> nat" and dcost :: "'k \<Rightarrow> nat"
    and get :: "'s \<Rightarrow> 'k \<Rightarrow> 'v option res" and put :: "'s \<Rightarrow> 'k \<Rightarrow> 'v \<Rightarrow> 'c \<Rightarrow> unit res \<times> 's"
    and del :: "'s \<Rightarrow> 'k \<Rightarrow> 'c \<Rightarrow> bool res \<times> 's"
  assumes get_law: "inv s \<Longrightarrow> get s k = Inr (abs s k)"
    and put_law: "inv s \<Longrightarrow> fits k v \<Longrightarrow> room s (pcost k v + n) \<Longrightarrow>
      \<exists>s'. put s k v c = (Inr (), s') \<and> inv s' \<and> abs s' = (abs s)(k \<mapsto> v) \<and> room s' n"
    and del_law: "inv s \<Longrightarrow> room s (dcost k + n) \<Longrightarrow>
      \<exists>s'. del s k c = (Inr (abs s k \<noteq> None), s') \<and> inv s' \<and> abs s' = (abs s)(k := None) \<and> room s' n"
begin

lemma step_refines:
  assumes "inv s" and "op_fits fits x" and "room s (op_cost dcost pcost x + n)"
  shows "\<exists>s'. (\<forall>xs rs z. kv_run get put del s' xs = (Inr rs, z) \<longrightarrow>
      kv_run get put del s (x # xs) = (Inr (fst (map_step (abs s) x) # rs), z))
    \<and> inv s' \<and> abs s' = snd (map_step (abs s) x) \<and> room s' n"
proof (cases x)
  case (KGet k)
  with assms get_law show ?thesis
    by (intro exI [of _ s]) (simp add: op_cost_def)
next
  case (KPut k v c)
  with put_law [of s k v n c] assms obtain s' where "put s k v c = (Inr (), s')" "inv s'"
    "abs s' = (abs s)(k \<mapsto> v)" "room s' n"
    by (auto simp: op_cost_def op_fits_def)
  with KPut show ?thesis by (intro exI [of _ s']) simp
next
  case (KDel k c)
  with del_law [of s k n c] assms obtain s' where "del s k c = (Inr (abs s k \<noteq> None), s')" "inv s'"
    "abs s' = (abs s)(k := None)" "room s' n"
    by (auto simp: op_cost_def)
  with KDel show ?thesis by (intro exI [of _ s']) simp
qed

lemma run_refines:
  assumes "inv s" and "list_all (op_fits fits) xs"
    and "room s (sum_list (map (op_cost dcost pcost) xs) + n)"
  shows "\<exists>s'. kv_run get put del s xs = (Inr (fst (map_run (abs s) xs)), s') \<and> inv s' \<and>
    abs s' = snd (map_run (abs s) xs) \<and> room s' n"
  using assms
proof (induction xs arbitrary: s)
  case Nil
  then show ?case by simp
next
  case (Cons x xs)
  then obtain s' where
    s': "\<And>rs z. kv_run get put del s' xs = (Inr rs, z) \<Longrightarrow>
        kv_run get put del s (x # xs) = (Inr (fst (map_step (abs s) x) # rs), z)"
      "inv s'" "abs s' = snd (map_step (abs s) x)" "room s' (sum_list (map (op_cost dcost pcost) xs) + n)"
  proof -
    have "op_fits fits x" "room s (op_cost dcost pcost x + (sum_list (map (op_cost dcost pcost) xs) + n))"
      using Cons.prems by (simp_all add: add.assoc)
    from step_refines [OF Cons.prems(1) this] that show thesis by blast
  qed
  from Cons.IH [OF s'(2) _ s'(4)] Cons.prems(2) obtain s'' where
    run: "kv_run get put del s' xs = (Inr (fst (map_run (abs s') xs)), s'')" and "inv s''"
    "abs s'' = snd (map_run (abs s') xs)" "room s'' n"
    by auto
  with s'(1) [OF run] s'(3) show ?case by (simp add: Let_def case_prod_beta del: kv_run.simps)
qed

end

section \<open>The store is an instance\<close>

text \<open>\<open>store_log b s H\<close>: the history of the store, however it is split over files, is \<open>H\<close>.\<close>

definition store_log :: "bool \<Rightarrow> store \<Rightarrow> krec list \<Rightarrow> bool" where
  "store_log b s H \<longleftrightarrow> (\<exists>L i rs. store_repr b s L i rs \<and> H = hist_recs (L @ [(i, rs)]))"

definition store_ready :: "bool \<Rightarrow> store \<Rightarrow> bool" where
  "store_ready b s \<longleftrightarrow> (\<exists>H. store_log b s H) \<and> \<not> st_restoring s"

definition store_kv :: "store \<Rightarrow> bytes \<Rightarrow> bytes option" where
  "store_kv s k = (case fst (store_get s k) of Inr v \<Rightarrow> v | Inl _ \<Rightarrow> None)"

lemma store_log_get: "store_log b s H \<Longrightarrow> store_get s k = (Inr (kv_of H k), st_fs s)"
  using store_get_repr by (auto simp: store_log_def hist_kv_def)

lemma store_log_kv: "store_log b s H \<Longrightarrow> store_kv s = kv_of H"
  by (simp add: fun_eq_iff store_kv_def store_log_get)

lemma rolled_recs: "rolled L i rs L' i' rs' \<Longrightarrow> hist_recs (L' @ [(i', rs')]) = hist_recs (L @ [(i, rs)])"
  by (auto simp: rolled_def hist_recs_def)

lemma rolled_log:
  "rolled L i rs L' i' rs' \<Longrightarrow> store_repr b s' L' i' (rs' @ ks) \<Longrightarrow>
   store_log b s' (hist_recs (L @ [(i, rs)]) @ ks)"
  unfolding store_log_def using rolled_recs [of L i rs L' i' rs']
  by (intro exI [of _ L'] exI [of _ i'] exI [of _ "rs' @ ks"]) simp

lemma rolled_room:
  assumes "rolled L i rs L' i' rs'" and "lw_file_id (st_writer s) = i" and "lw_file_id (st_writer s') = i'"
    and "st_disk_bytes s' = st_disk_bytes s + k" and "0 < k" and "store_room s (k + n)"
  shows "store_room s' n"
  using assms by (auto simp: rolled_def store_room_def)

lemma store_log_put:
  assumes "store_log b s H" and "rec_small (KRec key (Some v) t1)" and "t2 < 2 ^ 64"
    and "store_room s (length (rec_bytes (KRec key (Some v) t1)) + n)" and "\<not> st_restoring s"
  shows "\<exists>s'. put_with s key v reach t1 t2 = (Inr (), s') \<and> store_log b s' (H @ [KRec key (Some v) t1]) \<and>
    same_mode s s' \<and> store_room s' n \<and> (reach = ReachDisk \<longrightarrow> is_synced s')"
proof -
  obtain L i rs where L: "store_repr b s L i rs" "H = hist_recs (L @ [(i, rs)])"
    using assms(1) by (auto simp: store_log_def)
  have room: "store_room s (length (rec_bytes (KRec key (Some v) t1)))"
    using assms(4) by (simp add: store_room_def)
  obtain s' L' i' rs' where
    s': "put_with s key v reach t1 t2 = (Inr (), s')" "store_repr b s' L' i' (rs' @ [KRec key (Some v) t1])"
    "rolled L i rs L' i' rs'" "same_mode s s'" "reach = ReachDisk \<longrightarrow> is_synced s'"
    "st_disk_bytes s' = st_disk_bytes s + length (rec_bytes (KRec key (Some v) t1))"
    using put_with_ok [OF L(1) assms(2,3) room assms(5), of reach] by auto
  have "store_room s' n"
    by (rule rolled_room [OF s'(3) store_reprD(4) [OF L(1)] store_reprD(4) [OF s'(2)] s'(6) _ assms(4)]) simp
  with rolled_log [OF s'(3,2)] L(2) s' show ?thesis by auto
qed

text \<open>A key that is there has a tombstone that fits.\<close>

lemma store_log_mem:
  assumes "store_log b s H"
  shows "map_of (st_keydir s) k \<noteq> None \<longleftrightarrow> kv_of H k \<noteq> None"
    and "kv_of H k \<noteq> None \<Longrightarrow> t < 2 ^ 64 \<Longrightarrow> rec_small (KRec k None t)"
proof -
  obtain L i rs where L: "store_repr b s L i rs" "H = hist_recs (L @ [(i, rs)])"
    using assms by (auto simp: store_log_def)
  let ?ps = "plocs (L @ [(i, rs)])"
  note D = store_reprD [OF L(1)]
  have kv: "kv_of H k = (case idx_of ?ps k of None \<Rightarrow> None | Some p \<Rightarrow> rval (fst p))"
    using hist_kv_idx [of "L @ [(i, rs)]" k] L(2) by (simp add: hist_kv_def)
  show "map_of (st_keydir s) k \<noteq> None \<longleftrightarrow> kv_of H k \<noteq> None"
    using kd_repr_None [OF D(10), of k] idx_of_Some [of ?ps k] unfolding kv
    by (cases "idx_of ?ps k") auto
  assume "kv_of H k \<noteq> None" and t: "t < 2 ^ 64"
  then obtain r p where r: "idx_of ?ps k = Some (r, p)" unfolding kv by (cases "idx_of ?ps k") auto
  from idx_of_Some [OF r] have "rec_small r" "rkey r = k" using hist_ok_rec [OF D(2), of r p] by auto
  then show "rec_small (KRec k None t)"
    using t by (auto simp: rec_small_def rec_ok_def rpayload_def length_rec_bytes)
qed

lemma store_log_delete:
  assumes "store_log b s H" and "t1 < 2 ^ 64" and "t2 < 2 ^ 64"
    and "store_room s (length (rec_bytes (KRec key None t1)) + n)" and "\<not> st_restoring s"
  shows "\<exists>s'. delete_with s key reach t1 t2 = (Inr (kv_of H key \<noteq> None), s') \<and>
    store_log b s' (if kv_of H key = None then H else H @ [KRec key None t1]) \<and> same_mode s s' \<and>
    store_room s' n"
proof (cases "kv_of H key = None")
  case True
  then have "map_of (st_keydir s) key = None" using store_log_mem(1) [OF assms(1)] by blast
  with delete_with_absent [OF assms(5)] True assms(1,4) show ?thesis
    by (auto simp: same_mode_def store_room_def)
next
  case False
  obtain L i rs where L: "store_repr b s L i rs" "H = hist_recs (L @ [(i, rs)])"
    using assms(1) by (auto simp: store_log_def)
  have room: "store_room s (length (rec_bytes (KRec key None t1)))"
    using assms(4) by (simp add: store_room_def)
  have mem: "map_of (st_keydir s) key \<noteq> None" using store_log_mem(1) [OF assms(1)] False by blast
  obtain s' L' i' rs' where
    s': "delete_with s key reach t1 t2 = (Inr True, s')" "store_repr b s' L' i' (rs' @ [KRec key None t1])"
    "rolled L i rs L' i' rs'" "same_mode s s'"
    "st_disk_bytes s' = st_disk_bytes s + length (rec_bytes (KRec key None t1))"
    using delete_with_ok [OF L(1) store_log_mem(2) [OF assms(1) False assms(2)] assms(3) room assms(5) mem, of reach]
    by auto
  have "store_room s' n"
    by (rule rolled_room [OF s'(3) store_reprD(4) [OF L(1)] store_reprD(4) [OF s'(2)] s'(5) _ assms(4)]) simp
  with rolled_log [OF s'(3,2)] L(2) s' False show ?thesis by auto
qed

text \<open>The clock is a sixty-four-bit number of milliseconds; a write reads it twice.\<close>

type_synonym clock = "nat \<times> nat"

abbreviation tick1 :: "clock \<Rightarrow> nat" where "tick1 c \<equiv> fst c mod 2 ^ 64"
abbreviation tick2 :: "clock \<Rightarrow> nat" where "tick2 c \<equiv> snd c mod 2 ^ 64"

definition put_cost :: "bytes \<Rightarrow> bytes \<Rightarrow> nat" where
  "put_cost k v = HEADER_LEN + length k + length v"

definition del_cost :: "bytes \<Rightarrow> nat" where
  "del_cost k = HEADER_LEN + length k"

definition kv_fits :: "bytes \<Rightarrow> bytes \<Rightarrow> bool" where
  "kv_fits k v \<longleftrightarrow> k \<noteq> [] \<and> put_cost k v < 2 ^ 32"

lemma kv_fits_small: "kv_fits k v \<Longrightarrow> rec_small (KRec k (Some v) (t mod 2 ^ 64))"
  by (auto simp: kv_fits_def put_cost_def rec_small_def rec_ok_def rpayload_def length_rec_bytes)

lemma cost_rec: "length (rec_bytes (KRec k (Some v) t)) = put_cost k v"
  "length (rec_bytes (KRec k None t)) = del_cost k"
  by (simp_all add: put_cost_def del_cost_def length_rec_bytes rpayload_def)

lemma put_with_law:
  assumes "store_ready b s" and "kv_fits k v" and "store_room s (put_cost k v + n)"
  shows "\<exists>s'. put_with s k v reach (tick1 c) (tick2 c) = (Inr (), s') \<and> store_ready b s' \<and>
    store_kv s' = (store_kv s)(k \<mapsto> v) \<and> store_room s' n"
proof -
  obtain H where H: "store_log b s H" "\<not> st_restoring s" using assms(1) by (auto simp: store_ready_def)
  obtain s' where "put_with s k v reach (tick1 c) (tick2 c) = (Inr (), s')"
    "store_log b s' (H @ [KRec k (Some v) (tick1 c)])" "same_mode s s'" "store_room s' n"
    using store_log_put [OF H(1) kv_fits_small [OF assms(2), of "fst c"], of "tick2 c" n reach] H(2) assms(3)
    by (auto simp: cost_rec)
  with H show ?thesis
    by (auto simp: store_ready_def same_mode_def store_log_kv [OF H(1)] dest: store_log_kv)
qed

lemma delete_with_law:
  assumes "store_ready b s" and "store_room s (del_cost k + n)"
  shows "\<exists>s'. delete_with s k reach (tick1 c) (tick2 c) = (Inr (store_kv s k \<noteq> None), s') \<and>
    store_ready b s' \<and> store_kv s' = (store_kv s)(k := None) \<and> store_room s' n"
proof -
  obtain H where H: "store_log b s H" "\<not> st_restoring s" using assms(1) by (auto simp: store_ready_def)
  obtain s' where s': "delete_with s k reach (tick1 c) (tick2 c) = (Inr (kv_of H k \<noteq> None), s')"
    "store_log b s' (if kv_of H k = None then H else H @ [KRec k None (tick1 c)])" "same_mode s s'"
    "store_room s' n"
    using store_log_delete [OF H(1), of "tick1 c" "tick2 c" k n reach] H(2) assms(2)
    by (auto simp: cost_rec)
  have "store_kv s' = (kv_of H)(k := None)"
    using store_log_kv [OF s'(2)] by auto
  with s' H store_log_kv [OF H(1)] show ?thesis by (auto simp: store_ready_def same_mode_def)
qed

interpretation st: kv_store "store_ready b" store_kv store_room kv_fits put_cost del_cost
  "\<lambda>s k. fst (store_get s k)" "\<lambda>s k v c. store_put s k v (tick1 c) (tick2 c)"
  "\<lambda>s k c. store_delete s k (tick1 c) (tick2 c)" for b
proof
  show "fst (store_get s k) = Inr (store_kv s k)" if "store_ready b s" for s k
    using that by (auto simp: store_ready_def store_log_get store_log_kv)
qed (use put_with_law delete_with_law in \<open>auto simp: store_put_def store_delete_def\<close>)

interpretation df: kv_store "store_ready b" store_kv store_room kv_fits put_cost del_cost
  "\<lambda>s k. fst (store_get s k)" "\<lambda>s k v c. put_deferred s k v (tick1 c) (tick2 c)"
  "\<lambda>s k c. delete_deferred s k (tick1 c) (tick2 c)" for b
proof
  show "fst (store_get s k) = Inr (store_kv s k)" if "store_ready b s" for s k
    using that by (auto simp: store_ready_def store_log_get store_log_kv)
qed (use put_with_law delete_with_law in \<open>auto simp: put_deferred_def delete_deferred_def\<close>)

end
