(* ===== verification/StoreOpen.thy ===== *)
theory StoreOpen
  imports KvStore
begin

text \<open>
  Opening a directory. \<open>disk_repr\<close> says what a directory without a store holds: the data files of a
  history, the newest perhaps ending in the bytes of a record that was never finished. Shown: opening it
  gives a store with exactly that history, with hints or without, whether or not every record is
  verified; the unfinished tail is cut off; damage in any older file is reported; and closing a
  store leaves a directory that opens to the same history.
\<close>

section \<open>Directories at rest\<close>

text \<open>Bytes that a scan reports as torn where they start: nothing, or the beginning of a record.\<close>

definition torn_tail :: "bytes \<Rightarrow> bool" where
  "torn_tail t \<longleftrightarrow> t = [] \<or> (\<forall>off. \<exists>detail s.
     next_record \<lparr> sn_rest = t, sn_offset = off \<rparr> = (ScanTorn off detail, s))"

lemma torn_tail_Nil [simp]: "torn_tail []"
  by (simp add: torn_tail_def)

lemma torn_tail_prefix: "rec_ok r \<Longrightarrow> n < length (rec_bytes r) \<Longrightarrow> torn_tail (take n (rec_bytes r))"
  using next_record_torn [of r n] by (cases "n = 0") (auto simp: torn_tail_def)

text \<open>A data file at rest: its records, and after them \<open>t\<close>.\<close>

definition file_holds :: "bool \<Rightarrow> fs \<Rightarrow> nat \<Rightarrow> krec list \<Rightarrow> bytes \<Rightarrow> bool" where
  "file_holds b d i rs t \<longleftrightarrow> (\<exists>f. fs_file d (data_file_name i) = Some f \<and> fdata f = recs_bytes rs @ t \<and>
     fsynced f \<le> length (fdata f) \<and> (b \<longrightarrow> fsynced f = length (fdata f)))"

lemma file_holds_sealed: "file_holds b d i rs [] = sealed_holds b d i rs"
  by (simp add: file_holds_def sealed_holds_def)

text \<open>\<open>disk_repr\<close> leaves the newest file out of the history \<open>L\<close>; \<open>disk_empty\<close> is a directory without data.\<close>

definition canonical :: "fs \<Rightarrow> bool" where
  "canonical d \<longleftrightarrow> (\<forall>n j. fs_file d n \<noteq> None \<longrightarrow>
     (id_of_name ''log'' n = Some j \<longrightarrow> n = data_file_name j) \<and>
     (id_of_name ''hint'' n = Some j \<longrightarrow> n = hint_name j))"

definition only_logs :: "fs \<Rightarrow> nat set \<Rightarrow> bool" where
  "only_logs d ids \<longleftrightarrow> (\<forall>n j. fs_file d n \<noteq> None \<longrightarrow> id_of_name ''log'' n = Some j \<longrightarrow> j \<in> ids)"

definition disk_repr :: "bool \<Rightarrow> fs \<Rightarrow> hist \<Rightarrow> nat \<Rightarrow> krec list \<Rightarrow> bytes \<Rightarrow> bool" where
  "disk_repr b d L i rs t \<longleftrightarrow> fs_ok d \<and> hist_ok (L @ [(i, rs)]) \<and> torn_tail t \<and>
     canonical d \<and> only_logs d (set (adom L) \<union> {i}) \<and>
     (\<forall>(j, js) \<in> set L. sealed_holds b d j js) \<and> file_holds b d i rs t \<and>
     (\<forall>(j, js) \<in> set (L @ [(i, rs)]). hint_true b d j js)"

definition disk_empty :: "fs \<Rightarrow> bool" where
  "disk_empty d \<longleftrightarrow> fs_ok d \<and> canonical d \<and> only_logs d {}"

section \<open>Scanning a file\<close>

definition scan_entry :: "krec \<times> pos \<Rightarrow> hint_entry" where
  "scan_entry p = new_hint (fst p) (fst (snd (snd p))) (rtime (fst p))"

lemma scan_step:
  assumes "rec_small r"
  shows "scan_entries \<lparr> sn_rest = rec_bytes r @ rest, sn_offset = off \<rparr> es =
    scan_entries \<lparr> sn_rest = rest, sn_offset = off + length (rec_bytes r) \<rparr>
      (es @ [scan_entry (r, i, off, length (rec_bytes r))])"
  using assms
  by (subst scan_entries.simps)
    (simp add: next_record_rec entry_of_scanned_def scan_entry_def new_hint_def)

lemma scan_recs:
  assumes "list_all rec_small rs"
  shows "scan_entries \<lparr> sn_rest = recs_bytes rs @ t, sn_offset = off \<rparr> es =
    scan_entries \<lparr> sn_rest = t, sn_offset = off + length (recs_bytes rs) \<rparr> (es @ map scan_entry (locs i off rs))"
  using assms
proof (induction rs arbitrary: off es)
  case Nil
  then show ?case by simp
next
  case (Cons r rs)
  then show ?case
    using scan_step [of r "recs_bytes rs @ t" off es i] by (simp add: add.assoc)
qed

lemma scan_tail:
  assumes "torn_tail t"
  shows "\<exists>detail. scan_entries \<lparr> sn_rest = t, sn_offset = off \<rparr> es =
    (es, if t = [] then None else Some (off, detail))"
proof (cases "t = []")
  case True
  then show ?thesis by (subst scan_entries.simps) (simp add: next_record_eof)
next
  case False
  with assms obtain detail s where "next_record \<lparr> sn_rest = t, sn_offset = off \<rparr> = (ScanTorn off detail, s)"
    unfolding torn_tail_def by blast
  with False show ?thesis by (intro exI [of _ detail]) (subst scan_entries.simps, simp)
qed

lemma scan_hint_of:
  "list_all rec_small rs \<Longrightarrow> list_all2 hint_of (locs i off rs) (map scan_entry (locs i off rs))"
  by (induction rs arbitrary: off) (simp_all add: hint_of_def scan_entry_def new_hint_def)

lemma scan_entry_ok:
  "list_all rec_small rs \<Longrightarrow> off + length (recs_bytes rs) \<le> u64_max \<Longrightarrow>
   list_all hint_entry_ok (map scan_entry (locs i off rs))"
proof (induction rs arbitrary: off)
  case Nil
  then show ?case by simp
next
  case (Cons r rs)
  then show ?case
    by (simp add: hint_entry_ok_def scan_entry_def new_hint_def rec_small_def rec_ok_def add.assoc)
qed

text \<open>Entries loaded from a hint followed by those of the scan from where it stops.\<close>

lemma hint_then_scan:
  assumes "hint_desc i rs1 es" and "list_all rec_small rs2" and "length (recs_bytes (rs1 @ rs2)) \<le> u64_max"
  shows "hint_desc i (rs1 @ rs2) (es @ map scan_entry (locs i (length (recs_bytes rs1)) rs2))"
  using assms scan_hint_of [of rs2 i "length (recs_bytes rs1)"]
    scan_entry_ok [of rs2 "length (recs_bytes rs1)" i]
  by (auto simp: hint_desc_def intro: list_all2_appendI)

section \<open>Opening a file\<close>

lemma hint_start_ok:
  assumes "fs_ok d" and "hint_true b d i rs"
  shows "\<exists>rs1 rs2 es. rs = rs1 @ rs2 \<and> hint_desc i rs1 es \<and> hint_start opts i n d = ((es, length (recs_bytes rs1)), d) \<and>
    (b \<longrightarrow> length (recs_bytes rs1) \<le> synced_of d (data_file_name i))"
proof -
  have none: ?thesis if "hint_start opts i n d = (([], 0), d)"
    using that by (intro exI [of _ "[]"] exI [of _ rs] exI [of _ "[]"]) simp
  show ?thesis
  proof (cases "opt_verify_on_open opts \<or> fs_file d (hint_name i) = None")
    case True
    then have "hint_start opts i n d = (([], 0), d)"
      using assms(1) by (auto simp: hint_start_def hint_load_def fs_read_def fs_with_def fs_op_def)
    then show ?thesis by (rule none)
  next
    case False
    then obtain f where f: "fs_file d (hint_name i) = Some f" by auto
    then have load: "hint_load i n d = (hint_decode (fdata f) n, d)"
      using assms(1) by (simp add: hint_load_def fs_read_def fs_simps)
    show ?thesis
    proof (cases "hint_decode (fdata f) n")
      case None
      with load False show ?thesis by (intro none) (simp add: hint_start_def)
    next
      case (Some p)
      obtain es m where p: "p = (es, m)" by (cases p)
      with assms(2) f Some obtain rs1 rs2 where "rs = rs1 @ rs2" "hint_desc i rs1 es"
        "m = length (recs_bytes rs1)" "b \<longrightarrow> m \<le> synced_of d (data_file_name i)"
        unfolding hint_true_def by metis
      with load False Some p show ?thesis
        by (intro exI [of _ rs1] exI [of _ rs2] exI [of _ es]) (simp add: hint_start_def)
    qed
  qed
qed

abbreviation own_files :: "nat \<Rightarrow> string set" where
  "own_files i \<equiv> {data_file_name i, hint_name i, hint_name i @ ''.tmp''}"

lemma own_files_out:
  "i \<notin> I \<Longrightarrow> n = data_file_name i \<or> n = hint_name i \<Longrightarrow> n \<notin> \<Union> (own_files ` I)"
  by auto

lemma own_files_name_ok:
  "n \<in> \<Union> (own_files ` I) \<Longrightarrow> \<forall>i \<in> I. i \<le> u64_max \<Longrightarrow> I \<subseteq> ids \<Longrightarrow> name_ok ids n"
  by auto

lemma truncate_at_ok:
  assumes "fs_ok d" and "fs_file d (data_file_name i) = Some f" and "n \<le> length (fdata f)"
  shows "\<exists>d'. truncate_at i n d = (Inr (), d') \<and> fs_ok d' \<and> fs_frame {data_file_name i} d d' \<and>
    fs_file d' (data_file_name i) = Some \<lparr> fdata = take n (fdata f), fsynced = n \<rparr>"
  using assms by (simp add: truncate_at_def fs_calls fs_simps fs_frame_def)

text \<open>The scan past the hint ends with the records of the file, the tail gone, and a true hint.\<close>

lemma open_scan_ok:
  assumes d: "fs_ok d" and f: "file_holds b d i (rs1 @ rs2) t" and t: "torn_tail t"
    and hint: "hint_true b d i (rs1 @ rs2)" and small: "list_all rec_small (rs1 @ rs2)"
    and len: "length (recs_bytes (rs1 @ rs2)) \<le> u64_max" and es: "hint_desc i rs1 es"
    and new: "t \<noteq> [] \<longrightarrow> is_newest"
  shows "\<exists>es' d'. open_scan is_newest i (length (recs_bytes (rs1 @ rs2) @ t)) (length (recs_bytes rs1)) es d
      = (Inr es', d') \<and> hint_desc i (rs1 @ rs2) es' \<and> fs_ok d' \<and> fs_frame (own_files i) d d' \<and>
    sealed_holds b d' i (rs1 @ rs2) \<and> hint_true b d' i (rs1 @ rs2)"
proof -
  let ?rs = "rs1 @ rs2"
  let ?n = "length (recs_bytes ?rs)"
  let ?es = "es @ map scan_entry (locs i (length (recs_bytes rs1)) rs2)"
  obtain f where f: "fs_file d (data_file_name i) = Some f" "fdata f = recs_bytes ?rs @ t"
    "fsynced f \<le> length (fdata f)" "b \<longrightarrow> fsynced f = length (fdata f)"
    using f by (auto simp: file_holds_def)
  have desc: "hint_desc i ?rs ?es" using hint_then_scan [OF es _ len] small by simp
  have open': "scanner_open_at i (length (recs_bytes rs1)) d
      = (Inr \<lparr> sn_rest = recs_bytes rs2 @ t, sn_offset = length (recs_bytes rs1) \<rparr>, d)"
    using d f by (simp add: scanner_open_at_def fs_read_def fs_simps)
  obtain detail where scan: "scan_entries \<lparr> sn_rest = recs_bytes rs2 @ t, sn_offset = length (recs_bytes rs1) \<rparr> es
      = (?es, if t = [] then None else Some (?n, detail))"
    using scan_recs [of rs2 t "length (recs_bytes rs1)" es i] scan_tail [OF t, of ?n ?es] small by auto
  show ?thesis
  proof (cases is_newest)
    case True
    show ?thesis
    proof (cases "t = []")
      case True
      then show ?thesis
        using \<open>is_newest\<close> open' scan desc d f hint
        by (simp add: open_scan_def sealed_holds_def)
    next
      case False
      from truncate_at_ok [OF d f(1), of ?n] f(2) obtain d' where
        d': "truncate_at i ?n d = (Inr (), d')" "fs_ok d'" "fs_frame {data_file_name i} d d'"
          "fs_file d' (data_file_name i) = Some \<lparr> fdata = recs_bytes ?rs, fsynced = ?n \<rparr>"
        by auto
      have "open_scan is_newest i (length (recs_bytes ?rs @ t)) (length (recs_bytes rs1)) es d = (Inr ?es, d')"
        using \<open>is_newest\<close> False open' scan d'(1) by (simp add: open_scan_def)
      moreover have "sealed_holds b d' i ?rs" using d'(4) by (simp add: sealed_holds_def)
      moreover have "hint_true b d' i ?rs"
        unfolding hint_true_def
      proof (intro allI impI conjI)
        fix g n es' m
        assume g: "fs_file d' (hint_name i) = Some g" and "hint_decode (fdata g) n = Some (es', m)"
        moreover from g have "fs_file d (hint_name i) = Some g" using d'(3) by (simp add: fs_frame_def)
        ultimately obtain p q where "?rs = p @ q" "hint_desc i p es'" "m = length (recs_bytes p)"
          using hint unfolding hint_true_def by metis
        moreover from this have "m \<le> ?n" by (metis concat_append length_append le_add1 map_append)
        ultimately show "\<exists>p q. ?rs = p @ q \<and> hint_desc i p es' \<and> m = length (recs_bytes p) \<and>
            (b \<longrightarrow> m \<le> synced_of d' (data_file_name i))"
          using d'(4) by (intro exI [of _ p] exI [of _ q]) simp
      next
        fix g assume "fs_file d' (hint_name i) = Some g" and b
        with hint d'(3) show "fsynced g = length (fdata g)" by (simp add: hint_true_def fs_frame_def)
      qed
      moreover have "fs_frame (own_files i) d d'" using d'(3) by (rule fs_frame_mono) simp
      ultimately show ?thesis using desc d'(2) by blast
    qed
  next
    case False
    with new have t0: "t = []" by auto
    define d1 where "d1 = fs_put (data_file_name i) (f\<lparr> fsynced := length (fdata f) \<rparr>) d"
    have d1: "fs_ok d1" "fs_file d1 (data_file_name i) = Some (f\<lparr> fsynced := length (fdata f) \<rparr>)"
      using d by (simp_all add: d1_def)
    obtain d2 where d2: "hint_write i ?n ?es d1 = (Inr (), d2)" "fs_ok d2" "hint_true b d2 i ?rs"
      "fs_frame {hint_name i, hint_name i @ ''.tmp''} d1 d2"
      using hint_write_true [OF d1(1) desc len, of b] d1(2) f(2) t0 by auto
    have "open_scan is_newest i (length (recs_bytes ?rs @ t)) (length (recs_bytes rs1)) es d = (Inr ?es, d2)"
      using False t0 open' scan d f(1,2) d2(1)
      by (simp add: open_scan_def fs_open_def fs_sync_def fs_simps d1_def)
    moreover have "sealed_holds b d2 i ?rs"
      using d2(4) d1(2) f t0 by (simp add: sealed_holds_def fs_frame_def)
    moreover have "fs_frame (own_files i) d d2"
      using d2(4) by (simp add: fs_frame_def d1_def)
    ultimately show ?thesis using desc d2(2,3) by blast
  qed
qed

section \<open>Indexing a file\<close>

definition acc_repr :: "open_acc \<Rightarrow> (krec \<times> pos) list \<Rightarrow> bool" where
  "acc_repr a ps \<longleftrightarrow> kd_repr (oa_keydir a) (oa_live a) (oa_disk a) ps"

lemma index_entry_kd_remove:
  "index_entry i a e =
     (let (kd, live) = kd_remove (he_key e) (oa_keydir a, oa_live a); a = a\<lparr> oa_disk := oa_disk a + he_len e \<rparr> in
      if he_tombstone e then a\<lparr> oa_keydir := kd, oa_live := live \<rparr>
      else a\<lparr> oa_keydir := AList.update (he_key e) \<lparr> loc_file_id = i, loc_offset = he_offset e,
               loc_len = he_len e, loc_tstamp = he_tstamp e \<rparr> kd, oa_live := live + he_len e \<rparr>)"
  by (simp add: index_entry_def kd_remove_def Let_def split: option.splits)

lemma index_entry_repr:
  assumes "acc_repr a ps" and "hint_of (r, i, off, n) e" and "hint_entry_ok e"
  shows "acc_repr (index_entry i a e) (ps @ [(r, i, off, n)])"
proof -
  obtain kd live where rem: "kd_remove (he_key e) (oa_keydir a, oa_live a) = (kd, live)" by fastforce
  have e: "he_key e = rkey r" "he_offset e = off" "he_len e = n" "he_tombstone e \<longleftrightarrow> rval r = None"
    using assms(2) by (auto simp: hint_of_def)
  have kd: "kd_repr (oa_keydir a) (oa_live a) (oa_disk a) ps" using assms(1) by (simp add: acc_repr_def)
  show ?thesis
  proof (cases "rval r")
    case None
    with kd_repr_tombstone [OF kd, of r kd live n i off] rem e show ?thesis
      by (simp add: acc_repr_def index_entry_kd_remove Let_def)
  next
    case (Some v)
    with kd_repr_put [OF kd, of r kd live v _ i off n] rem e assms(3) show ?thesis
      by (simp add: acc_repr_def index_entry_kd_remove Let_def loc_pos_def hint_entry_ok_def)
  qed
qed

lemma index_entries_repr:
  assumes "acc_repr a ps" and "list_all2 hint_of (locs i off rs) es" and "list_all hint_entry_ok es"
  shows "acc_repr (foldl (index_entry i) a es) (ps @ locs i off rs)"
  using assms
proof (induction rs arbitrary: off es a ps)
  case Nil
  then show ?case by simp
next
  case (Cons r rs)
  then obtain e es' where e: "es = e # es'" "hint_of (r, i, off, length (rec_bytes r)) e"
    "list_all2 hint_of (locs i (off + length (rec_bytes r)) rs) es'"
    by (auto simp: list_all2_Cons1)
  with Cons.prems(3) have ok: "hint_entry_ok e" "list_all hint_entry_ok es'" by simp_all
  from Cons.IH [OF index_entry_repr [OF Cons.prems(1) e(2) ok(1)] e(3) ok(2)] e(1) show ?case by simp
qed

lemma index_entry_readers [simp]: "oa_readers (index_entry i a e) = oa_readers a"
  by (simp add: index_entry_kd_remove Let_def case_prod_beta)

lemma index_entries_readers [simp]: "oa_readers (foldl (index_entry i) a es) = oa_readers a"
  by (induction es arbitrary: a) simp_all

text \<open>What opening one file does: its records join the index, its reader the table, and if it is the
  newest, its entries become the running hints.\<close>

lemma open_file_ok:
  assumes d: "fs_ok d" and f: "file_holds b d i rs t" and t: "torn_tail t" and hint: "hint_true b d i rs"
    and small: "list_all rec_small rs" and len: "length (recs_bytes rs) \<le> u64_max"
    and new: "t \<noteq> [] \<longrightarrow> newest = Some i" and a: "acc_repr a ps"
  shows "\<exists>a' d'. open_file opts newest i a d = (Inr a', d') \<and> acc_repr a' (ps @ locs i 0 rs) \<and>
    oa_readers a' = readers_insert i (oa_readers a) \<and>
    (if newest = Some i then hint_desc i rs (oa_active_hints a') else True) \<and> fs_ok d' \<and>
    fs_frame (own_files i) d d' \<and> sealed_holds b d' i rs \<and> hint_true b d' i rs"
proof -
  let ?n = "length (recs_bytes rs @ t)"
  have len': "fs_len (data_file_name i) d = (Inr ?n, d)"
    using f d by (auto simp: file_holds_def fs_len_def fs_simps)
  obtain rs1 rs2 es where h: "rs = rs1 @ rs2" "hint_desc i rs1 es"
    "hint_start opts i ?n d = ((es, length (recs_bytes rs1)), d)"
    using hint_start_ok [OF d hint, of opts ?n] by blast
  let ?m = "length (recs_bytes rs1)"
  obtain es' d' where
    body: "(if ?m < ?n then open_scan (Some i = newest) i ?n ?m es d else (Inr es, d)) = (Inr es', d')"
    and R: "hint_desc i rs es'" "fs_ok d'" "fs_frame (own_files i) d d'" "sealed_holds b d' i rs" "hint_true b d' i rs"
  proof (cases "?m < ?n")
    case True
    with open_scan_ok [OF d f [unfolded h(1)] t hint [unfolded h(1)] small [unfolded h(1)]
        len [unfolded h(1)] h(2), of "Some i = newest"] new h(1) that
    show thesis by auto
  next
    case False
    then have z: "recs_bytes rs2 = []" "t = []" using h(1) by auto
    then have "rs2 = []" by (cases rs2) auto
    with False z h d f hint that show thesis by (simp add: file_holds_sealed)
  qed
  define a1 where "a1 = (if ?m < ?n then a\<lparr> oa_scanned := oa_scanned a + (?n - ?m) \<rparr> else a)"
  define a2 where "a2 = foldl (index_entry i) a1 es'"
  define a3 where "a3 = (if Some i = newest then a2\<lparr> oa_active_hints := es' \<rparr> else a2)"
  have "acc_repr a1 ps" "oa_readers a1 = oa_readers a" using a by (simp_all add: a1_def acc_repr_def)
  then have "acc_repr a2 (ps @ locs i 0 rs)" "oa_readers a2 = oa_readers a"
    using R(1) index_entries_repr [of a1 ps i 0 rs es'] by (simp_all add: a2_def hint_desc_def)
  then have a3: "acc_repr a3 (ps @ locs i 0 rs)" "oa_readers a3 = oa_readers a"
    "newest = Some i \<longrightarrow> oa_active_hints a3 = es'"
    by (auto simp: a3_def acc_repr_def)
  have "fs_open (data_file_name i) d' = (Inr (), d')"
    using R(2,4) by (auto simp: fs_open_def sealed_holds_def fs_simps)
  then have "open_file opts newest i a d = (Inr (a3\<lparr> oa_readers := readers_insert i (oa_readers a3) \<rparr>), d')"
    unfolding open_file_def Let_def len' io_bind_simps h(3) prod.case body a1_def [symmetric] a2_def [symmetric]
      a3_def [symmetric] by simp
  with a3 R show ?thesis by (auto simp: acc_repr_def)
qed

section \<open>Opening the files in order\<close>

definition file_fine :: "bool \<Rightarrow> fs \<Rightarrow> nat \<times> krec list \<Rightarrow> bool" where
  "file_fine b d p \<longleftrightarrow> sealed_holds b d (fst p) (snd p) \<and> hint_true b d (fst p) (snd p)"

lemma file_fine_frame:
  assumes "file_fine b d (j, js)" and "fs_frame (own_files i) d d'" and "j \<noteq> i"
  shows "file_fine b d' (j, js)"
  using assms sealed_holds_frame [of b d j js d'] hint_true_frame_same [of b d j js d']
  by (simp add: file_fine_def fs_frame_def)

lemma readers_insert_new [simp]: "i \<notin> set rs \<Longrightarrow> readers_insert i rs = rs @ [i]"
  by (simp add: readers_insert_def)

lemma open_files_sealed:
  assumes "fs_ok d" and "\<forall>p \<in> set M. file_fine b d p \<and> list_all rec_small (snd p) \<and> length (recs_bytes (snd p)) \<le> u64_max"
    and "distinct (adom M)" and "newest \<notin> Some ` set (adom M)" and "acc_repr a ps"
    and "set (adom M) \<inter> set (oa_readers a) = {}"
  shows "\<exists>a' d'. (\<forall>rest. open_files opts newest (adom M @ rest) a d = open_files opts newest rest a' d') \<and>
    acc_repr a' (ps @ plocs M) \<and> oa_readers a' = oa_readers a @ adom M \<and> fs_ok d' \<and>
    fs_frame (\<Union> (own_files ` set (adom M))) d d' \<and> (\<forall>p \<in> set M. file_fine b d' p)"
  using assms
proof (induction M arbitrary: a d ps)
  case Nil
  then show ?case by (intro exI [of _ a] exI [of _ d]) simp
next
  case (Cons p M)
  obtain i rs where p: "p = (i, rs)" by (cases p)
  have fine: "file_holds b d i rs []" "hint_true b d i rs" "list_all rec_small rs" "length (recs_bytes rs) \<le> u64_max"
    using Cons.prems(2) p by (auto simp: file_fine_def file_holds_sealed)
  have ni: "newest \<noteq> Some i" "i \<notin> set (oa_readers a)" "i \<notin> set (adom M)"
    using Cons.prems(3,4,6) p by auto
  from open_file_ok [OF Cons.prems(1) fine(1) _ fine(2-4) _ Cons.prems(5), of newest opts] ni(1,2)
  obtain a1 d1 where 1: "open_file opts newest i a d = (Inr a1, d1)" "acc_repr a1 (ps @ locs i 0 rs)"
    "oa_readers a1 = oa_readers a @ [i]" "fs_ok d1" "fs_frame (own_files i) d d1"
    "file_fine b d1 (i, rs)"
    by (auto simp: file_fine_def)
  have rest: "\<forall>q \<in> set M. file_fine b d1 q \<and> list_all rec_small (snd q) \<and> length (recs_bytes (snd q)) \<le> u64_max"
  proof
    fix q assume q: "q \<in> set M"
    then have "fst q \<noteq> i" using ni(3) by auto
    with q Cons.prems(2) file_fine_frame [OF _ 1(5), of b "fst q" "snd q"]
    show "file_fine b d1 q \<and> list_all rec_small (snd q) \<and> length (recs_bytes (snd q)) \<le> u64_max" by simp
  qed
  have "distinct (adom M)" "newest \<notin> Some ` set (adom M)" "set (adom M) \<inter> set (oa_readers a1) = {}"
    using Cons.prems(3,4,6) 1(3) p ni(3) by auto
  from Cons.IH [OF 1(4) rest this(1,2) 1(2) this(3)] obtain a' d' where
    2: "\<And>rest. open_files opts newest (adom M @ rest) a1 d1 = open_files opts newest rest a' d'"
    "acc_repr a' ((ps @ locs i 0 rs) @ plocs M)" "oa_readers a' = oa_readers a1 @ adom M" "fs_ok d'"
    "fs_frame (\<Union> (own_files ` set (adom M))) d1 d'" "\<forall>p \<in> set M. file_fine b d' p"
    by blast
  have "file_fine b d' (i, rs)"
  proof -
    note own_files_out [OF ni(3)]
    then have "fs_file d' (data_file_name i) = fs_file d1 (data_file_name i)"
      "fs_file d' (hint_name i) = fs_file d1 (hint_name i)"
      using 2(5) unfolding fs_frame_def by blast+
    with 1(6) sealed_holds_frame [of b d1 i rs d'] hint_true_frame_same [of b d1 i rs d'] show ?thesis
      by (simp add: file_fine_def)
  qed
  moreover have "fs_frame (\<Union> (own_files ` set (adom (p # M)))) d d'"
    by (rule fs_frame_mono [OF fs_frame_trans [OF 1(5) 2(5)]]) (auto simp: p)
  ultimately show ?case
    using 1(1,3) 2 p by (intro exI [of _ a'] exI [of _ d']) (simp add: plocs_Cons)
qed

section \<open>Clearing the directory\<close>

lemma remove_all_ok:
  "fs_ok d \<Longrightarrow> distinct ns \<Longrightarrow> \<forall>n \<in> set ns. fs_file d n \<noteq> None \<Longrightarrow>
   \<exists>d'. remove_all ns d = (Inr (), d') \<and> fs_ok d' \<and>
     (\<forall>m. fs_file d' m = (if m \<in> set ns then None else fs_file d m))"
proof (induction ns arbitrary: d)
  case Nil
  then show ?case by simp
next
  case (Cons n ns)
  then obtain f where "fs_file d n = Some f" by auto
  then have "fs_remove n d = (Inr (), fs_del n d)"
    using Cons.prems(1) by (simp add: fs_remove_def fs_simps)
  moreover have "fs_ok (fs_del n d)" "distinct ns" "\<forall>m \<in> set ns. fs_file (fs_del n d) m \<noteq> None"
    using Cons.prems by auto
  from Cons.IH [OF this] obtain d' where "remove_all ns (fs_del n d) = (Inr (), d')" "fs_ok d'"
    "\<forall>m. fs_file d' m = (if m \<in> set ns then None else fs_file (fs_del n d) m)" by blast
  ultimately show ?case by (intro exI [of _ d']) simp
qed

lemma ends_with_part [simp]:
  "\<not> ends_with (data_file_name i) ''.log.part''" "\<not> ends_with (hint_name i) ''.log.part''"
proof -
  have *: "ends_with n suf \<Longrightarrow> suf \<noteq> [] \<Longrightarrow> take k (rev n) = take k (rev suf)" if "k \<le> length suf" for n suf k
  proof -
    assume e: "ends_with n suf"
    then have "n = take (length n - length suf) n @ suf"
      by (metis append_take_drop_id ends_with_def)
    then have "rev n = rev suf @ rev (take (length n - length suf) n)" by (metis rev_append)
    then show "take k (rev n) = take k (rev suf)" using that by simp
  qed
  show "\<not> ends_with (data_file_name i) ''.log.part''"
    using * [of 2 "''.log.part''" "data_file_name i"] by (auto simp: data_file_name_def)
  show "\<not> ends_with (hint_name i) ''.log.part''"
    using * [of 2 "''.log.part''" "hint_name i"] by (auto simp: hint_name_def)
qed

text \<open>Ids read from the names of a directory, when every name that parses is in canonical form.\<close>

lemma map_filter_ids:
  assumes "distinct ns" and "\<And>n j. n \<in> set ns \<Longrightarrow> g n = Some j \<Longrightarrow> n = name j"
  shows "distinct (List.map_filter g ns)" and "set (List.map_filter g ns) = {j. \<exists>n \<in> set ns. g n = Some j}"
proof -
  show "distinct (List.map_filter g ns)"
    using assms(1,2)
  proof (induction ns)
    case Nil
    then show ?case by (simp add: List.map_filter_def)
  next
    case (Cons n ns)
    have "j \<notin> set (List.map_filter g ns)" if "g n = Some j" for j
    proof
      assume "j \<in> set (List.map_filter g ns)"
      then obtain m where "m \<in> set ns" "g m = Some j" by (auto simp: List.map_filter_def)
      with Cons.prems that show False by (metis distinct.simps(2) list.set_intros)
    qed
    with Cons show ?case by (cases "g n") (auto simp: List.map_filter_simps)
  qed
  show "set (List.map_filter g ns) = {j. \<exists>n \<in> set ns. g n = Some j}"
    by (auto simp: List.map_filter_def) force
qed

text \<open>The data files of a directory, as the store lists them.\<close>

lemma list_data_files_ok:
  assumes d: "fs_ok d" "canonical d" and ids: "sorted_wrt (<) ids" "\<forall>i \<in> set ids. i \<le> u64_max"
    "\<forall>i \<in> set ids. fs_file d (data_file_name i) \<noteq> None"
    "only_logs d (set ids)"
  shows "list_data_files d = (Inr ids, d)"
proof -
  let ?g = "id_of_name ''log''"
  let ?ns = "adom (files d)"
  have can: "n = data_file_name j" if "n \<in> set ?ns" "?g n = Some j" for n j
    using that d(2) unfolding canonical_def fs_names by blast
  have dist: "distinct ?ns" using d(1) by (simp add: fs_ok_def fs_wf_def)
  have "{j. \<exists>n \<in> set ?ns. ?g n = Some j} = set ids"
  proof (intro equalityI subsetI CollectI)
    fix j assume "j \<in> {j. \<exists>n \<in> set ?ns. ?g n = Some j}"
    then obtain n where "n \<in> set ?ns" "?g n = Some j" by blast
    with ids(4) fs_names [of n d] show "j \<in> set ids" unfolding only_logs_def by blast
  next
    fix j assume j: "j \<in> set ids"
    then have "data_file_name j \<in> set ?ns" "?g (data_file_name j) = Some j"
      using ids(2,3) fs_names [of "data_file_name j" d] by auto
    then show "\<exists>n \<in> set ?ns. ?g n = Some j" by blast
  qed
  with map_filter_ids [of ?ns ?g data_file_name, OF dist can] have "distinct (List.map_filter ?g ?ns)" "set (List.map_filter ?g ?ns) = set ids"
    by simp_all
  then have "sort (List.map_filter ?g ?ns) = ids"
    using ids(1) by (intro sorted_distinct_set_unique) (auto simp: strict_sorted_iff)
  then show ?thesis using d(1) by (simp add: list_data_files_def fs_read_dir_def fs_simps)
qed

text \<open>The two clean-ups before the scan: part files, and hints without a data file.\<close>

lemma clear_parts_ok:
  assumes "fs_ok d"
  shows "\<exists>d'. io_bind (fs_read_dir d) (\<lambda>names d. remove_all (filter (\<lambda>n. ends_with n ''.log.part'') names) d)
      = (Inr (), d') \<and> fs_ok d' \<and>
    (\<forall>m. fs_file d' m = (if ends_with m ''.log.part'' then None else fs_file d m))"
proof -
  let ?ns = "filter (\<lambda>n. ends_with n ''.log.part'') (adom (files d))"
  have "distinct ?ns" using assms by (simp add: fs_ok_def fs_wf_def)
  moreover have in_ns: "n \<in> set ?ns \<longleftrightarrow> ends_with n ''.log.part'' \<and> fs_file d n \<noteq> None" for n
    using fs_names [of n d] by auto
  ultimately obtain d' where "remove_all ?ns d = (Inr (), d')" "fs_ok d'"
    "\<forall>m. fs_file d' m = (if m \<in> set ?ns then None else fs_file d m)"
    using remove_all_ok [OF assms, of ?ns] by blast
  with in_ns assms show ?thesis by (auto simp: fs_read_dir_def fs_simps)
qed

lemma clear_hints_ok:
  assumes "fs_ok d" and "canonical d"
  shows "\<exists>d'. io_bind (hint_list d) (\<lambda>hints d. remove_all (map hint_name (filter (\<lambda>i. i \<notin> set ids) hints)) d)
      = (Inr (), d') \<and> fs_ok d' \<and>
    (\<forall>m. fs_file d' m = (if \<exists>j. j \<notin> set ids \<and> id_of_name ''hint'' m = Some j then None else fs_file d m))"
proof -
  let ?g = "id_of_name ''hint''"
  let ?hs = "List.map_filter ?g (adom (files d))"
  let ?ns = "map hint_name (filter (\<lambda>i. i \<notin> set ids) ?hs)"
  have can: "n = hint_name j" if "n \<in> set (adom (files d))" "?g n = Some j" for n j
    using that assms(2) unfolding canonical_def fs_names by blast
  have dist: "distinct (adom (files d))" using assms(1) by (simp add: fs_ok_def fs_wf_def)
  note ids' = map_filter_ids [of "adom (files d)" ?g hint_name, OF dist can]
  have in_ns: "m \<in> set ?ns \<longleftrightarrow> fs_file d m \<noteq> None \<and> (\<exists>j. j \<notin> set ids \<and> ?g m = Some j)" for m
  proof -
    have "m \<in> set ?ns \<longleftrightarrow> (\<exists>j. j \<notin> set ids \<and> m = hint_name j \<and> (\<exists>n \<in> set (adom (files d)). ?g n = Some j))"
      using ids'(2) by auto
    also have "\<dots> \<longleftrightarrow> m \<in> set (adom (files d)) \<and> (\<exists>j. j \<notin> set ids \<and> ?g m = Some j)"
      using can by blast
    finally show ?thesis by (simp only: fs_names)
  qed
  have "distinct ?ns" using ids'(1) by (simp add: distinct_map inj_on_def)
  then obtain d' where "remove_all ?ns d = (Inr (), d')" "fs_ok d'"
    "\<forall>m. fs_file d' m = (if m \<in> set ?ns then None else fs_file d m)"
    using remove_all_ok [OF assms(1), of ?ns] in_ns by blast
  moreover have "hint_list d = (Inr ?hs, d)" using assms(1) by (simp add: hint_list_def fs_read_dir_def fs_simps)
  ultimately show ?thesis unfolding in_ns by auto
qed

section \<open>Opening a directory\<close>

lemma log_writer_open_existing:
  assumes "fs_ok d" and "sealed_holds b d i rs"
  shows "\<exists>w. log_writer_open i d = (Inr w, d) \<and> log_holds b w d rs \<and> lw_file_id w = i \<and>
    lw_synced w = lw_offset w \<and> lw_pending w = []"
proof -
  obtain f where f: "fs_file d (data_file_name i) = Some f" "fdata f = recs_bytes rs"
    "fsynced f \<le> length (fdata f)" "b \<longrightarrow> fsynced f = length (fdata f)"
    using assms(2) by (auto simp: sealed_holds_def)
  let ?n = "length (recs_bytes rs)"
  let ?w = "\<lparr> lw_file_id = i, lw_offset = ?n, lw_written = ?n, lw_synced = ?n, lw_pending = [] \<rparr>"
  have "log_writer_open i d = (Inr ?w, d)"
    using assms(1) f by (simp add: log_writer_open_def fs_open_append_def fs_len_def fs_simps)
  moreover have "log_holds b ?w d rs"
    unfolding log_holds_def using f by (intro exI [of _ f] exI [of _ rs] exI [of _ "[]"]) auto
  ultimately show ?thesis by simp
qed

definition acc0 :: open_acc where
  "acc0 = \<lparr> oa_keydir = [], oa_readers = [], oa_live = 0, oa_disk = 0, oa_active_hints = [], oa_scanned = 0 \<rparr>"

lemma acc0_repr [simp]: "acc_repr acc0 []" "oa_readers acc0 = []"
  by (simp_all add: acc0_def acc_repr_def)

definition open_tail :: "options \<Rightarrow> nat list \<Rightarrow> fs \<Rightarrow> store io" where
  "open_tail opts ids d =
     (let newest = (if ids = [] then None else Some (last ids)) in
      io_bind (open_files opts newest ids acc0 d) (\<lambda>a d.
      let active_id = (case newest of None \<Rightarrow> 1 | Some i \<Rightarrow> i) in
      io_bind (log_writer_open active_id d) (\<lambda>w d.
      io_bind (fs_open (data_file_name active_id) d) (\<lambda>_ d.
      (Inr \<lparr> st_keydir = oa_keydir a, st_readers = readers_insert active_id (oa_readers a),
            st_writer = w, st_opts = opts, st_live_bytes = oa_live a, st_disk_bytes = oa_disk a,
            st_sealed_synced = [], st_active_hints = oa_active_hints a,
            st_scanned_at_open = oa_scanned a, st_compacting = False, st_restoring = False,
            st_fs = d \<rparr>, d)))))"

lemma io_bind_assoc: "io_bind (io_bind m f) g = io_bind m (\<lambda>x d. io_bind (f x d) g)"
  by (cases m; cases "fst m") auto

lemma store_open_split:
  assumes "fs_ok d" and "list_data_files d = (Inr ids, d)"
    and "io_bind (fs_read_dir d) (\<lambda>names d. remove_all (filter (\<lambda>n. ends_with n ''.log.part'') names) d) = (Inr (), d1)"
    and "io_bind (hint_list d1) (\<lambda>hints d. remove_all (map hint_name (filter (\<lambda>i. i \<notin> set ids) hints)) d) = (Inr (), d2)"
  shows "store_open opts d = open_tail opts ids d2"
proof -
  have "io_bind (fs_read_dir d) (\<lambda>names d.
      io_bind (remove_all (filter (\<lambda>n. ends_with n ''.log.part'') names) d) k) = k () d1" for k :: "unit \<Rightarrow> fs \<Rightarrow> store io"
    using assms(3) by (simp flip: io_bind_assoc)
  moreover have "io_bind (hint_list d1) (\<lambda>hints d.
      io_bind (remove_all (map hint_name (filter (\<lambda>i. i \<notin> set ids) hints)) d) k) = k () d2" for k :: "unit \<Rightarrow> fs \<Rightarrow> store io"
    using assms(4) by (simp flip: io_bind_assoc)
  moreover have "fs_create_dir_all d = (Inr (), d)"
    using assms(1) by (simp add: fs_create_dir_all_def fs_simps)
  ultimately show ?thesis
    using assms(2) by (simp add: store_open_def open_tail_def acc0_def Let_def)
qed

text \<open>What the clean-ups leave of a represented directory.\<close>

lemma store_open_clear:
  assumes d: "fs_ok d" "canonical d" and ids: "sorted_wrt (<) ids" "\<forall>i \<in> set ids. i \<le> u64_max"
    "\<forall>i \<in> set ids. fs_file d (data_file_name i) \<noteq> None"
    "only_logs d (set ids)"
  shows "\<exists>d2. store_open opts d = open_tail opts ids d2 \<and> fs_ok d2 \<and> dir_names d2 (set ids) \<and>
    (\<forall>i \<in> set ids. fs_file d2 (data_file_name i) = fs_file d (data_file_name i) \<and>
       fs_file d2 (hint_name i) = fs_file d (hint_name i)) \<and> (\<forall>n. fs_file d2 n \<noteq> None \<longrightarrow> fs_file d n \<noteq> None)"
proof -
  obtain d1 where
    1: "io_bind (fs_read_dir d) (\<lambda>names d. remove_all (filter (\<lambda>n. ends_with n ''.log.part'') names) d) = (Inr (), d1)"
    "fs_ok d1" "\<forall>m. fs_file d1 m = (if ends_with m ''.log.part'' then None else fs_file d m)"
    using clear_parts_ok [OF d(1)] by blast
  then have can1: "canonical d1" using d(2) by (simp add: canonical_def)
  obtain d2 where
    2: "io_bind (hint_list d1) (\<lambda>hints d. remove_all (map hint_name (filter (\<lambda>i. i \<notin> set ids) hints)) d) = (Inr (), d2)"
    "fs_ok d2"
    "\<forall>m. fs_file d2 m = (if \<exists>j. j \<notin> set ids \<and> id_of_name ''hint'' m = Some j then None else fs_file d1 m)"
    using clear_hints_ok [OF 1(2) can1, of ids] by blast
  have sub: "fs_file d1 n \<noteq> None \<and> fs_file d n \<noteq> None \<and> (\<forall>j. id_of_name ''hint'' n = Some j \<longrightarrow> j \<in> set ids)"
    if "fs_file d2 n \<noteq> None" for n
    using that 1(3) 2(3) by (auto split: if_splits)
  have "dir_names d2 (set ids)"
    unfolding dir_names_def name_ok_def
    using sub ids(4) d(2) unfolding canonical_def only_logs_def by blast
  moreover have "fs_file d2 (data_file_name i) = fs_file d (data_file_name i) \<and>
      fs_file d2 (hint_name i) = fs_file d (hint_name i)" if "i \<in> set ids" for i
  proof -
    have "id_of_name ''hint'' (hint_name i) = Some i" using that ids(2) by simp
    then show ?thesis using that 1(3) 2(3) by auto
  qed
  moreover have "list_data_files d = (Inr ids, d)"
    by (rule list_data_files_ok [OF d ids])
  ultimately show ?thesis
    using store_open_split [OF d(1) _ 1(1) 2(1)] 2(2) sub by blast
qed

lemma open_tail_ok:
  assumes d: "fs_ok d" and ok: "hist_ok (L @ [(i, rs)])" and names: "dir_names d (set (adom L) \<union> {i})"
    and L: "\<forall>p \<in> set L. file_fine b d p" and f: "file_holds b d i rs t" and t: "torn_tail t"
    and h: "hint_true b d i rs"
  shows "\<exists>s. open_tail opts (adom L @ [i]) d = (Inr s, st_fs s) \<and> store_repr b s L i rs \<and> st_opts s = opts \<and>
    \<not> st_restoring s \<and> \<not> st_compacting s \<and> is_synced s \<and> lw_pending (st_writer s) = []"
proof -
  have fine: "\<forall>p \<in> set L. file_fine b d p \<and> list_all rec_small (snd p) \<and> length (recs_bytes (snd p)) \<le> u64_max"
    using L ok by (auto simp: hist_ok_def)
  have small: "list_all rec_small rs" "length (recs_bytes rs) \<le> u64_max" and i: "i \<le> u64_max" "\<forall>j \<in> set (adom L). j \<le> u64_max"
    using ok by (auto simp: hist_ok_def)
  have dist: "distinct (adom L)" "i \<notin> set (adom L)" using hist_ok_distinct [OF ok] by auto
  from open_files_sealed [OF d fine dist(1), of "Some i" acc0 "[]" opts] dist(2)
  obtain a1 d1 where 1: "\<And>rest. open_files opts (Some i) (adom L @ rest) acc0 d = open_files opts (Some i) rest a1 d1"
    "acc_repr a1 (plocs L)" "oa_readers a1 = adom L" "fs_ok d1"
    "fs_frame (\<Union> (own_files ` set (adom L))) d d1" "\<forall>p \<in> set L. file_fine b d1 p"
    by (auto simp del: list.set_map)
  note out = own_files_out [OF dist(2)]
  have same: "fs_file d1 (data_file_name i) = fs_file d (data_file_name i)"
    "fs_file d1 (hint_name i) = fs_file d (hint_name i)"
    using 1(5) out unfolding fs_frame_def by blast+
  have f1: "file_holds b d1 i rs t" using f same by (simp add: file_holds_def)
  have h1: "hint_true b d1 i rs" using h same by (intro hint_true_frame_same [OF h]) auto
  from open_file_ok [OF 1(4) f1 t h1 small _ 1(2), of "Some i" opts] 1(3) dist(2)
  obtain a2 d2 where 2: "open_file opts (Some i) i a1 d1 = (Inr a2, d2)" "acc_repr a2 (plocs L @ locs i 0 rs)"
    "oa_readers a2 = adom L @ [i]" "hint_desc i rs (oa_active_hints a2)" "fs_ok d2"
    "fs_frame (own_files i) d1 d2" "sealed_holds b d2 i rs" "hint_true b d2 i rs"
    by auto
  obtain w where w: "log_writer_open i d2 = (Inr w, d2)" "log_holds b w d2 rs" "lw_file_id w = i"
    "lw_synced w = lw_offset w" "lw_pending w = []"
    using log_writer_open_existing [OF 2(5,7)] by blast
  have fine2: "file_fine b d2 (j, js)" if "(j, js) \<in> set L" for j js
    using file_fine_frame [OF _ 2(6)] 1(6) that hist_ok_less_in [OF ok that] by blast
  have names2: "dir_names d2 (set (adom L) \<union> {i})"
  proof (rule dir_names_frame [OF names fs_frame_trans [OF 1(5) 2(6)]])
    fix n assume "n \<in> \<Union> (own_files ` set (adom L)) \<union> own_files i"
    with i own_files_name_ok [of n "set (adom L) \<union> {i}"] show "name_ok (set (adom L) \<union> {i}) n"
      by (simp only: UN_Un UN_insert UN_empty Un_empty_right) blast
  qed simp
  have "fs_open (data_file_name i) d2 = (Inr (), d2)"
    using 2(5,7) by (auto simp: fs_open_def sealed_holds_def fs_simps)
  then obtain s where s: "open_tail opts (adom L @ [i]) d = (Inr s, d2)" "st_fs s = d2" "st_keydir s = oa_keydir a2"
    "st_readers s = adom L @ [i]" "st_writer s = w" "st_live_bytes s = oa_live a2" "st_disk_bytes s = oa_disk a2"
    "st_active_hints s = oa_active_hints a2" "st_opts s = opts" "\<not> st_restoring s" "\<not> st_compacting s"
    using 1(1) [of "[i]"] 2(1,3) w(1) by (simp add: open_tail_def Let_def readers_insert_def)
  have "store_repr b s L i rs"
    unfolding store_repr_def using s 2 w ok names2 fine2 dist
    by (auto simp: file_fine_def acc_repr_def)
  with s w(4,5) show ?thesis by (simp add: is_synced_def)
qed

lemma store_open_repr:
  assumes "disk_repr b d L i rs t"
  shows "\<exists>s. store_open opts d = (Inr s, st_fs s) \<and> store_repr b s L i rs \<and> st_opts s = opts \<and>
    \<not> st_restoring s \<and> \<not> st_compacting s \<and> is_synced s \<and> lw_pending (st_writer s) = []"
proof -
  have d: "fs_ok d" "canonical d" "only_logs d (set (adom L) \<union> {i})" and ok: "hist_ok (L @ [(i, rs)])"
    and t: "torn_tail t" and L: "\<And>j js. (j, js) \<in> set L \<Longrightarrow> sealed_holds b d j js"
    and f: "file_holds b d i rs t" and h: "\<And>j js. (j, js) \<in> set (L @ [(i, rs)]) \<Longrightarrow> hint_true b d j js"
    using assms unfolding disk_repr_def by blast+
  let ?ids = "adom L @ [i]"
  have ids: "sorted_wrt (<) ?ids" "\<forall>i \<in> set ?ids. i \<le> u64_max" "only_logs d (set ?ids)"
    using ok d(3) by (auto simp: hist_ok_def)
  have there: "\<forall>i \<in> set ?ids. fs_file d (data_file_name i) \<noteq> None"
    using L f by (fastforce simp: sealed_holds_def file_holds_def)
  obtain d2 where d2: "store_open opts d = open_tail opts ?ids d2" "fs_ok d2" "dir_names d2 (set ?ids)"
    "\<forall>i \<in> set ?ids. fs_file d2 (data_file_name i) = fs_file d (data_file_name i) \<and>
       fs_file d2 (hint_name i) = fs_file d (hint_name i)"
    using store_open_clear [OF d(1,2) ids(1,2) there ids(3), of opts] by blast
  have same: "fs_file d2 (data_file_name j) = fs_file d (data_file_name j)" "fs_file d2 (hint_name j) = fs_file d (hint_name j)"
    if "(j, js) \<in> set (L @ [(i, rs)])" for j js
    using that d2(4) by force+
  have "\<forall>p \<in> set L. file_fine b d2 p"
  proof
    fix p assume p: "p \<in> set L"
    obtain j js where js: "p = (j, js)" by (cases p)
    with p have j: "(j, js) \<in> set L" "(j, js) \<in> set (L @ [(i, rs)])" by auto
    show "file_fine b d2 p"
      using sealed_holds_frame [OF L [OF j(1)] same(1) [OF j(2)]]
        hint_true_frame_same [OF h [OF j(2)] same(2) [OF j(2)]] same(1) [OF j(2)] js
      by (simp add: file_fine_def)
  qed
  moreover have "file_holds b d2 i rs t" using f same(1) [of i rs] by (simp add: file_holds_def)
  moreover have "hint_true b d2 i rs"
    using hint_true_frame_same [OF h [of i rs] same(2) [of i rs]] same(1) [of i rs] by simp
  ultimately show ?thesis
    unfolding d2(1) using d2(2,3) ok t by (intro open_tail_ok) auto
qed

lemma store_open_empty:
  assumes "disk_empty d"
  shows "\<exists>s. store_open opts d = (Inr s, st_fs s) \<and> store_repr b s [] 1 [] \<and> st_opts s = opts \<and>
    \<not> st_restoring s \<and> \<not> st_compacting s \<and> is_synced s \<and> lw_pending (st_writer s) = []"
proof -
  have d: "fs_ok d" "canonical d" "only_logs d (set [])" using assms by (auto simp: disk_empty_def)
  obtain d2 where d2: "store_open opts d = open_tail opts [] d2" "fs_ok d2" "dir_names d2 {}"
    using store_open_clear [OF d(1,2) _ _ _ d(3), of opts] by auto
  have 1: "1 \<le> u64_max" by (simp add: u64_max_def)
  have new: "fs_file d2 (data_file_name 1) = None" "fs_file d2 (hint_name 1) = None"
    using d2(3) 1 id_of_data_file_name [OF 1] id_of_hint_name(1) [OF 1]
    unfolding dir_names_def name_ok_def by blast+
  obtain w d3 where w: "log_writer_open 1 d2 = (Inr w, d3)" "fs_ok d3" "log_holds b w d3 []"
    "lw_file_id w = 1" "lw_synced w = lw_offset w" "fs_frame {data_file_name 1} d2 d3" "lw_pending w = []"
    using log_writer_open_new [OF d2(2) new(1)] by blast
  have "fs_open (data_file_name 1) d3 = (Inr (), d3)"
    using w(2,3,4) by (auto simp: fs_open_def log_holds_def fs_simps)
  then obtain s where s: "open_tail opts [] d2 = (Inr s, d3)" "st_fs s = d3" "st_keydir s = []"
    "st_readers s = [1]" "st_writer s = w" "st_live_bytes s = 0" "st_disk_bytes s = 0" "st_active_hints s = []"
    "st_opts s = opts" "\<not> st_restoring s" "\<not> st_compacting s"
    using w(1) by (simp add: open_tail_def Let_def acc0_def)
  have "dir_names d3 {1}"
    by (rule dir_names_frame [OF d2(3) w(6)]) (use 1 in auto)
  moreover have "hint_true b d3 1 []"
    using new(2) fs_frame_file [OF w(6), of "hint_name 1"] by (simp add: hint_true_def)
  ultimately have "store_repr b s [] 1 []"
    unfolding store_repr_def using s w 1 by (simp add: hist_ok_def)
  with s d2(1) w(5,7) show ?thesis by (simp add: is_synced_def)
qed

section \<open>Closing\<close>

lemma hint_true_weaken: "hint_true b d i rs \<Longrightarrow> hint_true False d i rs"
  unfolding hint_true_def by blast

lemma dir_names_canonical: "dir_names d ids \<Longrightarrow> canonical d \<and> only_logs d ids"
  unfolding dir_names_def name_ok_def canonical_def only_logs_def by blast

text \<open>A store whose buffer is empty: its directory, if the process dies now.\<close>

lemma flushed_disk:
  assumes repr: "store_repr b s L i rs" and "lw_pending (st_writer s) = []"
  shows "disk_repr False (st_fs s) L i rs []"
proof -
  note D = store_reprD [OF repr]
  have "file_holds False (st_fs s) i rs []"
    using D(4,5) assms(2) by (auto simp: log_holds_def file_holds_def)
  moreover have "\<forall>(j, js) \<in> set L. sealed_holds False (st_fs s) j js"
    using D(6) by (auto simp: sealed_holds_def)
  moreover have "\<forall>(j, js) \<in> set (L @ [(i, rs)]). hint_true False (st_fs s) j js"
    using D(7) hint_true_weaken by blast
  ultimately show ?thesis
    unfolding disk_repr_def using D(1,2) dir_names_canonical [OF D(3)] by simp
qed

lemma store_close_disk:
  assumes "store_repr b s L i rs"
  shows "disk_repr False (store_close s) L i rs []"
proof -
  obtain w d where w: "log_flush (st_writer s) (st_fs s) = (Inr (), w, d)" "lw_pending w = []"
    "store_repr b (s\<lparr> st_writer := w, st_fs := d \<rparr>) L i rs"
    using store_flush_ok [OF assms] by blast
  then have "store_close s = d" by (simp add: store_close_def log_drop_def)
  with flushed_disk [OF w(3)] w(2) show ?thesis by simp
qed

section \<open>Losing power\<close>

lemma fs_power_cut_file:
  "fs_file (fs_power_cut d) n = map_option (\<lambda>f. f\<lparr> fdata := take (fsynced f) (fdata f) \<rparr>) (fs_file d n)"
  by (simp add: fs_power_cut_def fs_file_def map_of_map)

lemma fs_power_cut_ok: "fs_ok d \<Longrightarrow> fs_ok (fs_power_cut d)"
  by (simp add: fs_power_cut_def fs_ok_def fs_wf_def comp_def case_prod_beta)

text \<open>Cutting a file of records anywhere leaves whole records and the beginning of one.\<close>

lemma take_recs:
  assumes "list_all rec_ok rs"
  shows "\<exists>p q t. rs = p @ q \<and> take n (recs_bytes rs) = recs_bytes p @ t \<and> torn_tail t \<and>
    (\<forall>p' q'. rs = p' @ q' \<longrightarrow> length (recs_bytes p') \<le> n \<longrightarrow> (\<exists>z. p = p' @ z))"
  using assms
proof (induction rs arbitrary: n)
  case Nil
  then show ?case by simp
next
  case (Cons r rs)
  show ?case
  proof (cases "n < length (rec_bytes r)")
    case True
    have "torn_tail (take n (rec_bytes r))" using torn_tail_prefix True Cons.prems by simp
    moreover have "p' = []" if "r # rs = p' @ q'" "length (recs_bytes p') \<le> n" for p' q'
      using that True by (cases p') auto
    ultimately show ?thesis
      using True by (intro exI [of _ "[]"] exI [of _ "r # rs"] exI [of _ "take n (rec_bytes r)"]) auto
  next
    case False
    let ?n = "n - length (rec_bytes r)"
    obtain p q t where IH: "rs = p @ q" "take ?n (recs_bytes rs) = recs_bytes p @ t" "torn_tail t"
      "\<And>p' q'. rs = p' @ q' \<Longrightarrow> length (recs_bytes p') \<le> ?n \<Longrightarrow> \<exists>z. p = p' @ z"
      using Cons.IH [of ?n] Cons.prems by auto
    have "\<exists>z. r # p = p' @ z" if "r # rs = p' @ q'" "length (recs_bytes p') \<le> n" for p' q'
    proof (cases p')
      case (Cons a p'')
      with that have "rs = p'' @ q'" "length (recs_bytes p'') \<le> ?n" "a = r" by auto
      with IH(4) Cons show ?thesis by fastforce
    qed simp
    with IH False show ?thesis
      by (intro exI [of _ "r # p"] exI [of _ q] exI [of _ t]) auto
  qed
qed

lemma sealed_power_cut: "sealed_holds True d j js \<Longrightarrow> sealed_holds True (fs_power_cut d) j js"
  by (auto simp: sealed_holds_def fs_power_cut_file)

lemma hint_power_cut:
  assumes "hint_true True d j js" and "\<And>p q. js = p @ q \<Longrightarrow> length (recs_bytes p) \<le> synced_of d (data_file_name j) \<Longrightarrow>
      \<exists>z. ks = p @ z"
  shows "hint_true True (fs_power_cut d) j ks"
  unfolding hint_true_def
proof (intro allI impI conjI)
  fix g n es m
  assume g: "fs_file (fs_power_cut d) (hint_name j) = Some g" and dec: "hint_decode (fdata g) n = Some (es, m)"
  then obtain f where f: "fs_file d (hint_name j) = Some f" "g = f\<lparr> fdata := take (fsynced f) (fdata f) \<rparr>"
    by (auto simp: fs_power_cut_file)
  with assms(1) have "g = f" by (simp add: hint_true_def)
  with dec f(1) assms(1) obtain p q where pq: "js = p @ q" "hint_desc j p es" "m = length (recs_bytes p)"
    "m \<le> synced_of d (data_file_name j)"
    unfolding hint_true_def by metis
  with assms(2) obtain z where "ks = p @ z" by metis
  moreover have "synced_of (fs_power_cut d) (data_file_name j) = synced_of d (data_file_name j)"
    by (simp add: fs_power_cut_file split: option.splits)
  ultimately show "\<exists>p q. ks = p @ q \<and> hint_desc j p es \<and> m = length (recs_bytes p) \<and>
      (True \<longrightarrow> m \<le> synced_of (fs_power_cut d) (data_file_name j))"
    using pq by auto
next
  fix g assume "fs_file (fs_power_cut d) (hint_name j) = Some g"
  with assms(1) show "fsynced g = length (fdata g)" by (auto simp: hint_true_def fs_power_cut_file)
qed

lemma power_cut_disk:
  assumes repr: "store_repr True s L i rs"
  shows "\<exists>p q t. rs = p @ q \<and> disk_repr True (fs_power_cut (st_fs s)) L i p t \<and>
    (\<forall>p' q'. rs = p' @ q' \<longrightarrow> length (recs_bytes p') \<le> lw_synced (st_writer s) \<longrightarrow> (\<exists>z. p = p' @ z))"
proof -
  note D = store_reprD [OF repr]
  let ?d = "fs_power_cut (st_fs s)"
  obtain f rs1 rs2 where f: "fs_file (st_fs s) (data_file_name i) = Some f" "rs = rs1 @ rs2"
    "fdata f = recs_bytes rs1" "lw_synced (st_writer s) \<le> fsynced f" "fsynced f \<le> length (fdata f)"
    using D(4,5) by (auto simp: log_holds_def)
  have small: "list_all rec_small rs" using D(2) by (simp add: hist_ok_def)
  then have "list_all rec_ok rs1" using f(2) by (auto simp: list_all_iff)
  from take_recs [OF this, of "fsynced f"] obtain p q t where p: "rs1 = p @ q"
    "take (fsynced f) (recs_bytes rs1) = recs_bytes p @ t" "torn_tail t"
    "\<And>p' q'. rs1 = p' @ q' \<Longrightarrow> length (recs_bytes p') \<le> fsynced f \<Longrightarrow> \<exists>z. p = p' @ z" by blast
  have ext: "\<exists>z. p = p' @ z" if "rs = p' @ q'" "length (recs_bytes p') \<le> fsynced f" for p' q'
  proof -
    have "\<exists>u. rs1 = p' @ u"
    proof -
      have "rs1 @ rs2 = p' @ q'" using that(1) f(2) by simp
      then obtain us where "p' = rs1 @ us \<or> p' @ us = rs1"
        using append_eq_append_conv2 [of rs1 rs2 p' q'] by metis
      moreover have "us = []" if "p' = rs1 @ us"
        using that \<open>length (recs_bytes p') \<le> fsynced f\<close> f(3,5)
        by (cases us) (auto simp: length_rec_bytes HEADER_LEN_def)
      ultimately show ?thesis by auto
    qed
    with p(4) that(2) show ?thesis by blast
  qed
  have "hist_ok (L @ [(i, p)])"
    using D(2) f(2) p(1) by (simp add: hist_ok_def)
  moreover have "canonical ?d" "only_logs ?d (set (adom L) \<union> {i})"
    using dir_names_canonical [OF D(3)] by (simp_all add: canonical_def only_logs_def fs_power_cut_file)
  moreover have "length (recs_bytes p @ t) = fsynced f"
    unfolding p(2) [symmetric] using f(3,5) by simp
  then have "file_holds True ?d i p t"
    using f p(2) by (simp add: file_holds_def fs_power_cut_file)
  moreover have "\<forall>(j, js) \<in> set L. sealed_holds True ?d j js"
    using D(6) sealed_power_cut by blast
  moreover have "hint_true True ?d i p"
    using hint_power_cut [OF D(7) [of i rs], of p] ext f(1) by simp
  moreover have "hint_true True ?d j js" if "(j, js) \<in> set L" for j js
    using hint_power_cut [OF D(7) [of j js], of js] that by simp
  ultimately have "disk_repr True ?d L i p t"
    unfolding disk_repr_def using fs_power_cut_ok [OF D(1)] p(3) by auto
  moreover have "rs = p @ (q @ rs2)" using f(2) p(1) by simp
  moreover have "\<exists>z. p = p' @ z" if "rs = p' @ q'" "length (recs_bytes p') \<le> lw_synced (st_writer s)" for p' q'
    using ext [OF that(1)] that(2) f(4) by simp
  ultimately show ?thesis by blast
qed

end
