(* ===== verification/StoreProps.thy ===== *)
theory StoreProps
  imports StoreOpen
begin

text \<open>
  The properties of the store: that it behaves as a map whatever is asked of it, that what it holds
  survives being closed, killed in the middle of an append, or losing power as far as the code promises,
  and what it does with damage and with requests it must refuse.
\<close>

section \<open>A store to start from\<close>

abbreviation no_files :: fs where
  "no_files \<equiv> \<lparr> files = [], faults = [] \<rparr>"

lemma disk_empty_no_files [simp]: "disk_empty no_files"
  by (simp add: disk_empty_def fs_ok_def fs_wf_def canonical_def only_logs_def fs_file_def)

lemma store_room_new:
  assumes "store_repr b s [] 1 []" and "n < u64_max"
  shows "store_room s n"
  using store_reprD(4,10) [OF assms(1)] assms(2) by (simp add: store_room_def kd_repr_def)

lemma new_store:
  "\<exists>s. store_open opts no_files = (Inr s, st_fs s) \<and> store_log b s [] \<and> store_ready b s \<and>
     st_opts s = opts \<and> \<not> st_restoring s \<and> store_room s (2 ^ 40) \<and> store_repr b s [] 1 []"
proof -
  obtain s where s: "store_open opts no_files = (Inr s, st_fs s)" "store_repr b s [] 1 []" "st_opts s = opts"
    "\<not> st_restoring s"
    using store_open_empty [OF disk_empty_no_files, of opts b] by blast
  moreover have "store_log b s []"
    unfolding store_log_def using s(2) by (intro exI [of _ "[]"] exI [of _ 1]) (auto simp: hist_recs_def)
  moreover have "store_room s (2 ^ 40)" using store_room_new [OF s(2)] by (simp add: u64_max_def)
  ultimately show ?thesis by (auto simp: store_ready_def)
qed

section \<open>The store is a map\<close>

text \<open>(C7) The store refines a map: any sequence of gets, puts and deletes that fits on the device is
  answered exactly as a map from keys to values would answer it, never with an error, and what the store
  holds afterwards is what the map holds. Rollovers to new data files are invisible.\<close>

theorem store_refines_map:
  assumes "store_ready b s" and "list_all (op_fits kv_fits) xs"
    and "store_room s (sum_list (map (op_cost del_cost put_cost) xs))"
  shows "\<exists>s'. kv_run (\<lambda>s k. fst (store_get s k)) (\<lambda>s k v c. store_put s k v (tick1 c) (tick2 c))
      (\<lambda>s k c. store_delete s k (tick1 c) (tick2 c)) s xs = (Inr (fst (map_run (store_kv s) xs)), s') \<and>
    store_ready b s' \<and> store_kv s' = snd (map_run (store_kv s) xs)"
  using st.run_refines [OF assms(1,2), of 0] assms(3) by auto

theorem store_refines_map_witness:
  "\<exists>s s'. store_open default_options no_files = (Inr s, st_fs s) \<and>
     kv_run (\<lambda>s k. fst (store_get s k)) (\<lambda>s k v c. store_put s k v (tick1 c) (tick2 c))
       (\<lambda>s k c. store_delete s k (tick1 c) (tick2 c)) s
       [KPut [97] [1] (5, 6), KPut [97] [2] (7, 7), KGet [97], KDel [97] (8, 9), KGet [97], KDel [97] (9, 9)]
     = (Inr [KStored, KStored, KValue (Some [2]), KDeleted True, KValue None, KDeleted False], s')"
proof -
  obtain s where s: "store_open default_options no_files = (Inr s, st_fs s)" "store_log True s []"
    "store_ready True s" "store_room s (2 ^ 40)"
    using new_store by blast
  let ?xs = "[KPut [97] [1] (5, 6), KPut [97] [2] (7, 7), KGet [97], KDel [97] (8, 9), KGet [97], KDel [97] (9, 9)]
    :: (bytes, bytes, clock) kv_op list"
  have "list_all (op_fits kv_fits) ?xs"
    by (simp add: op_fits_def kv_fits_def put_cost_def HEADER_LEN_def)
  moreover have "store_room s (sum_list (map (op_cost del_cost put_cost) ?xs))"
    using s(4) by (simp add: store_room_def op_cost_def del_cost_def put_cost_def HEADER_LEN_def)
  ultimately show ?thesis
    using store_refines_map [OF s(3), of ?xs] s(1) store_log_kv [OF s(2)] by (fastforce simp: Let_def)
qed

text \<open>Deferred writes are the same writes: the operations the replicated store uses, which leave
  records in the writer's buffer, are answered exactly as a map would answer them too, the buffered
  records included.\<close>

theorem store_deferred_refines_map:
  assumes "store_ready b s" and "list_all (op_fits kv_fits) xs"
    and "store_room s (sum_list (map (op_cost del_cost put_cost) xs))"
  shows "\<exists>s'. kv_run (\<lambda>s k. fst (store_get s k)) (\<lambda>s k v c. put_deferred s k v (tick1 c) (tick2 c))
      (\<lambda>s k c. delete_deferred s k (tick1 c) (tick2 c)) s xs = (Inr (fst (map_run (store_kv s) xs)), s') \<and>
    store_ready b s' \<and> store_kv s' = snd (map_run (store_kv s) xs)"
  using df.run_refines [OF assms(1,2), of 0] assms(3) by auto

theorem store_deferred_refines_map_witness:
  "\<exists>s s'. store_open default_options no_files = (Inr s, st_fs s) \<and>
     kv_run (\<lambda>s k. fst (store_get s k)) (\<lambda>s k v c. put_deferred s k v (tick1 c) (tick2 c))
       (\<lambda>s k c. delete_deferred s k (tick1 c) (tick2 c)) s [KPut [97] [1] (5, 6), KGet [97]]
     = (Inr [KStored, KValue (Some [1])], s')"
proof -
  obtain s where s: "store_open default_options no_files = (Inr s, st_fs s)" "store_ready True s"
    "store_room s (2 ^ 40)"
    using new_store by blast
  let ?xs = "[KPut [97] [1] (5, 6), KGet [97]] :: (bytes, bytes, clock) kv_op list"
  have "list_all (op_fits kv_fits) ?xs"
    by (simp add: op_fits_def kv_fits_def put_cost_def HEADER_LEN_def)
  moreover have "store_room s (sum_list (map (op_cost del_cost put_cost) ?xs))"
    using s(3) by (simp add: store_room_def op_cost_def put_cost_def HEADER_LEN_def)
  ultimately show ?thesis
    using store_deferred_refines_map [OF s(2), of ?xs] s(1) by (fastforce simp: Let_def)
qed

section \<open>Durability\<close>

text \<open>(C10) Closing and opening again changes nothing: the directory a store leaves behind, deferred writes
  flushed, opens without an error, with hints or verifying every record, to the same history and so the
  same value for every key.\<close>

theorem store_reopen:
  assumes "store_log b s H"
  shows "\<exists>s'. store_open opts (store_close s) = (Inr s', st_fs s') \<and> store_log False s' H \<and>
    store_kv s' = store_kv s"
proof -
  obtain L i rs where L: "store_repr b s L i rs" "H = hist_recs (L @ [(i, rs)])"
    using assms by (auto simp: store_log_def)
  from store_open_repr [OF store_close_disk [OF L(1)], of opts] obtain s' where
    "store_open opts (store_close s) = (Inr s', st_fs s')" "store_repr False s' L i rs" by blast
  moreover from this have "store_log False s' H" using L(2) by (auto simp: store_log_def)
  ultimately show ?thesis using store_log_kv assms by metis
qed

theorem store_reopen_witness:
  "\<exists>s s' H. store_open default_options no_files = (Inr s, st_fs s) \<and>
     store_open default_options (store_close s) = (Inr s', st_fs s') \<and> store_log False s' H"
  using new_store [of default_options True] store_reopen [of True _ "[]" default_options] by blast

text \<open>(C11) A process killed in the middle of an append loses that append and nothing else: when the newest
  file ends in any proper part of a record, opening truncates it to its last whole record and every
  record before it is there.\<close>

theorem store_open_torn:
  assumes "disk_repr False d L i rs []" and "rec_ok r" and "n < length (rec_bytes r)"
  shows "\<exists>s f. store_open opts (fs_append (data_file_name i) (take n (rec_bytes r)) d) = (Inr s, st_fs s) \<and>
    store_log False s (hist_recs (L @ [(i, rs)])) \<and>
    fs_file (st_fs s) (data_file_name i) = Some f \<and> fdata f = recs_bytes rs"
proof -
  let ?t = "take n (rec_bytes r)"
  let ?d = "fs_append (data_file_name i) ?t d"
  obtain f where f: "fs_file d (data_file_name i) = Some f" "fdata f = recs_bytes rs" "fsynced f \<le> length (fdata f)"
    using assms(1) by (auto simp: disk_repr_def file_holds_def)
  note fd = fs_file_append [OF f(1), of ?t]
  have "canonical ?d" "only_logs ?d (set (adom L) \<union> {i})"
    using assms(1) f(1) by (auto simp: disk_repr_def canonical_def only_logs_def fd)
  moreover have "sealed_holds False ?d j js" "hint_true False ?d j js" if "(j, js) \<in> set L" for j js
  proof -
    have "j \<noteq> i" using hist_ok_less_in [of L i rs j js] that assms(1) by (auto simp: disk_repr_def)
    moreover have "sealed_holds False d j js" "hint_true False d j js"
      using assms(1) that by (auto simp: disk_repr_def)
    ultimately show "sealed_holds False ?d j js" "hint_true False ?d j js"
      by (auto intro: sealed_holds_frame hint_true_frame_same simp: fd)
  qed
  moreover have "file_holds False ?d i rs ?t" using f by (simp add: file_holds_def fd)
  moreover have "hint_true False d i rs" using assms(1) by (auto simp: disk_repr_def)
  then have "hint_true False ?d i rs"
    using f(1) by (elim hint_true_frame_same) (simp_all add: fd)
  moreover have "torn_tail ?t" using assms(2,3) by (rule torn_tail_prefix)
  ultimately have "disk_repr False ?d L i rs ?t"
    using assms(1) by (auto simp: disk_repr_def)
  from store_open_repr [OF this, of opts] obtain s where
    s: "store_open opts ?d = (Inr s, st_fs s)" "store_repr False s L i rs" "lw_pending (st_writer s) = []"
    by blast
  moreover from s(2) have "store_log False s (hist_recs (L @ [(i, rs)]))" by (auto simp: store_log_def)
  moreover obtain g where "fs_file (st_fs s) (data_file_name i) = Some g" "fdata g = recs_bytes rs"
    using store_reprD(4,5) [OF s(2)] s(3) by (auto simp: log_holds_def)
  ultimately show ?thesis by blast
qed

text \<open>A directory at rest to apply the theorem to: what a store closed with nothing in it leaves.\<close>

lemma new_disk: "\<exists>d. disk_repr False d [] 1 [] []"
  using new_store [of default_options False] store_close_disk by blast

theorem store_open_torn_witness:
  "\<exists>d s. disk_repr False d [] 1 [] [] \<and>
     store_open default_options (fs_append (data_file_name 1) (take 10 (rec_bytes (KRec [97] None 3))) d)
       = (Inr s, st_fs s) \<and> store_log False s []"
proof -
  obtain d where d: "disk_repr False d [] 1 [] []" using new_disk by blast
  have "rec_ok (KRec [97] None 3)" "10 < length (rec_bytes (KRec [97] None 3))"
    by (simp_all add: rec_ok_def rpayload_def length_rec_bytes HEADER_LEN_def)
  from store_open_torn [OF d this, of default_options] d show ?thesis by auto
qed

text \<open>(C9) A power cut takes at most what was never synced: of a store whose account of what is on the
  disk is right, the directory that is left opens to a prefix of the history, and to all of it when the
  store was synced.\<close>

theorem store_power_cut:
  assumes "store_log True s H"
  shows "\<exists>s' H' H''. store_open opts (fs_power_cut (st_fs s)) = (Inr s', st_fs s') \<and> store_log True s' H' \<and>
    H = H' @ H'' \<and> (is_synced s \<longrightarrow> H' = H)"
proof -
  obtain L i rs where L: "store_repr True s L i rs" "H = hist_recs (L @ [(i, rs)])"
    using assms by (auto simp: store_log_def)
  obtain p q t where p: "rs = p @ q" "disk_repr True (fs_power_cut (st_fs s)) L i p t"
    "\<And>p' q'. rs = p' @ q' \<Longrightarrow> length (recs_bytes p') \<le> lw_synced (st_writer s) \<Longrightarrow> \<exists>z. p = p' @ z"
    using power_cut_disk [OF L(1)] by blast
  obtain s' where s': "store_open opts (fs_power_cut (st_fs s)) = (Inr s', st_fs s')" "store_repr True s' L i p"
    using store_open_repr [OF p(2), of opts] by blast
  have "p = rs" if "is_synced s"
    using p(3) [of rs "[]"] that log_holds_offset [OF store_reprD(5) [OF L(1)]] p(1) by (simp add: is_synced_def)
  moreover have "H = hist_recs (L @ [(i, p)]) @ q" using L(2) p(1) by simp
  moreover have "store_log True s' (hist_recs (L @ [(i, p)]))" using s'(2) by (auto simp: store_log_def)
  ultimately show ?thesis using s'(1) L(2) by blast
qed

theorem store_power_cut_witness:
  "\<exists>s s'. store_open default_options no_files = (Inr s, st_fs s) \<and>
     store_open default_options (fs_power_cut (st_fs s)) = (Inr s', st_fs s') \<and> store_log True s' []"
proof -
  obtain s where s: "store_open default_options no_files = (Inr s, st_fs s)" "store_log True s []"
    using new_store by blast
  from store_power_cut [OF s(2), of default_options] s(1) show ?thesis by auto
qed

text \<open>(C8) Under the policy \<^verbatim>\<open>EveryWrite\<close> a put that returned is on the disk: if the power goes right after,
  the store that opens has the new value under the key and what it had before under every other.\<close>

theorem store_put_durable:
  assumes "store_log True s H" and "\<not> st_restoring s" and "opt_sync (st_opts s) = EveryWrite"
    and "kv_fits k v" and "store_room s (put_cost k v)" and "t1 < 2 ^ 64" and "t2 < 2 ^ 64"
  shows "\<exists>s' s''. store_put s k v t1 t2 = (Inr (), s') \<and>
    store_open opts (fs_power_cut (st_fs s')) = (Inr s'', st_fs s'') \<and> store_kv s'' = (store_kv s)(k \<mapsto> v)"
proof -
  have "rec_small (KRec k (Some v) t1)" using kv_fits_small [OF assms(4), of t1] assms(6) by simp
  from store_log_put [OF assms(1) this assms(7), of 0 ReachDisk] assms(2,3,5) obtain s' where
    s': "store_put s k v t1 t2 = (Inr (), s')" "store_log True s' (H @ [KRec k (Some v) t1])" "is_synced s'"
    by (auto simp: store_put_def store_reach_def cost_rec)
  from store_power_cut [OF s'(2), of opts] s'(3) obtain s'' where
    s'': "store_open opts (fs_power_cut (st_fs s')) = (Inr s'', st_fs s'')"
      "store_log True s'' (H @ [KRec k (Some v) t1])"
    by blast
  with s'(1) store_log_kv [OF s''(2)] store_log_kv [OF assms(1)] show ?thesis by auto
qed

theorem store_put_durable_witness:
  "\<exists>s s' s''. store_open default_options no_files = (Inr s, st_fs s) \<and> store_put s [97] [1] 5 6 = (Inr (), s') \<and>
     store_open default_options (fs_power_cut (st_fs s')) = (Inr s'', st_fs s'') \<and> store_kv s'' [97] = Some [1]"
proof -
  obtain s where s: "store_open default_options no_files = (Inr s, st_fs s)" "store_log True s []"
    "st_opts s = default_options" "\<not> st_restoring s" "store_room s (2 ^ 40)"
    using new_store by blast
  have "store_room s (put_cost [97] [1])" "kv_fits [97] [1]"
    using s(5) by (simp_all add: store_room_def kv_fits_def put_cost_def HEADER_LEN_def)
  with store_put_durable [OF s(2,4), of "[97]" "[1]" 5 6 default_options] s(1,3) show ?thesis
    by (auto simp: default_options_def)
qed

section \<open>Damage\<close>

text \<open>A directory whose file \<open>j\<close>, which is not the newest, stops making sense after the records \<open>js\<close>.\<close>

lemma open_tail_damaged:
  assumes d: "fs_ok d" and L: "\<forall>p \<in> set L. file_fine b d p \<and> list_all rec_small (snd p) \<and> length (recs_bytes (snd p)) \<le> u64_max"
    and ids: "sorted_wrt (<) (adom L @ j # M)" and M: "M \<noteq> []"
    and f: "file_holds b d j js t" "torn_tail t" "t \<noteq> []" and h: "hint_true b d j js" and js: "list_all rec_small js"
  shows "\<exists>detail. fst (open_tail opts (adom L @ j # M) d) = Inl (Corrupt j (length (recs_bytes js)) detail)"
proof -
  have dist: "distinct (adom L @ j # M)" using ids by (simp add: strict_sorted_iff)
  let ?last = "last M"
  have "set (adom L) \<inter> set (j # M) = {}" using dist by (simp only: distinct_append)
  moreover have "j \<notin> set M" using dist by simp
  ultimately have new: "Some ?last \<noteq> Some j" "?last \<notin> set (adom L)"
    using last_in_set [OF M] by auto
  from open_files_sealed [OF d L, of "Some ?last" acc0 "[]" opts] dist new(2)
  obtain a1 d1 where 1: "\<And>rest. open_files opts (Some ?last) (adom L @ rest) acc0 d = open_files opts (Some ?last) rest a1 d1"
    "fs_ok d1" "fs_frame (\<Union> (own_files ` set (adom L))) d d1"
    by (auto simp del: list.set_map)
  have "j \<notin> set (adom L)" using dist by auto
  note out = own_files_out [OF this]
  have same: "fs_file d1 (data_file_name j) = fs_file d (data_file_name j)" "fs_file d1 (hint_name j) = fs_file d (hint_name j)"
    using 1(3) out unfolding fs_frame_def by blast+
  have h1: "hint_true b d1 j js" using hint_true_frame_same [OF h same(2)] same(1) by simp
  obtain g where g: "fs_file d1 (data_file_name j) = Some g" "fdata g = recs_bytes js @ t"
    using f(1) same(1) by (auto simp: file_holds_def)
  let ?n = "length (recs_bytes js @ t)"
  obtain rs1 rs2 es where rs: "js = rs1 @ rs2" "hint_start opts j ?n d1 = ((es, length (recs_bytes rs1)), d1)"
    using hint_start_ok [OF 1(2) h1, of opts ?n] by blast
  have lt: "length (recs_bytes rs1) < ?n" using rs(1) f(3) by simp
  obtain detail where "scan_entries \<lparr> sn_rest = recs_bytes rs2 @ t, sn_offset = length (recs_bytes rs1) \<rparr> es
      = (es @ map scan_entry (locs j (length (recs_bytes rs1)) rs2), Some (length (recs_bytes js), detail))"
    using scan_recs [of rs2 t "length (recs_bytes rs1)" es j]
      scan_tail [OF f(2), of "length (recs_bytes js)" "es @ map scan_entry (locs j (length (recs_bytes rs1)) rs2)"]
      js rs(1) f(3) by auto
  then have "open_scan False j ?n (length (recs_bytes rs1)) es d1 = (Inl (Corrupt j (length (recs_bytes js)) detail), d1)"
    using 1(2) g rs(1) by (simp add: open_scan_def scanner_open_at_def fs_read_def fs_simps)
  moreover have "fs_len (data_file_name j) d1 = (Inr ?n, d1)"
    using 1(2) g by (simp add: fs_len_def fs_simps)
  ultimately have "open_file opts (Some ?last) j a1 d1 = (Inl (Corrupt j (length (recs_bytes js)) detail), d1)"
    using rs(2) lt new(1) by (simp add: open_file_def Let_def)
  then have "open_files opts (Some ?last) (adom L @ j # M) acc0 d = (Inl (Corrupt j (length (recs_bytes js)) detail), d1)"
    by (simp add: 1(1))
  then show ?thesis using M by (auto simp: open_tail_def Let_def)
qed



text \<open>A damaged record is never returned: when up to four adjacent bytes of a stored record change, on
  either side of the end of its checksum field, decoding it at its location fails with a corruption
  error naming that location.\<close>

theorem decode_value_damaged:
  assumes "rec_ok r" and "rec_bytes r = xs @ es @ ys" and "length es = length es'" and "length es \<le> 4"
    and "es \<noteq> es'" and "length xs + length es \<le> 4 \<or> 4 \<le> length xs"
  shows "\<exists>detail. decode_value (xs @ es' @ ys) loc = Inl (Corrupt (loc_file_id loc) (loc_offset loc) detail)"
proof -
  let ?bs = "xs @ es' @ ys"
  let ?hb = "take HEADER_LEN ?bs"
  let ?h = "header_decode ?hb"
  have len: "length ?bs = length (rec_bytes r)" using assms(2,3) by simp
  then have hl: "HEADER_LEN \<le> length ?bs" by simp
  have bad: "\<not> record_crc_ok ?bs"
    using record_crc_burst [of xs es ys es'] record_crc_ok_rec [of r] assms hl
    by (simp add: HEADER_LEN_def)
  have "\<not> header_verify ?h (slice HEADER_LEN (HEADER_LEN + hdr_key_len ?h) ?bs) (drop (HEADER_LEN + hdr_key_len ?h) ?bs)"
    if "header_record_len ?h = length ?bs"
  proof -
    have "?bs = ?hb @ slice HEADER_LEN (HEADER_LEN + hdr_key_len ?h) ?bs @ drop (HEADER_LEN + hdr_key_len ?h) ?bs"
      by (rule slice_split)
    with bad header_verify_bytes [of ?hb] hl show ?thesis by (metis length_take min.absorb2)
  qed
  then show ?thesis
    using hl unfolding decode_value_def Let_def by auto
qed

theorem decode_value_damaged_witness:
  "\<exists>detail. decode_value (header_encode (rec_header (KRec [97] (Some [5]) 3)) @ [97] @ [6])
     \<lparr> loc_file_id = 4, loc_offset = 40, loc_len = 23, loc_tstamp = 3 \<rparr> = Inl (Corrupt 4 40 detail)"
proof -
  let ?r = "KRec [97] (Some [5]) 3"
  let ?xs = "header_encode (rec_header ?r) @ [97]"
  have "rec_ok ?r" "rec_bytes ?r = ?xs @ [5] @ []" by (simp_all add: rec_ok_def rpayload_def rec_bytes_def)
  from decode_value_damaged [OF this, of "[6]"
      "\<lparr> loc_file_id = 4, loc_offset = 40, loc_len = 23, loc_tstamp = 3 \<rparr>"]
  show ?thesis by (simp add: HEADER_LEN_def)
qed

section \<open>Accounting\<close>

lemma keydir_live_len:
  assumes repr: "store_repr b s L i rs" and k: "map_of (st_keydir s) k = Some loc"
  shows "\<exists>v. hist_kv (L @ [(i, rs)]) k = Some v \<and> loc_len loc = put_cost k v"
proof -
  note D = store_reprD [OF repr]
  obtain r where r: "idx_of (plocs (L @ [(i, rs)])) k = Some (r, loc_pos loc)"
    using kd_repr_lookup [OF D(10) k] by blast
  then have "(r, loc_file_id loc, loc_offset loc, loc_len loc) \<in> set (plocs (L @ [(i, rs)]))" "rkey r = k"
    and "rval r \<noteq> None"
    using idx_of_Some [OF r] by (auto simp: loc_pos_def)
  then obtain v where "loc_len loc = length (rec_bytes r)" "rval r = Some v"
    using plocs_in locs_slice(2) by blast
  with r \<open>rkey r = k\<close> hist_kv_idx [of "L @ [(i, rs)]" k] show ?thesis
    by (simp add: length_rec_bytes put_cost_def rpayload_def)
qed

lemma sum_pos_len_plocs: "sum_list (map pos_len (plocs L)) = length (recs_bytes (hist_recs L))"
  by (induction L) (auto simp: plocs_def hist_recs_def)

lemma store_stats_facts:
  assumes "store_log b s H"
  shows "length (st_keydir s) = card {k. kv_of H k \<noteq> None}" and "st_disk_bytes s = length (recs_bytes H)"
    and "st_live_bytes s \<le> st_disk_bytes s"
    and "st_live_bytes s = (\<Sum>k | kv_of H k \<noteq> None. put_cost k (the (kv_of H k)))"
proof -
  obtain L i rs where L: "store_repr b s L i rs" "H = hist_recs (L @ [(i, rs)])"
    using assms by (auto simp: store_log_def)
  have kd: "distinct (adom (st_keydir s))" "st_live_bytes s = kd_live (st_keydir s)" "st_live_bytes s \<le> st_disk_bytes s"
    "st_disk_bytes s = length (recs_bytes H)"
    using store_reprD(10) [OF L(1)] sum_pos_len_plocs [of "L @ [(i, rs)]"] L(2) by (simp_all add: kd_repr_def)
  have dom: "set (adom (st_keydir s)) = {k. kv_of H k \<noteq> None}"
    using store_log_mem(1) [OF assms] unfolding set_eq_iff in_adom mem_Collect_eq by blast
  have "kd_live (st_keydir s) = (\<Sum>k \<in> set (adom (st_keydir s)). loc_len (the (map_of (st_keydir s) k)))"
    using sum_list_alist_dom [OF kd(1), of "\<lambda>e. loc_len (snd e)"] by (simp add: kd_live_def)
  also have "\<dots> = (\<Sum>k | kv_of H k \<noteq> None. put_cost k (the (kv_of H k)))"
    unfolding dom
  proof (intro sum.cong refl)
    fix k assume "k \<in> {k. kv_of H k \<noteq> None}"
    then obtain loc where "map_of (st_keydir s) k = Some loc"
      using store_log_mem(1) [OF assms, of k] by auto
    with keydir_live_len [OF L(1) this] show "loc_len (the (map_of (st_keydir s) k)) = put_cost k (the (kv_of H k))"
      using L(2) by (auto simp: hist_kv_def)
  qed
  finally show "st_live_bytes s = (\<Sum>k | kv_of H k \<noteq> None. put_cost k (the (kv_of H k)))" using kd(2) by simp
  show "length (st_keydir s) = card {k. kv_of H k \<noteq> None}"
    using distinct_card [OF kd(1)] dom by simp
  show "st_disk_bytes s = length (recs_bytes H)" "st_live_bytes s \<le> st_disk_bytes s" by (fact kd)+
qed

lemma store_stats_live:
  "store_log b s H \<Longrightarrow> sts_live_bytes (store_stats s) = (\<Sum>k | kv_of H k \<noteq> None. put_cost k (the (kv_of H k)))"
  using store_stats_facts(4) by (simp add: store_stats_def)

text \<open>The statistics are exact: the keys are counted, the bytes on disk are those of every record ever
  written to the files, the live bytes are those of the records a read would return, and live never
  exceeds disk, so what can be reclaimed never wraps and fragmentation lies between 0 and 1.\<close>

theorem store_stats_exact:
  assumes "store_log b s H"
  shows "sts_keys (store_stats s) = card {k. kv_of H k \<noteq> None} \<and>
    sts_disk_bytes (store_stats s) = length (recs_bytes H) \<and>
    sts_live_bytes (store_stats s) = (\<Sum>k | kv_of H k \<noteq> None. put_cost k (the (kv_of H k))) \<and>
    sts_live_bytes (store_stats s) + reclaimable_bytes (store_stats s) = sts_disk_bytes (store_stats s) \<and>
    0 \<le> fragmentation (store_stats s) \<and> fragmentation (store_stats s) \<le> 1"
proof -
  have "0 \<le> fragmentation (store_stats s)" "fragmentation (store_stats s) \<le> 1"
    by (simp_all add: fragmentation_def reclaimable_bytes_def divide_le_eq)
  with store_stats_facts [OF assms] show ?thesis by (simp add: store_stats_def reclaimable_bytes_def)
qed

theorem store_stats_exact_witness:
  "\<exists>s. store_open default_options no_files = (Inr s, st_fs s) \<and> sts_disk_bytes (store_stats s) = 0"
proof -
  obtain s where s: "store_open default_options no_files = (Inr s, st_fs s)" "store_log True s []"
    using new_store by blast
  with store_stats_exact [OF s(2)] show ?thesis by auto
qed

section \<open>A length that does not fit\<close>

text \<open>(C39) A record whose length needs more than thirty-two bits is lost: the code checks the key and the
  value against the four-byte length prefix one by one, so a record of exactly two to the thirty-second
  bytes is accepted, synced and acknowledged, but the index keeps its length modulo two to the
  thirty-second, and reading the key back reports corruption.\<close>

theorem put_too_long_is_lost:
  "\<exists>s s' v. store_open default_options no_files = (Inr s, st_fs s) \<and> length v = 2 ^ 32 - 22 \<and>
     store_put s [97] v 5 6 = (Inr (), s') \<and>
     fst (store_get s' [97]) = Inl (Corrupt 1 0 ''record shorter than a header'')"
proof -
  obtain v :: bytes where v: "length v = 2 ^ 32 - 22" using Ex_list_of_length by blast
  let ?r = "KRec [97] (Some v) 5"
  obtain s where s: "store_open default_options no_files = (Inr s, st_fs s)" "store_repr True s [] 1 []"
    "st_opts s = default_options" "\<not> st_restoring s"
    using new_store [of default_options True] by blast
  note D = store_reprD [OF s(2)]
  have len: "length (rec_bytes ?r) = 2 ^ 32" using v by (simp add: length_rec_bytes rpayload_def HEADER_LEN_def)
  have enc: "encode_record [97] (Some v) 5 = Inr (rec_bytes ?r)"
    using v by (simp add: encode_record_Inr rpayload_def)
  have roll: "roll_if_needed s n = (Inr (), s)" for n
    using log_holds_offset [OF D(5)] by (simp add: roll_if_needed_def)
  obtain w d where w: "log_append (st_writer s) (rec_bytes ?r) ReachDisk (st_fs s) = (Inr (0, 0), w, d)"
    "fs_ok d" "log_holds True w d [?r]" "lw_file_id w = 1" "lw_synced w = lw_offset w"
    using log_append_ok [OF D(1,5), of ?r ReachDisk] D(4) len by (auto simp: as_u32_def)
  have kd: "map_of (st_keydir s) k = None" for k
    using kd_repr_None [OF D(10), of k] by simp
  have reader: "1 \<in> set (st_readers s)" using D(9) by simp
  obtain f where f: "fs_file d (data_file_name 1) = Some f" "0 < lw_written w"
  proof -
    obtain f rs1 rs2 where "fs_file d (data_file_name 1) = Some f" "[?r] = rs1 @ rs2" "fdata f = recs_bytes rs1"
      "lw_written w = length (recs_bytes rs1)" "length (rec_bytes ?r) \<le> fsynced f" "fsynced f \<le> length (fdata f)"
      using w(3,4,5) by (auto simp: log_holds_def)
    moreover from this len have "lw_written w = 2 ^ 32" by (cases rs1) auto
    ultimately show thesis using that by simp
  qed
  define loc where "loc = \<lparr> loc_file_id = 1, loc_offset = 0, loc_len = 0, loc_tstamp = 6 \<rparr>"
  obtain s' where s': "store_put s [97] v 5 6 = (Inr (), s')" "st_keydir s' = AList.update [97] loc (st_keydir s)"
    "st_writer s' = w" "st_fs s' = d" "st_readers s' = st_readers s"
    using s(3,4) enc roll w(1,4) kd
    by (simp add: store_put_def store_reach_def put_with_def Let_def default_options_def unindex_def loc_def)
  have "log_buffered w 0 0 = None" using f(2) by (rule log_buffered_None)
  moreover have "read_at 1 0 0 d = (Inr [], d)" using read_at_ok [OF w(2) f(1), of 0 0] by (simp add: slice_def)
  ultimately have "fst (store_get s' [97]) = Inl (Corrupt 1 0 ''record shorter than a header'')"
    using s' reader w(4) by (simp add: store_get_def read_value_def loc_def decode_value_def HEADER_LEN_def)
  with s(1) s'(1) v show ?thesis by blast
qed

end
