(* ===== verification/StoreCompact.thy ===== *)
theory StoreCompact
  imports StoreProps
begin

text \<open>
  Compaction (\<^verbatim>\<open>Store::compact\<close>): the live records are copied, in the order they lie on the disk, to a
  data file with a higher id, and the old files are removed. Shown: on a working device a compaction
  keeps the invariant and every value, whatever order the table of readers is walked in, and leaves
  live bytes only.
\<close>

section \<open>Copying\<close>

text \<open>The record an index entry stands for.\<close>

definition entry_rec :: "(krec \<times> pos) list \<Rightarrow> bytes \<times> location \<Rightarrow> krec \<Rightarrow> bool" where
  "entry_rec ps e r \<longleftrightarrow> idx_of ps (fst e) = Some (r, loc_pos (snd e)) \<and> rec_small r \<and> loc_tstamp (snd e) < 2 ^ 64"

lemma entry_recD:
  assumes "entry_rec (plocs M) (k, loc) r"
  shows "rkey r = k" and "\<exists>v. rval r = Some v" and "loc_len loc = length (rec_bytes r)"
    and "\<exists>js. (loc_file_id loc, js) \<in> set M \<and>
      (r, loc_file_id loc, loc_offset loc, loc_len loc) \<in> set (locs (loc_file_id loc) 0 js)"
proof -
  have i: "idx_of (plocs M) k = Some (r, loc_pos loc)" using assms by (simp add: entry_rec_def)
  from idx_of_Some [OF i] show "rkey r = k" "\<exists>v. rval r = Some v" by auto
  from idx_of_Some [OF i] have "(r, loc_file_id loc, loc_offset loc, loc_len loc) \<in> set (plocs M)"
    by (simp add: loc_pos_def)
  from plocs_in [OF this] show "\<exists>js. (loc_file_id loc, js) \<in> set M \<and>
      (r, loc_file_id loc, loc_offset loc, loc_len loc) \<in> set (locs (loc_file_id loc) 0 js)" .
  then show "loc_len loc = length (rec_bytes r)" using locs_slice(2) by blast
qed

text \<open>The state of the copy: the merged file holds \<open>ks\<close>, and the new index, hints and total are theirs.\<close>

definition merge_repr :: "nat \<Rightarrow> merge_acc \<Rightarrow> krec list \<Rightarrow> bool" where
  "merge_repr k m ks \<longleftrightarrow> kd_repr (mg_keydir m) (mg_bytes m) (mg_bytes m) (locs k 0 ks) \<and>
     hint_desc k ks (mg_hints m)"

lemma merge_repr_step:
  assumes m: "merge_repr k m ks" and r: "rec_small r" "rval r = Some v" "rkey r \<notin> set (adom (mg_keydir m))"
    and t: "t < 2 ^ 64" and len: "length (recs_bytes ks) + length (rec_bytes r) \<le> u64_max"
  shows "merge_repr k (m\<lparr> mg_bytes := mg_bytes m + length (rec_bytes r),
      mg_hints := mg_hints m @ [\<lparr> he_key = rkey r, he_offset = length (recs_bytes ks),
        he_len = length (rec_bytes r), he_tstamp = t, he_tombstone = False \<rparr>],
      mg_keydir := AList.update (rkey r) \<lparr> loc_file_id = k, loc_offset = length (recs_bytes ks),
        loc_len = length (rec_bytes r), loc_tstamp = t \<rparr> (mg_keydir m) \<rparr>) (ks @ [r])"
proof -
  have kd: "kd_repr (mg_keydir m) (mg_bytes m) (mg_bytes m) (locs k 0 ks)" and h: "hint_desc k ks (mg_hints m)"
    using m by (simp_all add: merge_repr_def)
  have "map_of (mg_keydir m) (rkey r) = None" using r(3) by (simp only: in_adom not_not)
  then have "kd_remove (rkey r) (mg_keydir m, mg_bytes m) = (mg_keydir m, mg_bytes m)" by (simp add: kd_remove_def)
  from kd_repr_put [OF kd this r(2), of "\<lparr> loc_file_id = k, loc_offset = length (recs_bytes ks),
        loc_len = length (rec_bytes r), loc_tstamp = t \<rparr>" k "length (recs_bytes ks)" "length (rec_bytes r)"]
    hint_desc_snoc [OF h r(1) len t] r(2) t
  show ?thesis by (simp add: merge_repr_def loc_pos_def)
qed

lemma merge_ok:
  assumes "fs_ok d" and "log_holds b w d ks" and "lw_file_id w = k" and "k \<notin> set (adom M)"
    and "\<forall>(j, js) \<in> set M. sealed_holds False d j js" and "set (adom M) \<subseteq> set readers"
    and "list_all2 (entry_rec (plocs M)) es rs" and "distinct (adom es)"
    and "set (adom es) \<inter> set (adom (mg_keydir m)) = {}" and "merge_repr k m ks"
    and "length (recs_bytes ks) + length (recs_bytes rs) \<le> u64_max"
  shows "\<exists>m' w' d'. merge_entries readers es m w d = (Inr m', w', d') \<and> log_holds b w' d' (ks @ rs) \<and>
    lw_file_id w' = k \<and> fs_ok d' \<and> fs_frame {data_file_name k} d d' \<and> merge_repr k m' (ks @ rs)"
  using assms
proof (induction es arbitrary: rs m w d ks)
  case Nil
  then show ?case by simp
next
  case (Cons e es)
  obtain key loc where e: "e = (key, loc)" by (cases e)
  obtain r rs' where rs: "rs = r # rs'" "entry_rec (plocs M) (key, loc) r" "list_all2 (entry_rec (plocs M)) es rs'"
    using Cons.prems(7) e by (auto simp: list_all2_Cons1)
  note R = entry_recD [OF rs(2)]
  obtain js v where js: "(loc_file_id loc, js) \<in> set M" "rval r = Some v"
    "(r, loc_file_id loc, loc_offset loc, loc_len loc) \<in> set (locs (loc_file_id loc) 0 js)"
    using R(2,4) by blast
  have small: "rec_small r" "loc_tstamp loc < 2 ^ 64" using rs(2) by (simp_all add: entry_rec_def)
  have "sealed_holds False d (loc_file_id loc) js" using Cons.prems(5) js(1) by auto
  from sealed_read [OF this Cons.prems(1) js(3)] R(3)
  have read: "read_at (loc_file_id loc) (loc_offset loc) (loc_len loc) d = (Inr (rec_bytes r), d)" by simp
  have reader: "loc_file_id loc \<in> set readers" using Cons.prems(6) js(1) by force
  obtain w1 d1 where 1: "log_append w (rec_bytes r) ReachBuffer d
      = (Inr (length (recs_bytes ks), length (rec_bytes r)), w1, d1)" "fs_ok d1" "log_holds b w1 d1 (ks @ [r])"
    "lw_file_id w1 = k" "fs_frame {data_file_name k} d d1"
    using log_append_ok [OF Cons.prems(1,2), of r ReachBuffer] Cons.prems(3) small by auto
  define m1 where "m1 = m\<lparr> mg_bytes := mg_bytes m + length (rec_bytes r),
      mg_hints := mg_hints m @ [\<lparr> he_key = key, he_offset = length (recs_bytes ks),
        he_len = length (rec_bytes r), he_tstamp = loc_tstamp loc, he_tombstone = False \<rparr>],
      mg_keydir := AList.update key \<lparr> loc_file_id = k, loc_offset = length (recs_bytes ks),
        loc_len = length (rec_bytes r), loc_tstamp = loc_tstamp loc \<rparr> (mg_keydir m) \<rparr>"
  have m1: "merge_repr k m1 (ks @ [r])"
    using merge_repr_step [OF Cons.prems(10) small(1) js(2) _ small(2)] Cons.prems(9,11) e rs(1) R(1)
    by (simp add: m1_def)
  have step: "merge_entries readers (e # es) m w d = merge_entries readers es m1 w1 d1"
    using e reader read 1(1,4) by (simp add: m1_def)
  have sealed: "\<forall>(j, js) \<in> set M. sealed_holds False d1 j js"
  proof clarify
    fix j js assume j: "(j, js) \<in> set M"
    then have "j \<noteq> k" using Cons.prems(4) by force
    with j Cons.prems(5) 1(5) show "sealed_holds False d1 j js"
      by (auto intro: sealed_holds_frame simp: fs_frame_def)
  qed
  have "set (adom (mg_keydir m1)) = insert key (set (adom (mg_keydir m)))"
    by (simp add: m1_def)
  then have "set (adom es) \<inter> set (adom (mg_keydir m1)) = {}" "distinct (adom es)"
    using Cons.prems(8,9) e by auto
  moreover have "length (recs_bytes (ks @ [r])) + length (recs_bytes rs') \<le> u64_max"
    using Cons.prems(11) rs(1) by simp
  ultimately obtain m' w' d' where "merge_entries readers es m1 w1 d1 = (Inr m', w', d')"
    "log_holds b w' d' ((ks @ [r]) @ rs')" "lw_file_id w' = k" "fs_ok d'" "fs_frame {data_file_name k} d1 d'"
    "merge_repr k m' ((ks @ [r]) @ rs')"
    using Cons.IH [OF 1(2,3,4) Cons.prems(4) sealed Cons.prems(6) rs(3) _ _ m1] by blast
  moreover from this(5) 1(5) have "fs_frame {data_file_name k} d d'" using fs_frame_trans by fastforce
  ultimately show ?case unfolding step rs(1) by auto
qed

lemma entries_kv:
  assumes "list_all2 (entry_rec ps) es rs" and "distinct (adom es)"
  shows "kv_of rs k = (if k \<in> set (adom es) then kv_of (map fst ps) k else None)"
  using assms
proof (induction es arbitrary: rs rule: rev_induct)
  case Nil
  then show ?case by simp
next
  case (snoc e es)
  obtain key loc where e: "e = (key, loc)" by (cases e)
  obtain rs' r where rs: "rs = rs' @ [r]" "list_all2 (entry_rec ps) es rs'" "entry_rec ps (key, loc) r"
    using snoc.prems(1) e by (auto simp: list_all2_append1 list_all2_Cons1)
  have "idx_of ps key = Some (r, loc_pos loc)" using rs(3) by (simp add: entry_rec_def)
  with kv_of_idx [of ps key] idx_of_Some have "kv_of (map fst ps) key = rval r" "rkey r = key" by fastforce+
  with snoc.IH [OF rs(2)] snoc.prems(2) rs(1) e show ?case by auto
qed

section \<open>Unlinking\<close>

lemma remove_data_file_ok:
  assumes "fs_ok d"
  shows "\<exists>d'. remove_data_file i d = (Inr (), d') \<and> fs_ok d' \<and>
    (\<forall>n. fs_file d' n = (if n = data_file_name i \<or> n = hint_name i then None else fs_file d n))"
proof -
  have del: "\<exists>d'. (if fs_exists n d then fs_remove n d else (Inr (), d)) = (Inr (), d') \<and> fs_ok d' \<and>
      (\<forall>m. fs_file d' m = (if m = n then None else fs_file d m))" if "fs_ok d" for n d
    using that by (auto simp: fs_exists_def fs_remove_def fs_simps)
  from del [OF assms, of "hint_name i"] obtain d1 where
    1: "(if fs_exists (hint_name i) d then fs_remove (hint_name i) d else (Inr (), d)) = (Inr (), d1)" "fs_ok d1"
    "\<forall>m. fs_file d1 m = (if m = hint_name i then None else fs_file d m)" by blast
  from del [OF 1(2), of "data_file_name i"] obtain d2 where
    2: "(if fs_exists (data_file_name i) d1 then fs_remove (data_file_name i) d1 else (Inr (), d1)) = (Inr (), d2)"
    "fs_ok d2" "\<forall>m. fs_file d2 m = (if m = data_file_name i then None else fs_file d1 m)" by blast
  show ?thesis unfolding remove_data_file_def 1(1) io_bind_simps 2(1) using 1(3) 2(2,3) by auto
qed

lemma drop_files_ok:
  assumes "fs_ok (st_fs s)"
  shows "\<exists>d sy. drop_files is s = (Inr (), s\<lparr> st_readers := filter (\<lambda>j. j \<notin> set is) (st_readers s),
      st_sealed_synced := sy, st_fs := d \<rparr>) \<and> fs_ok d \<and>
    (\<forall>n. fs_file d n = (if \<exists>i \<in> set is. n = data_file_name i \<or> n = hint_name i then None else fs_file (st_fs s) n))"
  using assms
proof (induction "is" arbitrary: s)
  case Nil
  then show ?case by (intro exI [of _ "st_fs s"] exI [of _ "st_sealed_synced s"]) simp
next
  case (Cons i "is")
  obtain d1 where 1: "remove_data_file i (st_fs s) = (Inr (), d1)" "fs_ok d1"
    "\<forall>n. fs_file d1 n = (if n = data_file_name i \<or> n = hint_name i then None else fs_file (st_fs s) n)"
    using remove_data_file_ok [OF Cons.prems] by blast
  let ?s1 = "s\<lparr> st_readers := removeAll i (st_readers s), st_sealed_synced := AList.delete i (st_sealed_synced s), st_fs := d1 \<rparr>"
  obtain d sy where 2: "drop_files is ?s1 = (Inr (), ?s1\<lparr> st_readers := filter (\<lambda>j. j \<notin> set is) (st_readers ?s1),
      st_sealed_synced := sy, st_fs := d \<rparr>)" "fs_ok d"
    "\<forall>n. fs_file d n = (if \<exists>i \<in> set is. n = data_file_name i \<or> n = hint_name i then None else fs_file (st_fs ?s1) n)"
    using Cons.IH [of ?s1] 1(2) by auto
  have "drop_files (i # is) s = drop_files is ?s1" using 1(1) by (simp add: Let_def)
  moreover have "filter (\<lambda>j. j \<notin> set is) (removeAll i (st_readers s)) = filter (\<lambda>j. j \<notin> set (i # is)) (st_readers s)"
    by (auto simp: removeAll_filter_not_eq intro: filter_cong)
  ultimately show ?case
    using 1(3) 2 by (intro exI [of _ d] exI [of _ sy]) auto
qed

section \<open>The whole compaction\<close>

lemma map_of_sort_key:
  assumes "distinct (adom al)"
  shows "distinct (adom (sort_key f al))" and "map_of (sort_key f al) = map_of al"
proof -
  show d: "distinct (adom (sort_key f al))" using assms by (simp add: distinct_map)
  show "map_of (sort_key f al) = map_of al" using map_of_inject_set [OF d assms] by simp
qed

lemma list_all2_choice: "\<forall>x \<in> set xs. \<exists>y. P x y \<Longrightarrow> \<exists>ys. list_all2 P xs ys"
proof (induction xs)
  case Nil
  then show ?case by simp
next
  case (Cons x xs)
  then show ?case by (metis list.set_intros list_all2_Cons)
qed

lemma merge_source:
  assumes repr: "store_repr b s L i rs"
  shows "\<exists>ms. list_all2 (entry_rec (plocs (L @ [(i, rs)]))) (sort_key loc_key (st_keydir s)) ms"
    and "distinct (adom (sort_key loc_key (st_keydir s)))"
    and "map_of (sort_key loc_key (st_keydir s)) = map_of (st_keydir s)"
proof -
  note D = store_reprD [OF repr]
  have dist: "distinct (adom (st_keydir s))" using D(10) by (simp add: kd_repr_def)
  show "distinct (adom (sort_key loc_key (st_keydir s)))" "map_of (sort_key loc_key (st_keydir s)) = map_of (st_keydir s)"
    using map_of_sort_key [OF dist] by blast+
  have "\<exists>r. entry_rec (plocs (L @ [(i, rs)])) e r" if "e \<in> set (sort_key loc_key (st_keydir s))" for e
  proof -
    have e: "e \<in> set (st_keydir s)" using that by simp
    then have "map_of (st_keydir s) (fst e) = Some (snd e)" using dist by simp
    from kd_repr_lookup [OF D(10) this] obtain r where
      r: "idx_of (plocs (L @ [(i, rs)])) (fst e) = Some (r, loc_pos (snd e))" by blast
    moreover have "rec_small r" using idx_of_Some [OF r] hist_ok_rec [OF D(2), of r "loc_pos (snd e)"] by simp
    moreover have "loc_tstamp (snd e) < 2 ^ 64" using e D(10) by (simp add: kd_repr_def)
    ultimately show ?thesis by (auto simp: entry_rec_def)
  qed
  then show "\<exists>ms. list_all2 (entry_rec (plocs (L @ [(i, rs)]))) (sort_key loc_key (st_keydir s)) ms"
    by (intro list_all2_choice) blast
qed

lemma merge_source_len:
  assumes "list_all2 (entry_rec (plocs M)) es ms"
  shows "length (recs_bytes ms) = kd_live es"
  using assms
proof (induction es arbitrary: ms)
  case Nil
  then show ?case by (simp add: kd_live_def)
next
  case (Cons e es)
  then obtain m ms' where "ms = m # ms'" "entry_rec (plocs M) (fst e, snd e) m" "list_all2 (entry_rec (plocs M)) es ms'"
    by (auto simp: list_all2_Cons1)
  with Cons.IH [of ms'] entry_recD(3) show ?case by (fastforce simp: kd_live_def)
qed

lemma kd_live_sort: "distinct (adom al) \<Longrightarrow> kd_live (sort_key f al) = kd_live al"
  unfolding kd_live_def
  using sum_list_alist_dom [of "sort_key f al" "\<lambda>e. loc_len (snd e)"] sum_list_alist_dom [of al "\<lambda>e. loc_len (snd e)"]
    map_of_sort_key [of al f] by simp

text \<open>The files a store has flushed can be read like sealed ones.\<close>

lemma flushed_sealed:
  assumes "store_repr b s L i rs" and "lw_pending (st_writer s) = []"
  shows "\<forall>(j, js) \<in> set (L @ [(i, rs)]). sealed_holds False (st_fs s) j js"
  using flushed_disk [OF assms] by (auto simp: disk_repr_def file_holds_sealed)

lemma max_id:
  assumes "store_repr b s L i rs" and "set (ord (st_readers s)) = set (st_readers s)"
  shows "Max (insert 0 (set (ord (st_readers s)))) = i"
proof (rule Max_eqI)
  note D = store_reprD [OF assms(1)]
  fix j assume "j \<in> insert 0 (set (ord (st_readers s)))"
  then consider "j = 0" | "j \<in> set (adom L)" | "j = i" using assms(2) D(9) by blast
  then show "j \<le> i"
  proof cases
    case 2
    from hist_ok_less [OF D(2) this] show ?thesis by simp
  qed auto
next
  show "i \<in> insert 0 (set (ord (st_readers s)))" using assms(2) store_reprD(9) [OF assms(1)] by simp
qed simp

text \<open>Up to the point where the merged file is complete, synced and hinted; the old files are all there.\<close>

lemma merge_written:
  assumes repr: "store_repr b s L i rs" and pend: "lw_pending (st_writer s) = []" and i: "i < u64_max"
    and disk: "st_disk_bytes s \<le> u64_max"
  shows "\<exists>wm0 d0 m wm1 d1 wm d2 ms. log_writer_open (i + 1) (st_fs s) = (Inr wm0, d0) \<and>
    merge_entries (st_readers s) (sort_key loc_key (st_keydir s)) \<lparr> mg_keydir = [], mg_hints = [], mg_bytes = 0 \<rparr> wm0 d0
      = (Inr m, wm1, d1) \<and> log_sync wm1 d1 = (Inr (), wm, d2) \<and>
    kv_of ms = kv_of (hist_recs (L @ [(i, rs)])) \<and> lw_offset wm = length (recs_bytes ms) \<and> lw_file_id wm = i + 1 \<and>
    lw_pending wm = [] \<and> fs_ok d2 \<and> log_holds b wm d2 ms \<and> merge_repr (i + 1) m ms \<and> list_all rec_small ms \<and>
    length (recs_bytes ms) \<le> u64_max \<and> lw_synced wm = lw_offset wm \<and> fs_frame {data_file_name (i + 1)} (st_fs s) d2"
proof -
  note D = store_reprD [OF repr]
  let ?M = "L @ [(i, rs)]"
  let ?es = "sort_key loc_key (st_keydir s)"
  have fresh: "i + 1 \<notin> set (adom ?M)" using hist_ok_less [OF D(2), of "i + 1"] by auto
  have "fs_file (st_fs s) (data_file_name (i + 1)) = None"
    using D(3) fresh i id_of_data_file_name [of "i + 1"] unfolding dir_names_def name_ok_def by force
  then obtain wm0 d0 where 0: "log_writer_open (i + 1) (st_fs s) = (Inr wm0, d0)" "fs_ok d0" "log_holds b wm0 d0 []"
    "lw_file_id wm0 = i + 1" "fs_frame {data_file_name (i + 1)} (st_fs s) d0"
    using log_writer_open_new [OF D(1)] by blast
  have sealed: "\<forall>(j, js) \<in> set ?M. sealed_holds False d0 j js"
  proof clarify
    fix j js assume j: "(j, js) \<in> set ?M"
    then have "j \<noteq> i + 1" using fresh by force
    with j flushed_sealed [OF repr pend] 0(5) show "sealed_holds False d0 j js"
      by (auto intro: sealed_holds_frame simp: fs_frame_def)
  qed
  obtain ms where ms: "list_all2 (entry_rec (plocs ?M)) ?es ms" using merge_source(1) [OF repr] by blast
  note src = merge_source(2,3) [OF repr]
  have kd: "distinct (adom (st_keydir s))" "kd_live (st_keydir s) \<le> st_disk_bytes s"
    using D(10) by (auto simp: kd_repr_def)
  have len: "length (recs_bytes ms) \<le> u64_max"
    using merge_source_len [OF ms] kd_live_sort [OF kd(1), of loc_key] kd(2) disk by simp
  have m0: "merge_repr (i + 1) \<lparr> mg_keydir = [], mg_hints = [], mg_bytes = 0 \<rparr> []"
    by (simp add: merge_repr_def)
  obtain m wm1 d1 where 1: "merge_entries (st_readers s) ?es \<lparr> mg_keydir = [], mg_hints = [], mg_bytes = 0 \<rparr> wm0 d0
      = (Inr m, wm1, d1)" "log_holds b wm1 d1 ms" "lw_file_id wm1 = i + 1" "fs_ok d1"
    "fs_frame {data_file_name (i + 1)} d0 d1" "merge_repr (i + 1) m ms"
    using merge_ok [OF 0(2,3,4) fresh sealed _ ms src(1) _ m0, of "st_readers s"] D(9) len by auto
  obtain wm d2 where 2: "log_sync wm1 d1 = (Inr (), wm, d2)" "fs_ok d2" "log_holds b wm d2 ms" "lw_pending wm = []"
    "lw_file_id wm = i + 1" "lw_synced wm = lw_offset wm" "fs_frame {data_file_name (i + 1)} d1 d2"
    using log_sync_ok [OF 1(4,2)] 1(3) by auto
  have "fs_frame {data_file_name (i + 1)} (st_fs s) d2"
    using 0(5) 1(5) 2(7) by (simp add: fs_frame_def)
  moreover have "kv_of ms k = kv_of (hist_recs ?M) k" for k
  proof -
    have "k \<in> set (adom ?es) \<longleftrightarrow> kv_of (hist_recs ?M) k \<noteq> None"
      unfolding in_adom src(2) using store_log_mem(1) [of b s "hist_recs ?M" k] repr by (auto simp: store_log_def)
    with entries_kv [OF ms src(1), of k] show ?thesis by auto
  qed
  then have "kv_of ms = kv_of (hist_recs ?M)" by blast
  moreover have "list_all rec_small ms"
    using ms by (auto simp: list_all2_conv_all_nth list_all_length entry_rec_def)
  moreover have "lw_offset wm = length (recs_bytes ms)" using log_holds_offset [OF 2(3)] .
  ultimately show ?thesis using 0(1) 1(1,6) 2 len by blast
qed

text \<open>What unlinking the replaced files leaves: the merged file and its hint.\<close>

lemma unlink_names:
  assumes "dir_names d0 (set (adom L) \<union> {i})" and "fs_frame {data_file_name k, hint_name k, hint_name k @ ''.tmp''} d0 d"
    and "set is = set (adom L) \<union> {i}" and "k \<le> u64_max"
    and "\<forall>n. fs_file d' n = (if \<exists>i \<in> set is. n = data_file_name i \<or> n = hint_name i then None else fs_file d n)"
  shows "dir_names d' {k}"
  unfolding dir_names_def
proof (intro allI impI)
  fix n assume n: "fs_file d' n \<noteq> None"
  then have old: "\<not> (\<exists>i \<in> set is. n = data_file_name i \<or> n = hint_name i)" "fs_file d n \<noteq> None"
    using assms(5) by (auto split: if_splits)
  show "name_ok {k} n"
  proof (cases "n \<in> {data_file_name k, hint_name k, hint_name k @ ''.tmp''}")
    case True
    then show ?thesis using assms(4) by auto
  next
    case False
    then have "fs_file d0 n \<noteq> None" using old(2) assms(2) by (simp add: fs_frame_def)
    then have "name_ok (set (adom L) \<union> {i}) n" using assms(1) by (simp add: dir_names_def)
    with old(1) assms(3) show ?thesis unfolding name_ok_def by blast
  qed
qed

lemma store_compact_ok:
  assumes repr: "store_repr b s L i rs" and room: "store_room s 1" and mode: "\<not> st_compacting s" "\<not> st_restoring s"
    and ord: "set (ord (st_readers s)) = set (st_readers s)"
  shows "\<exists>rep s' ms. store_compact ord s = (Inr rep, s') \<and> store_repr b s' [] (i + 1) ms \<and>
    kv_of ms = kv_of (hist_recs (L @ [(i, rs)])) \<and> same_mode s s' \<and> st_live_bytes s' = st_disk_bytes s' \<and>
    cr_bytes_before rep = st_disk_bytes s \<and> cr_bytes_after rep = st_disk_bytes s' \<and> st_readers s' = [i + 1] \<and> is_synced s' \<and>
    (\<forall>n. (\<forall>j. n \<noteq> data_file_name j \<and> n \<noteq> hint_name j \<and> n \<noteq> hint_name j @ ''.tmp'') \<longrightarrow> fs_file (st_fs s') n = fs_file (st_fs s) n)"
proof -
  obtain w d where fl: "log_flush (st_writer s) (st_fs s) = (Inr (), w, d)" "lw_file_id w = i" "lw_pending w = []"
    "store_repr b (s\<lparr> st_writer := w, st_fs := d \<rparr>) L i rs" "fs_frame {data_file_name i} (st_fs s) d"
    using store_flush_ok [OF repr] by blast
  define s1 where "s1 = s\<lparr> st_writer := w, st_fs := d \<rparr>"
  have repr1: "store_repr b s1 L i rs" and pend: "lw_pending (st_writer s1) = []" and fs1: "st_fs s1 = d"
    using fl by (simp_all add: s1_def)
  note D = store_reprD [OF repr1]
  have i: "i < u64_max" and disk: "st_disk_bytes s1 \<le> u64_max"
    using room store_reprD(4) [OF repr] by (auto simp: store_room_def s1_def)
  obtain wm0 d0 m wm1 d1 wm d2 ms where
    1: "log_writer_open (i + 1) d = (Inr wm0, d0)"
    "merge_entries (st_readers s) (sort_key loc_key (st_keydir s)) \<lparr> mg_keydir = [], mg_hints = [], mg_bytes = 0 \<rparr> wm0 d0
      = (Inr m, wm1, d1)" "log_sync wm1 d1 = (Inr (), wm, d2)"
    and kv: "kv_of ms = kv_of (hist_recs (L @ [(i, rs)]))"
    and W: "lw_offset wm = length (recs_bytes ms)" "lw_file_id wm = i + 1" "lw_pending wm = []" "fs_ok d2"
    "log_holds b wm d2 ms" "merge_repr (i + 1) m ms" "list_all rec_small ms" "length (recs_bytes ms) \<le> u64_max"
    "lw_synced wm = lw_offset wm" "fs_frame {data_file_name (i + 1)} d d2"
    using merge_written [OF repr1 pend i disk] fs1 by (auto simp: s1_def)
  have mr: "kd_repr (mg_keydir m) (mg_bytes m) (mg_bytes m) (locs (i + 1) 0 ms)" "hint_desc (i + 1) ms (mg_hints m)"
    using W(6) by (simp_all add: merge_repr_def)
  have "b \<longrightarrow> length (recs_bytes ms) \<le> synced_of d2 (data_file_name (i + 1))"
    using W(1,2,5,9) by (auto simp: log_holds_def)
  from hint_write_true [OF W(4) mr(2) W(8) this] obtain d3 where
    3: "hint_write (i + 1) (length (recs_bytes ms)) (mg_hints m) d2 = (Inr (), d3)" "fs_ok d3" "hint_true b d3 (i + 1) ms"
    "fs_frame {hint_name (i + 1), hint_name (i + 1) @ ''.tmp''} d2 d3" by blast
  let ?old = "ord (st_readers s)"
  obtain d4 sy where 4: "drop_files ?old (s1\<lparr> st_fs := d3 \<rparr>)
      = (Inr (), s1\<lparr> st_readers := [], st_sealed_synced := sy, st_fs := d4 \<rparr>)" "fs_ok d4"
    "\<forall>n. fs_file d4 n = (if \<exists>j \<in> set ?old. n = data_file_name j \<or> n = hint_name j then None else fs_file d3 n)"
    using drop_files_ok [of "s1\<lparr> st_fs := d3 \<rparr>" ?old] 3(2) ord by (auto simp: s1_def)
  have old: "set ?old = set (adom L) \<union> {i}" using ord store_reprD(9) [OF repr] by simp
  have notold: "i + 1 \<notin> set ?old" using old hist_ok_less [OF D(2), of "i + 1"] by auto
  then have keep: "fs_file d4 (data_file_name (i + 1)) = fs_file d3 (data_file_name (i + 1))"
    "fs_file d4 (hint_name (i + 1)) = fs_file d3 (hint_name (i + 1))"
    using 4(3) by auto
  have data3: "fs_file d3 (data_file_name (i + 1)) = fs_file d2 (data_file_name (i + 1))"
    using 3(4) by (simp add: fs_frame_def)
  have holds: "log_holds b wm d4 ms"
    by (rule log_holds_frame [OF W(5)]) (use keep data3 W(2) in simp)
  have "fs_open (data_file_name (i + 1)) d4 = (Inr (), d4)"
    using 4(2) holds W(2) by (auto simp: fs_open_def log_holds_def fs_simps)
  moreover have "log_drop w d4 = d4" using fl(3) by (simp add: log_drop_def log_flush_def)
  moreover have "Max (insert 0 (set ?old)) = i" using max_id [OF repr, of ord] ord by blast
  ultimately obtain rep s' where s': "store_compact ord s = (Inr rep, s')" "st_readers s' = [i + 1]"
    "st_keydir s' = mg_keydir m" "st_active_hints s' = mg_hints m" "st_writer s' = wm" "st_live_bytes s' = mg_bytes m"
    "st_disk_bytes s' = mg_bytes m" "st_fs s' = d4" "same_mode s s'" "cr_bytes_before rep = st_disk_bytes s"
    "cr_bytes_after rep = mg_bytes m"
    using mode fl(1) 1 3(1) 4(1) W(1)
    by (simp add: store_compact_def Let_def s1_def store_stats_def same_mode_def)
  have "dir_names d4 {i + 1}"
    by (rule unlink_names [OF D(3) _ old _ 4(3)]) (use W(10) 3(4) i fs1 in \<open>auto simp: fs_frame_def\<close>)
  moreover have "hint_true b d4 (i + 1) ms"
    by (rule hint_true_frame_same [OF 3(3)]) (use keep in auto)
  ultimately have "store_repr b s' [] (i + 1) ms"
    unfolding store_repr_def using s' holds W(2,7,8) mr 4(2) i by (simp add: hist_ok_def)
  moreover have "is_synced s'" using s'(5) W(9) by (simp add: is_synced_def)
  moreover have "\<forall>n. (\<forall>j. n \<noteq> data_file_name j \<and> n \<noteq> hint_name j \<and> n \<noteq> hint_name j @ ''.tmp'') \<longrightarrow> fs_file (st_fs s') n = fs_file (st_fs s) n"
    using 4(3) 3(4) W(10) fl(5) by (simp add: s'(8) fs_frame_def)
  ultimately show ?thesis using s' kv by (intro exI [of _ rep] exI [of _ s'] exI [of _ ms]) simp
qed

section \<open>Properties\<close>

text \<open>(C12) A compaction changes nothing a reader can see: whatever order the old files are removed in, it
  succeeds on a working device, every key keeps its value, and all that is left on the disk is live.\<close>

theorem store_compact_preserves:
  assumes "store_log b s H" and "store_room s 1" and "\<not> st_compacting s" and "\<not> st_restoring s"
    and "set (ord (st_readers s)) = set (st_readers s)"
  shows "\<exists>rep s' H'. store_compact ord s = (Inr rep, s') \<and> store_log b s' H' \<and> store_kv s' = store_kv s \<and>
    reclaimable_bytes (store_stats s') = 0 \<and> reclaimed_bytes rep = reclaimable_bytes (store_stats s)"
proof -
  obtain L i rs where L: "store_repr b s L i rs" "H = hist_recs (L @ [(i, rs)])"
    using assms(1) by (auto simp: store_log_def)
  from store_compact_ok [OF L(1) assms(2-4), of ord] assms(5) obtain rep s' ms where
    s': "store_compact ord s = (Inr rep, s')" "store_repr b s' [] (i + 1) ms" "kv_of ms = kv_of H"
    "st_live_bytes s' = st_disk_bytes s'" "cr_bytes_before rep = st_disk_bytes s" "cr_bytes_after rep = st_disk_bytes s'"
    using L(2) by blast
  have log: "store_log b s' ms" unfolding store_log_def using s'(2) by (intro exI [of _ "[]"] exI) auto
  have kv: "store_kv s' = store_kv s" using store_log_kv [OF log] store_log_kv [OF assms(1)] s'(3) by simp
  have "sts_live_bytes (store_stats s') = sts_live_bytes (store_stats s)"
    using store_stats_live [OF log] store_stats_live [OF assms(1)] s'(3) by simp
  then have "st_disk_bytes s' = st_live_bytes s" using s'(4) by (simp add: store_stats_def)
  with s' log kv show ?thesis
    by (auto simp: reclaimable_bytes_def reclaimed_bytes_def store_stats_def)
qed

theorem store_compact_preserves_witness:
  "\<exists>s rep s'. store_open default_options no_files = (Inr s, st_fs s) \<and> store_compact rev s = (Inr rep, s') \<and>
     store_kv s' = store_kv s"
proof -
  obtain s where s: "store_open default_options no_files = (Inr s, st_fs s)" "store_repr True s [] 1 []"
    "\<not> st_restoring s" "\<not> st_compacting s"
    using store_open_empty [OF disk_empty_no_files, of default_options True] by blast
  have "store_log True s []" unfolding store_log_def using s(2) by (intro exI [of _ "[]"] exI [of _ 1]) auto
  moreover have "store_room s 1" using store_room_new [OF s(2)] by (simp add: u64_max_def)
  ultimately show ?thesis
    using store_compact_preserves [of True s "[]" rev] s by auto
qed

end
