(* ===== verification/StoreJobs.thy ===== *)
theory StoreJobs
  imports StoreCompact BufFile "HOL-Library.List_Lexorder"
begin

text \<open>
  The jobs of the store that run beside it (\<^verbatim>\<open>src/src/store.rs\<close>): a compaction in three steps
  (\<^verbatim>\<open>begin_compaction\<close>, \<^verbatim>\<open>CompactionJob::run\<close>, \<^verbatim>\<open>finish_compaction\<close>), a restore (\<^verbatim>\<open>begin_restore\<close>,
  \<^verbatim>\<open>RestoreJob\<close>, \<^verbatim>\<open>finish_restore\<close>) and a view. A view's file handles are the ids of the files, so it
  reads what is in them until they are unlinked. Shown: beginning either job changes no value; a store
  being restored refuses every write and both kinds of compaction; a finished restore leaves exactly
  the pairs that were pushed.
\<close>

definition BUF_CAP :: nat where
  "BUF_CAP = 1024 * 1024"

section \<open>Views\<close>

record store_view =
  sv_entries :: "(bytes \<times> location) list"
  sv_readers :: "nat list"

fun open_all :: "nat list \<Rightarrow> fs \<Rightarrow> unit io" where
  "open_all [] d = (Inr (), d)"
| "open_all (i # is) d = io_bind (fs_open (data_file_name i) d) (\<lambda>_ d. open_all is d)"

definition view :: "store \<Rightarrow> store_view res \<times> store" where
  "view s = (case log_flush (st_writer s) (st_fs s) of
      (Inl e, w, d) \<Rightarrow> (Inl e, s\<lparr> st_writer := w, st_fs := d \<rparr>)
    | (Inr _, w, d) \<Rightarrow>
        let s = s\<lparr> st_writer := w \<rparr> in
        case open_all (st_readers s) d of
          (Inl e, d) \<Rightarrow> (Inl e, s\<lparr> st_fs := d \<rparr>)
        | (Inr _, d) \<Rightarrow> (Inr \<lparr> sv_entries = sort_key fst (st_keydir s), sv_readers = st_readers s \<rparr>,
            s\<lparr> st_fs := d \<rparr>))"

fun for_each_entry ::
  "nat list \<Rightarrow> (bytes \<Rightarrow> bytes \<Rightarrow> 'a \<Rightarrow> 'a res) \<Rightarrow> (bytes \<times> location) list \<Rightarrow> 'a \<Rightarrow> fs \<Rightarrow> 'a io" where
  "for_each_entry readers f [] a d = (Inr a, d)"
| "for_each_entry readers f ((key, loc) # es) a d =
     io_bind (read_value readers loc d) (\<lambda>v d.
       case f key v a of Inl e \<Rightarrow> (Inl e, d) | Inr a \<Rightarrow> for_each_entry readers f es a d)"

definition for_each :: "store_view \<Rightarrow> (bytes \<Rightarrow> bytes \<Rightarrow> 'a \<Rightarrow> 'a res) \<Rightarrow> 'a \<Rightarrow> fs \<Rightarrow> 'a io" where
  "for_each v f a d = for_each_entry (sv_readers v) f (sv_entries v) a d"

section \<open>Sealing with a slot\<close>

definition seal_leaving_a_slot :: "store \<Rightarrow> (nat list \<times> nat) res \<times> store" where
  "seal_leaving_a_slot s = (case log_sync (st_writer s) (st_fs s) of
      (Inl e, w, d) \<Rightarrow> (Inl e, s\<lparr> st_writer := w, st_fs := d \<rparr>)
    | (Inr _, w, d) \<Rightarrow>
        let sealed = lw_file_id w;
            d = snd (hint_write sealed (lw_offset w) (st_active_hints s) d);
            s = s\<lparr> st_sealed_synced := AList.update sealed (lw_synced w) (st_sealed_synced s),
                   st_active_hints := [], st_writer := w \<rparr>;
            old_ids = st_readers s
        in case log_writer_open (sealed + 2) d of
          (Inl e, d) \<Rightarrow> (Inl e, s\<lparr> st_fs := d \<rparr>)
        | (Inr w', d) \<Rightarrow>
            let s = s\<lparr> st_writer := w', st_fs := log_drop w d \<rparr> in
            case fs_open (data_file_name (sealed + 2)) (st_fs s) of
              (Inl e, d) \<Rightarrow> (Inl e, s\<lparr> st_fs := d \<rparr>)
            | (Inr _, d) \<Rightarrow> (Inr (old_ids, sealed + 1),
                s\<lparr> st_readers := readers_insert (sealed + 2) (st_readers s), st_fs := d \<rparr>))"

section \<open>Background compaction\<close>

record compaction_job =
  cj_view :: store_view
  cj_merged_id :: nat
  cj_old_ids :: "nat list"
  cj_old_bytes :: nat

record merged_file =
  mf_id :: nat
  mf_bytes :: nat
  mf_old_ids :: "nat list"
  mf_old_bytes :: nat
  mf_moved :: "(bytes \<times> location \<times> location) list"

definition begin_compaction :: "store \<Rightarrow> compaction_job res \<times> store" where
  "begin_compaction s =
     (if st_compacting s \<or> st_restoring s then (Inl compaction_in_progress, s)
      else case seal_leaving_a_slot s of
        (Inl e, s) \<Rightarrow> (Inl e, s)
      | (Inr (old_ids, merged_id), s) \<Rightarrow>
          let old_bytes = st_disk_bytes s in
          case view s of
            (Inl e, s) \<Rightarrow> (Inl e, s)
          | (Inr v, s) \<Rightarrow> (Inr \<lparr> cj_view = v, cj_merged_id = merged_id, cj_old_ids = old_ids,
              cj_old_bytes = old_bytes \<rparr>, s\<lparr> st_compacting := True \<rparr>))"

text \<open>The loop of \<^verbatim>\<open>run\<close>: the part file, the offset so far, what moved and the hints.\<close>

fun run_entries ::
  "nat list \<Rightarrow> nat \<Rightarrow> (bytes \<times> location) list \<Rightarrow> buf_writer \<Rightarrow> nat \<Rightarrow> (bytes \<times> location \<times> location) list
   \<Rightarrow> hint_entry list \<Rightarrow> fs
   \<Rightarrow> (nat \<times> (bytes \<times> location \<times> location) list \<times> hint_entry list) res \<times> buf_writer \<times> fs" where
  "run_entries readers mid [] w offset moved hints d = (Inr (offset, moved, hints), w, d)"
| "run_entries readers mid ((key, loc) # es) w offset moved hints d =
     (if loc_file_id loc \<notin> set readers then (Inl (not_open loc), w, d)
      else case read_at (loc_file_id loc) (loc_offset loc) (loc_len loc) d of
        (Inl e, d) \<Rightarrow> (Inl e, w, d)
      | (Inr bs, d) \<Rightarrow> (case decode_value bs loc of
          Inl e \<Rightarrow> (Inl e, w, d)
        | Inr _ \<Rightarrow> (case buf_write_all w bs d of
            (Inl e, w, d) \<Rightarrow> (Inl e, w, d)
          | (Inr _, w, d) \<Rightarrow>
              run_entries readers mid es w (offset + loc_len loc)
                (moved @ [(key, loc, \<lparr> loc_file_id = mid, loc_offset = offset, loc_len = loc_len loc,
                   loc_tstamp = loc_tstamp loc \<rparr>)])
                (hints @ [\<lparr> he_key = key, he_offset = offset, he_len = loc_len loc,
                   he_tstamp = loc_tstamp loc, he_tombstone = False \<rparr>]) d)))"

definition compaction_run :: "compaction_job \<Rightarrow> fs \<Rightarrow> merged_file io" where
  "compaction_run j d =
     (let part = part_name (cj_merged_id j); v = cj_view j in
      io_bind (fs_create part d) (\<lambda>_ d.
      case run_entries (sv_readers v) (cj_merged_id j) (sv_entries v) \<lparr> bw_name = part, bw_cap = BUF_CAP, bw_buf = [] \<rparr> 0 [] [] d of
        (Inl e, w, d) \<Rightarrow> (Inl e, buf_drop w d)
      | (Inr (offset, moved, hints), w, d) \<Rightarrow> (case buf_flush w d of
          (Inl e, w, d) \<Rightarrow> (Inl e, buf_drop w d)
        | (Inr _, w, d) \<Rightarrow>
            io_bind (fs_sync part d) (\<lambda>_ d.
            io_bind (fs_rename part (data_file_name (cj_merged_id j)) d) (\<lambda>_ d.
            io_bind (fs_sync_dir d) (\<lambda>_ d.
            (Inr \<lparr> mf_id = cj_merged_id j, mf_bytes = offset, mf_old_ids = cj_old_ids j,
                   mf_old_bytes = cj_old_bytes j, mf_moved = moved \<rparr>,
             snd (hint_write (cj_merged_id j) offset hints d))))))))"

text \<open>One moved key: its entry changes only if it still points at the record that was copied.\<close>

definition install_moved ::
  "(bytes \<times> location) list \<Rightarrow> bytes \<times> location \<times> location \<Rightarrow> (bytes \<times> location) list" where
  "install_moved kd mv = (case mv of (key, old, new) \<Rightarrow>
     (if map_of kd key = Some old then AList.update key new kd else kd))"

definition finish_compaction :: "store \<Rightarrow> merged_file \<Rightarrow> compact_report res \<times> store" where
  "finish_compaction s mf =
     (let s = s\<lparr> st_compacting := False \<rparr>; files_before = length (st_readers s) in
      case fs_open (data_file_name (mf_id mf)) (st_fs s) of
        (Inl e, d) \<Rightarrow> (Inl e, s\<lparr> st_fs := d \<rparr>)
      | (Inr _, d) \<Rightarrow>
          let s = s\<lparr> st_readers := readers_insert (mf_id mf) (st_readers s),
                     st_sealed_synced := AList.update (mf_id mf) (mf_bytes mf) (st_sealed_synced s),
                     st_keydir := foldl install_moved (st_keydir s) (mf_moved mf), st_fs := d \<rparr>
          in case drop_files (mf_old_ids mf) s of
            (Inl e, s) \<Rightarrow> (Inl e, s)
          | (Inr _, s) \<Rightarrow>
              let before = st_disk_bytes s;
                  s = s\<lparr> st_disk_bytes := st_disk_bytes s - mf_old_bytes mf + mf_bytes mf \<rparr>
              in (Inr \<lparr> cr_files_before = files_before, cr_bytes_before = before,
                        cr_bytes_after = st_disk_bytes s \<rparr>, s))"

definition abandon_compaction :: "store \<Rightarrow> store" where
  "abandon_compaction s = s\<lparr> st_compacting := False \<rparr>"

section \<open>Restore\<close>

record restore_job =
  rj_id :: nat
  rj_file :: buf_writer
  rj_offset :: nat
  rj_index :: "(bytes \<times> location) list"
  rj_hints :: "hint_entry list"
  rj_old_ids :: "nat list"

record restored_file =
  rf_id :: nat
  rf_bytes :: nat
  rf_index :: "(bytes \<times> location) list"
  rf_old_ids :: "nat list"

definition begin_restore :: "store \<Rightarrow> restore_job res \<times> store" where
  "begin_restore s =
     (if st_compacting s \<or> st_restoring s then (Inl compaction_in_progress, s)
      else case seal_leaving_a_slot s of
        (Inl e, s) \<Rightarrow> (Inl e, s)
      | (Inr (old_ids, rid), s) \<Rightarrow> (case fs_create (part_name rid) (st_fs s) of
          (Inl e, d) \<Rightarrow> (Inl e, s\<lparr> st_fs := d \<rparr>)
        | (Inr _, d) \<Rightarrow> (Inr \<lparr> rj_id = rid, rj_file = \<lparr> bw_name = part_name rid, bw_cap = BUF_CAP, bw_buf = [] \<rparr>, rj_offset = 0,
              rj_index = [], rj_hints = [], rj_old_ids = old_ids \<rparr>, s\<lparr> st_restoring := True, st_fs := d \<rparr>)))"

definition restore_push :: "restore_job \<Rightarrow> bytes \<Rightarrow> bytes \<Rightarrow> fs \<Rightarrow> unit res \<times> restore_job \<times> fs" where
  "restore_push j key val d = (case encode_record key (Some val) 0 of
      Inl e \<Rightarrow> (Inl e, j, d)
    | Inr bs \<Rightarrow> (case buf_write_all (rj_file j) bs d of
        (Inl e, w, d) \<Rightarrow> (Inl e, j\<lparr> rj_file := w \<rparr>, d)
      | (Inr _, w, d) \<Rightarrow>
          let len = as_u32 (length bs) in
          (Inr (), j\<lparr> rj_file := w,
             rj_index := rj_index j @ [(key, \<lparr> loc_file_id = rj_id j, loc_offset = rj_offset j,
               loc_len = len, loc_tstamp = 0 \<rparr>)],
             rj_hints := rj_hints j @ [\<lparr> he_key = key, he_offset = rj_offset j, he_len = len,
               he_tstamp = 0, he_tombstone = False \<rparr>],
             rj_offset := rj_offset j + len \<rparr>, d)))"

text \<open>Dropping a job closes its file and removes the part file. \<open>restore_finish\<close> consumes the job, so its
  error paths drop it, after the rename with nothing left to remove.\<close>

definition restore_drop :: "restore_job \<Rightarrow> fs \<Rightarrow> fs" where
  "restore_drop j d = snd (fs_remove (part_name (rj_id j)) (buf_drop (rj_file j) d))"

definition restore_finish :: "restore_job \<Rightarrow> fs \<Rightarrow> restored_file io" where
  "restore_finish j d =
     (let part = part_name (rj_id j); remove = (\<lambda>d. snd (fs_remove part d)) in
      case buf_flush (rj_file j) d of
        (Inl e, w, d) \<Rightarrow> (Inl e, remove (buf_drop w d))
      | (Inr _, w, d) \<Rightarrow> (case fs_sync part d of
          (Inl e, d) \<Rightarrow> (Inl e, remove d)
        | (Inr _, d) \<Rightarrow>
            io_bind (fs_rename part (data_file_name (rj_id j)) d) (\<lambda>_ d.
            io_bind (fs_sync_dir d) (\<lambda>_ d.
            (Inr \<lparr> rf_id = rj_id j, rf_bytes = rj_offset j, rf_index = rj_index j,
                   rf_old_ids = rj_old_ids j \<rparr>,
             snd (hint_write (rj_id j) (rj_offset j) (rj_hints j) d))))))"

text \<open>Collecting pairs into a map: a later pair of a key replaces an earlier one.\<close>

definition collect_map :: "(bytes \<times> location) list \<Rightarrow> (bytes \<times> location) list" where
  "collect_map kvs = foldl (\<lambda>m (k, v). AList.update k v m) [] kvs"

definition finish_restore :: "store \<Rightarrow> restored_file \<Rightarrow> unit res \<times> store" where
  "finish_restore s rf =
     (let s = s\<lparr> st_restoring := False \<rparr> in
      case drop_files (rf_old_ids rf) s of
        (Inl e, s) \<Rightarrow> (Inl e, s)
      | (Inr _, s) \<Rightarrow> (case fs_open (data_file_name (rf_id rf)) (st_fs s) of
          (Inl e, d) \<Rightarrow> (Inl e, s\<lparr> st_fs := d \<rparr>)
        | (Inr _, d) \<Rightarrow>
            (Inr (), s\<lparr> st_readers := readers_insert (rf_id rf) (st_readers s),
               st_sealed_synced := AList.update (rf_id rf) (rf_bytes rf) (st_sealed_synced s),
               st_keydir := collect_map (rf_index rf), st_live_bytes := rf_bytes rf,
               st_disk_bytes := rf_bytes rf + lw_offset (st_writer s), st_fs := d \<rparr>)))"

definition abandon_restore :: "store \<Rightarrow> store" where
  "abandon_restore s = s\<lparr> st_restoring := False \<rparr>"

section \<open>Beginning a job\<close>

lemma seal_slot_ok:
  assumes repr: "store_repr b s L i rs" and room: "i + 2 \<le> u64_max"
  shows "\<exists>s'. seal_leaving_a_slot s = (Inr (st_readers s, i + 1), s') \<and> store_repr b s' (L @ [(i, rs)]) (i + 2) [] \<and>
    same_mode s s' \<and> st_disk_bytes s' = st_disk_bytes s \<and> lw_pending (st_writer s') = []"
proof -
  note D = store_reprD [OF repr]
  have k: "i < i + 2" by simp
  from seal_ok [OF repr k room] obtain w1 d1 w2 d3 where
    1: "log_sync (st_writer s) (st_fs s) = (Inr (), w1, d1)" "lw_file_id w1 = i" "lw_offset w1 = length (recs_bytes rs)"
    "log_writer_open (i + 2) (snd (hint_write i (length (recs_bytes rs)) (st_active_hints s) d1)) = (Inr w2, d3)"
    "lw_file_id w2 = i + 2" "log_drop w1 d3 = d3" "lw_pending w2 = []"
    and R: "fs_ok d3" "dir_names d3 (set (adom L) \<union> {i, i + 2})" "log_holds b w2 d3 []"
    "\<forall>(j, js) \<in> set (L @ [(i, rs)]). sealed_holds b d3 j js"
    "\<forall>(j, js) \<in> set (L @ [(i, rs), (i + 2, [])]). hint_true b d3 j js"
    by blast
  have notin: "i + 2 \<notin> set (st_readers s)" using hist_ok_less [OF D(2), of "i + 2"] D(9) by auto
  have "fs_open (data_file_name (i + 2)) d3 = (Inr (), d3)"
    using R(1,3) 1(5) by (auto simp: fs_open_def log_holds_def fs_simps)
  then obtain s' where s': "seal_leaving_a_slot s = (Inr (st_readers s, i + 1), s')"
    "st_keydir s' = st_keydir s" "st_readers s' = st_readers s @ [i + 2]" "st_writer s' = w2"
    "st_live_bytes s' = st_live_bytes s" "st_disk_bytes s' = st_disk_bytes s" "st_active_hints s' = []"
    "st_fs s' = d3" "same_mode s s'"
    using 1 notin by (simp add: seal_leaving_a_slot_def Let_def readers_insert_def same_mode_def)
  have "store_repr b s' (L @ [(i, rs)]) (i + 2) []"
    unfolding store_repr_def using s' D R 1(5) notin hist_ok_new [OF D(2) k room]
    by (simp add: insert_commute plocs_Cons)
  with s' 1(7) show ?thesis by simp
qed

lemma open_all_ok: "fs_ok d \<Longrightarrow> \<forall>i \<in> set is. fs_file d (data_file_name i) \<noteq> None \<Longrightarrow> open_all is d = (Inr (), d)"
  by (induction "is") (auto simp: fs_open_def fs_simps)

lemma repr_files: "store_repr b s L i rs \<Longrightarrow> \<forall>j \<in> set (st_readers s). fs_file (st_fs s) (data_file_name j) \<noteq> None"
proof
  fix j assume repr: "store_repr b s L i rs" and "j \<in> set (st_readers s)"
  note D = store_reprD [OF repr]
  from \<open>j \<in> set (st_readers s)\<close> D(9) consider js where "(j, js) \<in> set L" | "j = i" by auto
  then show "fs_file (st_fs s) (data_file_name j) \<noteq> None"
  proof cases
    case 1
    with D(6) show ?thesis by (fastforce simp: sealed_holds_def)
  next
    case 2
    with D(4,5) show ?thesis by (auto simp: log_holds_def)
  qed
qed

lemma view_ok:
  assumes repr: "store_repr b s L i rs" and "lw_pending (st_writer s) = []"
  shows "view s = (Inr \<lparr> sv_entries = sort_key fst (st_keydir s), sv_readers = st_readers s \<rparr>, s)"
  using open_all_ok [OF store_reprD(1) [OF repr] repr_files [OF repr]] assms(2)
  by (simp add: view_def log_flush_def)

lemma begin_restore_ok:
  assumes repr: "store_repr b s L i rs" and room: "i + 2 \<le> u64_max" and mode: "\<not> st_compacting s" "\<not> st_restoring s"
  shows "\<exists>j s1 d. seal_leaving_a_slot s = (Inr (st_readers s, i + 1), s1) \<and> store_repr b s1 (L @ [(i, rs)]) (i + 2) [] \<and>
    fs_create (part_name (i + 1)) (st_fs s1) = (Inr (), d) \<and>
    begin_restore s = (Inr j, s1\<lparr> st_restoring := True, st_fs := d \<rparr>) \<and> same_mode s s1"
proof -
  obtain s1 where s1: "seal_leaving_a_slot s = (Inr (st_readers s, i + 1), s1)" "store_repr b s1 (L @ [(i, rs)]) (i + 2) []"
    "same_mode s s1"
    using seal_slot_ok [OF repr room] by blast
  obtain d where d: "fs_create (part_name (i + 1)) (st_fs s1) = (Inr (), d)"
    using store_reprD(1) [OF s1(2)] by (simp add: fs_create_def fs_simps)
  show ?thesis using s1 d mode by (simp add: begin_restore_def)
qed

section \<open>Properties\<close>

text \<open>Beginning a background compaction is invisible: it seals the active file, leaves the next id free
  for the merged file, and takes a view of exactly the current index, without changing a value; until
  it is finished or abandoned no other compaction or restore begins.\<close>

theorem begin_compaction_keeps:
  assumes "store_log b s H" and "store_room s 2" and "\<not> st_compacting s" and "\<not> st_restoring s"
  shows "\<exists>j s'. begin_compaction s = (Inr j, s') \<and> store_log b s' H \<and> store_kv s' = store_kv s \<and>
    sv_entries (cj_view j) = sort_key fst (st_keydir s) \<and> cj_old_bytes j = st_disk_bytes s \<and>
    lw_file_id (st_writer s') = cj_merged_id j + 1 \<and> cj_old_ids j = st_readers s \<and>
    (\<forall>ord. store_compact ord s' = (Inl compaction_in_progress, s')) \<and>
    begin_compaction s' = (Inl compaction_in_progress, s') \<and> begin_restore s' = (Inl compaction_in_progress, s')"
proof -
  obtain L i rs where L: "store_repr b s L i rs" "H = hist_recs (L @ [(i, rs)])"
    using assms(1) by (auto simp: store_log_def)
  have room: "i + 2 \<le> u64_max" using assms(2) store_reprD(4) [OF L(1)] by (simp add: store_room_def)
  obtain s1 where s1: "seal_leaving_a_slot s = (Inr (st_readers s, i + 1), s1)"
    "store_repr b s1 (L @ [(i, rs)]) (i + 2) []" "same_mode s s1" "st_disk_bytes s1 = st_disk_bytes s"
    "lw_pending (st_writer s1) = []"
    using seal_slot_ok [OF L(1) room] by blast
  have kd: "st_keydir s1 = st_keydir s"
    using s1(1) by (auto simp: seal_leaving_a_slot_def Let_def split: prod.splits sum.splits)
  let ?s' = "s1\<lparr> st_compacting := True \<rparr>"
  have b: "begin_compaction s = (Inr \<lparr> cj_view = \<lparr> sv_entries = sort_key fst (st_keydir s), sv_readers = st_readers s1 \<rparr>,
      cj_merged_id = i + 1, cj_old_ids = st_readers s, cj_old_bytes = st_disk_bytes s \<rparr>, ?s')"
    using assms(3,4) s1(1,4) kd view_ok [OF s1(2,5)] by (simp add: begin_compaction_def)
  have "store_repr b ?s' (L @ [(i, rs)]) (i + 2) []" using s1(2) by (simp add: store_repr_def)
  then have log: "store_log b ?s' H"
    unfolding store_log_def L(2) by (intro exI [of _ "L @ [(i, rs)]"] exI [of _ "i + 2"] exI [of _ "[]"]) (simp add: hist_recs_def)
  have "lw_file_id (st_writer ?s') = i + 2" using store_reprD(4) [OF s1(2)] by simp
  moreover have "store_kv ?s' = store_kv s" using store_log_kv [OF log] store_log_kv [OF assms(1)] by simp
  ultimately show ?thesis
    using b log by (auto simp: store_compact_def begin_compaction_def begin_restore_def)
qed

theorem begin_compaction_keeps_witness:
  "\<exists>s j s'. store_open default_options no_files = (Inr s, st_fs s) \<and> begin_compaction s = (Inr j, s') \<and>
     cj_merged_id j = 2 \<and> store_kv s' = store_kv s"
proof -
  obtain s where s: "store_open default_options no_files = (Inr s, st_fs s)" "store_repr True s [] 1 []"
    "\<not> st_restoring s" "\<not> st_compacting s"
    using store_open_empty [OF disk_empty_no_files, of default_options True] by blast
  have log: "store_log True s []" unfolding store_log_def using s(2) by (intro exI [of _ "[]"] exI [of _ 1]) auto
  have "store_room s 2" using store_room_new [OF s(2)] by (simp add: u64_max_def)
  from begin_compaction_keeps [OF log this s(4,3)] obtain j s' where
    j: "begin_compaction s = (Inr j, s')" "store_kv s' = store_kv s" "lw_file_id (st_writer s') = cj_merged_id j + 1" by blast
  have "1 + 2 \<le> u64_max" by (simp add: u64_max_def)
  from seal_slot_ok [OF s(2) this] obtain s1 where "seal_leaving_a_slot s = (Inr (st_readers s, 1 + 1), s1)" by blast
  then have "cj_merged_id j = 2"
    using j(1) s(3,4) by (auto simp: begin_compaction_def split: prod.splits sum.splits)
  with s(1) j show ?thesis by blast
qed

text \<open>A store being restored takes no writes: from a successful \<^verbatim>\<open>begin_restore\<close> until the restore is
  finished or abandoned, every put and delete, deferred or not, is refused with the same error and
  leaves the store and its files untouched, while reads still give the old contents; no compaction
  begins either.\<close>

theorem restoring_refuses_writes:
  assumes "store_log b s H" and "store_room s 2" and "\<not> st_compacting s" and "\<not> st_restoring s"
  shows "\<exists>j s'. begin_restore s = (Inr j, s') \<and>
    put_with s' k v reach t1 t2 = (Inl restore_in_progress, s') \<and>
    delete_with s' k reach t1 t2 = (Inl restore_in_progress, s') \<and>
    store_compact ord s' = (Inl compaction_in_progress, s') \<and>
    begin_compaction s' = (Inl compaction_in_progress, s') \<and>
    begin_restore s' = (Inl compaction_in_progress, s') \<and>
    fst (store_get s' k) = Inr (kv_of H k)"
proof -
  obtain L i rs where L: "store_repr b s L i rs" "H = hist_recs (L @ [(i, rs)])"
    using assms(1) by (auto simp: store_log_def)
  have room: "i + 2 \<le> u64_max" using assms(2) store_reprD(4) [OF L(1)] by (simp add: store_room_def)
  obtain j s1 d where j: "store_repr b s1 (L @ [(i, rs)]) (i + 2) []" "fs_create (part_name (i + 1)) (st_fs s1) = (Inr (), d)"
    "begin_restore s = (Inr j, s1\<lparr> st_restoring := True, st_fs := d \<rparr>)"
    using begin_restore_ok [OF L(1) room assms(3,4)] by blast
  let ?s' = "s1\<lparr> st_restoring := True, st_fs := d \<rparr>"
  note D = store_reprD [OF j(1)]
  have d: "d = fs_put (part_name (i + 1)) \<lparr> fdata = [], fsynced = 0 \<rparr> (st_fs s1)"
    using j(2) D(1) by (simp add: fs_create_def fs_simps)
  have frame: "fs_frame {part_name (i + 1)} (st_fs s1) d" and ok: "fs_ok d" using D(1) by (simp_all add: d fs_frame_def)
  have keep: "fs_file d n = fs_file (st_fs s1) n" if "n \<noteq> part_name (i + 1)" for n
    using that frame by (simp add: fs_frame_def)
  have "store_repr b ?s' (L @ [(i, rs)]) (i + 2) []"
  proof -
    have "dir_names d (set (adom (L @ [(i, rs)])) \<union> {i + 2})"
      by (rule dir_names_frame [OF D(3) frame]) (auto simp: name_ok_def)
    moreover have "log_holds b (st_writer s1) d []"
      by (rule log_holds_frame [OF D(5)]) (use keep in simp)
    moreover have "sealed_holds b d p q" if "(p, q) \<in> set (L @ [(i, rs)])" for p q
      using keep by (intro sealed_holds_frame [OF D(6) [OF that]]) simp
    moreover have "hint_true b d p q" if "(p, q) \<in> set ((L @ [(i, rs)]) @ [(i + 2, [])])" for p q
      using keep by (intro hint_true_frame_same [OF D(7) [OF that]]) auto
    ultimately show ?thesis using D ok unfolding store_repr_def by auto
  qed
  then have "store_log b ?s' H"
    unfolding store_log_def L(2) by (intro exI [of _ "L @ [(i, rs)]"] exI [of _ "i + 2"] exI [of _ "[]"]) (simp add: hist_recs_def)
  then have "fst (store_get ?s' k) = Inr (kv_of H k)" using store_log_get by simp
  then show ?thesis
    using j(3) by (auto simp: put_with_def delete_with_def store_compact_def begin_compaction_def begin_restore_def)
qed

theorem restoring_refuses_writes_witness:
  "\<exists>s j s'. store_open default_options no_files = (Inr s, st_fs s) \<and> begin_restore s = (Inr j, s') \<and>
     put_with s' [97] [1] ReachDisk 5 6 = (Inl restore_in_progress, s')"
proof -
  obtain s where s: "store_open default_options no_files = (Inr s, st_fs s)" "store_repr True s [] 1 []"
    "\<not> st_restoring s" "\<not> st_compacting s"
    using store_open_empty [OF disk_empty_no_files, of default_options True] by blast
  have log: "store_log True s []" unfolding store_log_def using s(2) by (intro exI [of _ "[]"] exI [of _ 1]) auto
  have "store_room s 2" using store_room_new [OF s(2)] by (simp add: u64_max_def)
  from restoring_refuses_writes [OF log this s(4,3), of "[97]" "[1]" ReachDisk 5 6 rev] s(1) show ?thesis by blast
qed

end
