(* ===== verification/Resp.thy ===== *)
theory Resp
  imports FileSystem
begin

text \<open>
  The Redis protocol (\<^verbatim>\<open>src/src/resp.rs\<close>): replies and their encoding, and the two readers. A Rust
  \<^verbatim>\<open>String\<close> is its UTF-8 bytes. A stream is the bytes still to be read and, when they run out, the
  error the connection ends with, if it does not end cleanly. The theorems are the round trips of
  replies and commands, and that a command cut short is never taken for a whole one.
\<close>

section \<open>Text\<close>

definition ascii :: "string \<Rightarrow> bytes" where
  "ascii s = map (\<lambda>c. word_of_nat (of_char c)) s"

definition byte_char :: "byte \<Rightarrow> char" where
  "byte_char b = char_of (unat b)"

text \<open>
  The head of a byte string as \<^verbatim>\<open>std::str\<close> reads UTF-8: whether it is a whole character, and how many
  bytes it takes, or how many the longest beginning of a character takes when it is not.
\<close>

definition in_range :: "nat \<Rightarrow> nat \<Rightarrow> bytes \<Rightarrow> nat \<Rightarrow> bool" where
  "in_range lo hi bs i \<longleftrightarrow> i < length bs \<and> lo \<le> unat (bs ! i) \<and> unat (bs ! i) \<le> hi"

definition second_range :: "nat \<Rightarrow> nat \<times> nat" where
  "second_range b =
     (if b = 0xE0 then (0xA0, 0xBF) else if b = 0xED then (0x80, 0x9F)
      else if b = 0xF0 then (0x90, 0xBF) else if b = 0xF4 then (0x80, 0x8F) else (0x80, 0xBF))"

definition char_width :: "nat \<Rightarrow> nat" where
  "char_width b =
     (if b < 0x80 then 1 else if 0xC2 \<le> b \<and> b \<le> 0xDF then 2
      else if 0xE0 \<le> b \<and> b \<le> 0xEF then 3 else if 0xF0 \<le> b \<and> b \<le> 0xF4 then 4 else 0)"

definition utf8_head :: "bytes \<Rightarrow> bool \<times> nat" where
  "utf8_head bs =
     (let b = unat (hd bs); w = char_width b; (lo, hi) = second_range b in
      if w = 0 then (False, 1)
      else if w = 1 then (True, 1)
      else if \<not> in_range lo hi bs 1 then (False, 1)
      else if w = 2 then (True, 2)
      else if \<not> in_range 0x80 0xBF bs 2 then (False, 2)
      else if w = 3 then (True, 3)
      else if \<not> in_range 0x80 0xBF bs 3 then (False, 3)
      else (True, 4))"

lemma utf8_head_pos [simp]: "0 < snd (utf8_head bs)"
  by (simp add: utf8_head_def Let_def case_prod_beta)

text \<open>\<^verbatim>\<open>str::from_utf8\<close> accepts the bytes; \<^verbatim>\<open>String::from_utf8_lossy\<close> of them.\<close>

function utf8_ok :: "bytes \<Rightarrow> bool" where
  "utf8_ok bs = (if bs = [] then True
     else fst (utf8_head bs) \<and> utf8_ok (drop (snd (utf8_head bs)) bs))"
  by pat_completeness auto
termination
  by (relation "measure length") (auto simp: diff_less)

function from_utf8_lossy :: "bytes \<Rightarrow> bytes" where
  "from_utf8_lossy bs = (if bs = [] then []
     else (if fst (utf8_head bs) then take (snd (utf8_head bs)) bs else [0xEF, 0xBF, 0xBD])
       @ from_utf8_lossy (drop (snd (utf8_head bs)) bs))"
  by pat_completeness auto
termination
  by (relation "measure length") (auto simp: diff_less)

declare utf8_ok.simps [simp del] from_utf8_lossy.simps [simp del]

text \<open>\<^verbatim>\<open>format!("{n}")\<close> and \<^verbatim>\<open>str::parse::<i64>\<close>.\<close>

definition nat_text :: "nat \<Rightarrow> bytes" where
  "nat_text n = ascii (dec_digits n)"

definition int_text :: "int \<Rightarrow> bytes" where
  "int_text n = (if n < 0 then 0x2D # nat_text (nat (- n)) else nat_text (nat n))"

definition parse_i64 :: "bytes \<Rightarrow> int option" where
  "parse_i64 bs =
     (let neg = (bs \<noteq> [] \<and> hd bs = 0x2D);
          t = map byte_char (if bs \<noteq> [] \<and> hd bs \<in> {0x2B, 0x2D} then tl bs else bs);
          n = (if neg then - int (parse_digits t) else int (parse_digits t))
      in if t = [] \<or> \<not> list_all is_digit t then None
         else if - (2 ^ 63) \<le> n \<and> n < 2 ^ 63 then Some n else None)"

section \<open>Replies\<close>

definition MAX_BULK_LEN :: nat where
  "MAX_BULK_LEN = 512 * 1024 * 1024"

definition MAX_ARRAY_LEN :: nat where
  "MAX_ARRAY_LEN = 1024 * 1024"

datatype reply =
    Simple bytes
  | ErrorReply bytes
  | Integer int
  | Bulk bytes
  | Null
  | Array "reply list"

definition reply_ok :: reply where
  "reply_ok = Simple (ascii ''OK'')"

definition reply_err :: "bytes \<Rightarrow> reply" where
  "reply_err message = ErrorReply (ascii ''ERR '' @ message)"

definition crlf :: bytes where
  "crlf = [0x0D, 0x0A]"

text \<open>What \<^verbatim>\<open>write_to\<close> appends to the writer.\<close>

fun write_to :: "reply \<Rightarrow> bytes" where
  "write_to (Simple s) = [0x2B] @ s @ crlf"
| "write_to (ErrorReply s) = [0x2D] @ s @ crlf"
| "write_to (Integer n) = [0x3A] @ int_text n @ crlf"
| "write_to (Bulk bs) = [0x24] @ nat_text (length bs) @ crlf @ bs @ crlf"
| "write_to Null = ascii ''$-1'' @ crlf"
| "write_to (Array items) = [0x2A] @ nat_text (length items) @ crlf @ concat (map write_to items)"

section \<open>Reading\<close>

record instream =
  in_bytes :: bytes
  in_fault :: "error option"

definition invalid_data :: "string \<Rightarrow> error" where
  "invalid_data detail = Io InvalidData detail"

text \<open>What a read finds when the bytes run out: the error of the connection, or the end.\<close>

definition at_end :: "instream \<Rightarrow> 'a \<Rightarrow> 'a res" where
  "at_end r x = (case in_fault r of Some e \<Rightarrow> Inl e | None \<Rightarrow> Inr x)"

definition strip_cr :: "bytes \<Rightarrow> bytes" where
  "strip_cr line = (if line \<noteq> [] \<and> last line = 0x0D then butlast line else line)"

text \<open>\<^verbatim>\<open>read_until\<close> up to a line feed, which is dropped with a carriage return before it.\<close>

definition read_line :: "instream \<Rightarrow> bytes option res \<times> instream" where
  "read_line r =
     (let line = takeWhile (\<lambda>b. b \<noteq> 0x0A) (in_bytes r);
          r' = r\<lparr> in_bytes := drop (length line + 1) (in_bytes r) \<rparr>
      in if length line < length (in_bytes r) then (Inr (Some (strip_cr line)), r')
         else (at_end r (if line = [] then None else Some (strip_cr line)), r'))"

definition text_of :: "bytes \<Rightarrow> bytes res" where
  "text_of bs = (if utf8_ok bs then Inr bs else Inl (invalid_data ''non-utf8 bytes in a protocol line''))"

definition parse_len :: "bytes \<Rightarrow> nat \<Rightarrow> nat option res" where
  "parse_len digits limit = (case text_of digits of
      Inl e \<Rightarrow> Inl e
    | Inr t \<Rightarrow> (case parse_i64 t of
        None \<Rightarrow> Inl (invalid_data ''length is not a number'')
      | Some n \<Rightarrow>
          if n = -1 then Inr None
          else if n < 0 then Inl (invalid_data ''negative length'')
          else if nat n > limit then Inl (invalid_data ''length exceeds the protocol limit'')
          else Inr (Some (nat n))))"

definition read_bulk :: "nat \<Rightarrow> instream \<Rightarrow> bytes res \<times> instream" where
  "read_bulk len r =
     (if length (in_bytes r) < len + 2
      then (case at_end r () of Inl e \<Rightarrow> Inl e | Inr _ \<Rightarrow> Inl eof_error, r\<lparr> in_bytes := [] \<rparr>)
      else let buf = take (len + 2) (in_bytes r); r = r\<lparr> in_bytes := drop (len + 2) (in_bytes r) \<rparr> in
        if drop len buf \<noteq> crlf then (Inl (invalid_data ''bulk string is not terminated by CRLF''), r)
        else (Inr (take len buf), r))"

definition is_ascii_whitespace :: "byte \<Rightarrow> bool" where
  "is_ascii_whitespace b \<longleftrightarrow> b \<in> {0x09, 0x0A, 0x0C, 0x0D, 0x20}"

text \<open>\<^verbatim>\<open>slice::split\<close>: the pieces between the elements that satisfy the predicate.\<close>

fun split_on :: "('a \<Rightarrow> bool) \<Rightarrow> 'a list \<Rightarrow> 'a list list" where
  "split_on p [] = [[]]"
| "split_on p (x # xs) =
     (if p x then [] # split_on p xs
      else (x # hd (split_on p xs)) # tl (split_on p xs))"

definition inline_args :: "bytes \<Rightarrow> bytes list" where
  "inline_args line = filter (\<lambda>word. word \<noteq> []) (split_on is_ascii_whitespace line)"

text \<open>The loop over the arguments of an array.\<close>

fun read_args :: "nat \<Rightarrow> bytes list \<Rightarrow> instream \<Rightarrow> bytes list res \<times> instream" where
  "read_args 0 args r = (Inr args, r)"
| "read_args (Suc n) args r = (case read_line r of
      (Inl e, r) \<Rightarrow> (Inl e, r)
    | (Inr None, r) \<Rightarrow> (Inl (invalid_data ''connection closed inside a command''), r)
    | (Inr (Some header), r) \<Rightarrow>
        if header = [] \<or> hd header \<noteq> 0x24
        then (Inl (invalid_data ''expected a bulk string inside a command array''), r)
        else (case parse_len (tl header) MAX_BULK_LEN of
            Inl e \<Rightarrow> (Inl e, r)
          | Inr None \<Rightarrow> (Inl (invalid_data ''null bulk string inside a command array''), r)
          | Inr (Some len) \<Rightarrow> (case read_bulk len r of
                (Inl e, r) \<Rightarrow> (Inl e, r)
              | (Inr arg, r) \<Rightarrow> read_args n (args @ [arg]) r)))"

definition read_command :: "instream \<Rightarrow> bytes list option res \<times> instream" where
  "read_command r = (case read_line r of
      (Inl e, r) \<Rightarrow> (Inl e, r)
    | (Inr None, r) \<Rightarrow> (Inr None, r)
    | (Inr (Some line), r) \<Rightarrow>
        if line = [] then (Inr (Some []), r)
        else if hd line \<noteq> 0x2A then (Inr (Some (inline_args line)), r)
        else (case parse_len (tl line) MAX_ARRAY_LEN of
            Inl e \<Rightarrow> (Inl e, r)
          | Inr None \<Rightarrow> (Inr (Some []), r)
          | Inr (Some count) \<Rightarrow> (case read_args count [] r of
                (Inl e, r) \<Rightarrow> (Inl e, r)
              | (Inr args, r) \<Rightarrow> (Inr (Some args), r))))"

text \<open>\<^verbatim>\<open>format!("{:?}", b as char)\<close> for a byte: quoted, with what does not print escaped.\<close>

definition hex_digit :: "nat \<Rightarrow> char" where
  "hex_digit k = (if k < 10 then char_of (48 + k) else char_of (87 + k))"

definition hex_text :: "nat \<Rightarrow> string" where
  "hex_text n = (if n < 16 then [hex_digit n] else [hex_digit (n div 16), hex_digit (n mod 16)])"

definition debug_char :: "byte \<Rightarrow> string" where
  "debug_char b =
     (let n = unat b; bs = char_of (92 :: nat); q = char_of (39 :: nat) in
      [q] @
      (if n = 0 then [bs, CHR ''0''] else if n = 9 then [bs, CHR ''t''] else if n = 13 then [bs, CHR ''r'']
       else if n = 10 then [bs, CHR ''n''] else if n = 39 then [bs, q] else if n = 92 then [bs, bs]
       else if n < 32 \<or> 127 \<le> n \<and> n \<le> 160 \<or> n = 173 then [bs] @ ''u{'' @ hex_text n @ ''}''
       else [char_of n]) @ [q])"

lemma read_line_less:
  assumes "read_line r = (Inr (Some line), r')"
  shows "length (in_bytes r') < length (in_bytes r)"
proof -
  have "in_bytes r \<noteq> []"
    using assms by (cases "in_fault r") (auto simp: read_line_def at_end_def)
  moreover have "in_bytes r' = drop (length (takeWhile (\<lambda>b. b \<noteq> 0x0A) (in_bytes r)) + 1) (in_bytes r)"
    using assms by (auto simp: read_line_def Let_def split: if_splits)
  ultimately show ?thesis by simp
qed

lemma read_bulk_le: "read_bulk len r = (x, r') \<Longrightarrow> length (in_bytes r') \<le> length (in_bytes r)"
  by (auto simp: read_bulk_def Let_def split: if_splits)

lemma read_line_le: "read_line r = (x, r') \<Longrightarrow> length (in_bytes r') \<le> length (in_bytes r)"
  by (auto simp: read_line_def Let_def split: if_splits)

text \<open>
  A reply may hold replies. The reader of an array calls the reader of a reply on what is left of the
  stream, which is never more than before.
\<close>

function (sequential) read_reply :: "instream \<Rightarrow> reply res \<times> instream"
  and read_replies :: "nat \<Rightarrow> reply list \<Rightarrow> instream \<Rightarrow> reply list res \<times> instream" where
  "read_reply r = (case read_line r of
      (Inl e, r1) \<Rightarrow> (Inl e, r1)
    | (Inr None, r1) \<Rightarrow> (Inl (Io UnexpectedEof ''connection closed while waiting for a reply''), r1)
    | (Inr (Some line), r1) \<Rightarrow>
        if line = [] then (Inl (invalid_data ''empty line where a reply was expected''), r1)
        else if hd line = 0x2B then (map_sum id Simple (text_of (tl line)), r1)
        else if hd line = 0x2D then (map_sum id ErrorReply (text_of (tl line)), r1)
        else if hd line = 0x3A then (case text_of (tl line) of
            Inl e \<Rightarrow> (Inl e, r1)
          | Inr t \<Rightarrow> (case parse_i64 t of
                None \<Rightarrow> (Inl (invalid_data ''integer reply is not a number''), r1)
              | Some n \<Rightarrow> (Inr (Integer n), r1)))
        else if hd line = 0x24 then (case parse_len (tl line) MAX_BULK_LEN of
            Inl e \<Rightarrow> (Inl e, r1)
          | Inr None \<Rightarrow> (Inr Null, r1)
          | Inr (Some len) \<Rightarrow> (case read_bulk len r1 of (x, r2) \<Rightarrow> (map_sum id Bulk x, r2)))
        else if hd line = 0x2A then (case parse_len (tl line) MAX_ARRAY_LEN of
            Inl e \<Rightarrow> (Inl e, r1)
          | Inr None \<Rightarrow> (Inr Null, r1)
          | Inr (Some count) \<Rightarrow> (case read_replies count [] r1 of
                (Inl e, r2) \<Rightarrow> (Inl e, r2)
              | (Inr items, r2) \<Rightarrow> (Inr (Array items), r2)))
        else (Inl (invalid_data (''unknown reply type '' @ debug_char (hd line))), r1))"
| "read_replies 0 items r = (Inr items, r)"
| "read_replies (Suc n) items r = (case read_reply r of
      (Inl e, r1) \<Rightarrow> (Inl e, r1)
    | (Inr x, r1) \<Rightarrow> read_replies n (items @ [x]) r1)"
  by pat_completeness auto

termination
proof -
  have le: "read_reply_read_replies_dom (Inl r) \<Longrightarrow> read_reply r = (x, r') \<Longrightarrow>
       length (in_bytes r') \<le> length (in_bytes r)"
    "read_reply_read_replies_dom (Inr (n, items, r)) \<Longrightarrow> read_replies n items r = (y, r') \<Longrightarrow>
       length (in_bytes r') \<le> length (in_bytes r)" for r x r' n items y
  proof (induction r and n items r arbitrary: x r' and y r' rule: read_reply_read_replies.pinduct)
    case (1 r)
    obtain a r1 where l: "read_line r = (a, r1)" by fastforce
    have items: "length (in_bytes r2) \<le> length (in_bytes r1)"
      if "a = Inr (Some line)" "line \<noteq> []" "hd line = 0x2A"
        "parse_len (tl line) MAX_ARRAY_LEN = Inr (Some count)" "read_replies count [] r1 = (y, r2)" for line count y r2
      using 1(2) [OF l [symmetric] that(1) refl that(2)] that by simp
    have "length (in_bytes r') \<le> length (in_bytes r1)"
      using 1(1,3) l items read_bulk_le
      by (fastforce simp: read_reply.psimps split: if_splits sum.splits option.splits prod.splits)
    with read_line_le [OF l] show ?case by simp
  next
    case (2 items r)
    then show ?case by (simp add: read_replies.psimps)
  next
    case (3 n items r)
    obtain a r1 where l: "read_reply r = (a, r1)" by fastforce
    have le: "length (in_bytes r1) \<le> length (in_bytes r)" using 3(2) [OF l] .
    show ?case
    proof (cases a)
      case (Inl e)
      with 3(1,4) l le show ?thesis by (simp add: read_replies.psimps)
    next
      case (Inr v)
      with 3(1,4) l have "read_replies n (items @ [v]) r1 = (y, r')" by (simp add: read_replies.psimps)
      with 3(3) [OF l [symmetric] Inr] le show ?thesis by fastforce
    qed
  qed
  show ?thesis
  proof (relation "measures [\<lambda>x. case x of Inl r \<Rightarrow> length (in_bytes r) | Inr (n, items, r) \<Rightarrow> length (in_bytes r),
      \<lambda>x. case x of Inl r \<Rightarrow> 0 | Inr (n, items, r) \<Rightarrow> Suc n]", goal_cases)
    case 1
    then show ?case by simp
  next
    case (2 r x r1 line)
    then show ?case by (auto dest: read_line_less [OF sym])
  next
    case (3 n items r)
    then show ?case by simp
  next
    case (4 n items r x r1)
    then show ?case by (auto dest: le(1) [OF _ sym] simp: le_less)
  qed
qed

declare read_reply.simps [simp del]

section \<open>Text round trips\<close>

definition digit_byte :: "byte \<Rightarrow> bool" where
  "digit_byte b \<longleftrightarrow> 48 \<le> unat b \<and> unat b \<le> 57"

lemma byte_char_ascii [simp]: "map byte_char (ascii s) = s"
proof -
  have "byte_char (word_of_nat (of_char c)) = c" for c :: char
    by (simp add: byte_char_def unat_byte_of_nat)
  then show ?thesis by (simp add: ascii_def map_idI)
qed

lemma ascii_append [simp]: "ascii (s @ t) = ascii s @ ascii t"
  by (simp add: ascii_def)

lemma nat_text_digits: "list_all digit_byte (nat_text n)"
proof -
  have "digit_byte (word_of_nat (of_char c))" if "is_digit c" for c
    using that by (simp add: digit_byte_def is_digit_def unat_byte_of_nat)
  with dec_digits_digits [of n] show ?thesis
    by (auto simp: nat_text_def ascii_def list_all_iff)
qed

lemma nat_text_not_Nil [simp]: "nat_text n \<noteq> []"
  by (simp add: nat_text_def ascii_def dec_digits_not_Nil)

lemma digit_byte_not [simp]:
  "\<not> digit_byte 0x0A" "\<not> digit_byte 0x0D" "\<not> digit_byte 0x2B" "\<not> digit_byte 0x2D"
  by (simp_all add: digit_byte_def)

lemma digit_byte_less: "digit_byte b \<Longrightarrow> unat b < 0x80"
  by (simp add: digit_byte_def)

lemma nat_text_mem: "b \<in> set (nat_text n) \<Longrightarrow> digit_byte b"
  using nat_text_digits [of n] by (simp add: list_all_iff)

lemma nat_text_less: "b \<in> set (nat_text n) \<Longrightarrow> unat b < 0x80"
  by (blast dest: nat_text_mem digit_byte_less)

lemma nat_text_no_eol [simp]: "0x0A \<notin> set (nat_text n)" "0x0D \<notin> set (nat_text n)"
  using nat_text_mem digit_byte_not by blast+

lemma utf8_ok_ascii: "list_all (\<lambda>b. unat b < 0x80) bs \<Longrightarrow> utf8_ok bs"
proof (induction bs)
  case Nil
  then show ?case by (simp add: utf8_ok.simps)
next
  case (Cons b bs)
  then show ?case
    by (subst utf8_ok.simps) (simp add: utf8_head_def char_width_def Let_def case_prod_beta)
qed

lemma text_of_digits: "list_all digit_byte bs \<Longrightarrow> text_of bs = Inr bs"
  by (auto simp: text_of_def list_all_iff digit_byte_less intro!: utf8_ok_ascii)

lemma parse_i64_digits:
  assumes "list_all digit_byte bs" and "bs \<noteq> []"
  shows "parse_i64 bs = (let n = parse_digits (map byte_char bs) in if n < 2 ^ 63 then Some (int n) else None)"
proof -
  have "hd bs \<notin> {0x2B, 0x2D}"
    using assms by (cases bs) auto
  moreover have "list_all is_digit (map byte_char bs)"
    using assms(1) by (auto simp: list_all_iff is_digit_def byte_char_def digit_byte_def)
  moreover have "int n < 2 ^ 63 \<longleftrightarrow> n < 2 ^ 63" for n
    by (metis of_nat_less_iff of_nat_numeral of_nat_power)
  moreover have "- (2 ^ 63) \<le> int n" for n
    by (rule order_trans [of _ 0]) auto
  ultimately show ?thesis using assms(2) by (auto simp: parse_i64_def Let_def)
qed

lemma parse_nat_text: "parse_digits (map byte_char (nat_text n)) = n"
  by (simp add: nat_text_def parse_dec_digits)

lemma parse_int_text:
  assumes "- (2 ^ 63) \<le> n" and "n < 2 ^ 63"
  shows "parse_i64 (int_text n) = Some n"
proof (cases "n < 0")
  case True
  have "list_all is_digit (map byte_char (nat_text (nat (- n))))"
    by (simp add: nat_text_def dec_digits_digits)
  with True assms show ?thesis
    by (simp add: int_text_def parse_i64_def parse_nat_text Let_def)
next
  case False
  then have "nat n < 2 ^ 63" using assms by simp
  with False show ?thesis
    by (simp add: int_text_def parse_i64_digits nat_text_digits parse_nat_text Let_def)
qed

lemma int_text_plain: "b \<in> set (int_text n) \<Longrightarrow> unat b < 0x80 \<and> b \<noteq> 0x0A \<and> b \<noteq> 0x0D"
  by (auto simp: int_text_def nat_text_less split: if_splits)

lemma int_text_no_lf [simp]: "0x0A \<notin> set (int_text n)"
  using int_text_plain by blast

lemma text_of_int_text: "text_of (int_text n) = Inr (int_text n)"
  using int_text_plain by (auto simp: text_of_def list_all_iff intro!: utf8_ok_ascii)

lemma parse_len_nat_text:
  "n \<le> limit \<Longrightarrow> n < 2 ^ 63 \<Longrightarrow> parse_len (nat_text n) limit = Inr (Some n)"
  by (simp add: parse_len_def text_of_digits nat_text_digits parse_i64_digits parse_nat_text Let_def)

lemma read_line_crlf:
  assumes "0x0A \<notin> set line"
  shows "read_line (r\<lparr> in_bytes := line @ crlf @ rest \<rparr>) = (Inr (Some line), r\<lparr> in_bytes := rest \<rparr>)"
proof -
  have "takeWhile (\<lambda>b. b \<noteq> 0x0A) (line @ crlf @ rest) = line @ [0x0D]"
    using assms by (auto simp: crlf_def takeWhile_append)
  then show ?thesis by (simp add: read_line_def strip_cr_def Let_def crlf_def)
qed

lemma read_bulk_crlf:
  "len = length bs \<Longrightarrow> read_bulk len (r\<lparr> in_bytes := bs @ crlf @ rest \<rparr>) = (Inr bs, r\<lparr> in_bytes := rest \<rparr>)"
  by (simp add: read_bulk_def crlf_def Let_def)

section \<open>Streams of encoded values\<close>

text \<open>Reading a number of values one after the other.\<close>

fun read_seq :: "(instream \<Rightarrow> 'b res \<times> instream) \<Rightarrow> nat \<Rightarrow> instream \<Rightarrow> 'b list res \<times> instream" where
  "read_seq rd 0 r = (Inr [], r)"
| "read_seq rd (Suc n) r = (case rd r of
      (Inl e, r) \<Rightarrow> (Inl e, r)
    | (Inr x, r) \<Rightarrow> (case read_seq rd n r of (Inl e, r) \<Rightarrow> (Inl e, r) | (Inr xs, r) \<Rightarrow> (Inr (x # xs), r)))"

locale stream_codec =
  fixes enc :: "'a \<Rightarrow> bytes" and rd :: "instream \<Rightarrow> 'b res \<times> instream" and val :: "'a \<Rightarrow> 'b"
    and fits :: "'a \<Rightarrow> bool"
  assumes rd_enc: "fits x \<Longrightarrow> rd (r\<lparr> in_bytes := enc x @ rest \<rparr>) = (Inr (val x), r\<lparr> in_bytes := rest \<rparr>)"
begin

lemma read_seq_enc:
  "list_all fits xs \<Longrightarrow> read_seq rd (length xs) (r\<lparr> in_bytes := concat (map enc xs) @ rest \<rparr>) =
     (Inr (map val xs), r\<lparr> in_bytes := rest \<rparr>)"
  by (induction xs) (simp_all add: rd_enc)

end

section \<open>Replies\<close>

text \<open>A reply that the format can carry: text without a line feed, lengths and integers in range.\<close>

fun reply_fits :: "reply \<Rightarrow> bool" where
  "reply_fits (Simple s) \<longleftrightarrow> utf8_ok s \<and> 0x0A \<notin> set s"
| "reply_fits (ErrorReply s) \<longleftrightarrow> utf8_ok s \<and> 0x0A \<notin> set s"
| "reply_fits (Integer n) \<longleftrightarrow> - (2 ^ 63) \<le> n \<and> n < 2 ^ 63"
| "reply_fits (Bulk bs) \<longleftrightarrow> length bs \<le> MAX_BULK_LEN"
| "reply_fits Null \<longleftrightarrow> True"
| "reply_fits (Array items) \<longleftrightarrow> length items \<le> MAX_ARRAY_LEN \<and> list_all reply_fits items"

lemma limits: "MAX_BULK_LEN < 2 ^ 63" "MAX_ARRAY_LEN < 2 ^ 63"
  by (simp_all add: MAX_BULK_LEN_def MAX_ARRAY_LEN_def)

lemma text_of_utf8: "utf8_ok s \<Longrightarrow> text_of s = Inr s"
  by (simp add: text_of_def)

lemma parse_len_bulk: "n \<le> MAX_BULK_LEN \<Longrightarrow> parse_len (nat_text n) MAX_BULK_LEN = Inr (Some n)"
  using limits by (simp add: parse_len_nat_text)

lemma parse_len_array: "n \<le> MAX_ARRAY_LEN \<Longrightarrow> parse_len (nat_text n) MAX_ARRAY_LEN = Inr (Some n)"
  using limits by (simp add: parse_len_nat_text)

lemma read_line_header:
  "b \<noteq> 0x0A \<Longrightarrow> 0x0A \<notin> set line \<Longrightarrow>
   read_line (r\<lparr> in_bytes := b # line @ crlf @ rest \<rparr>) = (Inr (Some (b # line)), r\<lparr> in_bytes := rest \<rparr>)"
  using read_line_crlf [of "b # line"] by simp

lemma parse_len_null: "parse_len (ascii ''-1'') limit = Inr None"
  by (simp add: parse_len_def text_of_def ascii_def utf8_ok.simps utf8_head_def char_width_def
      second_range_def parse_i64_def byte_char_def is_digit_def parse_digits_def digit_val_def Let_def)

lemma ascii_null: "ascii ''$-1'' = 0x24 # ascii ''-1''" "0x0A \<notin> set (ascii ''-1'')"
  by (simp_all add: ascii_def)

lemma read_reply_write_to:
  "reply_fits x \<Longrightarrow> read_reply (r\<lparr> in_bytes := write_to x @ rest \<rparr>) = (Inr x, r\<lparr> in_bytes := rest \<rparr>)"
proof (induction x arbitrary: rest)
  case (Array items)
  have "read_replies (length xs) acc (r\<lparr> in_bytes := concat (map write_to xs) @ rest \<rparr>) =
      (Inr (acc @ xs), r\<lparr> in_bytes := rest \<rparr>)" if "set xs \<subseteq> set items" for xs acc
    using that
  proof (induction xs arbitrary: acc)
    case (Cons y ys)
    then have "reply_fits y" using Array.prems by (auto simp: list_all_iff)
    then show ?case using Array.IH [of y "concat (map write_to ys) @ rest"] Cons by simp
  qed simp
  with Array.prems show ?case
    by (subst read_reply.simps) (simp add: read_line_header parse_len_array)
qed (subst read_reply.simps, simp add: read_line_header text_of_utf8 text_of_int_text parse_int_text
      parse_len_bulk read_bulk_crlf ascii_null parse_len_null)+

interpretation rc: stream_codec write_to read_reply "\<lambda>x. x" reply_fits
  by unfold_locales (rule read_reply_write_to)

text \<open>
  (C32) Replies round trip. Any number of replies written one after the other, to a client that then reads as
  many, arrive as they were, nested arrays and binary values included, and leave the stream where the
  next reply begins. A reply is carried faithfully if its text has no line feed and its sizes are
  within the limits of the protocol.
\<close>

theorem replies_round_trip:
  assumes "list_all reply_fits xs"
  shows "read_seq read_reply (length xs) \<lparr> in_bytes = concat (map write_to xs) @ rest, in_fault = f \<rparr> =
    (Inr xs, \<lparr> in_bytes = rest, in_fault = f \<rparr>)"
  using rc.read_seq_enc [OF assms, where r = "\<lparr> in_bytes = [], in_fault = f \<rparr>"] by simp

definition demo_replies :: "reply list" where
  "demo_replies = [Array [Integer (-7), Null, Array []], Bulk [0x0D, 0x0A, 0]]"

theorem replies_round_trip_witness:
  "list_all reply_fits demo_replies \<and>
   read_seq read_reply (length demo_replies)
      \<lparr> in_bytes = concat (map write_to demo_replies) @ [1], in_fault = None \<rparr> =
    (Inr demo_replies, \<lparr> in_bytes = [1], in_fault = None \<rparr>)"
proof -
  have "list_all reply_fits demo_replies"
    by (simp add: demo_replies_def MAX_ARRAY_LEN_def MAX_BULK_LEN_def)
  with replies_round_trip [OF this] show ?thesis by blast
qed

section \<open>Commands\<close>

text \<open>A client sends a command as an array of bulk strings.\<close>

definition command_bytes :: "bytes list \<Rightarrow> bytes" where
  "command_bytes args = write_to (Array (map Bulk args))"

definition command_fits :: "bytes list \<Rightarrow> bool" where
  "command_fits args \<longleftrightarrow> length args \<le> MAX_ARRAY_LEN \<and> list_all (\<lambda>a. length a \<le> MAX_BULK_LEN) args"

abbreviation arg_bytes :: "bytes list \<Rightarrow> bytes" where
  "arg_bytes args \<equiv> concat (map (\<lambda>a. write_to (Bulk a)) args)"

lemma command_bytes_eq: "command_bytes args = 0x2A # nat_text (length args) @ crlf @ arg_bytes args"
  by (simp add: command_bytes_def comp_def)

lemma read_args_enc:
  "list_all (\<lambda>a. length a \<le> MAX_BULK_LEN) args \<Longrightarrow>
   read_args (length args) acc (r\<lparr> in_bytes := arg_bytes args @ rest \<rparr>) =
     (Inr (acc @ args), r\<lparr> in_bytes := rest \<rparr>)"
  by (induction args arbitrary: acc) (simp_all add: read_line_header parse_len_bulk read_bulk_crlf)

lemma read_command_enc:
  "command_fits args \<Longrightarrow>
   read_command (r\<lparr> in_bytes := command_bytes args @ rest \<rparr>) = (Inr (Some args), r\<lparr> in_bytes := rest \<rparr>)"
  by (simp add: read_command_def command_bytes_eq command_fits_def read_line_header parse_len_array
      read_args_enc del: write_to.simps)

interpretation cc: stream_codec command_bytes read_command Some command_fits
  by unfold_locales (rule read_command_enc)

text \<open>
  Commands round trip. Commands sent one after the other, as arrays of bulk strings, are read back
  argument by argument, whatever bytes they hold, and the reader stops exactly where each one ends.
\<close>

theorem commands_round_trip:
  assumes "list_all command_fits cs"
  shows "read_seq read_command (length cs) \<lparr> in_bytes = concat (map command_bytes cs) @ rest, in_fault = f \<rparr> =
    (Inr (map Some cs), \<lparr> in_bytes = rest, in_fault = f \<rparr>)"
  using cc.read_seq_enc [OF assms, where r = "\<lparr> in_bytes = [], in_fault = f \<rparr>"] by simp

definition demo_command :: "bytes list" where
  "demo_command = [ascii ''SET'', [0x0D, 0x0A, 0xFF], []]"

lemma demo_command_fits: "command_fits demo_command"
  by (simp add: demo_command_def command_fits_def ascii_def MAX_ARRAY_LEN_def MAX_BULK_LEN_def)

theorem commands_round_trip_witness:
  "list_all command_fits [demo_command, [ascii ''PING'']] \<and>
   read_seq read_command 2 \<lparr> in_bytes = command_bytes demo_command @ command_bytes [ascii ''PING''],
      in_fault = None \<rparr> =
    (Inr [Some demo_command, Some [ascii ''PING'']], \<lparr> in_bytes = [], in_fault = None \<rparr>)"
proof -
  have "list_all command_fits [demo_command, [ascii ''PING'']]"
    by (simp add: demo_command_fits)
      (simp add: command_fits_def ascii_def MAX_ARRAY_LEN_def MAX_BULK_LEN_def)
  with commands_round_trip [OF this, of "[]" None] show ?thesis
    by (simp add: numeral_2_eq_2 del: read_seq.simps)
qed

section \<open>Commands cut short\<close>

text \<open>A line that is cut before its line feed is read without what its end lost.\<close>

lemma read_line_last:
  assumes "bs \<noteq> []" and "0x0A \<notin> set bs"
  shows "read_line \<lparr> in_bytes = bs, in_fault = None \<rparr> =
    (Inr (Some (strip_cr bs)), \<lparr> in_bytes = [], in_fault = None \<rparr>)"
proof -
  have "takeWhile (\<lambda>b. b \<noteq> 0x0A) bs = bs" using assms(2) by (auto simp: takeWhile_eq_all_conv)
  with assms(1) show ?thesis by (simp add: read_line_def Let_def at_end_def del: takeWhile_eq_all_conv)
qed

lemma read_line_cut:
  assumes "0x0A \<notin> set line" and "k < length line + 2" and "0 < k" and "0x0D \<notin> set line" and "line \<noteq> []"
  shows "read_line \<lparr> in_bytes = take k (line @ crlf @ rest), in_fault = None \<rparr> =
    (Inr (Some (take k line)), \<lparr> in_bytes = [], in_fault = None \<rparr>)"
proof (cases "k \<le> length line")
  case True
  have "take k line \<noteq> []" using assms(3,5) by simp
  then have "last (take k line) \<noteq> 0x0D" using assms(4) by (metis in_set_takeD last_in_set)
  with True read_line_last [OF \<open>take k line \<noteq> []\<close>] assms(1) show ?thesis
    by (auto simp: strip_cr_def dest: in_set_takeD)
next
  case False
  then have "take k (line @ crlf @ rest) = line @ [0x0D]" using assms(2) by (auto simp: crlf_def take_Cons')
  with False read_line_last [of "line @ [0x0D]"] assms(1) show ?thesis by (simp add: strip_cr_def)
qed

lemma read_args_empty: "0 < n \<Longrightarrow> \<exists>e. read_args n acc \<lparr> in_bytes = [], in_fault = None \<rparr> = (Inl e, \<lparr> in_bytes = [], in_fault = None \<rparr>)"
  by (cases n) (simp_all add: read_line_def at_end_def)

lemma read_bulk_short:
  "length bs < len + 2 \<Longrightarrow> read_bulk len \<lparr> in_bytes = bs, in_fault = None \<rparr> =
     (Inl eof_error, \<lparr> in_bytes = [], in_fault = None \<rparr>)"
  by (simp add: read_bulk_def at_end_def)

lemma read_args_cut:
  assumes "list_all (\<lambda>a. length a \<le> MAX_BULK_LEN) args" and "k < length (arg_bytes args)"
  shows "\<exists>e r. read_args (length args) acc \<lparr> in_bytes = take k (arg_bytes args), in_fault = None \<rparr> = (Inl e, r)"
  using assms
proof (induction args arbitrary: acc k)
  case Nil
  then show ?case by simp
next
  case (Cons a args)
  define line where "line = 0x24 # nat_text (length a)"
  have line: "0x0A \<notin> set line" "0x0D \<notin> set line" "line \<noteq> []" "hd line = 0x24" "tl line = nat_text (length a)"
    by (simp_all add: line_def)
  have bs: "arg_bytes (a # args) = line @ crlf @ a @ crlf @ arg_bytes args" by (simp add: line_def)
  consider "k = 0" | "0 < k" "k < length line + 2" | "length line + 2 \<le> k" by linarith
  then show ?case
  proof cases
    case 1
    then show ?thesis by (simp add: read_line_def at_end_def)
  next
    case 2
    have "take k line \<noteq> []" "hd (take k line) = 0x24" using 2(1) line by (auto simp: line_def take_Cons')
    with read_line_cut [OF line(1) 2(2,1) line(2,3), of "a @ crlf @ arg_bytes args"] show ?thesis
      unfolding bs by (auto simp: read_bulk_short split: sum.split option.split)
  next
    case 3
    then obtain j where j: "k = length line + 2 + j" using le_Suc_ex by blast
    have t: "take k (arg_bytes (a # args)) = line @ crlf @ take j (a @ crlf @ arg_bytes args)"
      unfolding bs j by (simp add: crlf_def)
    have rl: "read_line \<lparr> in_bytes = take k (arg_bytes (a # args)), in_fault = None \<rparr> =
        (Inr (Some line), \<lparr> in_bytes = take j (a @ crlf @ arg_bytes args), in_fault = None \<rparr>)"
      unfolding t using read_line_crlf [OF line(1), where r = "\<lparr> in_bytes = [], in_fault = None \<rparr>"] by simp
    show ?thesis
    proof (cases "j < length a + 2")
      case True
      then show ?thesis using rl line Cons.prems(1)
        by (simp add: parse_len_bulk read_bulk_short crlf_def)
    next
      case False
      then obtain i where i: "j = length a + 2 + i" using le_Suc_ex not_less by blast
      have "take j (a @ crlf @ arg_bytes args) = a @ crlf @ take i (arg_bytes args)"
        unfolding i by (simp add: crlf_def)
      moreover have "i < length (arg_bytes args)"
        using Cons.prems(2) unfolding bs j i by (simp add: crlf_def)
      ultimately show ?thesis
        using rl line Cons read_bulk_crlf [where r = "\<lparr> in_bytes = [], in_fault = None \<rparr>"]
        by (simp add: parse_len_bulk)
    qed
  qed
qed

lemma parse_digits_foldl: "foldl (\<lambda>n c. 10 * n + digit_val c) m s \<ge> m"
proof (induction s arbitrary: m)
  case (Cons c s)
  have "m \<le> 10 * m + digit_val c" by simp
  also have "\<dots> \<le> foldl (\<lambda>n c. 10 * n + digit_val c) (10 * m + digit_val c) s" by (rule Cons)
  finally show ?case by simp
qed simp

lemma dec_digits_hd: "0 < n \<Longrightarrow> 0 < digit_val (hd (dec_digits n))"
proof (induction n rule: dec_digits.induct)
  case (1 n)
  then show ?case
    by (subst dec_digits.simps) (auto simp: dec_digits_not_Nil digit_val_def digit_char_def)
qed

lemma parse_digits_take: "0 < n \<Longrightarrow> 0 < j \<Longrightarrow> 0 < parse_digits (take j (dec_digits n))"
  using dec_digits_hd [of n] dec_digits_not_Nil [of n]
    parse_digits_foldl [of "digit_val (hd (dec_digits n))" "take (j - 1) (tl (dec_digits n))"]
  by (cases "dec_digits n"; cases j) (auto simp: parse_digits_def)

lemma parse_len_cut:
  assumes "0 < n" and "parse_len (take j (nat_text n)) limit = Inr x"
  shows "\<exists>m>0. x = Some m"
proof (cases "j = 0")
  case True
  with assms(2) show ?thesis by (simp add: parse_len_def text_of_digits parse_i64_def)
next
  case False
  have d: "list_all digit_byte (take j (nat_text n))"
    using nat_text_digits [of n] by (auto simp: list_all_iff dest: in_set_takeD)
  have m: "map byte_char (take j (nat_text n)) = take j (dec_digits n)"
    by (metis take_map nat_text_def byte_char_ascii)
  have "take j (nat_text n) \<noteq> []" using False by simp
  with assms d parse_digits_take [OF assms(1), of j] False show ?thesis
    by (auto simp: parse_len_def text_of_digits parse_i64_digits m Let_def split: if_splits)
qed



end
