(* ===== verification/StoreHistory.thy ===== *)
theory StoreHistory
  imports StoreProps
begin

text \<open>
  How the history of a store and its durable part move as it is written to. Histories only grow: records
  are added to the newest file or to newer ones. The point up to which the disk is known to have them
  (\<open>synced_point\<close>) only moves forward. A power cut keeps every record up to that point. The clients that
  defer syncing, the server's group commit first, rest on these facts.
\<close>

section \<open>Growing histories\<close>

definition holds :: "bool \<Rightarrow> store \<Rightarrow> hist \<Rightarrow> bool" where
  "holds b s G \<longleftrightarrow> (\<exists>L i rs. store_repr b s L i rs \<and> G = L @ [(i, rs)])"

definition hist_grows :: "hist \<Rightarrow> hist \<Rightarrow> bool" where
  "hist_grows G G' \<longleftrightarrow> (\<exists>L i rs ks M. G = L @ [(i, rs)] \<and> G' = L @ (i, rs @ ks) # M)"

lemma holdsI: "store_repr b s L i rs \<Longrightarrow> holds b s (L @ [(i, rs)])"
  by (auto simp: holds_def)

lemma holds_log: "holds b s G \<Longrightarrow> store_log b s (hist_recs G)"
  unfolding holds_def store_log_def by blast

lemma hist_grows_refl: "L \<noteq> [] \<Longrightarrow> hist_grows L L"
  unfolding hist_grows_def
  by (intro exI [of _ "butlast L"] exI [of _ "fst (last L)"] exI [of _ "snd (last L)"] exI [of _ "[]"]) simp

lemma hist_grows_add: "hist_grows (L @ [(i, rs)]) (L @ [(i, rs @ ks)])"
  unfolding hist_grows_def by blast

lemma hist_grows_new: "hist_grows (L @ [(i, rs)]) (L @ [(i, rs), (k, ks)])"
  unfolding hist_grows_def
  by (intro exI [of _ L] exI [of _ i] exI [of _ rs] exI [of _ "[]"] exI [of _ "[(k, ks)]"]) simp

lemma hist_grows_trans:
  assumes "hist_grows G1 G2" and "hist_grows G2 G3"
  shows "hist_grows G1 G3"
proof -
  obtain L i rs ks M where 1: "G1 = L @ [(i, rs)]" "G2 = L @ (i, rs @ ks) # M"
    using assms(1) by (auto simp: hist_grows_def)
  obtain L' j js ls N where 2: "G2 = L' @ [(j, js)]" "G3 = L' @ (j, js @ ls) # N"
    using assms(2) by (auto simp: hist_grows_def)
  show ?thesis
  proof (cases M rule: rev_cases)
    case Nil
    with 1(2) 2 have "G3 = L @ (i, rs @ ks @ ls) # N" by simp
    with 1(1) show ?thesis unfolding hist_grows_def by blast
  next
    case (snoc M' m)
    with 1(2) 2 have "G3 = L @ (i, rs @ ks) # (M' @ (j, js @ ls) # N)" by simp
    with 1(1) show ?thesis unfolding hist_grows_def by blast
  qed
qed

lemma hist_grows_recs: "hist_grows G G' \<Longrightarrow> \<exists>E. hist_recs G' = hist_recs G @ E"
  by (auto simp: hist_grows_def hist_recs_def)

lemma rolled_grows: "rolled L i rs L' i' rs' \<Longrightarrow> hist_grows (L @ [(i, rs)]) (L' @ [(i', rs' @ ks)])"
  unfolding rolled_def by (auto intro: hist_grows_add hist_grows_new)

section \<open>How far the bytes have got\<close>

text \<open>
  Four points in the files of a store: the end of what was appended (\<^verbatim>\<open>append_point\<close>), of what the kernel has,
  of what the disk has, and of what the store knows the disk to have. A point names a file and an offset
  in it, and the newest file has the largest name, so points are compared as pairs.
\<close>

definition synced_point :: "store \<Rightarrow> nat \<times> nat" where
  "synced_point s = (lw_file_id (st_writer s), lw_synced (st_writer s))"

definition written_point :: "store \<Rightarrow> nat \<times> nat" where
  "written_point s = (lw_file_id (st_writer s), lw_written (st_writer s))"

definition disk_point :: "store \<Rightarrow> nat \<times> nat" where
  "disk_point s = (lw_file_id (st_writer s), synced_of (st_fs s) (lw_name (st_writer s)))"

definition marks :: "store \<Rightarrow> (nat \<times> nat) list" where
  "marks s = [synced_point s, written_point s, disk_point s, append_point s]"

abbreviation marks_le :: "(nat \<times> nat) list \<Rightarrow> (nat \<times> nat) list \<Rightarrow> bool" where
  "marks_le \<equiv> list_all2 (\<le>)"

lemma marks_le_trans: "marks_le a b \<Longrightarrow> marks_le b c \<Longrightarrow> marks_le a c"
  by (rule list_all2_trans [of "(\<le>)" "(\<le>)" "(\<le>)"]) auto

lemma marks_le_refl [simp]: "marks_le a a"
  by (simp add: list_all2_refl)

text \<open>A writer whose counters make sense, and what a call to it may do to them.\<close>

definition lw_sane :: "log_writer \<Rightarrow> fs \<Rightarrow> bool" where
  "lw_sane w d \<longleftrightarrow> lw_synced w \<le> lw_offset w \<and> lw_written w \<le> lw_offset w \<and>
     (\<forall>f. fs_file d (lw_name w) = Some f \<longrightarrow> fsynced f \<le> length (fdata f))"

definition lw_moved :: "log_writer \<Rightarrow> fs \<Rightarrow> log_writer \<Rightarrow> fs \<Rightarrow> bool" where
  "lw_moved w d w' d' \<longleftrightarrow> lw_sane w' d' \<and> lw_file_id w' = lw_file_id w \<and> lw_synced w \<le> lw_synced w' \<and>
     lw_written w \<le> lw_written w' \<and> lw_offset w \<le> lw_offset w' \<and>
     synced_of d (lw_name w) \<le> synced_of d' (lw_name w)"

lemma lw_moved_trans: "lw_moved w d w1 d1 \<Longrightarrow> lw_moved w1 d1 w2 d2 \<Longrightarrow> lw_moved w d w2 d2"
  by (auto simp: lw_moved_def)

lemma holds_sane: "holds True s G \<Longrightarrow> lw_sane (st_writer s) (st_fs s)"
  by (fastforce simp: holds_def store_repr_def log_holds_def lw_sane_def)

lemma write_all_moves:
  assumes "fs_write_all (lw_name w) bs d = (r, d')" and "lw_sane w d"
  shows "lw_sane w d' \<and> synced_of d (lw_name w) \<le> synced_of d' (lw_name w)"
  using assms
  by (auto simp: fs_write_all_def fs_append_def lw_sane_def fs_file_def split: list.splits option.splits)
    (auto simp: fs_put_def split: if_splits)

lemma sync_moves:
  assumes "fs_sync (lw_name w) d = (r, d')" and "lw_sane w d"
  shows "lw_sane w d' \<and> synced_of d (lw_name w) \<le> synced_of d' (lw_name w)"
  using assms
  by (auto simp: fs_sync_def fs_with_def fs_op_def lw_sane_def split: list.splits option.splits)
    (auto simp: fs_file_def)

lemma log_flush_moves:
  assumes "log_flush w d = (r, w', d')" and "lw_sane w d"
  shows "lw_moved w d w' d'"
proof (cases "lw_pending w = []")
  case True
  with assms show ?thesis by (simp add: log_flush_def lw_moved_def)
next
  case False
  obtain x d1 where 1: "fs_write_all (lw_name w) (lw_pending w) d = (x, d1)" by fastforce
  note m = write_all_moves [OF 1 assms(2)]
  with assms 1 False show ?thesis
    by (cases x) (auto simp: log_flush_def lw_moved_def lw_sane_def)
qed

lemma log_sync_moves:
  assumes "log_sync w d = (r, w', d')" and "lw_sane w d"
  shows "lw_moved w d w' d'"
proof -
  obtain x w1 d1 where 1: "log_flush w d = (x, w1, d1)" by (metis prod_cases3)
  note m = log_flush_moves [OF 1 assms(2)]
  show ?thesis
  proof (cases x)
    case (Inl e)
    with 1 m assms(1) show ?thesis by (simp add: log_sync_def)
  next
    case (Inr u)
    obtain y d2 where 2: "fs_sync (lw_name w1) d1 = (y, d2)" by fastforce
    have "lw_sane w1 d1" using m by (simp add: lw_moved_def)
    from sync_moves [OF 2 this] 1 2 Inr m assms(1) show ?thesis
      by (cases y) (auto simp: log_sync_def lw_moved_def lw_sane_def)
  qed
qed

lemma log_append_moves:
  assumes "log_append w bs reach d = (r, w', d')" and sane: "lw_sane w d"
  shows "lw_moved w d w' d'"
proof (cases "reach \<noteq> ReachBuffer \<and> lw_pending w = []")
  case True
  obtain x d1 where 1: "fs_write_all (lw_name w) bs d = (x, d1)" by fastforce
  define v where "v = w\<lparr> lw_offset := lw_offset w + length bs, lw_written := lw_offset w + length bs \<rparr>"
  have v: "lw_moved w d v d1" "lw_moved w d w d1" "lw_sane v d1"
    using write_all_moves [OF 1 sane] sane by (auto simp: lw_moved_def lw_sane_def v_def)
  obtain y d2 where 2: "fs_sync (lw_name v) d1 = (y, d2)" by fastforce
  have app: "log_append w bs reach d = (case x of Inl e \<Rightarrow> (Inl e, w, d1)
      | Inr _ \<Rightarrow> if reach = ReachDisk then (case y of Inl e \<Rightarrow> (Inl e, v, d2)
          | Inr _ \<Rightarrow> (Inr (lw_offset w, as_u32 (length bs)), v\<lparr> lw_synced := lw_offset v \<rparr>, d2))
        else (Inr (lw_offset w, as_u32 (length bs)), v, d1))"
    unfolding log_append_def Let_def if_P [OF True] using 1 2 by (auto simp: v_def split: sum.split)
  from sync_moves [OF 2 v(3)] have "lw_moved v d1 v d2" "lw_moved v d1 (v\<lparr> lw_synced := lw_offset v \<rparr>) d2"
    using v(3) by (auto simp: lw_moved_def lw_sane_def)
  with v lw_moved_trans [OF v(1)] app assms(1) show ?thesis
    by (auto split: sum.splits if_splits)
next
  case False
  define v where "v = w\<lparr> lw_pending := lw_pending w @ bs, lw_offset := lw_offset w + length bs \<rparr>"
  have v: "lw_moved w d v d" "lw_sane v d"
    using sane by (auto simp: lw_moved_def lw_sane_def v_def)
  define m where "m = (case reach of
              ReachBuffer \<Rightarrow>
                if length (lw_pending v) < MAX_PENDING then (Inr (), v, d) else log_flush v d
            | ReachKernel \<Rightarrow> log_flush v d
            | ReachDisk \<Rightarrow> log_sync v d)"
  have "log_append w bs reach d = (case m of (Inl e, w, d) \<Rightarrow> (Inl e, w, d)
      | (Inr _, w', d) \<Rightarrow> (Inr (lw_offset w, as_u32 (length bs)), w', d))"
    unfolding log_append_def Let_def m_def v_def if_not_P [OF False] by (rule refl)
  with assms(1) obtain x where "m = (x, w', d')" by (cases m; cases "fst m") auto
  then have "lw_moved v d w' d'"
    using log_flush_moves [of v d x w' d'] log_sync_moves [of v d x w' d'] v
    by (cases reach) (auto simp: m_def lw_moved_def split: if_splits)
  with v(1) show ?thesis by (rule lw_moved_trans)
qed

lemma marks_moved:
  assumes "lw_moved (st_writer s) (st_fs s) (st_writer s') (st_fs s')"
  shows "marks_le (marks s) (marks s')"
  using assms
  by (auto simp: marks_def synced_point_def written_point_def disk_point_def append_point_def lw_moved_def
      less_eq_prod_def)

lemma marks_newer:
  assumes "lw_file_id (st_writer s) < lw_file_id (st_writer s')"
  shows "marks_le (marks s) (marks s')"
  using assms
  by (simp add: marks_def synced_point_def written_point_def disk_point_def append_point_def less_eq_prod_def)

lemma marks_cong: "st_writer s' = st_writer s \<Longrightarrow> st_fs s' = st_fs s \<Longrightarrow> marks s' = marks s"
  by (simp add: marks_def synced_point_def written_point_def disk_point_def append_point_def)

lemma roll_moves:
  assumes "roll_if_needed s n = (Inr u, s')" and "lw_sane (st_writer s) (st_fs s)" and "fs_ok (st_fs s)"
  shows "marks_le (marks s) (marks s') \<and> (s' = s \<or> lw_file_id (st_writer s) < lw_file_id (st_writer s'))"
proof -
  have opened: "lw_file_id w = i" if "log_writer_open i d = (Inr w, d')" for i d w d'
    using that by (auto simp: log_writer_open_def io_bind_def split: prod.splits sum.splits)
  obtain x w d where ls: "log_sync (st_writer s) (st_fs s) = (x, w, d)" by (metis prod_cases3)
  have w: "lw_file_id w = lw_file_id (st_writer s)"
    using log_sync_moves [OF ls assms(2)] by (simp add: lw_moved_def)
  have "s' = s \<or> lw_file_id (st_writer s) < lw_file_id (st_writer s')"
    using assms(1) ls w
    by (auto simp: roll_if_needed_def Let_def dest!: opened split: if_splits sum.splits prod.splits)
  then show ?thesis using marks_newer by auto
qed

text \<open>Every successful write leaves each of the four points where it was or further on.\<close>

lemma log_tail_moves:
  assumes roll: "roll_if_needed s n = (Inr u, s1)" and app: "log_append (st_writer s1) bs reach (st_fs s1) = (Inr y, w, d)"
    and s: "holds True s G" and s1: "holds True s1 G1" and s': "st_writer s' = w" "st_fs s' = d"
  shows "marks_le (marks s) (marks s')"
proof -
  have "fs_ok (st_fs s)" using s by (auto simp: holds_def store_repr_def)
  from roll_moves [OF roll holds_sane [OF s] this] have "marks_le (marks s) (marks s1)" by blast
  moreover have "marks_le (marks s1) (marks s')"
    using log_append_moves [OF app holds_sane [OF s1]] s' by (intro marks_moved) simp
  ultimately show ?thesis by (rule marks_le_trans)
qed

lemma unindex_writer [simp]: "st_writer (unindex k s) = st_writer s" "st_fs (unindex k s) = st_fs s"
  by (simp_all add: unindex_def split: option.split)

lemma put_with_moves:
  assumes "put_with s k v reach t1 t2 = (Inr u, s')" and s: "store_repr True s L i rs"
    and i: "lw_file_id (st_writer s) < u64_max"
  shows "marks_le (marks s) (marks s')"
proof -
  obtain bs where bs: "encode_record k (Some v) t1 = Inr bs"
    using assms(1) by (auto simp: put_with_def split: if_splits sum.splits)
  have i': "i < u64_max" using i store_reprD(4) [OF s] by simp
  obtain s1 L' i' rs' where 1: "roll_if_needed s (length bs) = (Inr (), s1)" "store_repr True s1 L' i' rs'"
    using roll_ok [OF s i', of "length bs"] by blast
  obtain y w d where 2: "log_append (st_writer s1) bs reach (st_fs s1) = (y, w, d)" by (metis prod_cases3)
  obtain z where "y = Inr z" and "st_writer s' = w" "st_fs s' = d"
    using assms(1) bs 1(1) 2 by (cases y) (auto simp: put_with_def Let_def split: if_splits)
  with log_tail_moves [OF 1(1) _ holdsI [OF s] holdsI [OF 1(2)]] 2 show ?thesis by blast
qed

lemma delete_with_moves:
  assumes "delete_with s k reach t1 t2 = (Inr u, s')" and s: "store_repr True s L i rs"
    and i: "lw_file_id (st_writer s) < u64_max"
  shows "marks_le (marks s) (marks s')"
proof (cases "map_of (st_keydir s) k = None")
  case True
  with assms(1) show ?thesis by (auto simp: delete_with_def split: if_splits)
next
  case False
  obtain bs where bs: "encode_record k None t1 = Inr bs"
    using assms(1) False by (auto simp: delete_with_def split: if_splits sum.splits)
  have i': "i < u64_max" using i store_reprD(4) [OF s] by simp
  obtain s1 L' i' rs' where 1: "roll_if_needed s (length bs) = (Inr (), s1)" "store_repr True s1 L' i' rs'"
    using roll_ok [OF s i', of "length bs"] by blast
  obtain y w d where 2: "log_append (st_writer s1) bs reach (st_fs s1) = (y, w, d)" by (metis prod_cases3)
  obtain z where "y = Inr z" and "st_writer s' = w" "st_fs s' = d"
    using assms(1) bs 1(1) 2 False by (cases y) (auto simp: delete_with_def Let_def split: if_splits)
  with log_tail_moves [OF 1(1) _ holdsI [OF s] holdsI [OF 1(2)]] 2 show ?thesis by blast
qed

section \<open>What a power cut keeps\<close>

definition point_of :: "hist \<Rightarrow> nat \<times> nat" where
  "point_of G = (fst (last G), length (recs_bytes (snd (last G))))"

lemma holds_point: "holds b s G \<Longrightarrow> append_point s = point_of G"
  using log_holds_offset by (fastforce simp: holds_def store_repr_def point_of_def append_point_def)

lemma power_cut_keeps:
  assumes s: "holds True s G'" and grows: "hist_grows G G'" and p: "point_of G \<le> synced_point s"
  shows "\<exists>s' E Z. store_open opts (fs_power_cut (st_fs s)) = (Inr s', st_fs s') \<and>
    store_log True s' (hist_recs G @ E) \<and> hist_recs G' = hist_recs G @ E @ Z \<and>
    \<not> st_restoring s' \<and> \<not> st_compacting s' \<and> is_synced s'"
proof -
  obtain L i rs where L: "store_repr True s L i rs" "G' = L @ [(i, rs)]" using s by (auto simp: holds_def)
  obtain L0 i0 rs0 ks M where G: "G = L0 @ [(i0, rs0)]" "G' = L0 @ (i0, rs0 @ ks) # M"
    using grows by (auto simp: hist_grows_def)
  obtain q z t where q: "rs = q @ z" "disk_repr True (fs_power_cut (st_fs s)) L i q t"
    "\<And>p' q'. rs = p' @ q' \<Longrightarrow> length (recs_bytes p') \<le> lw_synced (st_writer s) \<Longrightarrow> \<exists>z. q = p' @ z"
    using power_cut_disk [OF L(1)] by blast
  obtain s' where s': "store_open opts (fs_power_cut (st_fs s)) = (Inr s', st_fs s')" "store_repr True s' L i q"
    "\<not> st_restoring s'" "\<not> st_compacting s'" "is_synced s'"
    using store_open_repr [OF q(2), of opts] by blast
  have "\<exists>E. hist_recs (L @ [(i, q)]) = hist_recs G @ E"
  proof (cases M rule: rev_cases)
    case Nil
    with G(2) L(2) have e: "L = L0" "i = i0" "rs = rs0 @ ks" by simp_all
    have "length (recs_bytes rs0) \<le> lw_synced (st_writer s)"
      using p store_reprD(4) [OF L(1)] G(1) e(2) by (simp add: point_of_def synced_point_def less_eq_prod_def)
    with q(3) [OF e(3)] obtain z' where "q = rs0 @ z'" by blast
    with G(1) e show ?thesis by (simp add: hist_recs_def)
  next
    case (snoc M' m)
    with G(2) L(2) have "L = L0 @ (i0, rs0 @ ks) # M'" by simp
    with G(1) show ?thesis by (simp add: hist_recs_def)
  qed
  then obtain E where E: "hist_recs (L @ [(i, q)]) = hist_recs G @ E" by blast
  moreover have "hist_recs G' = hist_recs (L @ [(i, q)]) @ z" using L(2) q(1) by (simp add: hist_recs_def)
  ultimately have "store_log True s' (hist_recs G @ E)" "hist_recs G' = hist_recs G @ E @ z"
    using holds_log [OF holdsI [OF s'(2)]] by simp_all
  with s' show ?thesis by blast
qed

section \<open>Writes\<close>

text \<open>
  \<open>grown b opts G p s\<close>: the store is ready, its options are \<open>opts\<close>, its history has grown out of \<open>G\<close> and the
  bytes have got at least as far as \<open>p\<close>. The operations of the store keep it.
\<close>

definition grown :: "bool \<Rightarrow> options \<Rightarrow> hist \<Rightarrow> (nat \<times> nat) list \<Rightarrow> store \<Rightarrow> bool" where
  "grown b opts G p s \<longleftrightarrow> \<not> st_restoring s \<and> st_opts s = opts \<and>
     (\<exists>G'. holds b s G' \<and> hist_grows G G') \<and> (b \<longrightarrow> marks_le p (marks s))"

lemma grownI: "holds b s G \<Longrightarrow> \<not> st_restoring s \<Longrightarrow> grown b (st_opts s) G (marks s) s"
  by (auto simp: grown_def holds_def intro!: hist_grows_refl)

lemma grown_ready: "grown b opts G p s \<Longrightarrow> store_ready b s"
  using holds_log by (auto simp: grown_def store_ready_def)

lemma grown_step:
  assumes "grown b opts G p s" and "store_repr b s L i rs" and "rolled L i rs L' i' rs'"
    and "store_repr b s' L' i' (rs' @ ks)" and "same_mode s s'"
    and "b \<longrightarrow> marks_le (marks s) (marks s')" and "hist_grows G (L @ [(i, rs)])"
  shows "grown b opts G p s'"
  using assms holdsI [OF assms(4)] hist_grows_trans [OF assms(7) rolled_grows [OF assms(3), of ks]]
  by (auto simp: grown_def same_mode_def intro: marks_le_trans)

lemma grown_put:
  assumes g: "grown b opts G p s" and fits: "kv_fits k v" and room: "store_room s (put_cost k v + n)"
  shows "\<exists>s'. put_with s k v reach (tick1 c) (tick2 c) = (Inr (), s') \<and> grown b opts G p s' \<and>
    store_kv s' = (store_kv s)(k \<mapsto> v) \<and> store_room s' n"
proof -
  obtain L i rs where L: "store_repr b s L i rs" "hist_grows G (L @ [(i, rs)])" "\<not> st_restoring s"
    using g by (auto simp: grown_def holds_def)
  have room': "store_room s (length (rec_bytes (KRec k (Some v) (tick1 c))))"
    using room by (simp add: store_room_def cost_rec)
  obtain s' L' i' rs' where s': "put_with s k v reach (tick1 c) (tick2 c) = (Inr (), s')"
    "store_repr b s' L' i' (rs' @ [KRec k (Some v) (tick1 c)])" "rolled L i rs L' i' rs'" "same_mode s s'"
    using put_with_ok [OF L(1) kv_fits_small [OF fits, of "fst c"] _ room' L(3), of "tick2 c" reach] by auto
  have "marks_le (marks s) (marks s')" if b
    using put_with_moves [OF s'(1)] L(1) store_roomD(1) [OF room'] that by simp
  then have "grown b opts G p s'" using grown_step [OF g L(1) s'(3,2,4) _ L(2)] by blast
  with s'(1) put_with_law [OF grown_ready [OF g] fits room, of reach c] show ?thesis by auto
qed

lemma grown_delete:
  assumes g: "grown b opts G p s" and room: "store_room s (del_cost k + n)"
  shows "\<exists>s'. delete_with s k reach (tick1 c) (tick2 c) = (Inr (store_kv s k \<noteq> None), s') \<and>
    grown b opts G p s' \<and> store_kv s' = (store_kv s)(k := None) \<and> store_room s' n"
proof -
  obtain L i rs where L: "store_repr b s L i rs" "hist_grows G (L @ [(i, rs)])" "\<not> st_restoring s"
    using g by (auto simp: grown_def holds_def)
  note log = holds_log [OF holdsI [OF L(1)]]
  obtain s' where s': "delete_with s k reach (tick1 c) (tick2 c) = (Inr (store_kv s k \<noteq> None), s')"
    "store_kv s' = (store_kv s)(k := None)" "store_room s' n"
    using delete_with_law [OF grown_ready [OF g] room, of reach c] by blast
  have "grown b opts G p s'"
  proof (cases "map_of (st_keydir s) k")
    case None
    with s'(1) delete_with_absent [OF L(3)] g show ?thesis by simp
  next
    case (Some loc)
    then have mem: "map_of (st_keydir s) k \<noteq> None" by simp
    have small: "rec_small (KRec k None (tick1 c))"
      using store_log_mem [OF log] mem by simp
    have room': "store_room s (length (rec_bytes (KRec k None (tick1 c))))"
      using room by (simp add: store_room_def cost_rec)
    obtain L' i' rs' where "store_repr b s' L' i' (rs' @ [KRec k None (tick1 c)])" "rolled L i rs L' i' rs'"
      "same_mode s s'"
      using delete_with_ok [OF L(1) small _ room' L(3) mem, of "tick2 c" reach] s'(1) by auto
    moreover have "marks_le (marks s) (marks s')" if b
      using delete_with_moves [OF s'(1)] L(1) store_roomD(1) [OF room'] that by simp
    ultimately show ?thesis using grown_step [OF g L(1) _ _ _ _ L(2)] by blast
  qed
  with s' show ?thesis by blast
qed

section \<open>Syncing outside the lock\<close>

definition sync_file :: "nat \<Rightarrow> dfile \<Rightarrow> fs \<Rightarrow> fs" where
  "sync_file j f d = fs_put (data_file_name j) (f\<lparr> fsynced := length (fdata f) \<rparr>) d"

text \<open>Syncing any data file of the history changes nothing but what of it is on the disk.\<close>

lemma holds_sync_file:
  assumes "holds b s G" and "j \<in> set (adom G)"
  shows "\<exists>f. fs_file (st_fs s) (data_file_name j) = Some f \<and> holds b (s\<lparr> st_fs := sync_file j f (st_fs s) \<rparr>) G"
proof -
  obtain L i rs where L: "store_repr b s L i rs" "G = L @ [(i, rs)]" using assms(1) by (auto simp: holds_def)
  note D = store_reprD [OF L(1)]
  obtain f where f: "fs_file (st_fs s) (data_file_name j) = Some f" "fsynced f \<le> length (fdata f)"
    using assms(2) D(4,5,6) L(2) by (fastforce simp: sealed_holds_def log_holds_def)
  let ?d = "sync_file j f (st_fs s)"
  have fsd: "fs_file ?d n = (if n = data_file_name j then Some (f\<lparr> fsynced := length (fdata f) \<rparr>) else fs_file (st_fs s) n)" for n
    by (simp add: sync_file_def)
  have names: "dir_names ?d (set (adom L) \<union> {i})"
    using D(3) f(1) by (auto simp: dir_names_def fsd split: if_splits)
  have active: "log_holds b (st_writer s) ?d rs"
    using D(5) f by (fastforce simp: log_holds_def fsd split: if_splits)
  have sealed: "sealed_holds b ?d k ks" if "(k, ks) \<in> set L" for k ks
    using D(6) [OF that] f by (auto simp: sealed_holds_def fsd)
  have hints: "hint_true b ?d k ks" if "(k, ks) \<in> set (L @ [(i, rs)])" for k ks
    by (rule hint_true_frame_same [OF D(7) [OF that]]) (use f in \<open>auto simp: fsd\<close>)
  have "store_repr b (s\<lparr> st_fs := ?d \<rparr>) L i rs"
    unfolding store_repr_def using D names active sealed hints by (auto simp: sync_file_def)
  with f(1) L(2) show ?thesis by (auto simp: holds_def)
qed

lemma sync_file_marks:
  assumes "holds True s G" and "fs_file (st_fs s) (data_file_name j) = Some f"
  shows "marks_le (marks s) (marks (s\<lparr> st_fs := sync_file j f (st_fs s) \<rparr>))"
proof (rule marks_moved)
  show "lw_moved (st_writer s) (st_fs s) (st_writer (s\<lparr> st_fs := sync_file j f (st_fs s) \<rparr>))
      (st_fs (s\<lparr> st_fs := sync_file j f (st_fs s) \<rparr>))"
    using holds_sane [OF assms(1)] assms(2) by (auto simp: lw_moved_def lw_sane_def sync_file_def)
qed

text \<open>The fsync of a handle: the disk then has the handle's point, if the kernel had it before.\<close>

lemma sync_handle_sync_ok:
  assumes "holds True s G" and "fst q \<in> set (adom G)" and "q \<le> written_point s"
  shows "\<exists>d. sync_handle_sync (fst q, q) (st_fs s) = (Inr q, d) \<and> holds True (s\<lparr> st_fs := d \<rparr>) G \<and>
    marks_le (marks s) (marks (s\<lparr> st_fs := d \<rparr>)) \<and> q \<le> disk_point (s\<lparr> st_fs := d \<rparr>)"
proof -
  obtain f where f: "fs_file (st_fs s) (data_file_name (fst q)) = Some f"
    "holds True (s\<lparr> st_fs := sync_file (fst q) f (st_fs s) \<rparr>) G"
    using holds_sync_file [OF assms(1,2)] by blast
  let ?d = "sync_file (fst q) f (st_fs s)"
  have "faults (st_fs s) = []" using assms(1) by (auto simp: holds_def store_repr_def)
  then have "sync_handle_sync (fst q, q) (st_fs s) = (Inr q, ?d)"
    using f(1) by (simp add: sync_handle_sync_def fs_calls fs_simps sync_file_def)
  moreover have "q \<le> disk_point (s\<lparr> st_fs := ?d \<rparr>)"
  proof (cases "fst q = lw_file_id (st_writer s)")
    case True
    have "log_holds True (st_writer s) (st_fs s) (snd (last G))"
      using assms(1) by (auto simp: holds_def store_repr_def)
    then have "length (fdata f) = lw_written (st_writer s)" using f(1) True by (auto simp: log_holds_def)
    with True assms(3) show ?thesis
      by (simp add: disk_point_def written_point_def sync_file_def less_eq_prod_def)
  next
    case False
    with assms(3) show ?thesis by (auto simp: disk_point_def written_point_def less_eq_prod_def)
  qed
  ultimately show ?thesis using f(2) sync_file_marks [OF assms(1) f(1)] by blast
qed

text \<open>A handle is for the newest file and for everything in it, all of which the kernel has.\<close>

lemma sync_handle_ok:
  assumes "holds True s G"
  shows "\<exists>s'. sync_handle s = (Inr (fst (append_point s), append_point s), s') \<and> holds True s' G \<and>
    append_point s' = append_point s \<and> written_point s' = append_point s \<and> same_mode s s' \<and>
    marks_le (marks s) (marks s')"
proof -
  obtain L i rs where L: "store_repr True s L i rs" "G = L @ [(i, rs)]" using assms by (auto simp: holds_def)
  obtain w d where w: "log_flush (st_writer s) (st_fs s) = (Inr (), w, d)" "lw_file_id w = i" "lw_pending w = []"
    "lw_offset w = lw_offset (st_writer s)" "store_repr True (s\<lparr> st_writer := w, st_fs := d \<rparr>) L i rs"
    using store_flush_ok [OF L(1)] by blast
  let ?s = "s\<lparr> st_writer := w, st_fs := d \<rparr>"
  have "log_holds True w d rs" using store_reprD(5) [OF w(5)] by simp
  then have "lw_written w = lw_offset w" using w(3) by (auto simp: log_holds_def)
  moreover have "marks_le (marks s) (marks ?s)"
    using log_flush_moves [OF w(1) holds_sane [OF assms]] by (intro marks_moved) simp
  moreover have "i = lw_file_id (st_writer s)" using store_reprD(4) [OF L(1)] by simp
  ultimately show ?thesis
    using w L(2) by (auto simp: sync_handle_def Let_def append_point_def written_point_def same_mode_def holds_def)
qed

text \<open>Noting what was synced: right as long as the disk has it, and nothing at all for a file that is no
  longer the newest.\<close>

lemma note_synced_ok:
  assumes "holds True s G" and "q \<le> disk_point s"
  shows "holds True (note_synced s q) G" and "q \<le> synced_point (note_synced s q)"
    and "marks_le (marks s) (marks (note_synced s q))" and "same_mode s (note_synced s q)"
proof -
  obtain L i rs where L: "store_repr True s L i rs" "G = L @ [(i, rs)]" using assms(1) by (auto simp: holds_def)
  note D = store_reprD [OF L(1)]
  have q: "snd q \<le> synced_of (st_fs s) (lw_name (st_writer s))" if "fst q = lw_file_id (st_writer s)"
    using assms(2) that by (simp add: disk_point_def less_eq_prod_def)
  have "store_repr True (note_synced s q) L i rs"
  proof (cases "fst q = lw_file_id (st_writer s) \<and> snd q > lw_synced (st_writer s)")
    case True
    let ?w = "(st_writer s)\<lparr> lw_synced := snd q \<rparr>"
    have "log_holds True ?w (st_fs s) rs"
      using D(5) q True by (fastforce simp: log_holds_def)
    with True D show ?thesis by (auto simp: note_synced_def store_repr_def)
  next
    case False
    with L(1) show ?thesis by (auto simp: note_synced_def)
  qed
  with L(2) show "holds True (note_synced s q) G" by (auto simp: holds_def)
  show "q \<le> synced_point (note_synced s q)" "marks_le (marks s) (marks (note_synced s q))"
    "same_mode s (note_synced s q)"
    using assms(2)
    by (auto simp: note_synced_def marks_def synced_point_def append_point_def written_point_def disk_point_def
        less_eq_prod_def same_mode_def)
qed

end
