(* ===== verification/Server.thy ===== *)
theory Server
  imports Resp StoreHistory "HOL-Library.Multiset"
begin

text \<open>
  The commands of the server (\<^verbatim>\<open>src/src/server.rs\<close>): \<open>dispatch\<close> runs one against the store and says what to
  reply and how far the disk must have got before the reply may leave. \<open>clk i\<close> is what the \<open>i\<close>-th write of
  the command reads off the clock, and \<open>ord\<close> the order in which the store's table iterates over its keys.
  The commands are shown to act on the store as a specification says they act on a map, and the
  matcher of \<^verbatim>\<open>KEYS\<close> to decide the language of its pattern.
\<close>

section \<open>Text\<close>

definition to_ascii_uppercase :: "bytes \<Rightarrow> bytes" where
  "to_ascii_uppercase = map (\<lambda>b. if 97 \<le> unat b \<and> unat b \<le> 122 then b - 32 else b)"

definition to_ascii_lowercase :: "bytes \<Rightarrow> bytes" where
  "to_ascii_lowercase = map (\<lambda>b. if 65 \<le> unat b \<and> unat b \<le> 90 then b + 32 else b)"

definition eq_ignore_ascii_case :: "bytes \<Rightarrow> bytes \<Rightarrow> bool" where
  "eq_ignore_ascii_case a b \<longleftrightarrow> to_ascii_lowercase a = to_ascii_lowercase b"

text \<open>\<^verbatim>\<open>Display\<close> for \<^verbatim>\<open>Error\<close> (\<^verbatim>\<open>src/src/error.rs\<close>).\<close>

fun error_text :: "error \<Rightarrow> string" where
  "error_text (Io kind text) = ''io error: '' @ text"
| "error_text (Corrupt file_id offset detail) =
     ''corrupt record in '' @ pad10 file_id @ ''.log at offset '' @ dec_digits offset @ '': '' @ detail"
| "error_text (InvalidKey why) = ''invalid key: '' @ why"
| "error_text (ValueTooLarge n) = ''value of '' @ dec_digits n @ '' bytes exceeds the u32 length prefix''"

section \<open>Patterns\<close>

function glob_match :: "bytes \<Rightarrow> bytes \<Rightarrow> bool" where
  "glob_match pattern text = (case (pattern, text) of
      ([], []) \<Rightarrow> True
    | ([], _ # _) \<Rightarrow> False
    | (p # rest, []) \<Rightarrow> p = 0x2A \<and> glob_match rest text
    | (p # rest, t # text_rest) \<Rightarrow>
        if p = 0x2A then glob_match rest text \<or> glob_match pattern text_rest
        else if p = 0x3F then glob_match rest text_rest
        else if p = 0x5C \<and> rest \<noteq> [] then hd rest = t \<and> glob_match (tl rest) text_rest
        else p = t \<and> glob_match rest text_rest)"
  by pat_completeness auto
termination
  by (relation "measure (\<lambda>(pattern, text). length pattern + length text)") auto

declare glob_match.simps [simp del]

section \<open>Commands\<close>

type_synonym point = "nat \<times> nat"

definition srv_put :: "store \<Rightarrow> bytes \<Rightarrow> bytes \<Rightarrow> clock \<Rightarrow> unit res \<times> store" where
  "srv_put s key val c =
     (if opt_sync (st_opts s) = EveryWrite then put_deferred s key val (tick1 c) (tick2 c)
      else store_put s key val (tick1 c) (tick2 c))"

definition srv_delete :: "store \<Rightarrow> bytes \<Rightarrow> clock \<Rightarrow> bool res \<times> store" where
  "srv_delete s key c =
     (if opt_sync (st_opts s) = EveryWrite then delete_deferred s key (tick1 c) (tick2 c)
      else store_delete s key (tick1 c) (tick2 c))"

definition must_reach :: "store \<Rightarrow> point option \<Rightarrow> point option" where
  "must_reach s durable_by =
     (if opt_sync (st_opts s) = EveryWrite \<and>
        (case durable_by of None \<Rightarrow> True | Some p \<Rightarrow> p < append_point s)
      then Some (append_point s) else durable_by)"

definition wrong_arity :: "bytes \<Rightarrow> reply" where
  "wrong_arity name = reply_err (ascii ''wrong number of arguments for '' @ [39] @ to_ascii_lowercase name @
     [39] @ ascii '' command'')"

definition bulk_or_null :: "bytes option \<Rightarrow> reply" where
  "bulk_or_null v = (case v of None \<Rightarrow> Null | Some bs \<Rightarrow> Bulk bs)"

text \<open>The options of \<^verbatim>\<open>SET\<close>: only if missing, only if present; anything else is a syntax error.\<close>

fun set_options :: "bytes list \<Rightarrow> bool \<Rightarrow> bool \<Rightarrow> (bool \<times> bool) option" where
  "set_options [] nx xx = Some (nx, xx)"
| "set_options (opt # opts) nx xx =
     (if to_ascii_uppercase opt = ascii ''NX'' then set_options opts True xx
      else if to_ascii_uppercase opt = ascii ''XX'' then set_options opts nx True
      else None)"

definition set_cmd :: "store \<Rightarrow> bytes \<Rightarrow> bytes \<Rightarrow> bytes list \<Rightarrow> clock \<Rightarrow> reply res \<times> store" where
  "set_cmd s key val options c = (case set_options options False False of
      None \<Rightarrow> (Inr (reply_err (ascii ''syntax error'')), s)
    | Some (only_if_missing, only_if_present) \<Rightarrow>
        if only_if_missing \<and> only_if_present then (Inr (reply_err (ascii ''syntax error'')), s)
        else let present = contains_key s key in
          if only_if_missing \<and> present \<or> only_if_present \<and> \<not> present then (Inr Null, s)
          else (case srv_put s key val c of
              (Inl e, s) \<Rightarrow> (Inl e, s)
            | (Inr _, s) \<Rightarrow> (Inr reply_ok, s)))"

text \<open>\<^verbatim>\<open>count\<close> over the deletions of \<^verbatim>\<open>DEL\<close>, which stops at the first error.\<close>

fun del_count :: "(nat \<Rightarrow> clock) \<Rightarrow> nat \<Rightarrow> bytes list \<Rightarrow> int \<Rightarrow> store \<Rightarrow> reply res \<times> store" where
  "del_count clk i [] n s = (Inr (Integer n), s)"
| "del_count clk i (k # ks) n s = (case srv_delete s k (clk i) of
      (Inl e, s) \<Rightarrow> (Inl e, s)
    | (Inr b, s) \<Rightarrow> del_count clk (Suc i) ks (if b then n + 1 else n) s)"

fun get_all :: "bytes list \<Rightarrow> store \<Rightarrow> reply list res \<times> fs" where
  "get_all [] s = (Inr [], st_fs s)"
| "get_all (k # ks) s = (case store_get s k of
      (Inl e, d) \<Rightarrow> (Inl e, d)
    | (Inr v, d) \<Rightarrow> (case get_all ks (s\<lparr> st_fs := d \<rparr>) of
          (Inl e, d) \<Rightarrow> (Inl e, d)
        | (Inr rs, d) \<Rightarrow> (Inr (bulk_or_null v # rs), d)))"

text \<open>The pairs of \<^verbatim>\<open>MSET\<close>, in order, up to the first error.\<close>

fun put_pairs :: "(nat \<Rightarrow> clock) \<Rightarrow> nat \<Rightarrow> bytes list \<Rightarrow> store \<Rightarrow> unit res \<times> store" where
  "put_pairs clk i (k # v # rest) s = (case srv_put s k v (clk i) of
      (Inl e, s) \<Rightarrow> (Inl e, s)
    | (Inr _, s) \<Rightarrow> put_pairs clk (Suc i) rest s)"
| "put_pairs clk i _ s = (Inr (), s)"

fun del_all :: "(nat \<Rightarrow> clock) \<Rightarrow> nat \<Rightarrow> bytes list \<Rightarrow> store \<Rightarrow> unit res \<times> store" where
  "del_all clk i [] s = (Inr (), s)"
| "del_all clk i (k # ks) s = (case srv_delete s k (clk i) of
      (Inl e, s) \<Rightarrow> (Inl e, s)
    | (Inr _, s) \<Rightarrow> del_all clk (Suc i) ks s)"

definition unwrap_reply :: "reply res \<Rightarrow> reply" where
  "unwrap_reply r = (case r of Inr x \<Rightarrow> x | Inl e \<Rightarrow> reply_err (ascii (error_text e)))"

definition dispatch ::
  "(bytes list \<Rightarrow> bytes list) \<Rightarrow> (nat \<Rightarrow> clock) \<Rightarrow> store \<Rightarrow> bytes list \<Rightarrow> point option
   \<Rightarrow> reply \<times> store \<times> point option" where
  "dispatch ord clk s cmd durable_by =
     (let name = to_ascii_uppercase (from_utf8_lossy (hd cmd));
          args = tl cmd;
          plain = (\<lambda>r. (r, s, durable_by));
          arity = plain (wrong_arity name);
          reading = (\<lambda>(r, d). (unwrap_reply r, s\<lparr> st_fs := d \<rparr>, durable_by));
          writing = (\<lambda>(r, s'). (unwrap_reply r, s', must_reach s' durable_by))
      in
      if name = ascii ''PING'' then (case args of
          [] \<Rightarrow> plain (Simple (ascii ''PONG''))
        | [msg] \<Rightarrow> plain (Bulk msg)
        | _ \<Rightarrow> arity)
      else if name = ascii ''ECHO'' then (case args of [msg] \<Rightarrow> plain (Bulk msg) | _ \<Rightarrow> arity)
      else if name = ascii ''GET'' then (case args of
          [key] \<Rightarrow> reading (case store_get s key of (r, d) \<Rightarrow> (map_sum id bulk_or_null r, d))
        | _ \<Rightarrow> arity)
      else if name = ascii ''SET'' then (case args of
          key # val # options \<Rightarrow> writing (set_cmd s key val options (clk 0))
        | _ \<Rightarrow> arity)
      else if name = ascii ''DEL'' then
        (if args = [] then arity else writing (del_count clk 0 args 0 s))
      else if name = ascii ''EXISTS'' then
        (if args = [] then arity
         else plain (Integer (int (length (filter (contains_key s) args)))))
      else if name = ascii ''MGET'' then
        (if args = [] then arity
         else reading (case get_all args s of (r, d) \<Rightarrow> (map_sum id Array r, d)))
      else if name = ascii ''MSET'' then
        (if args = [] \<or> odd (length args) then arity
         else writing (case put_pairs clk 0 args s of (r, s') \<Rightarrow> (map_sum id (\<lambda>_. reply_ok) r, s')))
      else if name = ascii ''KEYS'' then (case args of
          [pattern] \<Rightarrow> plain (Array (map Bulk (sort (filter (glob_match pattern) (ord (store_keys s))))))
        | _ \<Rightarrow> arity)
      else if name = ascii ''DBSIZE'' then
        (if args = [] then plain (Integer (int (store_len s))) else arity)
      else if name = ascii ''FLUSHDB'' \<or> name = ascii ''FLUSHALL'' then
        writing (case del_all clk 0 (ord (store_keys s)) s of (r, s') \<Rightarrow> (map_sum id (\<lambda>_. reply_ok) r, s'))
      else if name = ascii ''SELECT'' then (case args of
          [db] \<Rightarrow> plain (if db = ascii ''0'' then reply_ok
                         else reply_err (ascii ''DB index is out of range''))
        | _ \<Rightarrow> arity)
      else if name = ascii ''COMMAND'' then plain (Array [])
      else if name = ascii ''CLIENT'' then plain reply_ok
      else if name = ascii ''QUIT'' then plain reply_ok
      else plain (reply_err (ascii ''unknown command '' @ [39] @ to_ascii_lowercase name @ [39])))"

section \<open>Patterns decide their language\<close>

text \<open>A star stands for any text, a question mark for one byte, a backslash quotes the byte after it, and
  every other byte, a backslash at the end too, stands for itself.\<close>

inductive globs :: "bytes \<Rightarrow> bytes \<Rightarrow> bool" where
  empty: "globs [] []"
| star: "globs rest xs \<Longrightarrow> globs (0x2A # rest) (any @ xs)"
| one: "globs rest xs \<Longrightarrow> globs (0x3F # rest) (t # xs)"
| quoted: "globs rest xs \<Longrightarrow> globs (0x5C # t # rest) (t # xs)"
| itself: "globs rest xs \<Longrightarrow> p \<noteq> 0x2A \<Longrightarrow> p \<noteq> 0x3F \<Longrightarrow> p \<noteq> 0x5C \<or> rest = [] \<Longrightarrow> globs (p # rest) (p # xs)"

lemma glob_match_simps [simp]:
  "glob_match [] xs \<longleftrightarrow> xs = []"
  "glob_match (p # rest) [] \<longleftrightarrow> p = 0x2A \<and> glob_match rest []"
  "glob_match (p # rest) (t # xs) \<longleftrightarrow>
     (if p = 0x2A then glob_match rest (t # xs) \<or> glob_match (p # rest) xs
      else if p = 0x3F then glob_match rest xs
      else if p = 0x5C \<and> rest \<noteq> [] then hd rest = t \<and> glob_match (tl rest) xs
      else p = t \<and> glob_match rest xs)"
  by (subst glob_match.simps; simp split: list.split)+

lemma glob_match_star: "glob_match rest xs \<Longrightarrow> glob_match (0x2A # rest) (any @ xs)"
proof (induction any)
  case Nil
  then show ?case by (cases xs) simp_all
qed simp

lemma glob_match_sound: "glob_match pattern xs \<Longrightarrow> globs pattern xs"
proof (induction pattern xs rule: glob_match.induct)
  case (1 pattern xs)
  show ?case
  proof (cases pattern)
    case Nil
    with 1 show ?thesis by (auto intro: globs.intros)
  next
    case p: (Cons p rest)
    show ?thesis
    proof (cases xs)
      case Nil
      with 1 p have "p = 0x2A" "globs rest []" by auto
      with p Nil show ?thesis using globs.star [of rest "[]" "[]"] by simp
    next
      case t: (Cons t tl)
      have m: "if p = 0x2A then glob_match rest (t # tl) \<or> glob_match (p # rest) tl
          else if p = 0x3F then glob_match rest tl
          else if p = 0x5C \<and> rest \<noteq> [] then hd rest = t \<and> glob_match (List.tl rest) tl
          else p = t \<and> glob_match rest tl"
        using 1(7) unfolding p t glob_match_simps(3) .
      show ?thesis
      proof (cases "p = 0x2A")
        case True
        have "globs rest xs \<or> globs pattern tl" using m True 1(2) [OF refl p t True] 1(3) [OF refl p t True] p t by auto
        then show ?thesis
        proof
          assume "globs rest xs"
          with True p show ?thesis using globs.star [of rest xs "[]"] by simp
        next
          assume "globs pattern tl"
          with True p obtain any ys where "tl = any @ ys" "globs rest ys" by (auto elim: globs.cases)
          with True p t show ?thesis using globs.star [of rest ys "t # any"] by simp
        qed
      next
        case False
        with m p t 1(4,5,6) show ?thesis by (cases rest) (auto intro: globs.intros split: if_splits)
      qed
    qed
  qed
qed

lemma glob_match_complete: "globs pattern xs \<Longrightarrow> glob_match pattern xs"
  by (induction rule: globs.induct) (auto simp: glob_match_star)

text \<open>
  (C34) The matcher behind \<^verbatim>\<open>KEYS\<close> is right: it accepts a key exactly if the key is in the language of the
  pattern, whatever bytes either of them holds. It always answers, since every call drops a byte of
  the pattern or of the key.
\<close>

theorem glob_match_iff: "glob_match pattern xs \<longleftrightarrow> globs pattern xs"
  using glob_match_sound glob_match_complete by blast

section \<open>The commands over a map\<close>

text \<open>What the commands mean: over a map from keys to values, the reply and the map that is left.\<close>

definition key_error :: reply where
  "key_error = reply_err (ascii ''invalid key: keys may not be empty'')"

definition spec_set :: "(bytes \<Rightarrow> bytes option) \<Rightarrow> bytes \<Rightarrow> bytes \<Rightarrow> bytes list \<Rightarrow> reply \<times> (bytes \<Rightarrow> bytes option)" where
  "spec_set m key val options = (case set_options options False False of
      None \<Rightarrow> (reply_err (ascii ''syntax error''), m)
    | Some (nx, xx) \<Rightarrow>
        if nx \<and> xx then (reply_err (ascii ''syntax error''), m)
        else if nx \<and> m key \<noteq> None \<or> xx \<and> m key = None then (Null, m)
        else if key = [] then (key_error, m) else (reply_ok, m(key \<mapsto> val)))"

text \<open>\<^verbatim>\<open>MSET\<close> is not atomic: a pair that cannot be stored ends it, after the pairs before it.\<close>

fun spec_mset :: "(bytes \<Rightarrow> bytes option) \<Rightarrow> bytes list \<Rightarrow> reply \<times> (bytes \<Rightarrow> bytes option)" where
  "spec_mset m (k # v # rest) = (if k = [] then (key_error, m) else spec_mset (m(k \<mapsto> v)) rest)"
| "spec_mset m _ = (reply_ok, m)"

definition cmd_name :: "bytes list \<Rightarrow> bytes" where
  "cmd_name cmd = to_ascii_uppercase (from_utf8_lossy (hd cmd))"

definition spec_cmd :: "(bytes \<Rightarrow> bytes option) \<Rightarrow> bytes list \<Rightarrow> reply \<times> (bytes \<Rightarrow> bytes option)" where
  "spec_cmd m cmd =
     (let name = cmd_name cmd; args = tl cmd; arity = (wrong_arity name, m) in
      if name = ascii ''PING'' then (case args of
          [] \<Rightarrow> (Simple (ascii ''PONG''), m) | [msg] \<Rightarrow> (Bulk msg, m) | _ \<Rightarrow> arity)
      else if name = ascii ''ECHO'' then (case args of [msg] \<Rightarrow> (Bulk msg, m) | _ \<Rightarrow> arity)
      else if name = ascii ''GET'' then (case args of [key] \<Rightarrow> (bulk_or_null (m key), m) | _ \<Rightarrow> arity)
      else if name = ascii ''SET'' then (case args of
          key # val # options \<Rightarrow> spec_set m key val options | _ \<Rightarrow> arity)
      else if name = ascii ''DEL'' then
        (if args = [] then arity
         else (Integer (int (card (set args \<inter> dom m))), m |` (- set args)))
      else if name = ascii ''EXISTS'' then
        (if args = [] then arity
         else (Integer (int (length (filter (\<lambda>k. m k \<noteq> None) args))), m))
      else if name = ascii ''MGET'' then
        (if args = [] then arity else (Array (map (\<lambda>k. bulk_or_null (m k)) args), m))
      else if name = ascii ''MSET'' then
        (if args = [] \<or> odd (length args) then arity else spec_mset m args)
      else if name = ascii ''KEYS'' then (case args of
          [pattern] \<Rightarrow> (Array (map Bulk (sorted_list_of_set {k \<in> dom m. globs pattern k})), m)
        | _ \<Rightarrow> arity)
      else if name = ascii ''DBSIZE'' then
        (if args = [] then (Integer (int (card (dom m))), m) else arity)
      else if name = ascii ''FLUSHDB'' \<or> name = ascii ''FLUSHALL'' then (reply_ok, \<lambda>_. None)
      else if name = ascii ''SELECT'' then (case args of
          [db] \<Rightarrow> (if db = ascii ''0'' then reply_ok
                  else reply_err (ascii ''DB index is out of range''), m)
        | _ \<Rightarrow> arity)
      else if name = ascii ''COMMAND'' then (Array [], m)
      else if name = ascii ''CLIENT'' then (reply_ok, m)
      else if name = ascii ''QUIT'' then (reply_ok, m)
      else (reply_err (ascii ''unknown command '' @ [39] @ to_ascii_lowercase name @ [39]), m))"

text \<open>The most bytes a command can add to the store.\<close>

fun pairs_cost :: "bytes list \<Rightarrow> nat" where
  "pairs_cost (k # v # rest) = put_cost k v + pairs_cost rest"
| "pairs_cost _ = 0"

definition cmd_cost :: "(bytes \<Rightarrow> bytes option) \<Rightarrow> bytes list \<Rightarrow> nat" where
  "cmd_cost m cmd =
     (let name = cmd_name cmd; args = tl cmd in
      if name = ascii ''SET'' then (case args of key # val # _ \<Rightarrow> put_cost key val | _ \<Rightarrow> 0)
      else if name = ascii ''MSET'' then pairs_cost args
      else if name = ascii ''DEL'' then sum_list (map del_cost args)
      else if name = ascii ''FLUSHDB'' \<or> name = ascii ''FLUSHALL'' then (\<Sum>k\<in>dom m. del_cost k)
      else 0)"

section \<open>The commands refine their specification\<close>

interpretation sv: kv_store "grown b opts G p" store_kv store_room kv_fits put_cost del_cost
  "\<lambda>s k. fst (store_get s k)" srv_put srv_delete for b opts G p
proof
  show "fst (store_get s k) = Inr (store_kv s k)" if "grown b opts G p s" for s k
    using grown_ready [OF that] st.get_law by blast
qed (use grown_put grown_delete in
    \<open>auto simp: srv_put_def srv_delete_def put_deferred_def store_put_def delete_deferred_def store_delete_def\<close>)

lemma grown_get: "grown b opts G p s \<Longrightarrow> store_get s k = (Inr (store_kv s k), st_fs s)"
  using grown_ready store_log_get store_log_kv by (metis store_ready_def)

lemma grown_contains: "grown b opts G p s \<Longrightarrow> contains_key s k \<longleftrightarrow> store_kv s k \<noteq> None"
  using grown_ready store_log_mem(1) store_log_kv by (metis contains_key_def store_ready_def)

lemma grown_keys:
  assumes "grown b opts G p s"
  shows "set (store_keys s) = dom (store_kv s)" and "distinct (store_keys s)"
    and "store_len s = card (dom (store_kv s))"
proof -
  obtain L i rs where L: "store_repr b s L i rs" using assms by (auto simp: grown_def holds_def)
  have d: "distinct (store_keys s)"
    using store_reprD(10) [OF L] by (simp add: kd_repr_def store_keys_def)
  have k: "set (store_keys s) = dom (store_kv s)"
    using grown_contains [OF assms] unfolding contains_key_def store_keys_def set_eq_iff in_adom by (simp add: domIff)
  from d k show "set (store_keys s) = dom (store_kv s)" "distinct (store_keys s)" by blast+
  show "store_len s = card (dom (store_kv s))"
    using distinct_card [OF d] k by (simp add: store_len_def store_keys_def)
qed

lemma srv_put_empty_key: "grown b opts G p s \<Longrightarrow> srv_put s [] v c = (Inl (InvalidKey ''keys may not be empty''), s)"
  by (simp add: grown_def srv_put_def put_deferred_def store_put_def put_with_def encode_record_def)

lemma arg_fits: "k \<noteq> [] \<Longrightarrow> length k \<le> MAX_BULK_LEN \<Longrightarrow> length v \<le> MAX_BULK_LEN \<Longrightarrow> kv_fits k v"
  by (simp add: kv_fits_def put_cost_def HEADER_LEN_def MAX_BULK_LEN_def)

lemma del_count_refines:
  assumes "grown b opts G p s" and "store_room s (sum_list (map del_cost ks) + n)"
  shows "\<exists>s'. del_count clk i ks c s = (Inr (Integer (c + int (card (set ks \<inter> dom (store_kv s))))), s') \<and>
    grown b opts G p s' \<and> store_kv s' = store_kv s |` (- set ks) \<and> store_room s' n"
  using assms
proof (induction ks arbitrary: i c s)
  case Nil
  then show ?case by simp
next
  case (Cons k ks)
  have "store_room s (del_cost k + (sum_list (map del_cost ks) + n))" using Cons.prems(2) by (simp add: add.assoc)
  from sv.del_law [OF Cons.prems(1) this, of "clk i"] obtain s1 where
    s1: "srv_delete s k (clk i) = (Inr (store_kv s k \<noteq> None), s1)" "grown b opts G p s1"
      "store_kv s1 = (store_kv s)(k := None)" "store_room s1 (sum_list (map del_cost ks) + n)" by blast
  have card: "card (set (k # ks) \<inter> dom (store_kv s)) =
      (if store_kv s k = None then 0 else 1) + card (set ks \<inter> dom (store_kv s1))"
  proof (cases "store_kv s k")
    case None
    then have "set (k # ks) \<inter> dom (store_kv s) = set ks \<inter> dom (store_kv s1)" by (auto simp: s1(3))
    with None show ?thesis by simp
  next
    case (Some v)
    then have "set (k # ks) \<inter> dom (store_kv s) = insert k (set ks \<inter> dom (store_kv s1))" by (auto simp: s1(3))
    moreover have "k \<notin> set ks \<inter> dom (store_kv s1)" by (simp add: s1(3))
    ultimately show ?thesis using Some by simp
  qed
  have "store_kv s1 |` (- set ks) = store_kv s |` (- set (k # ks))"
    by (auto simp: s1(3) restrict_map_def fun_eq_iff)
  with Cons.IH [OF s1(2,4), of "Suc i" "if store_kv s k \<noteq> None then c + 1 else c"] s1(1) card show ?case
    by (auto simp: algebra_simps)
qed

lemma del_all_refines:
  assumes "grown b opts G p s" and "store_room s (sum_list (map del_cost ks) + n)"
  shows "\<exists>s'. del_all clk i ks s = (Inr (), s') \<and> grown b opts G p s' \<and>
    store_kv s' = store_kv s |` (- set ks) \<and> store_room s' n"
  using assms
proof (induction ks arbitrary: i s)
  case Nil
  then show ?case by simp
next
  case (Cons k ks)
  have "store_room s (del_cost k + (sum_list (map del_cost ks) + n))" using Cons.prems(2) by (simp add: add.assoc)
  from sv.del_law [OF Cons.prems(1) this, of "clk i"] obtain s1 where
    s1: "srv_delete s k (clk i) = (Inr (store_kv s k \<noteq> None), s1)" "grown b opts G p s1"
      "store_kv s1 = (store_kv s)(k := None)" "store_room s1 (sum_list (map del_cost ks) + n)" by blast
  have "store_kv s1 |` (- set ks) = store_kv s |` (- set (k # ks))"
    by (auto simp: s1(3) restrict_map_def fun_eq_iff)
  with Cons.IH [OF s1(2,4), of "Suc i"] s1(1) show ?case by auto
qed

lemma get_all_refines:
  "grown b opts G p s \<Longrightarrow> get_all ks s = (Inr (map (\<lambda>k. bulk_or_null (store_kv s k)) ks), st_fs s)"
  by (induction ks) (simp_all add: grown_get)

lemma put_pairs_refines:
  assumes "grown b opts G p s" and "store_room s (pairs_cost args + n)"
    and "list_all (\<lambda>a. length a \<le> MAX_BULK_LEN) args"
  shows "\<exists>r s'. put_pairs clk i args s = (r, s') \<and> grown b opts G p s' \<and> store_room s' n \<and>
    (unwrap_reply (map_sum id (\<lambda>_. reply_ok) r), store_kv s') = spec_mset (store_kv s) args"
  using assms
proof (induction clk i args s rule: put_pairs.induct)
  case (1 clk i k v rest s)
  show ?case
  proof (cases "k = []")
    case True
    have "store_room s n" using "1.prems"(2) by (simp add: store_room_def)
    with True "1.prems"(1) show ?thesis
      by (simp add: srv_put_empty_key unwrap_reply_def key_error_def)
  next
    case False
    then have fits: "kv_fits k v" using "1.prems"(3) by (simp add: arg_fits)
    have "store_room s (put_cost k v + (pairs_cost rest + n))" using "1.prems"(2) by (simp add: add.assoc)
    from sv.put_law [OF "1.prems"(1) fits this, of "clk i"] obtain s1 where
      s1: "srv_put s k v (clk i) = (Inr (), s1)" "grown b opts G p s1" "store_kv s1 = (store_kv s)(k \<mapsto> v)"
        "store_room s1 (pairs_cost rest + n)" by blast
    have "list_all (\<lambda>a. length a \<le> MAX_BULK_LEN) rest" using "1.prems"(3) by simp
    from "1.IH" [OF s1(1) [symmetric] refl s1(2,4) this] show ?thesis
      using False by (simp add: s1(1) s1(3) [symmetric])
  qed
qed (simp_all add: unwrap_reply_def)

lemma set_cmd_refines:
  assumes "grown b opts G p s" and "store_room s (put_cost k v + n)"
    and "length k \<le> MAX_BULK_LEN" and "length v \<le> MAX_BULK_LEN"
  shows "\<exists>r s'. set_cmd s k v options c = (r, s') \<and> grown b opts G p s' \<and> store_room s' n \<and>
    (unwrap_reply r, store_kv s') = spec_set (store_kv s) k v options"
proof -
  have room: "store_room s n" using assms(2) by (simp add: store_room_def)
  show ?thesis
  proof (cases "k = []")
    case True
    with assms(1) room srv_put_empty_key [OF assms(1)] grown_contains [OF assms(1)] show ?thesis
      by (auto simp: set_cmd_def spec_set_def unwrap_reply_def key_error_def Let_def split: option.split)
  next
    case False
    from sv.put_law [OF assms(1) arg_fits [OF False assms(3,4)] assms(2), of c] obtain s1 where
      "srv_put s k v c = (Inr (), s1)" "grown b opts G p s1" "store_kv s1 = (store_kv s)(k \<mapsto> v)"
      "store_room s1 n" by blast
    with assms(1) room False grown_contains [OF assms(1)] show ?thesis
      by (auto simp: set_cmd_def spec_set_def unwrap_reply_def Let_def split: option.split)
  qed
qed

text \<open>A command that ran as the specification says, from what it returned.\<close>

definition ran_as ::
  "(store \<Rightarrow> bool) \<Rightarrow> reply \<times> store \<times> point option \<Rightarrow> reply \<times> (bytes \<Rightarrow> bytes option) \<Rightarrow> bool" where
  "ran_as P x y \<longleftrightarrow> fst x = fst y \<and> store_kv (fst (snd x)) = snd y \<and> P (fst (snd x))"

lemma ran_as_if:
  "(c \<Longrightarrow> ran_as P x y) \<Longrightarrow> (\<not> c \<Longrightarrow> ran_as P x' y') \<Longrightarrow>
   ran_as P (if c then x else x') (if c then y else y')"
  by simp

lemma ran_as_case:
  assumes "xs = [] \<Longrightarrow> ran_as P x y" and "\<And>a as. xs = a # as \<Longrightarrow> ran_as P (x' a as) (y' a as)"
  shows "ran_as P (case xs of [] \<Rightarrow> x | a # as \<Rightarrow> x' a as) (case xs of [] \<Rightarrow> y | a # as \<Rightarrow> y' a as)"
  using assms by (cases xs) simp_all

lemma dispatch_refines:
  assumes s: "grown b opts G p s" and cmd: "command_fits cmd"
    and ord: "\<And>ks. mset (ord ks) = mset ks"
    and room: "store_room s (cmd_cost (store_kv s) cmd + n)"
  shows "ran_as (\<lambda>s'. grown b opts G p s' \<and> store_room s' n) (dispatch ord clk s cmd db) (spec_cmd (store_kv s) cmd)"
proof -
  define P where "P = (\<lambda>s'. grown b opts G p s' \<and> store_room s' n)"
  have "store_room s n" using room by (simp add: store_room_def)
  then have same: "ran_as P (r, s, db') (r, store_kv s)" for r db'
    using s by (simp add: ran_as_def P_def)
  have fits: "list_all (\<lambda>a. length a \<le> MAX_BULK_LEN) (tl cmd)"
    using cmd by (cases cmd) (auto simp: command_fits_def)
  have keys: "set (ord (store_keys s)) = dom (store_kv s)"
    using ord [of "store_keys s"] grown_keys(1) [OF s] by (metis set_mset_mset)
  have set_cmd: "ran_as P (case set_cmd s k v options c of (r, s') \<Rightarrow> (unwrap_reply r, s', must_reach s' db))
      (spec_set (store_kv s) k v options)"
    if "cmd_name cmd = ascii ''SET''" "tl cmd = k # v # options" for k v options c
  proof -
    have "store_room s (put_cost k v + n)" "length k \<le> MAX_BULK_LEN" "length v \<le> MAX_BULK_LEN"
      using room that fits by (simp_all add: cmd_cost_def)
    from set_cmd_refines [OF s this, of options c] show ?thesis
      by (auto simp: ran_as_def P_def dest: sym [of "(_, _)"])
  qed
  have del: "ran_as P (case del_count clk 0 (tl cmd) 0 s of (r, s') \<Rightarrow> (unwrap_reply r, s', must_reach s' db))
      (Integer (int (card (set (tl cmd) \<inter> dom (store_kv s)))), store_kv s |` (- set (tl cmd)))"
    if "cmd_name cmd = ascii ''DEL''"
  proof -
    have "store_room s (sum_list (map del_cost (tl cmd)) + n)"
      using room that by (simp add: cmd_cost_def ascii_def)
    from del_count_refines [OF s this, of clk 0 0] show ?thesis by (auto simp: ran_as_def P_def unwrap_reply_def)
  qed
  have mset: "ran_as P (case (case put_pairs clk 0 (tl cmd) s of (r, s') \<Rightarrow> (map_sum id (\<lambda>_. reply_ok) r, s')) of
        (r, s') \<Rightarrow> (unwrap_reply r, s', must_reach s' db)) (spec_mset (store_kv s) (tl cmd))"
    if "cmd_name cmd = ascii ''MSET''"
  proof -
    have "store_room s (pairs_cost (tl cmd) + n)" using room that by (simp add: cmd_cost_def ascii_def)
    from put_pairs_refines [OF s this fits, of clk 0] show ?thesis
      by (auto simp: ran_as_def P_def dest: sym [of "(_, _)"])
  qed
  have flush: "ran_as P (case (case del_all clk 0 (ord (store_keys s)) s of (r, s') \<Rightarrow> (map_sum id (\<lambda>_. reply_ok) r, s')) of
        (r, s') \<Rightarrow> (unwrap_reply r, s', must_reach s' db)) (reply_ok, \<lambda>_. None)"
    if "cmd_name cmd = ascii ''FLUSHDB'' \<or> cmd_name cmd = ascii ''FLUSHALL''"
  proof -
    have "sum_list (map del_cost (ord (store_keys s))) = (\<Sum>k\<in>dom (store_kv s). del_cost k)"
      using ord [of "store_keys s"] grown_keys(1,2) [OF s]
      by (metis sum_mset_sum_list mset_map sum_list_distinct_conv_sum_set)
    then have "store_room s (sum_list (map del_cost (ord (store_keys s))) + n)"
      using room that by (auto simp: cmd_cost_def ascii_def)
    from del_all_refines [OF s this, of clk 0] obtain s' where
      "del_all clk 0 (ord (store_keys s)) s = (Inr (), s')" "P s'" "store_kv s' = store_kv s |` (- dom (store_kv s))"
      by (auto simp: P_def keys)
    moreover have "store_kv s |` (- dom (store_kv s)) = (\<lambda>_. None)" by (auto simp: restrict_map_def fun_eq_iff)
    ultimately show ?thesis by (simp add: ran_as_def unwrap_reply_def)
  qed
  have found: "sort (filter (glob_match pattern) (ord (store_keys s))) =
      sorted_list_of_set {k \<in> dom (store_kv s). globs pattern k}" for pattern
  proof -
    have "distinct (ord (store_keys s))"
      using ord [of "store_keys s"] grown_keys(2) [OF s] by (metis mset_eq_imp_distinct_iff)
    moreover have "{k \<in> dom (store_kv s). globs pattern k} = set (filter (glob_match pattern) (ord (store_keys s)))"
      using keys glob_match_complete glob_match_sound by auto
    ultimately show ?thesis by (simp only: sorted_list_of_set_sort_remdups distinct_remdups_id distinct_filter)
  qed
  have contains: "contains_key s = (\<lambda>k. \<exists>v. store_kv s k = Some v)"
    using grown_contains [OF s] by auto
  have "ran_as P (dispatch ord clk s cmd db) (spec_cmd (store_kv s) cmd)"
    unfolding dispatch_def spec_cmd_def Let_def cmd_name_def [symmetric]
    by (intro ran_as_if ran_as_case same set_cmd del mset flush)
      (simp_all add: same grown_get [OF s] get_all_refines [OF s] contains grown_keys(3) [OF s] found
        unwrap_reply_def)
  then show ?thesis by (simp add: P_def)
qed

lemma dispatch_must_reach:
  assumes "dispatch ord clk s cmd db = (r, s', db')"
  shows "(append_point s' = append_point s \<and> db' = db) \<or> db' = must_reach s' db"
  using assms
  by (auto simp: dispatch_def Let_def append_point_def split: if_splits list.splits prod.splits)

lemma must_reach_covers:
  "opt_sync (st_opts s) = EveryWrite \<Longrightarrow> \<exists>p. must_reach s db = Some p \<and> append_point s \<le> p"
  by (cases db; cases "append_point s") (auto simp: must_reach_def not_less)

text \<open>
  (C13) The server's commands act on the store as a map: on a working device with room for what the command may
  add, every command, malformed ones included, is answered as the specification \<open>spec_cmd\<close> answers it
  over the contents of the store and leaves the contents the specification leaves, whatever order the
  table iterates in. When the store syncs every write, a command that has appended anything also says
  that its reply must wait for the disk to reach the end of what was appended.
\<close>

theorem dispatch_refines_map:
  assumes "store_ready b s" and "command_fits cmd" and "\<forall>ks. mset (ord ks) = mset ks"
    and "store_room s (cmd_cost (store_kv s) cmd)"
  shows "\<exists>s' db'. dispatch ord clk s cmd db = (fst (spec_cmd (store_kv s) cmd), s', db') \<and>
    store_ready b s' \<and> store_kv s' = snd (spec_cmd (store_kv s) cmd) \<and>
    (opt_sync (st_opts s) = EveryWrite \<longrightarrow>
       append_point s' = append_point s \<or> (\<exists>p. db' = Some p \<and> append_point s' \<le> p))"
proof -
  obtain G where G: "holds b s G" "\<not> st_restoring s"
    using assms(1) unfolding store_ready_def store_log_def holds_def by blast
  obtain r s' db' where d: "dispatch ord clk s cmd db = (r, s', db')" by (metis prod_cases3)
  have "ran_as (\<lambda>s'. grown b (st_opts s) G (marks s) s' \<and> store_room s' 0) (r, s', db') (spec_cmd (store_kv s) cmd)"
    using dispatch_refines [OF grownI [OF G] assms(2), of ord 0 clk db] assms(3,4) d by simp
  then have "r = fst (spec_cmd (store_kv s) cmd)" "store_kv s' = snd (spec_cmd (store_kv s) cmd)"
    "store_ready b s'" "st_opts s' = st_opts s"
    by (auto simp: ran_as_def dest: grown_ready) (simp add: grown_def)
  with d dispatch_must_reach [OF d] must_reach_covers [of s' db] show ?thesis by auto
qed

definition mset_demo :: "bytes list" where
  "mset_demo = [ascii ''mset'', [97], [1], [], [2], [98], [3]]"

text \<open>An \<^verbatim>\<open>MSET\<close> with an empty key in the middle is refused, and its first pair is stored all the same.\<close>

theorem dispatch_refines_map_witness:
  "\<exists>s s' db'. store_open default_options no_files = (Inr s, st_fs s) \<and>
     dispatch (\<lambda>ks. ks) (\<lambda>_. (0, 0)) s mset_demo None = (key_error, s', db') \<and> store_kv s' = [[97] \<mapsto> [1]]"
proof -
  obtain s where s: "store_open default_options no_files = (Inr s, st_fs s)" "store_log True s []"
    "store_ready True s" "store_room s (2 ^ 40)"
    using new_store by blast
  have name: "cmd_name mset_demo = ascii ''MSET''"
    by (simp add: cmd_name_def mset_demo_def ascii_def from_utf8_lossy.simps utf8_head_def char_width_def
        second_range_def to_ascii_uppercase_def Let_def)
  have "spec_cmd (store_kv s) mset_demo = (key_error, [[97] \<mapsto> [1]])"
    using store_log_kv [OF s(2)] unfolding spec_cmd_def name
    by (simp add: mset_demo_def ascii_def kv_of_def)
  moreover have "store_room s (cmd_cost (store_kv s) mset_demo)"
    using s(4) unfolding cmd_cost_def name
    by (simp add: mset_demo_def ascii_def store_room_def put_cost_def HEADER_LEN_def)
  moreover have "command_fits mset_demo"
    by (simp add: mset_demo_def command_fits_def ascii_def MAX_ARRAY_LEN_def MAX_BULK_LEN_def)
  ultimately show ?thesis
    using dispatch_refines_map [OF s(3), of mset_demo "\<lambda>ks. ks" "\<lambda>_. (0, 0)" None] s(1) by auto
qed

section \<open>A reply that is two\<close>

definition split_demo :: bytes where
  "split_demo = ascii ''x'' @ crlf @ ascii ''+y''"


end
