(* ===== verification/GroupCommit.thy ===== *)
theory GroupCommit
  imports Server
begin

text \<open>
  The server as its threads run it (\<^verbatim>\<open>src/src/server.rs\<close>): one thread per connection, the store behind a lock,
  and group commit. A thread is where it is in \<^verbatim>\<open>serve\<close>, \<^verbatim>\<open>send\<close> and \<^verbatim>\<open>GroupCommit::wait\<close> (\<open>phase\<close>), and a
  step is what it does while it holds a lock, or one call outside of them, so any interleaving of the
  threads is a sequence of steps. A thread that waits on the condition variable may wake at any
  time. The device may refuse any fsync of the group commit. How much of the input the reader has buffered
  is decided by the network, so the step of a command says whether the buffer ran empty.

  Shown: a reply to a write is never sent before the write is on the disk, so an acknowledged write
  survives a power cut whatever the other connections do; and no thread waits forever, since whenever one
  waits some thread can move, and every move of a waiting thread brings the end nearer.
\<close>

section \<open>Threads and their state\<close>

definition MAX_HELD_REPLIES :: nat where
  "MAX_HELD_REPLIES = 64 * 1024"

text \<open>\<^verbatim>\<open>Durable\<close> and the count of \<^verbatim>\<open>GroupCommit\<close>.\<close>

record group_commit =
  gc_point :: point
  gc_syncing :: bool
  gc_syncs :: nat

definition group_commit_new :: "point \<Rightarrow> group_commit" where
  "group_commit_new durable = \<lparr> gc_point = durable, gc_syncing = False, gc_syncs = 0 \<rparr>"

datatype phase =
    Reading
  | Checking point
  | Blocked point
  | TakingHandle point
  | Fsyncing point "nat \<times> point"
  | Noting point point
  | Finishing point "point res"
  | Closed "unit res"

text \<open>A connection: its input, the replies held back and what they wait for, what has been sent, whether
  it ends after this send, and whether the client is gone.\<close>

record conn =
  cn_in :: instream
  cn_out :: bytes
  cn_durable_by :: "point option"
  cn_sent :: bytes
  cn_last :: bool
  cn_broken :: bool
  cn_phase :: phase

definition new_conn :: "instream \<Rightarrow> conn" where
  "new_conn r = \<lparr> cn_in = r, cn_out = [], cn_durable_by = None, cn_sent = [], cn_last = False,
     cn_broken = False, cn_phase = Reading \<rparr>"

record server =
  sv_store :: store
  sv_commits :: group_commit
  sv_conns :: "conn list"

definition server_bind :: "store \<Rightarrow> server" where
  "server_bind s = \<lparr> sv_store = s, sv_commits = group_commit_new (append_point s), sv_conns = [] \<rparr>"

section \<open>Sending\<close>

definition broken_pipe :: error where
  "broken_pipe = Io OtherKind ''broken pipe''"

text \<open>The end of \<^verbatim>\<open>send\<close>: the held replies leave, and the loop of \<^verbatim>\<open>serve\<close> goes on or is done.\<close>

definition send_out :: "conn \<Rightarrow> conn" where
  "send_out c =
     (if cn_broken c then c\<lparr> cn_phase := Closed (Inl broken_pipe) \<rparr>
      else c\<lparr> cn_sent := cn_sent c @ cn_out c, cn_out := [],
              cn_phase := (if cn_last c then Closed (Inr ()) else Reading) \<rparr>)"

definition send :: "conn \<Rightarrow> conn" where
  "send c = (case cn_durable_by c of
      Some p \<Rightarrow> c\<lparr> cn_durable_by := None, cn_phase := Checking p \<rparr>
    | None \<Rightarrow> send_out c)"

definition send_failed :: "error \<Rightarrow> conn \<Rightarrow> conn" where
  "send_failed e c =
     (let out = write_to (reply_err (ascii
         (''the disk refused to sync, so earlier writes may not be durable: '' @ error_text e))) in
      if cn_broken c then c\<lparr> cn_out := out, cn_phase := Closed (Inl broken_pipe) \<rparr>
      else c\<lparr> cn_sent := cn_sent c @ out, cn_out := out,
              cn_phase := Closed (Inl (Io OtherKind ''sync failed'')) \<rparr>)"

text \<open>One turn of the loop of \<^verbatim>\<open>serve\<close>. \<open>emptied\<close>: the command was the last thing in the reader's buffer.\<close>

definition serve_command ::
  "bool \<Rightarrow> (bytes list \<Rightarrow> bytes list) \<Rightarrow> (nat \<Rightarrow> clock) \<Rightarrow> store \<Rightarrow> conn \<Rightarrow> store \<times> conn" where
  "serve_command emptied ord clk s c = (case read_command (cn_in c) of
      (Inr (Some args), r) \<Rightarrow>
        let c = c\<lparr> cn_in := r \<rparr> in
        if args = [] then (s, c)
        else let quit = eq_ignore_ascii_case (hd args) (ascii ''QUIT'') in
          (case dispatch ord clk s args (cn_durable_by c) of (reply, s, db) \<Rightarrow>
             let c = c\<lparr> cn_out := cn_out c @ write_to reply, cn_durable_by := db \<rparr> in
             if quit \<or> emptied \<or> in_bytes r = [] \<or> MAX_HELD_REPLIES \<le> length (cn_out c)
             then (s, send (c\<lparr> cn_last := quit \<rparr>)) else (s, c))
    | (Inr None, r) \<Rightarrow> (s, c\<lparr> cn_in := r, cn_phase := Closed (Inr ()) \<rparr>)
    | (Inl e, r) \<Rightarrow>
        let c = c\<lparr> cn_in := r \<rparr> in
        (case e of
           Io InvalidData detail \<Rightarrow>
             (s, send (c\<lparr> cn_out := cn_out c @ write_to (reply_err (ascii (''Protocol error: '' @ detail))),
                          cn_last := True \<rparr>))
         | _ \<Rightarrow> (s, c\<lparr> cn_phase := Closed (Inl e) \<rparr>)))"

section \<open>Steps\<close>

definition put_conn :: "nat \<Rightarrow> conn \<Rightarrow> server \<Rightarrow> server" where
  "put_conn i c \<sigma> = \<sigma>\<lparr> sv_conns := (sv_conns \<sigma>)[i := c] \<rparr>"

definition at_phase :: "nat \<Rightarrow> phase \<Rightarrow> server \<Rightarrow> server" where
  "at_phase i ph \<sigma> = put_conn i ((sv_conns \<sigma> ! i)\<lparr> cn_phase := ph \<rparr>) \<sigma>"

text \<open>The head of the loop of \<^verbatim>\<open>wait\<close>, under the lock of the group commit.\<close>

definition wait_check :: "nat \<Rightarrow> point \<Rightarrow> server \<Rightarrow> server" where
  "wait_check i p \<sigma> =
     (let g = sv_commits \<sigma> in
      if p \<le> gc_point g then put_conn i (send_out (sv_conns \<sigma> ! i)) \<sigma>
      else if \<not> gc_syncing g
      then at_phase i (TakingHandle p) (\<sigma>\<lparr> sv_commits := g\<lparr> gc_syncing := True \<rparr> \<rparr>)
      else at_phase i (Blocked p) \<sigma>)"

definition wake :: "conn \<Rightarrow> conn" where
  "wake c = (case cn_phase c of Blocked p \<Rightarrow> c\<lparr> cn_phase := Checking p \<rparr> | _ \<Rightarrow> c)"

text \<open>The end of a sync, under the lock: everyone is woken, a failure ends this connection, and a success
  moves the durable point and goes back to the head of the loop.\<close>

definition wait_finish :: "nat \<Rightarrow> point \<Rightarrow> point res \<Rightarrow> server \<Rightarrow> server" where
  "wait_finish i p result \<sigma> =
     (let g = (sv_commits \<sigma>)\<lparr> gc_syncs := gc_syncs (sv_commits \<sigma>) + 1, gc_syncing := False \<rparr>;
          \<sigma> = \<sigma>\<lparr> sv_commits := g, sv_conns := map wake (sv_conns \<sigma>) \<rparr>
      in case result of
        Inl e \<Rightarrow> put_conn i (send_failed e (sv_conns \<sigma> ! i)) \<sigma>
      | Inr reached \<Rightarrow>
          wait_check i p (if gc_point g < reached
            then \<sigma>\<lparr> sv_commits := g\<lparr> gc_point := reached \<rparr> \<rparr> else \<sigma>))"

datatype srv_event =
    Accept instream
  | HangUp nat
  | Command nat bool "bytes list \<Rightarrow> bytes list" "nat \<Rightarrow> clock"
  | Check nat
  | WakeUp nat
  | TakeHandle nat
  | Fsync nat bool
  | Note nat
  | Finish nat

definition phase_at :: "server \<Rightarrow> nat \<Rightarrow> phase option" where
  "phase_at \<sigma> i = (if i < length (sv_conns \<sigma>) then Some (cn_phase (sv_conns \<sigma> ! i)) else None)"

text \<open>A step, if the thread is where the step starts. An fsync that is refused leaves the device as it was.\<close>

fun server_step :: "srv_event \<Rightarrow> server \<Rightarrow> server option" where
  "server_step (Accept r) \<sigma> = Some (\<sigma>\<lparr> sv_conns := sv_conns \<sigma> @ [new_conn r] \<rparr>)"
| "server_step (HangUp i) \<sigma> = (if i < length (sv_conns \<sigma>)
     then Some (put_conn i ((sv_conns \<sigma> ! i)\<lparr> cn_broken := True \<rparr>) \<sigma>) else None)"
| "server_step (Command i emptied ord clk) \<sigma> = (case phase_at \<sigma> i of
      Some Reading \<Rightarrow> (case serve_command emptied ord clk (sv_store \<sigma>) (sv_conns \<sigma> ! i) of
        (s, c) \<Rightarrow> Some (put_conn i c (\<sigma>\<lparr> sv_store := s \<rparr>)))
    | _ \<Rightarrow> None)"
| "server_step (Check i) \<sigma> = (case phase_at \<sigma> i of
      Some (Checking p) \<Rightarrow> Some (wait_check i p \<sigma>)
    | _ \<Rightarrow> None)"
| "server_step (WakeUp i) \<sigma> = (case phase_at \<sigma> i of
      Some (Blocked p) \<Rightarrow> Some (at_phase i (Checking p) \<sigma>)
    | _ \<Rightarrow> None)"
| "server_step (TakeHandle i) \<sigma> = (case phase_at \<sigma> i of
      Some (TakingHandle p) \<Rightarrow> (case sync_handle (sv_store \<sigma>) of
          (Inl e, s) \<Rightarrow> Some (at_phase i (Finishing p (Inl e)) (\<sigma>\<lparr> sv_store := s \<rparr>))
        | (Inr h, s) \<Rightarrow> Some (at_phase i (Fsyncing p h) (\<sigma>\<lparr> sv_store := s \<rparr>)))
    | _ \<Rightarrow> None)"
| "server_step (Fsync i refused) \<sigma> = (case phase_at \<sigma> i of
      Some (Fsyncing p h) \<Rightarrow>
        if refused then Some (at_phase i (Finishing p (Inl device_fault)) \<sigma>)
        else (case sync_handle_sync h (st_fs (sv_store \<sigma>)) of
            (Inl e, d) \<Rightarrow> Some (at_phase i (Finishing p (Inl e)) (\<sigma>\<lparr> sv_store := (sv_store \<sigma>)\<lparr> st_fs := d \<rparr> \<rparr>))
          | (Inr reached, d) \<Rightarrow> Some (at_phase i (Noting p reached) (\<sigma>\<lparr> sv_store := (sv_store \<sigma>)\<lparr> st_fs := d \<rparr> \<rparr>)))
    | _ \<Rightarrow> None)"
| "server_step (Note i) \<sigma> = (case phase_at \<sigma> i of
      Some (Noting p reached) \<Rightarrow>
        Some (at_phase i (Finishing p (Inr reached)) (\<sigma>\<lparr> sv_store := note_synced (sv_store \<sigma>) reached \<rparr>))
    | _ \<Rightarrow> None)"
| "server_step (Finish i) \<sigma> = (case phase_at \<sigma> i of
      Some (Finishing p result) \<Rightarrow> Some (wait_finish i p result \<sigma>)
    | _ \<Rightarrow> None)"

fun server_run :: "srv_event list \<Rightarrow> server \<Rightarrow> server option" where
  "server_run [] \<sigma> = Some \<sigma>"
| "server_run (e # es) \<sigma> = (case server_step e \<sigma> of None \<Rightarrow> None | Some \<sigma>' \<Rightarrow> server_run es \<sigma>')"

section \<open>The invariant\<close>

fun waits_for :: "phase \<Rightarrow> point option" where
  "waits_for (Checking p) = Some p"
| "waits_for (Blocked p) = Some p"
| "waits_for (TakingHandle p) = Some p"
| "waits_for (Fsyncing p _) = Some p"
| "waits_for (Noting p _) = Some p"
| "waits_for (Finishing p _) = Some p"
| "waits_for _ = None"

text \<open>One for the thread that runs the sync.\<close>

fun busy :: "phase \<Rightarrow> nat" where
  "busy (TakingHandle _) = 1"
| "busy (Fsyncing _ _) = 1"
| "busy (Noting _ _) = 1"
| "busy (Finishing _ _) = 1"
| "busy _ = 0"

text \<open>What a thread knows where it is: what it waits for has been appended; the handle it took covers that
  and is with the kernel; after the fsync the disk has it; after the note the store knows so.\<close>

fun phase_ok :: "hist \<Rightarrow> store \<Rightarrow> phase \<Rightarrow> bool" where
  "phase_ok G s (Checking p) \<longleftrightarrow> p \<le> append_point s"
| "phase_ok G s (Blocked p) \<longleftrightarrow> p \<le> append_point s"
| "phase_ok G s (TakingHandle p) \<longleftrightarrow> p \<le> append_point s"
| "phase_ok G s (Fsyncing p h) \<longleftrightarrow> fst h = fst (snd h) \<and> p \<le> snd h \<and> snd h \<le> written_point s \<and>
     fst h \<in> set (adom G)"
| "phase_ok G s (Noting p q) \<longleftrightarrow> p \<le> q \<and> q \<le> disk_point s"
| "phase_ok G s (Finishing p r) \<longleftrightarrow> (\<forall>q. r = Inr q \<longrightarrow> p \<le> q \<and> q \<le> synced_point s)"
| "phase_ok G s _ \<longleftrightarrow> True"

definition conn_ok :: "hist \<Rightarrow> store \<Rightarrow> conn \<Rightarrow> bool" where
  "conn_ok G s c \<longleftrightarrow> phase_ok G s (cn_phase c) \<and>
     (\<forall>q \<in> set_option (cn_durable_by c). q \<le> append_point s \<and> cn_out c \<noteq> [] \<and> waits_for (cn_phase c) = None)"

definition server_ok :: "options \<Rightarrow> hist \<Rightarrow> server \<Rightarrow> bool" where
  "server_ok opts G \<sigma> \<longleftrightarrow>
     holds True (sv_store \<sigma>) G \<and> \<not> st_restoring (sv_store \<sigma>) \<and> st_opts (sv_store \<sigma>) = opts \<and>
     gc_point (sv_commits \<sigma>) \<le> synced_point (sv_store \<sigma>) \<and>
     (\<forall>c \<in> set (sv_conns \<sigma>). conn_ok G (sv_store \<sigma>) c) \<and>
     sum_list (map (\<lambda>c. busy (cn_phase c)) (sv_conns \<sigma>)) = of_bool (gc_syncing (sv_commits \<sigma>)) \<and>
     (gc_syncing (sv_commits \<sigma>) \<or> (\<forall>c \<in> set (sv_conns \<sigma>). \<forall>p. cn_phase c \<noteq> Blocked p))"

lemma server_okD:
  assumes "server_ok opts G \<sigma>"
  shows "holds True (sv_store \<sigma>) G" and "\<not> st_restoring (sv_store \<sigma>)" and "st_opts (sv_store \<sigma>) = opts"
    and "gc_point (sv_commits \<sigma>) \<le> synced_point (sv_store \<sigma>)"
    and "\<And>i. i < length (sv_conns \<sigma>) \<Longrightarrow> conn_ok G (sv_store \<sigma>) (sv_conns \<sigma> ! i)"
    and "sum_list (map (\<lambda>c. busy (cn_phase c)) (sv_conns \<sigma>)) = of_bool (gc_syncing (sv_commits \<sigma>))"
    and "gc_syncing (sv_commits \<sigma>) \<or> (\<forall>c \<in> set (sv_conns \<sigma>). \<forall>p. cn_phase c \<noteq> Blocked p)"
  using assms unfolding server_ok_def by auto

lemma hist_grows_adom: "hist_grows G G' \<Longrightarrow> j \<in> set (adom G) \<Longrightarrow> j \<in> set (adom G')"
  by (force simp: hist_grows_def)

lemma phase_ok_mono:
  assumes "phase_ok G s ph" and "hist_grows G G'" and "marks_le (marks s) (marks s')"
  shows "phase_ok G' s' ph"
proof (cases ph)
  case (Fsyncing p h)
  with assms hist_grows_adom [OF assms(2)] show ?thesis by (auto simp: marks_def simp del: set_map intro: order_trans)
qed (use assms in \<open>auto simp: marks_def intro: order_trans\<close>)

lemma conn_ok_mono:
  assumes "conn_ok G s c" and "hist_grows G G'" and "marks_le (marks s) (marks s')"
  shows "conn_ok G' s' c"
  using assms(1,3) phase_ok_mono [OF _ assms(2,3)]
  by (auto simp: conn_ok_def marks_def intro: order_trans)

lemma conn_ok_wake: "conn_ok G s c \<Longrightarrow> conn_ok G s (wake c)"
  by (auto simp: conn_ok_def wake_def split: phase.splits)

lemma wake_simps [simp]:
  "busy (cn_phase (wake c)) = busy (cn_phase c)" "waits_for (cn_phase (wake c)) = waits_for (cn_phase c)"
  "cn_phase (wake c) \<noteq> Blocked p" "cn_durable_by (wake c) = cn_durable_by c" "cn_out (wake c) = cn_out c"
  "(cn_phase (wake c) = Closed r) = (cn_phase c = Closed r)"
  by (auto simp: wake_def split: phase.splits)

text \<open>A step that changes the store, the group commit and one connection.\<close>

lemma server_ok_step:
  assumes ok: "server_ok opts G \<sigma>" and i: "i < length (sv_conns \<sigma>)"
    and store: "holds True s' G'" "hist_grows G G'" "\<not> st_restoring s'" "st_opts s' = opts"
      "marks_le (marks (sv_store \<sigma>)) (marks s')"
    and c: "conn_ok G' s' c'" and g: "gc_point g' \<le> synced_point s'"
    and count: "busy (cn_phase c') + of_bool (gc_syncing (sv_commits \<sigma>)) =
      busy (cn_phase (sv_conns \<sigma> ! i)) + of_bool (gc_syncing g')"
    and blocked: "gc_syncing g' \<or> (\<forall>c \<in> set ((sv_conns \<sigma>)[i := c']). \<forall>p. cn_phase c \<noteq> Blocked p)"
  shows "server_ok opts G' \<lparr> sv_store = s', sv_commits = g', sv_conns = (sv_conns \<sigma>)[i := c'] \<rparr>"
proof -
  note D = server_okD [OF ok]
  have "conn_ok G' s' d" if d: "d \<in> set ((sv_conns \<sigma>)[i := c'])" for d
  proof -
    consider "d = c'" | "d \<in> set (sv_conns \<sigma>)" using d set_update_subset_insert by fast
    then show ?thesis
    proof cases
      case 2
      then show ?thesis using ok store(2,5) conn_ok_mono by (auto simp: server_ok_def)
    qed (use c in simp)
  qed
  moreover have "sum_list (map (\<lambda>c. busy (cn_phase c)) ((sv_conns \<sigma>)[i := c'])) = of_bool (gc_syncing g')"
    using D(6) count i member_le_sum_list [of "busy (cn_phase (sv_conns \<sigma> ! i))" "map (\<lambda>c. busy (cn_phase c)) (sv_conns \<sigma>)"]
    by (simp add: map_update sum_list_update)
  ultimately show ?thesis
    using D store g blocked by (auto simp: server_ok_def)
qed

lemma server_ok_same:
  assumes ok: "server_ok opts G \<sigma>" and i: "i < length (sv_conns \<sigma>)"
    and c: "conn_ok G (sv_store \<sigma>) c'" and count: "busy (cn_phase c') = busy (cn_phase (sv_conns \<sigma> ! i))"
    and blocked: "gc_syncing (sv_commits \<sigma>) \<or> (\<forall>p. cn_phase c' \<noteq> Blocked p)"
  shows "server_ok opts G (put_conn i c' \<sigma>)"
proof -
  have "hist_grows G G" using server_okD(1) [OF ok] by (auto simp: holds_def intro: hist_grows_refl)
  from server_ok_step [OF ok i server_okD(1) [OF ok] this server_okD(2,3) [OF ok] _ c server_okD(4) [OF ok]]
  have "server_ok opts G \<lparr> sv_store = sv_store \<sigma>, sv_commits = sv_commits \<sigma>, sv_conns = (sv_conns \<sigma>)[i := c'] \<rparr>"
    using count blocked server_okD(7) [OF ok] set_update_subset_insert [of "sv_conns \<sigma>" i c']
    by fastforce
  then show ?thesis by (cases \<sigma>) (simp add: put_conn_def)
qed

lemma server_ok_wake:
  assumes "server_ok opts G \<sigma>"
  shows "server_ok opts G (\<sigma>\<lparr> sv_conns := map wake (sv_conns \<sigma>) \<rparr>)"
  using assms by (auto simp: server_ok_def conn_ok_wake comp_def)

section \<open>Every step keeps it\<close>

text \<open>A device with room for what the next command may write, and arguments within the limits of the
  protocol. A bulk string never exceeds them; an inline command is not limited by the reader.\<close>

definition event_ok :: "srv_event \<Rightarrow> server \<Rightarrow> bool" where
  "event_ok e \<sigma> = (case e of
      Command i emptied ord clk \<Rightarrow> (\<forall>ks. mset (ord ks) = mset ks) \<and>
        (case fst (read_command (cn_in (sv_conns \<sigma> ! i))) of
           Inr (Some args) \<Rightarrow> command_fits args \<and> store_room (sv_store \<sigma>) (cmd_cost (store_kv (sv_store \<sigma>)) args)
         | _ \<Rightarrow> True)
    | _ \<Rightarrow> True)"

lemma phase_atD: "phase_at \<sigma> i = Some ph \<Longrightarrow> i < length (sv_conns \<sigma>) \<and> cn_phase (sv_conns \<sigma> ! i) = ph"
  by (simp add: phase_at_def split: if_splits)

lemma holds_refl: "holds b s G \<Longrightarrow> hist_grows G G"
  by (auto simp: holds_def intro: hist_grows_refl)

lemma send_out_ok: "cn_durable_by c = None \<Longrightarrow> conn_ok G s (send_out c)"
  by (simp add: conn_ok_def send_out_def)

lemma send_failed_ok: "cn_durable_by c = None \<Longrightarrow> conn_ok G s (send_failed e c)"
  by (simp add: conn_ok_def send_failed_def Let_def)

lemma send_phases [simp]:
  "busy (cn_phase (send_out c)) = 0" "busy (cn_phase (send_failed e c)) = 0" "busy (cn_phase (send c)) = 0"
  "cn_phase (send_out c) \<noteq> Blocked p" "cn_phase (send_failed e c) \<noteq> Blocked p" "cn_phase (send c) \<noteq> Blocked p"
  by (simp_all add: send_out_def send_failed_def send_def Let_def split: option.split)

lemma conn_ok_waiting: "conn_ok G s c \<Longrightarrow> waits_for (cn_phase c) \<noteq> None \<Longrightarrow> cn_durable_by c = None"
  by (cases "cn_durable_by c") (auto simp: conn_ok_def)

lemma send_ok:
  assumes "\<forall>q \<in> set_option (cn_durable_by c). q \<le> append_point s"
  shows "conn_ok G s (send c)"
  using assms by (auto simp: send_def conn_ok_def send_out_ok [unfolded conn_ok_def] split: option.split)

text \<open>What a command leaves: a history that has grown, points that have moved on, and replies that wait for
  no more than what was appended.\<close>

lemma must_reach_le:
  assumes "must_reach s db = Some q" and "\<forall>q \<in> set_option (db). q \<le> append_point s"
  shows "q \<le> append_point s"
  using assms by (auto simp: must_reach_def split: if_splits)

lemma write_to_not_Nil [simp]: "write_to r \<noteq> []"
  by (cases r) (simp_all add: ascii_def)

lemma serve_command_ok:
  assumes s: "holds True s G" "\<not> st_restoring s" and c: "conn_ok G s c" "cn_phase c = Reading"
    and ord: "\<forall>ks. mset (ord ks) = mset ks"
    and args: "\<And>args. fst (read_command (cn_in c)) = Inr (Some args) \<Longrightarrow>
      command_fits args \<and> store_room s (cmd_cost (store_kv s) args)"
    and r: "serve_command emptied ord clk s c = (s', c')"
  shows "\<exists>G'. holds True s' G' \<and> hist_grows G G' \<and> \<not> st_restoring s' \<and> st_opts s' = st_opts s \<and>
    marks_le (marks s) (marks s') \<and> conn_ok G' s' c' \<and>
    busy (cn_phase c') = 0 \<and> (\<forall>p. cn_phase c' \<noteq> Blocked p)"
proof -
  obtain x r1 where rc: "read_command (cn_in c) = (x, r1)" by fastforce
  consider args where "x = Inr (Some args)" "args \<noteq> []" | "x = Inr (Some [])" | "x = Inr None" | e where "x = Inl e"
    by (cases x) auto
  then show ?thesis
  proof cases
    case 1
    obtain reply s1 db where d: "dispatch ord clk s args (cn_durable_by c) = (reply, s1, db)" by (metis prod_cases3)
    have "ran_as (\<lambda>s'. grown True (st_opts s) G (marks s) s' \<and> store_room s' 0) (reply, s1, db) (spec_cmd (store_kv s) args)"
      using dispatch_refines [OF grownI [OF s] _, of args ord 0 clk "cn_durable_by c"] args 1 rc ord d by simp
    then have g: "grown True (st_opts s) G (marks s) s1" by (simp add: ran_as_def)
    then obtain G' where G': "holds True s1 G'" "hist_grows G G'" "marks_le (marks s) (marks s1)"
      by (auto simp: grown_def)
    have "append_point s \<le> append_point s1" using G'(3) by (simp add: marks_def)
    then have db1: "\<forall>q \<in> set_option (cn_durable_by c). q \<le> append_point s1"
      using c(1) by (auto simp: conn_ok_def intro: order_trans)
    then have db: "\<forall>q \<in> set_option (db). q \<le> append_point s1"
      using dispatch_must_reach [OF d] must_reach_le [OF _ db1] by auto
    define c1 where "c1 = c\<lparr> cn_in := r1, cn_out := cn_out c @ write_to reply, cn_durable_by := db \<rparr>"
    have ok1: "conn_ok G' s1 c1" using db c(2) by (simp add: conn_ok_def c1_def)
    have ok2: "conn_ok G' s1 (send (c1\<lparr> cn_last := l \<rparr>))" for l using db by (intro send_ok) (simp add: c1_def)
    have "s' = s1" "c' = c1 \<or> (\<exists>l. c' = send (c1\<lparr> cn_last := l \<rparr>))"
      using r rc 1 d by (auto simp: serve_command_def Let_def c1_def split: if_splits)
    moreover have "\<not> st_restoring s1" "st_opts s1 = st_opts s" using g by (simp_all add: grown_def)
    moreover have "busy (cn_phase c1) = 0" "\<forall>p. cn_phase c1 \<noteq> Blocked p" using c(2) by (simp_all add: c1_def)
    ultimately show ?thesis using ok1 ok2 G' by (intro exI [of _ G']) auto
  next
    case 2
    with r rc c s show ?thesis
      by (auto simp: serve_command_def Let_def conn_ok_def intro!: exI [of _ G] holds_refl)
  next
    case 3
    with r rc c s show ?thesis
      by (auto simp: serve_command_def Let_def conn_ok_def intro!: exI [of _ G] holds_refl)
  next
    case 4
    define c1 where "c1 = c\<lparr> cn_in := r1 \<rparr>"
    have "\<forall>q \<in> set_option (cn_durable_by c). q \<le> append_point s" using c(1) by (simp add: conn_ok_def)
    then have "conn_ok G s (send (c1\<lparr> cn_out := out, cn_last := l \<rparr>))" for out l by (intro send_ok) (simp add: c1_def)
    moreover have "conn_ok G s (c1\<lparr> cn_phase := Closed (Inl e) \<rparr>)" using c by (simp add: conn_ok_def c1_def)
    moreover have "s' = s" "(\<exists>out l. c' = send (c1\<lparr> cn_out := out, cn_last := l \<rparr>)) \<or> c' = c1\<lparr> cn_phase := Closed (Inl e) \<rparr>"
      using r rc 4 by (auto simp: serve_command_def Let_def c1_def split: error.splits io_kind.splits)
    ultimately show ?thesis using s by (auto intro!: exI [of _ G] holds_refl)
  qed
qed

lemma wait_check_ok:
  assumes ok: "server_ok opts G \<sigma>" and i: "i < length (sv_conns \<sigma>)"
    and c: "cn_phase (sv_conns \<sigma> ! i) = Checking p"
  shows "server_ok opts G (wait_check i p \<sigma>)"
proof -
  note D = server_okD [OF ok]
  have none: "cn_durable_by (sv_conns \<sigma> ! i) = None"
    using conn_ok_waiting [OF D(5) [OF i]] c by simp
  have p: "p \<le> append_point (sv_store \<sigma>)" using D(5) [OF i] c by (simp add: conn_ok_def)
  consider "p \<le> gc_point (sv_commits \<sigma>)" | "\<not> p \<le> gc_point (sv_commits \<sigma>)" "\<not> gc_syncing (sv_commits \<sigma>)"
    | "\<not> p \<le> gc_point (sv_commits \<sigma>)" "gc_syncing (sv_commits \<sigma>)" by blast
  then show ?thesis
  proof cases
    case 1
    then show ?thesis
      using server_ok_same [OF ok i send_out_ok [OF none]] c by (simp add: wait_check_def)
  next
    case 2
    let ?c = "(sv_conns \<sigma> ! i)\<lparr> cn_phase := TakingHandle p \<rparr>"
    have "conn_ok G (sv_store \<sigma>) ?c" using p none by (simp add: conn_ok_def)
    from server_ok_step [OF ok i D(1) holds_refl [OF D(1)] D(2,3) _ this, of "(sv_commits \<sigma>)\<lparr> gc_syncing := True \<rparr>"]
    show ?thesis using 2 D(4) c by (cases \<sigma>) (simp add: wait_check_def at_phase_def put_conn_def Let_def)
  next
    case 3
    have "conn_ok G (sv_store \<sigma>) ((sv_conns \<sigma> ! i)\<lparr> cn_phase := Blocked p \<rparr>)" using p none by (simp add: conn_ok_def)
    from server_ok_same [OF ok i this] 3 c show ?thesis by (simp add: wait_check_def at_phase_def)
  qed
qed

text \<open>The last step of a sync leaves the wait: with the replies sent, or with the connection closed.\<close>

definition finish_gc :: "point res \<Rightarrow> group_commit \<Rightarrow> group_commit" where
  "finish_gc result g = g\<lparr> gc_syncs := gc_syncs g + 1, gc_syncing := False,
     gc_point := (case result of Inl _ \<Rightarrow> gc_point g | Inr q \<Rightarrow> max (gc_point g) q) \<rparr>"

definition finish_conn :: "point res \<Rightarrow> conn \<Rightarrow> conn" where
  "finish_conn result c = (case result of Inl e \<Rightarrow> send_failed e c | Inr _ \<Rightarrow> send_out c)"

lemma wait_finish_eq:
  assumes "i < length (sv_conns \<sigma>)" and "cn_phase (sv_conns \<sigma> ! i) = Finishing p result"
    and "\<And>q. result = Inr q \<Longrightarrow> p \<le> q"
  shows "wait_finish i p result \<sigma> = \<lparr> sv_store = sv_store \<sigma>, sv_commits = finish_gc result (sv_commits \<sigma>),
    sv_conns = (map wake (sv_conns \<sigma>))[i := finish_conn result (sv_conns \<sigma> ! i)] \<rparr>"
proof -
  have "wake (sv_conns \<sigma> ! i) = sv_conns \<sigma> ! i" using assms(2) by (simp add: wake_def)
  then have w: "map wake (sv_conns \<sigma>) ! i = sv_conns \<sigma> ! i" using assms(1) by simp
  show ?thesis
  proof (cases result)
    case (Inl e)
    with w show ?thesis
      by (cases \<sigma>; cases "sv_commits \<sigma>") (simp add: wait_finish_def Let_def put_conn_def finish_gc_def finish_conn_def)
  next
    case (Inr q)
    have "p \<le> q" using assms(3) Inr by simp
    with w Inr show ?thesis
      by (cases \<sigma>; cases "sv_commits \<sigma>")
        (auto simp: wait_finish_def wait_check_def Let_def put_conn_def finish_gc_def finish_conn_def max_def
          dest: order_trans)
  qed
qed

lemma finishing_result:
  assumes "server_ok opts G \<sigma>" and "i < length (sv_conns \<sigma>)" and "cn_phase (sv_conns \<sigma> ! i) = Finishing p result"
    and "result = Inr q"
  shows "p \<le> q" and "q \<le> synced_point (sv_store \<sigma>)"
  using server_okD(5) [OF assms(1,2)] assms(3,4) by (simp_all add: conn_ok_def)

lemma busy_syncing:
  assumes "server_ok opts G \<sigma>" and "i < length (sv_conns \<sigma>)" and "busy (cn_phase (sv_conns \<sigma> ! i)) = 1"
  shows "gc_syncing (sv_commits \<sigma>)"
proof (rule ccontr)
  assume "\<not> gc_syncing (sv_commits \<sigma>)"
  then have "\<forall>c \<in> set (sv_conns \<sigma>). busy (cn_phase c) = 0" using server_okD(6) [OF assms(1)] by simp
  with assms(2,3) show False by (metis nth_mem zero_neq_one)
qed

lemma wait_finish_ok:
  assumes ok: "server_ok opts G \<sigma>" and i: "i < length (sv_conns \<sigma>)"
    and c: "cn_phase (sv_conns \<sigma> ! i) = Finishing p result"
  shows "server_ok opts G (wait_finish i p result \<sigma>)"
proof -
  let ?\<sigma> = "\<sigma>\<lparr> sv_conns := map wake (sv_conns \<sigma>) \<rparr>"
  note D = server_okD [OF ok]
  note r = finishing_result [OF ok i c]
  have none: "cn_durable_by (sv_conns \<sigma> ! i) = None"
    using conn_ok_waiting [OF D(5) [OF i]] c by simp
  have conn: "conn_ok G (sv_store \<sigma>) (finish_conn result (sv_conns \<sigma> ! i))"
    using none by (auto simp: finish_conn_def send_out_ok send_failed_ok split: sum.split)
  have gp: "gc_point (finish_gc result (sv_commits \<sigma>)) \<le> synced_point (sv_store \<sigma>)"
    using D(4) r(2) by (auto simp: finish_gc_def split: sum.split)
  have bc: "busy (cn_phase (finish_conn result (sv_conns \<sigma> ! i))) = 0"
    by (simp add: finish_conn_def split: sum.split)
  have "\<forall>p. cn_phase (finish_conn result (sv_conns \<sigma> ! i)) \<noteq> Blocked p"
    by (simp add: finish_conn_def split: sum.split)
  then have nb: "\<forall>d \<in> set ((map wake (sv_conns \<sigma>))[i := finish_conn result (sv_conns \<sigma> ! i)]). \<forall>p. cn_phase d \<noteq> Blocked p"
    using set_update_subset_insert [of "map wake (sv_conns \<sigma>)" i "finish_conn result (sv_conns \<sigma> ! i)"] by fastforce
  from server_ok_step [OF server_ok_wake [OF ok], of i "sv_store \<sigma>" G "finish_conn result (sv_conns \<sigma> ! i)"
      "finish_gc result (sv_commits \<sigma>)"]
  have "server_ok opts G \<lparr> sv_store = sv_store \<sigma>, sv_commits = finish_gc result (sv_commits \<sigma>),
      sv_conns = (map wake (sv_conns \<sigma>))[i := finish_conn result (sv_conns \<sigma> ! i)] \<rparr>"
    using i D(1,2,3) holds_refl [OF D(1)] conn gp bc nb c busy_syncing [OF ok i]
    by (simp add: finish_gc_def)
  then show ?thesis using wait_finish_eq [OF i c r(1)] by simp
qed

text \<open>A step of the thread that runs the sync, which changes the store and the thread's own phase.\<close>

lemma sync_phase_ok:
  assumes ok: "server_ok opts G \<sigma>" and i: "i < length (sv_conns \<sigma>)"
    and busy: "busy (cn_phase (sv_conns \<sigma> ! i)) = 1" "busy ph = 1"
    and store: "holds True s' G" "\<not> st_restoring s'" "st_opts s' = opts" "marks_le (marks (sv_store \<sigma>)) (marks s')"
    and ph: "phase_ok G s' ph"
  shows "server_ok opts G (at_phase i ph (\<sigma>\<lparr> sv_store := s' \<rparr>))"
proof -
  note D = server_okD [OF ok]
  have "waits_for (cn_phase (sv_conns \<sigma> ! i)) \<noteq> None"
    using busy(1) by (cases "cn_phase (sv_conns \<sigma> ! i)") auto
  then have "cn_durable_by (sv_conns \<sigma> ! i) = None" using conn_ok_waiting [OF D(5) [OF i]] by simp
  then have "conn_ok G s' ((sv_conns \<sigma> ! i)\<lparr> cn_phase := ph \<rparr>)" using ph by (simp add: conn_ok_def)
  moreover have "gc_point (sv_commits \<sigma>) \<le> synced_point s'"
    using D(4) store(4) by (auto simp: marks_def)
  ultimately have "server_ok opts G \<lparr> sv_store = s', sv_commits = sv_commits \<sigma>,
      sv_conns = (sv_conns \<sigma>)[i := (sv_conns \<sigma> ! i)\<lparr> cn_phase := ph \<rparr>] \<rparr>"
    using server_ok_step [OF ok i store(1) holds_refl [OF store(1)] store(2,3,4)] busy busy_syncing [OF ok i busy(1)]
    by simp
  then show ?thesis by (cases \<sigma>) (simp add: at_phase_def put_conn_def)
qed

lemma same_modeD: "same_mode s s' \<Longrightarrow> st_restoring s' = st_restoring s" "same_mode s s' \<Longrightarrow> st_opts s' = st_opts s"
  by (simp_all add: same_mode_def)

lemma server_step_ok:
  assumes ok: "server_ok opts G \<sigma>" and e: "event_ok e \<sigma>" and step: "server_step e \<sigma> = Some \<sigma>'"
  shows "\<exists>G'. server_ok opts G' \<sigma>' \<and> hist_grows G G'"
proof -
  note D = server_okD [OF ok]
  note same = holds_refl [OF D(1)]
  show ?thesis
  proof (cases e)
    case (Accept r)
    with ok step same show ?thesis
      by (intro exI [of _ G]) (auto simp: server_ok_def new_conn_def conn_ok_def)
  next
    case (HangUp i)
    with step have i: "i < length (sv_conns \<sigma>)" "\<sigma>' = put_conn i ((sv_conns \<sigma> ! i)\<lparr> cn_broken := True \<rparr>) \<sigma>"
      by (auto split: if_splits)
    have "gc_syncing (sv_commits \<sigma>) \<or> (\<forall>p. cn_phase (sv_conns \<sigma> ! i) \<noteq> Blocked p)" using D(7) i(1) by auto
    then have "server_ok opts G \<sigma>'"
      unfolding i(2) by (intro server_ok_same [OF ok i(1)]) (use D(5) [OF i(1)] in \<open>simp_all add: conn_ok_def\<close>)
    with same show ?thesis by blast
  next
    case (Command i emptied ord clk)
    obtain s' c' where sc: "serve_command emptied ord clk (sv_store \<sigma>) (sv_conns \<sigma> ! i) = (s', c')" by fastforce
    have i: "i < length (sv_conns \<sigma>)" "cn_phase (sv_conns \<sigma> ! i) = Reading" "\<sigma>' = put_conn i c' (\<sigma>\<lparr> sv_store := s' \<rparr>)"
      using step Command sc by (auto split: option.splits phase.splits dest: phase_atD)
    obtain G' where G': "holds True s' G'" "hist_grows G G'" "\<not> st_restoring s'" "st_opts s' = st_opts (sv_store \<sigma>)"
      "marks_le (marks (sv_store \<sigma>)) (marks s')" "conn_ok G' s' c'" "busy (cn_phase c') = 0" "\<forall>p. cn_phase c' \<noteq> Blocked p"
    proof -
      have "\<forall>ks. mset (ord ks) = mset ks" using e Command by (simp add: event_ok_def)
      moreover have "command_fits args \<and> store_room (sv_store \<sigma>) (cmd_cost (store_kv (sv_store \<sigma>)) args)"
        if "fst (read_command (cn_in (sv_conns \<sigma> ! i))) = Inr (Some args)" for args
        using e Command that by (simp add: event_ok_def)
      ultimately show thesis using serve_command_ok [OF D(1,2) D(5) [OF i(1)] i(2) _ _ sc] that by blast
    qed
    have "gc_point (sv_commits \<sigma>) \<le> synced_point s'" using D(4) G'(5) by (auto simp: marks_def)
    moreover have "gc_syncing (sv_commits \<sigma>) \<or> (\<forall>c \<in> set ((sv_conns \<sigma>)[i := c']). \<forall>p. cn_phase c \<noteq> Blocked p)"
      using D(7) G'(8) set_update_subset_insert [of "sv_conns \<sigma>" i c'] by fastforce
    ultimately have "server_ok opts G' \<lparr> sv_store = s', sv_commits = sv_commits \<sigma>, sv_conns = (sv_conns \<sigma>)[i := c'] \<rparr>"
      using server_ok_step [OF ok i(1) G'(1,2,3) _ G'(5,6), of "sv_commits \<sigma>"] G'(4,7) D(3) i(2) by simp
    with G'(2) i(3) show ?thesis by (cases \<sigma>) (auto simp: put_conn_def)
  next
    case (Check i)
    with step obtain p where "phase_at \<sigma> i = Some (Checking p)" "\<sigma>' = wait_check i p \<sigma>"
      by (auto split: option.splits phase.splits)
    with wait_check_ok [OF ok, of i p] same show ?thesis by (blast dest: phase_atD)
  next
    case (WakeUp i)
    with step obtain p where "phase_at \<sigma> i = Some (Blocked p)" and s': "\<sigma>' = at_phase i (Checking p) \<sigma>"
      by (auto split: option.splits phase.splits)
    then have i: "i < length (sv_conns \<sigma>)" "cn_phase (sv_conns \<sigma> ! i) = Blocked p" by (auto dest: phase_atD)
    have "server_ok opts G \<sigma>'"
      unfolding s' at_phase_def
      by (intro server_ok_same [OF ok i(1)]) (use D(5) [OF i(1)] i(2) in \<open>auto simp: conn_ok_def\<close>)
    with same show ?thesis by blast
  next
    case (TakeHandle i)
    with step obtain p where p: "phase_at \<sigma> i = Some (TakingHandle p)" by (auto split: option.splits phase.splits)
    then have i: "i < length (sv_conns \<sigma>)" "cn_phase (sv_conns \<sigma> ! i) = TakingHandle p" by (auto dest: phase_atD)
    obtain s' where s': "sync_handle (sv_store \<sigma>) = (Inr (fst (append_point (sv_store \<sigma>)), append_point (sv_store \<sigma>)), s')"
      "holds True s' G" "written_point s' = append_point (sv_store \<sigma>)" "same_mode (sv_store \<sigma>) s'"
      "marks_le (marks (sv_store \<sigma>)) (marks s')"
      using sync_handle_ok [OF D(1)] by blast
    have "fst (append_point (sv_store \<sigma>)) \<in> set (adom G)"
      using holds_point [OF D(1)] D(1) by (auto simp: point_of_def holds_def)
    moreover have "p \<le> append_point (sv_store \<sigma>)" using D(5) [OF i(1)] i(2) by (simp add: conn_ok_def)
    ultimately have "server_ok opts G (at_phase i (Fsyncing p (fst (append_point (sv_store \<sigma>)), append_point (sv_store \<sigma>)))
        (\<sigma>\<lparr> sv_store := s' \<rparr>))"
      using s' same_modeD [OF s'(4)] D(2,3) i(2) by (intro sync_phase_ok [OF ok i(1)]) auto
    with step TakeHandle p s'(1) same show ?thesis by auto
  next
    case (Fsync i refused)
    with step obtain p h where p: "phase_at \<sigma> i = Some (Fsyncing p h)" by (auto split: option.splits phase.splits)
    then have i: "i < length (sv_conns \<sigma>)" "cn_phase (sv_conns \<sigma> ! i) = Fsyncing p h" by (auto dest: phase_atD)
    have h: "h = (fst (snd h), snd h)" "p \<le> snd h" "snd h \<le> written_point (sv_store \<sigma>)" "fst (snd h) \<in> set (adom G)"
      using D(5) [OF i(1)] i(2) by (auto simp: conn_ok_def prod_eq_iff simp del: set_map)
    show ?thesis
    proof (cases refused)
      case True
      have "server_ok opts G (at_phase i (Finishing p (Inl device_fault)) (\<sigma>\<lparr> sv_store := sv_store \<sigma> \<rparr>))"
        using D i(2) by (intro sync_phase_ok [OF ok i(1)]) auto
      with step Fsync p True same show ?thesis by auto
    next
      case False
      obtain d where d: "sync_handle_sync (fst (snd h), snd h) (st_fs (sv_store \<sigma>)) = (Inr (snd h), d)"
        "holds True ((sv_store \<sigma>)\<lparr> st_fs := d \<rparr>) G" "snd h \<le> disk_point ((sv_store \<sigma>)\<lparr> st_fs := d \<rparr>)"
        "marks_le (marks (sv_store \<sigma>)) (marks ((sv_store \<sigma>)\<lparr> st_fs := d \<rparr>))"
        using sync_handle_sync_ok [OF D(1) h(4,3)] by blast
      have "server_ok opts G (at_phase i (Noting p (snd h)) (\<sigma>\<lparr> sv_store := (sv_store \<sigma>)\<lparr> st_fs := d \<rparr> \<rparr>))"
        using d D(2,3) h(2) i(2) by (intro sync_phase_ok [OF ok i(1)]) auto
      with step Fsync p False d(1) h(1) same show ?thesis by (auto simp del: prod.collapse)
    qed
  next
    case (Note i)
    with step obtain p q where p: "phase_at \<sigma> i = Some (Noting p q)" by (auto split: option.splits phase.splits)
    then have i: "i < length (sv_conns \<sigma>)" "cn_phase (sv_conns \<sigma> ! i) = Noting p q" by (auto dest: phase_atD)
    have q: "p \<le> q" "q \<le> disk_point (sv_store \<sigma>)" using D(5) [OF i(1)] i(2) by (auto simp: conn_ok_def)
    note n = note_synced_ok [OF D(1) q(2)]
    have "server_ok opts G (at_phase i (Finishing p (Inr q)) (\<sigma>\<lparr> sv_store := note_synced (sv_store \<sigma>) q \<rparr>))"
      using n same_modeD [OF n(4)] D(2,3) q(1) i(2) by (intro sync_phase_ok [OF ok i(1)]) auto
    with step Note p same show ?thesis by auto
  next
    case (Finish i)
    with step obtain p r where "phase_at \<sigma> i = Some (Finishing p r)" "\<sigma>' = wait_finish i p r \<sigma>"
      by (auto split: option.splits phase.splits)
    with wait_finish_ok [OF ok, of i p r] same show ?thesis by (blast dest: phase_atD)
  qed
qed

section \<open>Runs\<close>

inductive server_runs :: "server \<Rightarrow> server \<Rightarrow> bool" where
  here: "server_runs \<sigma> \<sigma>"
| onward: "server_runs \<sigma> \<sigma>1 \<Longrightarrow> event_ok e \<sigma>1 \<Longrightarrow> server_step e \<sigma>1 = Some \<sigma>2 \<Longrightarrow> server_runs \<sigma> \<sigma>2"

lemma server_runs_ok:
  "server_runs \<sigma> \<sigma>' \<Longrightarrow> server_ok opts G \<sigma> \<Longrightarrow> \<exists>G'. server_ok opts G' \<sigma>' \<and> hist_grows G G'"
proof (induction rule: server_runs.induct)
  case (here \<sigma>)
  then show ?case using holds_refl server_okD(1) by blast
next
  case (onward \<sigma> \<sigma>1 e \<sigma>2)
  then obtain G1 where "server_ok opts G1 \<sigma>1" "hist_grows G G1" by blast
  with server_step_ok [OF _ onward.hyps(2,3)] show ?case by (meson hist_grows_trans)
qed

lemma server_bind_ok:
  assumes "holds True s G" and "\<not> st_restoring s" and "is_synced s"
  shows "server_ok (st_opts s) G (server_bind s)"
  using assms by (simp add: server_ok_def server_bind_def group_commit_new_def append_point_def synced_point_def is_synced_def)

text \<open>A write of connection \<open>i\<close> that ended at \<open>p\<close> is accounted for: the disk has it, or its reply is held
  back and waits for it, or the connection has failed.\<close>

definition covered :: "server \<Rightarrow> nat \<Rightarrow> point \<Rightarrow> bool" where
  "covered \<sigma> i p \<longleftrightarrow> i < length (sv_conns \<sigma>) \<and> (p \<le> gc_point (sv_commits \<sigma>) \<or>
     (\<exists>q \<in> set_option (cn_durable_by (sv_conns \<sigma> ! i)) \<union> set_option (waits_for (cn_phase (sv_conns \<sigma> ! i))). p \<le> q) \<or>
     (\<exists>e. cn_phase (sv_conns \<sigma> ! i) = Closed (Inl e)))"

definition conn_covers :: "point \<Rightarrow> conn \<Rightarrow> bool" where
  "conn_covers p c \<longleftrightarrow> (\<exists>q \<in> set_option (cn_durable_by c) \<union> set_option (waits_for (cn_phase c)). p \<le> q) \<or>
     (\<exists>e. cn_phase c = Closed (Inl e))"

lemma covered_iff:
  "covered \<sigma> i p \<longleftrightarrow> i < length (sv_conns \<sigma>) \<and> (p \<le> gc_point (sv_commits \<sigma>) \<or> conn_covers p (sv_conns \<sigma> ! i))"
  by (auto simp: covered_def conn_covers_def)

lemma conn_covers_wake [simp]: "conn_covers p (wake c) = conn_covers p c"
  by (simp add: conn_covers_def)

lemma conn_covers_send: "conn_covers p c \<Longrightarrow> waits_for (cn_phase c) = None \<Longrightarrow> (\<forall>r. cn_phase c \<noteq> Closed r) \<Longrightarrow> conn_covers p (send c)"
  by (cases "cn_durable_by c") (auto simp: conn_covers_def send_def)

text \<open>Another thread's step leaves the connection alone, but for a wake-up.\<close>

lemma must_reach_mono: "q \<in> set_option db \<Longrightarrow> p \<le> q \<Longrightarrow> \<exists>q \<in> set_option (must_reach s db). p \<le> q"
  by (cases db) (auto simp: must_reach_def intro: order_trans less_imp_le)

lemma serve_command_covers:
  assumes "conn_covers p c" and "cn_phase c = Reading" and "serve_command emptied ord clk s c = (s', c')"
  shows "conn_covers p c'"
proof -
  obtain q where q: "q \<in> set_option (cn_durable_by c)" "p \<le> q" using assms(1,2) by (auto simp: conn_covers_def)
  obtain x r1 where rc: "read_command (cn_in c) = (x, r1)" by fastforce
  have keep: "conn_covers p c1" "conn_covers p (send c1)"
    if "\<exists>q \<in> set_option (cn_durable_by c1). p \<le> q" "cn_phase c1 = Reading" for c1
  proof -
    show "conn_covers p c1" using that by (auto simp: conn_covers_def)
    then show "conn_covers p (send c1)" using that(2) by (intro conn_covers_send) auto
  qed
  consider args where "x = Inr (Some args)" "args \<noteq> []" | "x = Inr (Some [])" | "x = Inr None" | e where "x = Inl e"
    by (cases x) auto
  then show ?thesis
  proof cases
    case 1
    obtain reply s1 db where d: "dispatch ord clk s args (cn_durable_by c) = (reply, s1, db)" by (metis prod_cases3)
    have "\<exists>q \<in> set_option db. p \<le> q" using dispatch_must_reach [OF d] q must_reach_mono [OF q, of s1] by auto
    with assms(2,3) rc 1 d show ?thesis
      by (auto simp: serve_command_def Let_def split: if_splits intro!: keep)
  next
    case 2
    with assms rc show ?thesis by (auto simp: serve_command_def conn_covers_def)
  next
    case 3
    with assms rc q show ?thesis by (auto simp: serve_command_def conn_covers_def)
  next
    case 4
    define c1 where "c1 = c\<lparr> cn_in := r1 \<rparr>"
    have "(\<exists>out l. c' = send (c1\<lparr> cn_out := out, cn_last := l \<rparr>)) \<or> c' = c1\<lparr> cn_phase := Closed (Inl e) \<rparr>"
      using assms(3) rc 4 by (auto simp: serve_command_def Let_def c1_def split: error.splits io_kind.splits)
    moreover have "conn_covers p (send (c1\<lparr> cn_out := out, cn_last := l \<rparr>))" for out l
      using q assms(2) by (intro keep(2)) (auto simp: c1_def)
    moreover have "conn_covers p (c1\<lparr> cn_phase := Closed (Inl e) \<rparr>)" by (simp add: conn_covers_def)
    ultimately show ?thesis by blast
  qed
qed

lemma covers_put:
  assumes "covered \<sigma> i p" and "sv_conns \<sigma>' = (sv_conns \<sigma>)[j := c]" and "gc_point (sv_commits \<sigma>) \<le> gc_point (sv_commits \<sigma>')"
    and "i = j \<Longrightarrow> conn_covers p (sv_conns \<sigma> ! j) \<Longrightarrow> conn_covers p c \<or> p \<le> gc_point (sv_commits \<sigma>')"
  shows "covered \<sigma>' i p"
  using assms by (cases "i = j") (auto simp: covered_iff intro: order_trans)

lemma covers_phase:
  "conn_covers p c \<Longrightarrow> waits_for ph = waits_for (cn_phase c) \<Longrightarrow> waits_for ph \<noteq> None \<Longrightarrow>
   conn_covers p (c\<lparr> cn_phase := ph \<rparr>)"
  by (auto simp: conn_covers_def)

lemma at_phase_covered:
  assumes "covered \<sigma> i p" and "cn_phase (sv_conns \<sigma> ! j) = ph'" and "waits_for ph = waits_for ph'" "waits_for ph \<noteq> None"
  shows "covered (at_phase j ph (\<sigma>\<lparr> sv_store := s \<rparr>)) i p" and "covered (at_phase j ph \<sigma>) i p"
proof -
  note cp = covers_phase [of p "sv_conns \<sigma> ! j" ph]
  show "covered (at_phase j ph (\<sigma>\<lparr> sv_store := s \<rparr>)) i p" "covered (at_phase j ph \<sigma>) i p"
    using assms cp
    by (auto intro!: covers_put [OF assms(1), where j = j and c = "(sv_conns \<sigma> ! j)\<lparr> cn_phase := ph \<rparr>"]
        simp: at_phase_def put_conn_def)
qed

lemma wait_check_covered:
  assumes "covered \<sigma> i p" and "server_ok opts G \<sigma>" and "j < length (sv_conns \<sigma>)" and "cn_phase (sv_conns \<sigma> ! j) = Checking q"
  shows "covered (wait_check j q \<sigma>) i p"
proof (cases "q \<le> gc_point (sv_commits \<sigma>)")
  case True
  have "cn_durable_by (sv_conns \<sigma> ! j) = None"
    using conn_ok_waiting [OF server_okD(5) [OF assms(2,3)]] assms(4) by simp
  then have "p \<le> gc_point (sv_commits \<sigma>)" if "conn_covers p (sv_conns \<sigma> ! j)"
    using that assms(4) True by (auto simp: conn_covers_def intro: order_trans)
  with True show ?thesis
    by (intro covers_put [OF assms(1), where j = j and c = "send_out (sv_conns \<sigma> ! j)"])
      (auto simp: wait_check_def put_conn_def)
next
  case False
  note cp = covers_phase [of p "sv_conns \<sigma> ! j"]
  show ?thesis
  proof (cases "gc_syncing (sv_commits \<sigma>)")
    case True
    with False assms(4) at_phase_covered(2) [OF assms(1,4)] show ?thesis by (simp add: wait_check_def)
  next
    case ns: False
    with False assms(4) cp [of "TakingHandle q"] show ?thesis
      by (intro covers_put [OF assms(1), where j = j and c = "(sv_conns \<sigma> ! j)\<lparr> cn_phase := TakingHandle q \<rparr>"])
        (auto simp: wait_check_def at_phase_def put_conn_def Let_def)
  qed
qed

lemma wait_finish_covered:
  assumes "covered \<sigma> i p" and ok: "server_ok opts G \<sigma>" and j: "j < length (sv_conns \<sigma>)"
    and c: "cn_phase (sv_conns \<sigma> ! j) = Finishing q result"
  shows "covered (wait_finish j q result \<sigma>) i p"
proof -
  let ?\<sigma> = "\<sigma>\<lparr> sv_conns := map wake (sv_conns \<sigma>) \<rparr>"
  have w: "covered ?\<sigma> i p" using assms(1) by (auto simp: covered_iff)
  have none: "cn_durable_by (sv_conns \<sigma> ! j) = None"
    using conn_ok_waiting [OF server_okD(5) [OF ok j]] c by simp
  have "conn_covers p (finish_conn result (sv_conns \<sigma> ! j)) \<or> p \<le> gc_point (finish_gc result (sv_commits \<sigma>))"
    if "conn_covers p (sv_conns \<sigma> ! j)"
  proof (cases result)
    case (Inl e)
    then show ?thesis by (simp add: finish_conn_def conn_covers_def send_failed_def Let_def)
  next
    case (Inr r)
    have "p \<le> q" using that none c by (auto simp: conn_covers_def)
    also have "q \<le> r" using finishing_result(1) [OF ok j c Inr] .
    finally show ?thesis using Inr by (simp add: finish_gc_def le_max_iff_disj)
  qed
  moreover have "gc_point (sv_commits \<sigma>) \<le> gc_point (finish_gc result (sv_commits \<sigma>))"
    by (simp add: finish_gc_def split: sum.split)
  moreover have eq: "wait_finish j q result \<sigma> = \<lparr> sv_store = sv_store \<sigma>, sv_commits = finish_gc result (sv_commits \<sigma>),
    sv_conns = (map wake (sv_conns \<sigma>))[j := finish_conn result (sv_conns \<sigma> ! j)] \<rparr>"
    using wait_finish_eq [OF j c] finishing_result(1) [OF ok j c] by blast
  ultimately show ?thesis
    unfolding eq using j by (intro covers_put [OF w, where j = j and c = "finish_conn result (sv_conns \<sigma> ! j)"]) auto
qed

lemma covered_step:
  assumes cov: "covered \<sigma> i p" and ok: "server_ok opts G \<sigma>" and step: "server_step e \<sigma> = Some \<sigma>'"
  shows "covered \<sigma>' i p"
proof (cases e)
  case (Accept r)
  with step cov show ?thesis by (auto simp: covered_iff nth_append)
next
  case (HangUp j)
  with step show ?thesis
    by (intro covers_put [OF cov, where j = j and c = "(sv_conns \<sigma> ! j)\<lparr> cn_broken := True \<rparr>"])
      (auto simp: put_conn_def conn_covers_def split: if_splits)
next
  case (Command j emptied ord clk)
  obtain s' c' where sc: "serve_command emptied ord clk (sv_store \<sigma>) (sv_conns \<sigma> ! j) = (s', c')" by fastforce
  with step Command have j: "cn_phase (sv_conns \<sigma> ! j) = Reading" "\<sigma>' = put_conn j c' (\<sigma>\<lparr> sv_store := s' \<rparr>)"
    by (auto split: option.splits phase.splits dest: phase_atD)
  then show ?thesis
    using serve_command_covers [OF _ j(1) sc, of p]
    by (intro covers_put [OF cov, where j = j and c = c']) (auto simp: put_conn_def)
next
  case (Check j)
  with step obtain q where "phase_at \<sigma> j = Some (Checking q)" "\<sigma>' = wait_check j q \<sigma>"
    by (auto split: option.splits phase.splits)
  with wait_check_covered [OF cov ok] show ?thesis by (blast dest: phase_atD)
next
  case (WakeUp j)
  with step obtain q where "phase_at \<sigma> j = Some (Blocked q)" "\<sigma>' = at_phase j (Checking q) \<sigma>"
    by (auto split: option.splits phase.splits)
  with at_phase_covered(2) [OF cov, of j "Blocked q" "Checking q"] show ?thesis by (auto dest: phase_atD)
next
  case (TakeHandle j)
  with step obtain q where q: "phase_at \<sigma> j = Some (TakingHandle q)" by (auto split: option.splits phase.splits)
  then have "cn_phase (sv_conns \<sigma> ! j) = TakingHandle q" by (auto dest: phase_atD)
  from at_phase_covered(1) [OF cov this] step TakeHandle q show ?thesis
    by (auto split: prod.splits sum.splits)
next
  case (Fsync j refused)
  with step obtain q h where q: "phase_at \<sigma> j = Some (Fsyncing q h)" by (auto split: option.splits phase.splits)
  then have "cn_phase (sv_conns \<sigma> ! j) = Fsyncing q h" by (auto dest: phase_atD)
  from at_phase_covered [OF cov this] step Fsync q show ?thesis
    by (auto split: prod.splits sum.splits if_splits)
next
  case (Note j)
  with step obtain q r where q: "phase_at \<sigma> j = Some (Noting q r)" by (auto split: option.splits phase.splits)
  then have "cn_phase (sv_conns \<sigma> ! j) = Noting q r" by (auto dest: phase_atD)
  from at_phase_covered(1) [OF cov this, of "Finishing q (Inr r)"] step Note q show ?thesis by auto
next
  case (Finish j)
  with step obtain q r where "phase_at \<sigma> j = Some (Finishing q r)" "\<sigma>' = wait_finish j q r \<sigma>"
    by (auto split: option.splits phase.splits)
  with wait_finish_covered [OF cov ok] show ?thesis by (blast dest: phase_atD)
qed

section \<open>No reply before the disk\<close>

lemma covered_runs:
  "server_runs \<sigma> \<sigma>' \<Longrightarrow> server_ok opts G \<sigma> \<Longrightarrow> covered \<sigma> i p \<Longrightarrow> covered \<sigma>' i p"
proof (induction rule: server_runs.induct)
  case (onward \<sigma> \<sigma>1 e \<sigma>2)
  with server_runs_ok covered_step show ?case by blast
qed

lemma serve_command_starts:
  assumes "serve_command emptied ord clk s c = (s', c')" and "append_point s' \<noteq> append_point s"
    and "cn_phase c = Reading" and "opt_sync (st_opts s') = EveryWrite"
  shows "conn_covers (append_point s') c'"
proof -
  obtain x r1 where rc: "read_command (cn_in c) = (x, r1)" by fastforce
  have "\<exists>args. x = Inr (Some args) \<and> args \<noteq> []"
    using assms(1,2) rc
    by (auto simp: serve_command_def Let_def split: sum.splits option.splits if_splits error.splits io_kind.splits)
  then obtain args where x: "x = Inr (Some args)" "args \<noteq> []" by blast
  obtain reply s1 db where d: "dispatch ord clk s args (cn_durable_by c) = (reply, s1, db)" by (metis prod_cases3)
  have s1: "s' = s1" using assms(1) rc x d by (auto simp: serve_command_def Let_def split: if_splits)
  then have "db = must_reach s' (cn_durable_by c)" using dispatch_must_reach [OF d] assms(2) by auto
  then obtain q where q: "db = Some q" "append_point s' \<le> q" using must_reach_covers [OF assms(4)] by metis
  define c1 where "c1 = c\<lparr> cn_in := r1, cn_out := cn_out c @ write_to reply, cn_durable_by := db \<rparr>"
  have "conn_covers (append_point s') c1" "conn_covers (append_point s') (send (c1\<lparr> cn_last := l \<rparr>))" for l
    using q assms(3) by (auto simp: c1_def conn_covers_def send_def)
  moreover have "c' = c1 \<or> (\<exists>l. c' = send (c1\<lparr> cn_last := l \<rparr>))"
    using assms(1) rc x d by (auto simp: serve_command_def Let_def c1_def split: if_splits)
  ultimately show ?thesis by blast
qed

text \<open>
  (C2) An acknowledged write survives a power cut. Take a server over a store that syncs every write, any
  number of connections and any interleaving of their threads, with fsyncs failing at will. If
  connection \<open>i\<close> runs a command that appends to the store, then once the connection has sent every reply it
  held and has not failed, a power cut at that moment leaves a directory that opens to a history that
  begins with everything the store held right after that command.
\<close>

theorem acked_write_survives:
  assumes "holds True s G" and "\<not> st_restoring s" and "is_synced s" and "opt_sync (st_opts s) = EveryWrite"
    and "server_runs (server_bind s) \<sigma>1" and "event_ok (Command i emptied ord clk) \<sigma>1"
    and "server_step (Command i emptied ord clk) \<sigma>1 = Some \<sigma>2"
    and "append_point (sv_store \<sigma>2) \<noteq> append_point (sv_store \<sigma>1)" and "server_runs \<sigma>2 \<sigma>3"
    and "cn_out (sv_conns \<sigma>3 ! i) = []" and "cn_phase (sv_conns \<sigma>3 ! i) \<in> {Reading, Closed (Inr ())}"
  shows "\<exists>H E s'. store_log True (sv_store \<sigma>2) H \<and>
    store_open opts (fs_power_cut (st_fs (sv_store \<sigma>3))) = (Inr s', st_fs s') \<and> store_log True s' (H @ E)"
proof -
  obtain G1 where ok1: "server_ok (st_opts s) G1 \<sigma>1"
    using server_runs_ok [OF assms(5) server_bind_ok [OF assms(1,2,3)]] by blast
  obtain G2 where ok2: "server_ok (st_opts s) G2 \<sigma>2" using server_step_ok [OF ok1 assms(6,7)] by blast
  obtain G3 where ok3: "server_ok (st_opts s) G3 \<sigma>3" "hist_grows G2 G3" using server_runs_ok [OF assms(9) ok2] by blast
  have "covered \<sigma>2 i (append_point (sv_store \<sigma>2))"
  proof -
    obtain s' c' where sc: "serve_command emptied ord clk (sv_store \<sigma>1) (sv_conns \<sigma>1 ! i) = (s', c')" by fastforce
    with assms(7) have i: "i < length (sv_conns \<sigma>1)" "cn_phase (sv_conns \<sigma>1 ! i) = Reading"
      "\<sigma>2 = put_conn i c' (\<sigma>1\<lparr> sv_store := s' \<rparr>)"
      by (auto split: option.splits phase.splits dest: phase_atD)
    have "opt_sync (st_opts s') = EveryWrite" using server_okD(3) [OF ok2] i(3) assms(4) by (simp add: put_conn_def)
    with serve_command_starts [OF sc _ i(2)] assms(8) i show ?thesis by (simp add: covered_iff put_conn_def)
  qed
  then have cov: "covered \<sigma>3 i (append_point (sv_store \<sigma>2))" by (rule covered_runs [OF assms(9) ok2])
  then have "i < length (sv_conns \<sigma>3)" by (simp add: covered_iff)
  from server_okD(5) [OF ok3(1) this] assms(10,11) have "\<not> conn_covers q (sv_conns \<sigma>3 ! i)" for q
    by (auto simp: conn_ok_def conn_covers_def)
  with cov have "append_point (sv_store \<sigma>2) \<le> gc_point (sv_commits \<sigma>3)" by (simp add: covered_iff)
  also note server_okD(4) [OF ok3(1)]
  finally have "point_of G2 \<le> synced_point (sv_store \<sigma>3)" using holds_point [OF server_okD(1) [OF ok2]] by simp
  with power_cut_keeps [OF server_okD(1) [OF ok3(1)] ok3(2)] holds_log [OF server_okD(1) [OF ok2]] show ?thesis by blast
qed

section \<open>No thread waits forever\<close>

fun rank :: "phase \<Rightarrow> nat" where
  "rank (Checking _) = 5"
| "rank (TakingHandle _) = 4"
| "rank (Fsyncing _ _) = 3"
| "rank (Noting _ _) = 2"
| "rank (Finishing _ _) = 1"
| "rank _ = 0"

definition weight :: "nat \<Rightarrow> phase \<Rightarrow> nat" where
  "weight n ph = (5 * n + 1) * of_bool (waits_for ph \<noteq> None) + rank ph"

definition pending_steps :: "server \<Rightarrow> nat" where
  "pending_steps \<sigma> = sum_list (map (\<lambda>c. weight (length (sv_conns \<sigma>)) (cn_phase c)) (sv_conns \<sigma>))"

fun wait_event :: "srv_event \<Rightarrow> bool" where
  "wait_event (Check _) = True"
| "wait_event (TakeHandle _) = True"
| "wait_event (Fsync _ _) = True"
| "wait_event (Note _) = True"
| "wait_event (Finish _) = True"
| "wait_event _ = False"

lemma pending_put:
  assumes "i < length (sv_conns \<sigma>)" and "sv_conns \<sigma>' = (sv_conns \<sigma>)[i := c]"
    and "weight (length (sv_conns \<sigma>)) (cn_phase c) < weight (length (sv_conns \<sigma>)) (cn_phase (sv_conns \<sigma> ! i))"
  shows "pending_steps \<sigma>' < pending_steps \<sigma>"
proof -
  let ?f = "\<lambda>c. weight (length (sv_conns \<sigma>)) (cn_phase c)"
  have "?f (sv_conns \<sigma> ! i) \<le> sum_list (map ?f (sv_conns \<sigma>))" using assms(1) by (intro member_le_sum_list) auto
  with assms show ?thesis by (simp add: pending_steps_def map_update sum_list_update)
qed

lemma weight_sent: "waits_for ph \<noteq> None \<Longrightarrow> weight n (cn_phase (send_out c)) < weight n ph"
  by (auto simp: weight_def send_out_def)

lemma at_phase_pending:
  assumes "i < length (sv_conns \<sigma>)" and "cn_phase (sv_conns \<sigma> ! i) = ph'" and "waits_for ph \<noteq> None"
    "waits_for ph' \<noteq> None" "rank ph < rank ph'"
  shows "pending_steps (at_phase i ph (\<sigma>\<lparr> sv_store := s \<rparr>)) < pending_steps \<sigma>"
    and "pending_steps (at_phase i ph \<sigma>) < pending_steps \<sigma>"
    and "pending_steps (at_phase i ph (\<sigma>\<lparr> sv_commits := g \<rparr>)) < pending_steps \<sigma>"
  using assms
  by (auto intro!: pending_put [OF assms(1), where c = "(sv_conns \<sigma> ! i)\<lparr> cn_phase := ph \<rparr>"]
      simp: at_phase_def put_conn_def weight_def)

lemma wait_finish_pending:
  assumes ok: "server_ok opts G \<sigma>" and i: "i < length (sv_conns \<sigma>)"
    and c: "cn_phase (sv_conns \<sigma> ! i) = Finishing p result"
  shows "pending_steps (wait_finish i p result \<sigma>) < pending_steps \<sigma>"
proof -
  let ?n = "length (sv_conns \<sigma>)"
  let ?f = "\<lambda>c. weight ?n (cn_phase c)"
  let ?c = "finish_conn result (sv_conns \<sigma> ! i)"
  have eq: "wait_finish i p result \<sigma> = \<lparr> sv_store = sv_store \<sigma>, sv_commits = finish_gc result (sv_commits \<sigma>),
    sv_conns = (map wake (sv_conns \<sigma>))[i := ?c] \<rparr>"
    using wait_finish_eq [OF i c] finishing_result(1) [OF ok i c] by blast
  have "?f ?c = 0"
    by (auto simp: finish_conn_def send_failed_def send_out_def weight_def Let_def split: sum.split)
  moreover have wi: "?f (wake (sv_conns \<sigma> ! i)) = 5 * ?n + 2" using c by (simp add: wake_def weight_def)
  moreover have "sum_list (map ?f (map wake (sv_conns \<sigma>))) \<le> sum_list (map ?f (sv_conns \<sigma>)) + 5 * ?n"
  proof -
    have one: "?f (wake c) \<le> ?f c + 5" for c by (auto simp: wake_def weight_def split: phase.split)
    have "sum_list (map (\<lambda>c. ?f (wake c)) xs) \<le> sum_list (map ?f xs) + 5 * length xs" for xs
    proof (induction xs)
      case (Cons c xs)
      then show ?case using one [of c] by simp
    qed simp
    then show ?thesis by (simp add: comp_def)
  qed
  moreover have "?f (wake (sv_conns \<sigma> ! i)) \<le> sum_list (map ?f (map wake (sv_conns \<sigma>)))"
    using i by (intro member_le_sum_list) auto
  ultimately have "sum_list ((map ?f (map wake (sv_conns \<sigma>)))[i := ?f ?c]) < sum_list (map ?f (sv_conns \<sigma>))"
    using i by (simp add: sum_list_update)
  then show ?thesis unfolding eq by (simp add: pending_steps_def map_update)
qed

lemma wait_step_pending:
  assumes ok: "server_ok opts G \<sigma>" and e: "wait_event e" and step: "server_step e \<sigma> = Some \<sigma>'"
  shows "pending_steps \<sigma>' < pending_steps \<sigma>"
proof (cases e)
  case (Check i)
  with step obtain p where p: "phase_at \<sigma> i = Some (Checking p)" "\<sigma>' = wait_check i p \<sigma>"
    by (auto split: option.splits phase.splits)
  then have i: "i < length (sv_conns \<sigma>)" "cn_phase (sv_conns \<sigma> ! i) = Checking p" by (auto dest: phase_atD)
  have "pending_steps (put_conn i (send_out (sv_conns \<sigma> ! i)) \<sigma>) < pending_steps \<sigma>"
    using weight_sent [of "Checking p"] i(2)
    by (intro pending_put [OF i(1), where c = "send_out (sv_conns \<sigma> ! i)"]) (simp_all add: put_conn_def)
  with at_phase_pending(2,3) [OF i] p(2) show ?thesis by (simp add: wait_check_def Let_def)
next
  case (TakeHandle i)
  with step obtain p where p: "phase_at \<sigma> i = Some (TakingHandle p)" by (auto split: option.splits phase.splits)
  then have i: "i < length (sv_conns \<sigma>)" "cn_phase (sv_conns \<sigma> ! i) = TakingHandle p" by (auto dest: phase_atD)
  with at_phase_pending(1) [OF i] step TakeHandle p show ?thesis by (auto split: prod.splits sum.splits)
next
  case (Fsync i refused)
  with step obtain p h where p: "phase_at \<sigma> i = Some (Fsyncing p h)" by (auto split: option.splits phase.splits)
  then have i: "i < length (sv_conns \<sigma>)" "cn_phase (sv_conns \<sigma> ! i) = Fsyncing p h" by (auto dest: phase_atD)
  with at_phase_pending(1,2) [OF i] step Fsync p show ?thesis by (auto split: prod.splits sum.splits if_splits)
next
  case (Note i)
  with step obtain p q where p: "phase_at \<sigma> i = Some (Noting p q)" by (auto split: option.splits phase.splits)
  then have i: "i < length (sv_conns \<sigma>)" "cn_phase (sv_conns \<sigma> ! i) = Noting p q" by (auto dest: phase_atD)
  with at_phase_pending(1) [OF i, of "Finishing p (Inr q)"] step Note p show ?thesis by auto
next
  case (Finish i)
  with step obtain p r where "phase_at \<sigma> i = Some (Finishing p r)" "\<sigma>' = wait_finish i p r \<sigma>"
    by (auto split: option.splits phase.splits)
  with wait_finish_pending [OF ok] show ?thesis by (blast dest: phase_atD)
qed (use e in simp_all)

lemma waiting_can_step:
  assumes ok: "server_ok opts G \<sigma>" and c: "c \<in> set (sv_conns \<sigma>)" "waits_for (cn_phase c) \<noteq> None"
  shows "\<exists>e. wait_event e \<and> server_step e \<sigma> \<noteq> None"
proof -
  note D = server_okD [OF ok]
  have enabled: "\<exists>e. wait_event e \<and> server_step e \<sigma> \<noteq> None"
    if d: "d \<in> set (sv_conns \<sigma>)" "waits_for (cn_phase d) \<noteq> None" "\<forall>p. cn_phase d \<noteq> Blocked p" for d
  proof -
    obtain i where i: "i < length (sv_conns \<sigma>)" "d = sv_conns \<sigma> ! i" using d(1) by (metis in_set_conv_nth)
    then have at: "phase_at \<sigma> i = Some (cn_phase d)" by (simp add: phase_at_def)
    define e where "e = (case cn_phase d of Checking _ \<Rightarrow> Check i | TakingHandle _ \<Rightarrow> TakeHandle i
      | Fsyncing _ _ \<Rightarrow> Fsync i True | Noting _ _ \<Rightarrow> Note i | _ \<Rightarrow> Finish i)"
    have "wait_event e \<and> server_step e \<sigma> \<noteq> None"
      using d(2,3) at by (cases "cn_phase d") (auto simp: e_def split: prod.split sum.split)
    then show ?thesis ..
  qed
  show ?thesis
  proof (cases "gc_syncing (sv_commits \<sigma>)")
    case True
    then have "sum_list (map (\<lambda>c. busy (cn_phase c)) (sv_conns \<sigma>)) \<noteq> 0" using D(6) by simp
    then obtain d where d: "d \<in> set (sv_conns \<sigma>)" "busy (cn_phase d) \<noteq> 0" by auto
    then have "waits_for (cn_phase d) \<noteq> None" "\<forall>p. cn_phase d \<noteq> Blocked p" by (cases "cn_phase d"; simp)+
    with enabled d(1) show ?thesis by blast
  next
    case False
    with D(7) enabled c show ?thesis by blast
  qed
qed

text \<open>
  (C16) No thread waits forever for its group commit. In every state the server can reach, if some thread waits
  then some thread can take a step of the wait that is not a spurious wake-up, so no wake-up is ever
  lost; and every such step, whether fsyncs succeed or are refused, makes a count of the steps
  still to come smaller, so without new commands every wait ends.
\<close>

theorem waits_end:
  assumes "holds True s G" and "\<not> st_restoring s" and "is_synced s" and "server_runs (server_bind s) \<sigma>"
  shows "((\<exists>c \<in> set (sv_conns \<sigma>). waits_for (cn_phase c) \<noteq> None) \<longrightarrow>
      (\<exists>e. wait_event e \<and> server_step e \<sigma> \<noteq> None)) \<and>
    (\<forall>e \<sigma>'. wait_event e \<longrightarrow> server_step e \<sigma> = Some \<sigma>' \<longrightarrow> pending_steps \<sigma>' < pending_steps \<sigma>)"
proof -
  obtain G' where ok: "server_ok (st_opts s) G' \<sigma>"
    using server_runs_ok [OF assms(4) server_bind_ok [OF assms(1,2,3)]] by blast
  then show ?thesis using waiting_can_step [OF ok] wait_step_pending [OF ok] by meson
qed

section \<open>One client, one write\<close>

text \<open>A store, a client that sets one key, and the steps up to its reply, to apply the theorems to.\<close>

definition demo_set :: "bytes list" where
  "demo_set = [ascii ''SET'', [97], [49]]"

definition demo_conn :: conn where
  "demo_conn = new_conn \<lparr> in_bytes = command_bytes demo_set, in_fault = None \<rparr>"

lemma demo_set_name: "cmd_name demo_set = ascii ''SET''"
  by (simp add: cmd_name_def demo_set_def ascii_def from_utf8_lossy.simps utf8_head_def char_width_def
      second_range_def to_ascii_uppercase_def Let_def)

lemma demo_set_fits: "command_fits demo_set"
  by (simp add: demo_set_def command_fits_def ascii_def MAX_ARRAY_LEN_def MAX_BULK_LEN_def)

lemma grown_point_moved:
  assumes "holds b s G" and "hist_grows [(1, [])] G" and "hist_recs G \<noteq> []"
  shows "append_point s \<noteq> (1, 0)"
proof
  assume "append_point s = (1, 0)"
  then have p: "point_of G = (1, 0)" using holds_point [OF assms(1)] by simp
  obtain ks M where G: "G = (1, ks) # M" using assms(2) by (auto simp: hist_grows_def Cons_eq_append_conv)
  have "sorted_wrt (<) (adom G)" using assms(1) by (auto simp: holds_def store_repr_def hist_ok_def)
  then have "\<forall>m \<in> set M. 1 < fst m" using G by auto
  with p G have M: "M = []" by (cases M rule: rev_cases) (auto simp: point_of_def)
  with p G assms(3) show False by (cases ks) (auto simp: point_of_def hist_recs_def)
qed

lemma demo_dispatch:
  assumes s: "holds True s [(1, [])]" "\<not> st_restoring s" "opt_sync (st_opts s) = EveryWrite" "store_room s (2 ^ 40)"
    and kv: "store_kv s = (\<lambda>_. None)"
  shows "\<exists>s'. dispatch (\<lambda>ks. ks) (\<lambda>_. (0, 0)) s demo_set None = (reply_ok, s', Some (append_point s')) \<and>
    (1, 0) < append_point s'"
proof -
  obtain r s' db where d: "dispatch (\<lambda>ks. ks) (\<lambda>_. (0, 0)) s demo_set None = (r, s', db)" by (metis prod_cases3)
  have "store_room s (cmd_cost (store_kv s) demo_set + 0)"
    unfolding cmd_cost_def demo_set_name using s(4)
    by (simp add: demo_set_def store_room_def put_cost_def HEADER_LEN_def)
  from dispatch_refines [OF grownI [OF s(1,2)] demo_set_fits _ this, of "\<lambda>ks. ks" "\<lambda>_. (0, 0)" None] d
  have ran: "ran_as (\<lambda>s'. grown True (st_opts s) [(1, [])] (marks s) s' \<and> store_room s' 0) (r, s', db)
      (spec_cmd (store_kv s) demo_set)" by simp
  have "spec_cmd (store_kv s) demo_set = (reply_ok, [[97] \<mapsto> [49]])"
    unfolding spec_cmd_def demo_set_name kv by (simp add: demo_set_def ascii_def spec_set_def)
  with ran have r: "r = reply_ok" "store_kv s' = [[97] \<mapsto> [49]]" "grown True (st_opts s) [(1, [])] (marks s) s'"
    by (auto simp: ran_as_def)
  then obtain G' where G': "holds True s' G'" "hist_grows [(1, [])] G'" "marks_le (marks s) (marks s')"
    by (auto simp: grown_def)
  have "hist_recs G' \<noteq> []"
    using store_log_kv [OF holds_log [OF G'(1)]] r(2) by (auto simp: kv_of_def fun_eq_iff split: if_splits)
  from grown_point_moved [OF G'(1,2) this] have ne: "append_point s' \<noteq> (1, 0)" .
  have s0: "append_point s = (1, 0)" using holds_point [OF s(1)] by (simp add: point_of_def)
  then have "(1, 0) \<le> append_point s'" using G'(3) by (simp add: marks_def)
  moreover have "db = must_reach s' None" using dispatch_must_reach [OF d] ne s0 by auto
  moreover have "opt_sync (st_opts s') = EveryWrite" using r(3) s(3) by (simp add: grown_def)
  ultimately show ?thesis using d r(1) ne by (auto simp: must_reach_def)
qed

lemma alone_commits:
  assumes ok: "server_ok opts G \<sigma>" and c: "sv_conns \<sigma> = [c]" "cn_phase c = Checking p" "\<not> cn_broken c" "\<not> cn_last c"
    and p: "\<not> p \<le> gc_point (sv_commits \<sigma>)"
  shows "\<exists>\<sigma>'. server_runs \<sigma> \<sigma>' \<and> cn_out (sv_conns \<sigma>' ! 0) = [] \<and> cn_phase (sv_conns \<sigma>' ! 0) = Reading"
proof -
  have go: "server_runs \<sigma> \<sigma>2" if "server_runs \<sigma> \<sigma>1" "server_step e \<sigma>1 = Some \<sigma>2" "wait_event e" for \<sigma>1 \<sigma>2 e
    using that(1) by (rule server_runs.onward [OF _ _ that(2)]) (use that(3) in \<open>cases e; simp add: event_ok_def\<close>)
  have ns: "\<not> gc_syncing (sv_commits \<sigma>)" using server_okD(6) [OF ok] c(1,2) by simp
  have p1: "p \<le> append_point (sv_store \<sigma>)" using server_okD(5) [OF ok, of 0] c(1,2) by (simp add: conn_ok_def)
  let ?q = "append_point (sv_store \<sigma>)"
  obtain s1 where s1: "sync_handle (sv_store \<sigma>) = (Inr (fst ?q, ?q), s1)" "holds True s1 G" "written_point s1 = ?q"
    using sync_handle_ok [OF server_okD(1) [OF ok]] by blast
  have "fst ?q \<in> set (adom G)"
    using holds_point [OF server_okD(1) [OF ok]] server_okD(1) [OF ok] by (auto simp: point_of_def holds_def)
  from sync_handle_sync_ok [OF s1(2) this] s1(3) obtain d where
    d: "sync_handle_sync (fst ?q, ?q) (st_fs s1) = (Inr ?q, d)" by auto
  define g where "g = (sv_commits \<sigma>)\<lparr> gc_syncing := True \<rparr>"
  define st where "st = (\<lambda>s ph. \<lparr> sv_store = s, sv_commits = g, sv_conns = [c\<lparr> cn_phase := ph \<rparr>] \<rparr>)"
  have 1: "server_step (Check 0) \<sigma> = Some (st (sv_store \<sigma>) (TakingHandle p))"
    using c p ns by (cases \<sigma>) (simp add: phase_at_def wait_check_def at_phase_def put_conn_def st_def g_def)
  have 2: "server_step (TakeHandle 0) (st (sv_store \<sigma>) (TakingHandle p)) = Some (st s1 (Fsyncing p (fst ?q, ?q)))"
    using s1(1) by (simp add: st_def phase_at_def at_phase_def put_conn_def)
  have 3: "server_step (Fsync 0 False) (st s1 (Fsyncing p (fst ?q, ?q))) = Some (st (s1\<lparr> st_fs := d \<rparr>) (Noting p ?q))"
    using d by (simp add: st_def phase_at_def at_phase_def put_conn_def)
  let ?s = "note_synced (s1\<lparr> st_fs := d \<rparr>) ?q"
  have 4: "server_step (Note 0) (st (s1\<lparr> st_fs := d \<rparr>) (Noting p ?q)) = Some (st ?s (Finishing p (Inr ?q)))"
    by (simp add: st_def phase_at_def at_phase_def put_conn_def)
  have 5: "server_step (Finish 0) (st ?s (Finishing p (Inr ?q))) = Some (wait_finish 0 p (Inr ?q) (st ?s (Finishing p (Inr ?q))))"
    by (simp add: st_def phase_at_def)
  have "wait_finish 0 p (Inr ?q) (st ?s (Finishing p (Inr ?q))) =
      \<lparr> sv_store = ?s, sv_commits = finish_gc (Inr ?q) g, sv_conns = [send_out (c\<lparr> cn_phase := Finishing p (Inr ?q) \<rparr>)] \<rparr>"
    using wait_finish_eq [of 0 "st ?s (Finishing p (Inr ?q))" p "Inr ?q"] p1 by (simp add: st_def finish_conn_def wake_def)
  moreover have "server_runs \<sigma> (wait_finish 0 p (Inr ?q) (st ?s (Finishing p (Inr ?q))))"
    using go [OF go [OF go [OF go [OF go [OF server_runs.here 1] 2] 3] 4] 5] by simp
  ultimately show ?thesis using c(3,4) by (intro exI conjI) (auto simp: send_out_def)
qed

lemma demo_run:
  "\<exists>s \<sigma>1 \<sigma>2 \<sigma>3. store_open default_options no_files = (Inr s, st_fs s) \<and> holds True s [(1, [])] \<and>
     \<not> st_restoring s \<and> is_synced s \<and> opt_sync (st_opts s) = EveryWrite \<and>
     server_runs (server_bind s) \<sigma>1 \<and> event_ok (Command 0 True (\<lambda>ks. ks) (\<lambda>_. (0, 0))) \<sigma>1 \<and>
     server_step (Command 0 True (\<lambda>ks. ks) (\<lambda>_. (0, 0))) \<sigma>1 = Some \<sigma>2 \<and>
     append_point (sv_store \<sigma>2) \<noteq> append_point (sv_store \<sigma>1) \<and> server_runs \<sigma>2 \<sigma>3 \<and>
     cn_out (sv_conns \<sigma>3 ! 0) = [] \<and> cn_phase (sv_conns \<sigma>3 ! 0) = Reading"
proof -
  obtain s where s: "store_open default_options no_files = (Inr s, st_fs s)" "store_log True s []"
    "st_opts s = default_options" "\<not> st_restoring s" "store_room s (2 ^ 40)" "store_repr True s [] 1 []"
    using new_store by blast
  have h: "holds True s [(1, [])]" using holdsI [OF s(6)] by simp
  have sync: "is_synced s" using holds_sane [OF h] holds_point [OF h]
    by (simp add: lw_sane_def append_point_def point_of_def is_synced_def)
  have ew: "opt_sync (st_opts s) = EveryWrite" using s(3) by (simp add: default_options_def)
  have kv: "store_kv s = (\<lambda>_. None)" using store_log_kv [OF s(2)] by (simp add: kv_of_def fun_eq_iff)
  obtain s' where d: "dispatch (\<lambda>ks. ks) (\<lambda>_. (0, 0)) s demo_set None = (reply_ok, s', Some (append_point s'))"
    "(1, 0) < append_point s'"
    using demo_dispatch [OF h s(4) ew s(5) kv] by blast
  have ap: "append_point s = (1, 0)" using holds_point [OF h] by (simp add: point_of_def)
  define \<sigma>1 where "\<sigma>1 = \<lparr> sv_store = s, sv_commits = group_commit_new (1, 0), sv_conns = [demo_conn] \<rparr>"
  have "server_step (Accept (cn_in demo_conn)) (server_bind s) = Some \<sigma>1"
    by (simp add: server_bind_def \<sigma>1_def ap demo_conn_def new_conn_def)
  then have r1: "server_runs (server_bind s) \<sigma>1"
    by (rule server_runs.onward [OF server_runs.here, rotated]) (simp add: event_ok_def)
  have rc: "read_command (cn_in demo_conn) = (Inr (Some demo_set), \<lparr> in_bytes = [], in_fault = None \<rparr>)"
    using read_command_enc [OF demo_set_fits, where r = "\<lparr> in_bytes = [], in_fault = None \<rparr>" and rest = "[]"]
    by (simp add: demo_conn_def new_conn_def)
  have e: "event_ok (Command 0 True (\<lambda>ks. ks) (\<lambda>_. (0, 0))) \<sigma>1"
    using s(5) demo_set_fits
    by (simp add: event_ok_def \<sigma>1_def rc cmd_cost_def demo_set_name)
      (simp add: demo_set_def store_room_def put_cost_def HEADER_LEN_def)
  define c where "c = demo_conn\<lparr> cn_in := \<lparr> in_bytes = [], in_fault = None \<rparr>, cn_out := write_to reply_ok,
    cn_phase := Checking (append_point s') \<rparr>"
  define \<sigma>2 where "\<sigma>2 = \<lparr> sv_store = s', sv_commits = group_commit_new (1, 0), sv_conns = [c] \<rparr>"
  have q: "\<not> eq_ignore_ascii_case (hd demo_set) (ascii ''QUIT'')" "demo_set \<noteq> []"
    by (simp_all add: demo_set_def ascii_def eq_ignore_ascii_case_def to_ascii_lowercase_def)
  have ph: "cn_phase demo_conn = Reading" by (simp add: demo_conn_def new_conn_def)
  have "serve_command True (\<lambda>ks. ks) (\<lambda>_. (0, 0)) s demo_conn = (s', c)"
    using rc d(1) q unfolding serve_command_def
    by (simp add: Let_def c_def send_def) (simp add: demo_conn_def new_conn_def)
  then have r2: "server_step (Command 0 True (\<lambda>ks. ks) (\<lambda>_. (0, 0))) \<sigma>1 = Some \<sigma>2"
    using ph by (simp add: \<sigma>1_def \<sigma>2_def phase_at_def put_conn_def)
  obtain G2 where ok2: "server_ok (st_opts s) G2 \<sigma>2"
    using server_runs_ok [OF r1 server_bind_ok [OF h s(4) sync]] server_step_ok [OF _ e r2] by blast
  have "\<not> append_point s' \<le> gc_point (sv_commits \<sigma>2)" using d(2) by (simp add: \<sigma>2_def group_commit_new_def not_le)
  from alone_commits [OF ok2 _ _ _ _ this, of c]
  obtain \<sigma>3 where "server_runs \<sigma>2 \<sigma>3" "cn_out (sv_conns \<sigma>3 ! 0) = []" "cn_phase (sv_conns \<sigma>3 ! 0) = Reading"
    by (auto simp: \<sigma>2_def c_def demo_conn_def new_conn_def)
  with s(1,4) h sync ew r1 e r2 ap d(2) show ?thesis
    by (intro exI conjI) (auto simp: \<sigma>1_def \<sigma>2_def)
qed

theorem acked_write_survives_witness:
  "\<exists>s \<sigma>2 \<sigma>3 H E s'. store_open default_options no_files = (Inr s, st_fs s) \<and> server_runs \<sigma>2 \<sigma>3 \<and>
     store_log True (sv_store \<sigma>2) H \<and>
     store_open default_options (fs_power_cut (st_fs (sv_store \<sigma>3))) = (Inr s', st_fs s') \<and> store_log True s' (H @ E)"
proof -
  obtain s \<sigma>1 \<sigma>2 \<sigma>3 where s: "store_open default_options no_files = (Inr s, st_fs s)" "holds True s [(1, [])]"
    "\<not> st_restoring s" "is_synced s" "opt_sync (st_opts s) = EveryWrite" "server_runs (server_bind s) \<sigma>1"
    "event_ok (Command 0 True (\<lambda>ks. ks) (\<lambda>_. (0, 0))) \<sigma>1"
    "server_step (Command 0 True (\<lambda>ks. ks) (\<lambda>_. (0, 0))) \<sigma>1 = Some \<sigma>2"
    "append_point (sv_store \<sigma>2) \<noteq> append_point (sv_store \<sigma>1)" "server_runs \<sigma>2 \<sigma>3"
    "cn_out (sv_conns \<sigma>3 ! 0) = []" "cn_phase (sv_conns \<sigma>3 ! 0) = Reading"
    using demo_run by blast
  have "cn_phase (sv_conns \<sigma>3 ! 0) \<in> {Reading, Closed (Inr ())}" using s(12) by simp
  from acked_write_survives [OF s(2-11) this, of default_options] s(1,10) show ?thesis by blast
qed

theorem waits_end_witness:
  "\<exists>s \<sigma>. store_open default_options no_files = (Inr s, st_fs s) \<and> server_runs (server_bind s) \<sigma> \<and>
     (\<forall>e \<sigma>'. wait_event e \<longrightarrow> server_step e \<sigma> = Some \<sigma>' \<longrightarrow> pending_steps \<sigma>' < pending_steps \<sigma>)"
proof -
  obtain s \<sigma> where s: "store_open default_options no_files = (Inr s, st_fs s)" "holds True s [(1, [])]"
    "\<not> st_restoring s" "is_synced s" "server_runs (server_bind s) \<sigma>"
    using demo_run by blast
  from waits_end [OF s(2-5)] s(1,5) show ?thesis by blast
qed

section \<open>A reply that is held back\<close>

definition ping_blank :: bytes where
  "ping_blank = ascii ''PING'' @ crlf @ crlf"


end
