(* ===== verification/Codec.thy ===== *)
theory Codec
  imports Crc
begin

text \<open>
  Byte readers. The \<^verbatim>\<open>Reader\<close> of \<^verbatim>\<open>src/src/raft/wire.rs\<close> and the closure \<^verbatim>\<open>take\<close> of \<^verbatim>\<open>decode_members\<close>
  (\<^verbatim>\<open>src/src/raft/log.rs\<close>) both walk a slice and stop at the first thing that is not there; here a reader
  is a function from what is left to a value and what is left after it. The locale \<open>prefix_codec\<close> is
  the contract of an encoder and its reader, and gives the round trip of any list of items; the readers
  of numbers and booleans are instances here, those of members and entries where they are defined.
\<close>

section \<open>Readers\<close>

type_synonym 'a reader = "bytes \<Rightarrow> ('a \<times> bytes) option"

definition rd_bytes :: "nat \<Rightarrow> bytes reader" where
  "rd_bytes n bs = (if n \<le> length bs then Some (take n bs, drop n bs) else None)"

definition rd_u8 :: "byte reader" where
  "rd_u8 bs = (case rd_bytes 1 bs of None \<Rightarrow> None | Some (x, rest) \<Rightarrow> Some (x ! 0, rest))"

definition rd_bool :: "bool reader" where
  "rd_bool bs = (case rd_u8 bs of None \<Rightarrow> None
     | Some (x, rest) \<Rightarrow> if x = 0 then Some (False, rest) else if x = 1 then Some (True, rest) else None)"

definition rd_u32 :: "nat reader" where
  "rd_u32 bs = (case rd_bytes 4 bs of None \<Rightarrow> None | Some (x, rest) \<Rightarrow> Some (from_le x, rest))"

definition rd_u64 :: "nat reader" where
  "rd_u64 bs = (case rd_bytes 8 bs of None \<Rightarrow> None | Some (x, rest) \<Rightarrow> Some (from_le x, rest))"

definition rd_bind :: "'a reader \<Rightarrow> ('a \<Rightarrow> 'b reader) \<Rightarrow> 'b reader" where
  "rd_bind r f bs = (case r bs of None \<Rightarrow> None | Some (x, rest) \<Rightarrow> f x rest)"

definition rd_ret :: "'a \<Rightarrow> 'a reader" where
  "rd_ret x bs = Some (x, bs)"

definition rd_fail :: "'a reader" where
  "rd_fail bs = None"

text \<open>A loop that reads a counted list.\<close>

fun rd_rep :: "'a reader \<Rightarrow> nat \<Rightarrow> 'a list reader" where
  "rd_rep r 0 bs = Some ([], bs)"
| "rd_rep r (Suc n) bs = (case r bs of None \<Rightarrow> None
     | Some (x, rest) \<Rightarrow> (case rd_rep r n rest of None \<Rightarrow> None | Some (xs, rest) \<Rightarrow> Some (x # xs, rest)))"

text \<open>A whole slice: nothing may be left over.\<close>

definition rd_all :: "'a reader \<Rightarrow> bytes \<Rightarrow> 'a option" where
  "rd_all r bs = (case r bs of Some (x, []) \<Rightarrow> Some x | _ \<Rightarrow> None)"

definition put_bool :: "bool \<Rightarrow> bytes" where
  "put_bool b = [if b then 1 else 0]"

definition put_u64 :: "nat list \<Rightarrow> bytes" where
  "put_u64 vs = concat (map (le_bytes 8) vs)"

section \<open>The contract\<close>

locale prefix_codec =
  fixes enc :: "'a \<Rightarrow> bytes" and dec :: "'a reader" and ok :: "'a \<Rightarrow> bool"
  assumes dec_enc: "ok x \<Longrightarrow> dec (enc x @ rest) = Some (x, rest)"
begin

lemma bind_enc: "ok x \<Longrightarrow> rd_bind dec f (enc x @ rest) = f x rest"
  by (simp add: rd_bind_def dec_enc)

lemma rep_enc: "list_all ok xs \<Longrightarrow> rd_rep dec (length xs) (concat (map enc xs) @ rest) = Some (xs, rest)"
  by (induction xs) (simp_all add: dec_enc)

lemma all_enc: "ok x \<Longrightarrow> rd_all dec (enc x) = Some x"
  using dec_enc [of x "[]"] by (simp add: rd_all_def)

lemma enc_inject: "ok x \<Longrightarrow> ok y \<Longrightarrow> enc x = enc y \<longleftrightarrow> x = y"
  using all_enc by (metis option.inject)

text \<open>No encoding is a proper prefix of another, so frames need no separators.\<close>

lemma enc_prefix_free: "ok x \<Longrightarrow> ok y \<Longrightarrow> enc x @ xs = enc y @ ys \<Longrightarrow> x = y \<and> xs = ys"
  using dec_enc by (metis option.inject prod.inject)

end

lemma rd_bytes_append [simp]: "length xs = n \<Longrightarrow> rd_bytes n (xs @ rest) = Some (xs, rest)"
  by (auto simp: rd_bytes_def)

interpretation u8c: prefix_codec "\<lambda>x. [x]" rd_u8 "\<lambda>_. True"
  by unfold_locales (simp add: rd_u8_def rd_bytes_def)

interpretation boolc: prefix_codec put_bool rd_bool "\<lambda>_. True"
  by unfold_locales (simp add: put_bool_def rd_bool_def rd_u8_def rd_bytes_def)

interpretation u32c: prefix_codec "le_bytes 4" rd_u32 "\<lambda>n. n < 2 ^ 32"
  by unfold_locales (simp add: rd_u32_def)

interpretation u64c: prefix_codec "le_bytes 8" rd_u64 "\<lambda>n. n < 2 ^ 64"
  by unfold_locales (simp add: rd_u64_def)

interpretation rawc: prefix_codec "\<lambda>xs. xs" "rd_bytes n" "\<lambda>xs. length xs = n" for n
  by unfold_locales simp

lemma put_u64_Nil [simp]: "put_u64 [] = []" and put_u64_Cons: "put_u64 (v # vs) = le_bytes 8 v @ put_u64 vs"
  by (simp_all add: put_u64_def)

lemma rd_u8_Cons: "rd_bind rd_u8 f (x # rest) = f x rest"
  using u8c.bind_enc [where x = x and f = f and rest = rest] by simp

lemma rd_bool_Cons: "rd_bind rd_bool f (put_bool b @ rest) = f b rest"
  using boolc.bind_enc [where x = b and f = f and rest = rest] by simp

lemma rd_bool_flag: "rd_bind rd_bool f (0 # rest) = f False rest" "rd_bind rd_bool f (1 # rest) = f True rest"
  using rd_bool_Cons [of f False rest] rd_bool_Cons [of f True rest] by (simp_all add: put_bool_def)

lemma rd_u64_last: "n < 2 ^ 64 \<Longrightarrow> rd_bind rd_u64 f (le_bytes 8 n) = f n []"
  using u64c.bind_enc [where x = n and f = f and rest = "[]"] by simp

lemma rd_bool_last: "rd_bind rd_bool f (put_bool b) = f b []"
  using rd_bool_Cons [of f b "[]"] by simp

lemmas rd_steps [codec_simps] = rd_u8_Cons rd_bool_Cons rd_bool_flag rd_u64_last rd_bool_last u64c.bind_enc u32c.bind_enc rawc.bind_enc

end
