(* ===== verification/RaftLog.thy ===== *)
theory RaftLog
  imports Codec
begin

text \<open>
  The replicated log (\<^verbatim>\<open>src/src/raft/log.rs\<close>): members and their encoding, commands and entries, the
  state a node must not forget, the index arithmetic of a log that begins after a snapshot
  (\<^verbatim>\<open>EntryLog\<close>), the storage kept in memory (\<^verbatim>\<open>MemStorage\<close>) and the queries every storage gets
  (\<^verbatim>\<open>StorageExt\<close>).

  The trait lets every operation that must reach the disk return an error. \<^verbatim>\<open>MemStorage\<close> itself never
  does; so that a client is verified against the trait, the storage carries a schedule of
  outcomes, \<open>faults\<close>, one consumed by each such operation: where it says so, the operation reports
  an error and changes nothing. The empty schedule is \<^verbatim>\<open>MemStorage\<close> as it is written.
\<close>

section \<open>Members\<close>

record member =
  mid :: nat
  m_context :: bytes
  is_learner :: bool

definition voter :: "nat \<Rightarrow> bytes \<Rightarrow> member" where
  "voter i ctx = \<lparr>mid = i, m_context = ctx, is_learner = False\<rparr>"

definition learner :: "nat \<Rightarrow> bytes \<Rightarrow> member" where
  "learner i ctx = \<lparr>mid = i, m_context = ctx, is_learner = True\<rparr>"

definition put_member :: "member \<Rightarrow> bytes" where
  "put_member m = le_bytes 8 (mid m) @ put_bool (is_learner m)
     @ le_bytes 4 (as_u32 (length (m_context m))) @ m_context m"

definition encode_members :: "member list \<Rightarrow> bytes" where
  "encode_members ms = le_bytes 4 (as_u32 (length ms)) @ concat (map put_member ms)"

definition take_member :: "member reader" where
  "take_member = rd_bind rd_u64 (\<lambda>id. rd_bind rd_bool (\<lambda>l. rd_bind rd_u32 (\<lambda>len.
     rd_bind (rd_bytes len) (\<lambda>ctx. rd_ret \<lparr>mid = id, m_context = ctx, is_learner = l\<rparr>))))"

definition decode_members :: "bytes \<Rightarrow> member list option" where
  "decode_members bs = rd_all (rd_bind rd_u32 (\<lambda>count.
     if count > length bs div 13 then rd_fail else rd_rep take_member count)) bs"

section \<open>Entries\<close>

datatype command = Noop | Data bytes | Config "member list"

record entry =
  e_term :: nat
  e_index :: nat
  e_command :: command

definition ENTRY_OVERHEAD :: nat where
  "ENTRY_OVERHEAD = 8 + 8 + 1 + 8"

definition command_payload :: "command \<Rightarrow> bytes" where
  "command_payload c = (case c of Noop \<Rightarrow> [] | Data bs \<Rightarrow> bs | Config ms \<Rightarrow> encode_members ms)"

definition encoded_len :: "entry \<Rightarrow> nat" where
  "encoded_len e = ENTRY_OVERHEAD + length (command_payload (e_command e))"

record hard_state =
  hs_term :: nat
  voted_for :: "nat option"

record snapshot_meta =
  sm_index :: nat
  sm_term :: nat

section \<open>The log after a snapshot\<close>

record entry_log =
  el_base :: snapshot_meta
  el_entries :: "entry list"

definition el_last_index :: "entry_log \<Rightarrow> nat" where
  "el_last_index l = (if el_entries l = [] then sm_index (el_base l) else e_index (last (el_entries l)))"

definition el_position :: "entry_log \<Rightarrow> nat \<Rightarrow> nat option" where
  "el_position l i = (if i \<le> sm_index (el_base l) \<or> i > el_last_index l then None
     else Some (i - sm_index (el_base l) - 1))"

text \<open>An index past the end of \<^verbatim>\<open>entries\<close> panics in Rust; \<open>log_wf\<close> below excludes it.\<close>

definition el_entry :: "entry_log \<Rightarrow> nat \<Rightarrow> entry option" where
  "el_entry l i = map_option (\<lambda>p. el_entries l ! p) (el_position l i)"

definition el_term_at :: "entry_log \<Rightarrow> nat \<Rightarrow> nat option" where
  "el_term_at l i = (if i = sm_index (el_base l) then Some (sm_term (el_base l))
     else map_option e_term (el_entry l i))"

definition el_entries_from :: "entry_log \<Rightarrow> nat \<Rightarrow> entry list" where
  "el_entries_from l i = (case el_position l (max i (sm_index (el_base l) + 1)) of
     Some p \<Rightarrow> drop p (el_entries l) | None \<Rightarrow> [])"

definition el_push :: "entry \<Rightarrow> entry_log \<Rightarrow> entry_log" where
  "el_push e l = l\<lparr>el_entries := el_entries l @ [e]\<rparr>"

definition el_truncate_from :: "nat \<Rightarrow> entry_log \<Rightarrow> entry_log \<times> nat" where
  "el_truncate_from i l =
     (let keep = (if i \<le> sm_index (el_base l) then 0
                  else min (i - sm_index (el_base l) - 1) (length (el_entries l)))
      in (l\<lparr>el_entries := take keep (el_entries l)\<rparr>, keep))"

definition el_compact :: "snapshot_meta \<Rightarrow> entry_log \<Rightarrow> entry_log \<times> bool" where
  "el_compact meta l =
     (if sm_index meta \<le> sm_index (el_base l) then (l, False)
      else (let kept = (if el_term_at l (sm_index meta) = Some (sm_term meta)
                        then drop (sm_index meta - sm_index (el_base l)) (el_entries l) else [])
            in (\<lparr>el_base = meta, el_entries = kept\<rparr>, True)))"

section \<open>The storage\<close>

record mem_storage =
  ms_hard :: hard_state
  ms_log :: entry_log
  ms_snapshot :: bytes
  ms_members :: "member list option"
  ms_faults :: "bool list"

record mem_snapshot =
  sk_meta :: snapshot_meta
  sk_members :: "member list option"
  sk_data :: bytes

definition no_meta :: snapshot_meta where
  "no_meta = \<lparr>sm_index = 0, sm_term = 0\<rparr>"

definition mem_storage_new :: mem_storage where
  "mem_storage_new = \<lparr>ms_hard = \<lparr>hs_term = 0, voted_for = None\<rparr>,
     ms_log = \<lparr>el_base = no_meta, el_entries = []\<rparr>, ms_snapshot = [], ms_members = None, ms_faults = []\<rparr>"

text \<open>An operation that must reach the disk: the next outcome decides whether it happens.\<close>

definition durably :: "(mem_storage \<Rightarrow> 'a \<times> mem_storage) \<Rightarrow> mem_storage \<Rightarrow> 'a res \<times> mem_storage" where
  "durably f s = (case ms_faults s of
       [] \<Rightarrow> (let (x, s') = f s in (Inr x, s'))
     | bad # rest \<Rightarrow> (if bad then (Inl (Io DeviceFault ''storage''), s\<lparr>ms_faults := rest\<rparr>)
                      else (let (x, s') = f (s\<lparr>ms_faults := rest\<rparr>) in (Inr x, s'))))"

definition save_hard_state :: "hard_state \<Rightarrow> mem_storage \<Rightarrow> unit res \<times> mem_storage" where
  "save_hard_state h = durably (\<lambda>s. ((), s\<lparr>ms_hard := h\<rparr>))"

definition last_index :: "mem_storage \<Rightarrow> nat" where
  "last_index s = el_last_index (ms_log s)"

definition term_at :: "mem_storage \<Rightarrow> nat \<Rightarrow> nat option" where
  "term_at s i = el_term_at (ms_log s) i"

definition entry_at :: "mem_storage \<Rightarrow> nat \<Rightarrow> entry option" where
  "entry_at s i = el_entry (ms_log s) i"

definition entries_from :: "mem_storage \<Rightarrow> nat \<Rightarrow> entry list" where
  "entries_from s i = el_entries_from (ms_log s) i"

definition append_entries :: "entry list \<Rightarrow> mem_storage \<Rightarrow> unit res \<times> mem_storage" where
  "append_entries es = durably (\<lambda>s. ((), s\<lparr>ms_log := fold el_push es (ms_log s)\<rparr>))"

definition truncate_from :: "nat \<Rightarrow> mem_storage \<Rightarrow> unit res \<times> mem_storage" where
  "truncate_from i = durably (\<lambda>s. ((), s\<lparr>ms_log := fst (el_truncate_from i (ms_log s))\<rparr>))"

definition snapshot_meta_of :: "mem_storage \<Rightarrow> snapshot_meta" where
  "snapshot_meta_of s = el_base (ms_log s)"

definition snapshot_len :: "mem_storage \<Rightarrow> nat" where
  "snapshot_len s = length (ms_snapshot s)"

definition read_snapshot :: "nat \<Rightarrow> nat \<Rightarrow> mem_storage \<Rightarrow> bytes res \<times> mem_storage" where
  "read_snapshot off len = durably (\<lambda>s.
     (let start = min off (length (ms_snapshot s)); stop = min (start + len) (length (ms_snapshot s))
      in (slice start stop (ms_snapshot s), s)))"

definition snapshot_reader :: "mem_storage \<Rightarrow> bytes res \<times> mem_storage" where
  "snapshot_reader = durably (\<lambda>s. (ms_snapshot s, s))"

definition new_snapshot ::
  "snapshot_meta \<Rightarrow> member list option \<Rightarrow> mem_storage \<Rightarrow> mem_snapshot res \<times> mem_storage" where
  "new_snapshot meta mems = durably (\<lambda>s. (\<lparr>sk_meta = meta, sk_members = mems, sk_data = []\<rparr>, s))"

definition sink_write :: "bytes \<Rightarrow> mem_snapshot \<Rightarrow> mem_snapshot" where
  "sink_write buf sk = sk\<lparr>sk_data := sk_data sk @ buf\<rparr>"

definition sink_written :: "mem_snapshot \<Rightarrow> nat" where
  "sink_written sk = length (sk_data sk)"

definition install_snapshot :: "mem_snapshot \<Rightarrow> mem_storage \<Rightarrow> unit res \<times> mem_storage" where
  "install_snapshot sk = durably (\<lambda>s.
     (let (l, newer) = el_compact (sk_meta sk) (ms_log s) in
      ((), if newer then s\<lparr>ms_log := l, ms_snapshot := sk_data sk, ms_members := sk_members sk\<rparr>
           else s\<lparr>ms_log := l\<rparr>)))"

section \<open>The queries every storage gets\<close>

definition save_snapshot :: "snapshot_meta \<Rightarrow> bytes \<Rightarrow> mem_storage \<Rightarrow> unit res \<times> mem_storage" where
  "save_snapshot meta data s = (case new_snapshot meta None s of
       (Inl e, s) \<Rightarrow> (Inl e, s)
     | (Inr sk, s) \<Rightarrow> install_snapshot (sink_write data sk) s)"

definition first_index :: "mem_storage \<Rightarrow> nat" where
  "first_index s = sm_index (snapshot_meta_of s) + 1"

definition last_term :: "mem_storage \<Rightarrow> nat" where
  "last_term s = (case term_at s (last_index s) of Some t \<Rightarrow> t | None \<Rightarrow> 0)"

definition is_up_to_date :: "mem_storage \<Rightarrow> nat \<Rightarrow> nat \<Rightarrow> bool" where
  "is_up_to_date s li lt \<longleftrightarrow> lt > last_term s \<or> lt = last_term s \<and> li \<ge> last_index s"

definition first_index_of_term :: "mem_storage \<Rightarrow> nat \<Rightarrow> nat" where
  "first_index_of_term s t =
     (case find (\<lambda>i. term_at s i = Some t) [first_index s ..< Suc (last_index s)] of
        Some i \<Rightarrow> i | None \<Rightarrow> first_index s)"

text \<open>The loop of \<^verbatim>\<open>entries_within\<close>, over the indices that are left.\<close>

fun within_loop :: "mem_storage \<Rightarrow> nat \<Rightarrow> nat list \<Rightarrow> nat \<Rightarrow> entry list \<Rightarrow> entry list" where
  "within_loop s budget [] used out = out"
| "within_loop s budget (i # is) used out = (case entry_at s i of
       None \<Rightarrow> out
     | Some e \<Rightarrow> (if out \<noteq> [] \<and> used + encoded_len e > budget then out
                  else within_loop s budget is (used + encoded_len e) (out @ [e])))"

definition entries_within :: "mem_storage \<Rightarrow> nat \<Rightarrow> nat \<Rightarrow> entry list" where
  "entries_within s i budget = within_loop s budget [max i (first_index s) ..< Suc (last_index s)] 0 []"

definition last_index_of_term :: "mem_storage \<Rightarrow> nat \<Rightarrow> nat option" where
  "last_index_of_term s t =
     find (\<lambda>i. i > 0 \<and> term_at s i = Some t) (rev [sm_index (snapshot_meta_of s) ..< Suc (last_index s)])"

section \<open>Members survive encoding\<close>

definition member_ok :: "member \<Rightarrow> bool" where
  "member_ok m \<longleftrightarrow> mid m < 2 ^ 64 \<and> length (m_context m) < 2 ^ 32"

definition members_ok :: "member list \<Rightarrow> bool" where
  "members_ok ms \<longleftrightarrow> list_all member_ok ms \<and> length ms < 2 ^ 32"

interpretation memc: prefix_codec put_member take_member member_ok
proof
  fix m :: member and rest
  assume "member_ok m"
  then show "take_member (put_member m @ rest) = Some (m, rest)"
    by (simp add: member_ok_def put_member_def take_member_def codec_simps rd_ret_def)
qed

lemma put_member_len: "length (put_member m) \<ge> 13"
  by (simp add: put_member_def put_bool_def)

lemma put_members_len: "length (concat (map put_member ms)) \<ge> 13 * length ms"
proof (induction ms)
  case Nil
  then show ?case by simp
next
  case (Cons m ms)
  then show ?case using put_member_len [of m] by simp
qed

lemma members_count: "length ms \<le> length (encode_members ms) div 13"
proof -
  have "13 * length ms \<le> length (encode_members ms)"
    using put_members_len [of ms] by (simp add: encode_members_def)
  then show ?thesis by (simp add: less_eq_div_iff_mult_less_eq mult.commute)
qed

lemma decode_encode_members: "members_ok ms \<Longrightarrow> decode_members (encode_members ms) = Some ms"
  using memc.rep_enc [of ms "[]"] members_count [of ms]
  by (simp add: decode_members_def members_ok_def encode_members_def rd_all_def codec_simps)

text \<open>The other way round: whatever is accepted is exactly what would have been written.\<close>

lemma rd_bytes_Some: "rd_bytes n bs = Some (x, rest) \<longleftrightarrow> length x = n \<and> bs = x @ rest"
  by (auto simp: rd_bytes_def)

lemma rd_u32_Some: "rd_u32 bs = Some (x, rest) \<Longrightarrow> bs = le_bytes 4 x @ rest \<and> x < 2 ^ 32"
  using from_le_less [of "take 4 bs"]
  by (auto simp: rd_u32_def rd_bytes_Some split: option.splits)

lemma rd_u64_Some: "rd_u64 bs = Some (x, rest) \<Longrightarrow> bs = le_bytes 8 x @ rest \<and> x < 2 ^ 64"
  using from_le_less [of "take 8 bs"]
  by (auto simp: rd_u64_def rd_bytes_Some split: option.splits)

lemma rd_u8_Some: "rd_u8 bs = Some (x, rest) \<longleftrightarrow> bs = x # rest"
  by (cases bs) (auto simp: rd_u8_def rd_bytes_def)

lemma rd_bool_Some: "rd_bool bs = Some (b, rest) \<Longrightarrow> bs = put_bool b @ rest"
  by (auto simp: rd_bool_def put_bool_def rd_u8_Some split: option.splits if_splits)

lemma rd_bind_Some: "rd_bind r f bs = Some (y, rest) \<longleftrightarrow> (\<exists>x mid. r bs = Some (x, mid) \<and> f x mid = Some (y, rest))"
  by (auto simp: rd_bind_def split: option.splits)

lemma take_member_Some: "take_member bs = Some (m, rest) \<Longrightarrow> bs = put_member m @ rest \<and> member_ok m"
  unfolding take_member_def rd_bind_Some rd_ret_def
  by (auto simp: put_member_def member_ok_def rd_bytes_Some dest!: rd_u64_Some rd_bool_Some rd_u32_Some)

lemma rd_members_Some:
  "rd_rep take_member n bs = Some (ms, rest) \<Longrightarrow>
   bs = concat (map put_member ms) @ rest \<and> length ms = n \<and> list_all member_ok ms"
  by (induction n arbitrary: bs ms)
     (auto split: option.splits dest!: take_member_Some)

lemma rd_all_Some: "rd_all r bs = Some x \<longleftrightarrow> r bs = Some (x, [])"
  by (auto simp: rd_all_def split: option.splits list.splits)

lemma decode_members_Some:
  assumes "decode_members bs = Some ms"
  shows "bs = encode_members ms" and "members_ok ms"
proof -
  obtain n rest where n: "rd_u32 bs = Some (n, rest)" and r: "rd_rep take_member n rest = Some (ms, [])"
    using assms by (auto simp: decode_members_def rd_all_Some rd_bind_Some rd_fail_def split: if_splits)
  show "bs = encode_members ms" and "members_ok ms"
    using rd_u32_Some [OF n] rd_members_Some [OF r] by (auto simp: encode_members_def members_ok_def)
qed

section \<open>A log without gaps\<close>

text \<open>
  What \<^verbatim>\<open>EntryLog::new\<close> and \<^verbatim>\<open>push\<close> check in debug builds: the entries follow the snapshot, each one
  index after the last.
\<close>

definition log_wf :: "entry_log \<Rightarrow> bool" where
  "log_wf l \<longleftrightarrow> list_all (\<lambda>k. e_index (el_entries l ! k) = Suc (sm_index (el_base l) + k))
     [0 ..< length (el_entries l)]"

lemma log_wf_iff:
  "log_wf l \<longleftrightarrow> (\<forall>k < length (el_entries l). e_index (el_entries l ! k) = Suc (sm_index (el_base l) + k))"
  by (auto simp: log_wf_def list_all_iff)

lemma log_wf_nth: "log_wf l \<Longrightarrow> k < length (el_entries l) \<Longrightarrow> e_index (el_entries l ! k) = Suc (sm_index (el_base l) + k)"
  by (simp add: log_wf_iff)

lemma el_last_index_wf: "log_wf l \<Longrightarrow> el_last_index l = sm_index (el_base l) + length (el_entries l)"
  by (cases "el_entries l = []") (simp_all add: el_last_index_def last_conv_nth log_wf_nth)

lemma el_entry_wf:
  "log_wf l \<Longrightarrow> el_entry l i =
     (if sm_index (el_base l) < i \<and> i \<le> sm_index (el_base l) + length (el_entries l)
      then Some (el_entries l ! (i - Suc (sm_index (el_base l)))) else None)"
  by (auto simp: el_entry_def el_position_def el_last_index_wf)

lemma el_term_at_wf:
  "log_wf l \<Longrightarrow> el_term_at l i =
     (if i = sm_index (el_base l) then Some (sm_term (el_base l))
      else if sm_index (el_base l) < i \<and> i \<le> el_last_index l
      then Some (e_term (el_entries l ! (i - Suc (sm_index (el_base l))))) else None)"
  by (simp add: el_term_at_def el_entry_wf el_last_index_wf)

lemma el_entry_index: "log_wf l \<Longrightarrow> el_entry l i = Some e \<Longrightarrow> e_index e = i"
  by (auto simp: el_entry_wf log_wf_nth split: if_splits)

lemma log_wf_push: "log_wf l \<Longrightarrow> e_index e = Suc (el_last_index l) \<Longrightarrow> log_wf (el_push e l)"
  using el_last_index_wf [of l] by (auto simp: log_wf_iff el_push_def nth_append)

lemma log_wf_truncate: "log_wf l \<Longrightarrow> log_wf (fst (el_truncate_from i l))"
  by (simp add: log_wf_iff el_truncate_from_def Let_def)

lemma log_wf_compact:
  assumes "log_wf l" shows "log_wf (fst (el_compact meta l))"
proof (cases "sm_index meta \<le> sm_index (el_base l) \<or> el_term_at l (sm_index meta) \<noteq> Some (sm_term meta)")
  case True
  then show ?thesis using assms by (auto simp: el_compact_def log_wf_iff)
next
  case False
  then have "sm_index meta \<le> sm_index (el_base l) + length (el_entries l)"
    using assms by (auto simp: el_term_at_wf el_last_index_wf split: if_splits)
  then show ?thesis
    using False assms by (auto simp: el_compact_def log_wf_iff)
qed

text \<open>Appending: each entry takes the index after the last.\<close>

fun follows :: "nat \<Rightarrow> entry list \<Rightarrow> bool" where
  "follows i [] \<longleftrightarrow> True"
| "follows i (e # es) \<longleftrightarrow> e_index e = Suc i \<and> follows (Suc i) es"

lemma follows_nth: "follows i es \<longleftrightarrow> (\<forall>k < length es. e_index (es ! k) = Suc (i + k))"
proof (induction es arbitrary: i)
  case Nil
  then show ?case by simp
next
  case (Cons e es)
  show ?case
    unfolding follows.simps Cons.IH
    by (simp add: All_less_Suc2)
qed

lemma follows_append: "follows i (xs @ ys) \<longleftrightarrow> follows i xs \<and> follows (i + length xs) ys"
  by (induction xs arbitrary: i) auto

lemma log_wf_follows: "log_wf l \<longleftrightarrow> follows (sm_index (el_base l)) (el_entries l)"
  by (simp add: log_wf_iff follows_nth)

lemma fold_push: "fold el_push es l = l\<lparr>el_entries := el_entries l @ es\<rparr>"
  by (induction es arbitrary: l) (simp_all add: el_push_def)

lemma log_wf_append:
  "log_wf l \<Longrightarrow> follows (el_last_index l) es \<Longrightarrow> log_wf (fold el_push es l)"
  by (simp add: fold_push log_wf_follows [of "entry_log.el_entries_update _ _"] follows_append
      el_last_index_wf log_wf_follows [symmetric])

lemma el_last_index_append:
  "log_wf l \<Longrightarrow> follows (el_last_index l) es \<Longrightarrow> el_last_index (fold el_push es l) = el_last_index l + length es"
  using el_last_index_wf [OF log_wf_append] by (simp add: fold_push el_last_index_wf)

lemma el_entry_append:
  assumes "log_wf l" and "follows (el_last_index l) es"
  shows "el_entry (fold el_push es l) i = (if i \<le> el_last_index l then el_entry l i
     else if i \<le> el_last_index l + length es then Some (es ! (i - Suc (el_last_index l))) else None)"
  using el_entry_wf [OF log_wf_append [OF assms], of i] assms
  by (auto simp: el_entry_wf el_last_index_wf fold_push nth_append)

lemma el_base_append [simp]: "el_base (fold el_push es l) = el_base l"
  by (simp add: fold_push)

lemma el_term_at_append:
  assumes "log_wf l" and "follows (el_last_index l) es"
  shows "el_term_at (fold el_push es l) i = (if i \<le> el_last_index l then el_term_at l i
     else if i \<le> el_last_index l + length es then Some (e_term (es ! (i - Suc (el_last_index l)))) else None)"
  using assms(1) el_last_index_wf [OF assms(1)]
  by (auto simp: el_term_at_def el_entry_append [OF assms] el_base_append)

lemma el_last_index_truncate:
  "log_wf l \<Longrightarrow> sm_index (el_base l) < i \<Longrightarrow> el_last_index (fst (el_truncate_from i l)) = min (i - 1) (el_last_index l)"
  using el_last_index_wf [OF log_wf_truncate, of l i]
  by (auto simp: el_truncate_from_def Let_def el_last_index_wf)

lemma el_base_truncate [simp]: "el_base (fst (el_truncate_from i l)) = el_base l"
  by (simp add: el_truncate_from_def Let_def)

lemma el_entry_truncate:
  "log_wf l \<Longrightarrow> sm_index (el_base l) < i \<Longrightarrow> el_entry (fst (el_truncate_from i l)) j = (if j < i then el_entry l j else None)"
  using el_entry_wf [OF log_wf_truncate, of l i j]
  by (auto simp: el_truncate_from_def Let_def el_entry_wf intro!: nth_take)

lemma el_term_at_truncate:
  "log_wf l \<Longrightarrow> sm_index (el_base l) < i \<Longrightarrow> el_term_at (fst (el_truncate_from i l)) j = (if j < i then el_term_at l j else None)"
  by (auto simp: el_term_at_def el_entry_truncate)

text \<open>Folding a prefix that agrees into a snapshot forgets the prefix and nothing else.\<close>

lemma el_compact_agrees:
  assumes wf: "log_wf l" and newer: "sm_index (el_base l) < sm_index meta"
    and agrees: "el_term_at l (sm_index meta) = Some (sm_term meta)"
  shows "el_last_index (fst (el_compact meta l)) = el_last_index l"
    and "el_entry (fst (el_compact meta l)) i = (if i \<le> sm_index meta then None else el_entry l i)"
proof -
  have le: "sm_index meta \<le> sm_index (el_base l) + length (el_entries l)"
    using assms by (auto simp: el_term_at_wf el_last_index_wf split: if_splits)
  note c = log_wf_compact [OF wf, of meta]
  show "el_last_index (fst (el_compact meta l)) = el_last_index l"
    using el_last_index_wf [OF c] le newer agrees by (simp add: el_compact_def el_last_index_wf [OF wf])
  show "el_entry (fst (el_compact meta l)) i = (if i \<le> sm_index meta then None else el_entry l i)"
    using el_entry_wf [OF c, of i] le newer agrees by (auto simp: el_compact_def el_entry_wf [OF wf])
qed

section \<open>Batches of entries\<close>

abbreviation enc_total :: "entry list \<Rightarrow> nat" where
  "enc_total es \<equiv> sum_list (map encoded_len es)"

lemma within_loop_take:
  assumes "map (entry_at s) is = map Some es"
  shows "\<exists>n \<le> length es. within_loop s budget is used out = out @ take n es
    \<and> (out = [] \<and> es \<noteq> [] \<longrightarrow> 0 < n)
    \<and> (0 < n \<and> (out \<noteq> [] \<or> 1 < n) \<longrightarrow> used + enc_total (take n es) \<le> budget)
    \<and> (n < length es \<longrightarrow> budget < used + enc_total (take (Suc n) es))"
  using assms
proof (induction es arbitrary: "is" used out)
  case Nil
  then show ?case by simp
next
  case (Cons e es)
  then obtain i js where js: "is = i # js" "entry_at s i = Some e" "map (entry_at s) js = map Some es"
    by (cases "is") auto
  show ?case
  proof (cases "out \<noteq> [] \<and> used + encoded_len e > budget")
    case True
    then show ?thesis using js by (intro exI [of _ 0]) auto
  next
    case False
    obtain n where "n \<le> length es"
      and "within_loop s budget js (used + encoded_len e) (out @ [e]) = (out @ [e]) @ take n es"
      and "0 < n \<longrightarrow> used + encoded_len e + enc_total (take n es) \<le> budget"
      and "n < length es \<longrightarrow> budget < used + encoded_len e + enc_total (take (Suc n) es)"
      using Cons.IH [OF js(3), of "used + encoded_len e" "out @ [e]"] by auto
    then show ?thesis using False js by (intro exI [of _ "Suc n"]) (auto simp: add.assoc)
  qed
qed

abbreviation storage_wf :: "mem_storage \<Rightarrow> bool" where
  "storage_wf s \<equiv> log_wf (ms_log s)"

lemma entries_from_wf:
  assumes "storage_wf s"
  shows "map (entry_at s) [max i (first_index s) ..< Suc (last_index s)] = map Some (entries_from s i)"
proof -
  define l where "l = ms_log s"
  define a where "a = max i (Suc (sm_index (el_base l)))"
  have wf: "log_wf l" using assms by (simp add: l_def)
  have e: "el_entries_from l i = drop (a - Suc (sm_index (el_base l))) (el_entries l)"
    using wf by (auto simp: el_entries_from_def el_position_def el_last_index_wf a_def max_def)
  have "map (el_entry l) [a ..< Suc (el_last_index l)] = map Some (el_entries_from l i)"
    unfolding e by (rule nth_equalityI) (auto simp: el_last_index_wf [OF wf] el_entry_wf [OF wf] a_def simp del: upt_Suc)
  then show ?thesis
    by (simp add: entries_from_def entry_at_def [abs_def] first_index_def last_index_def snapshot_meta_of_def a_def l_def
        del: upt_Suc)
qed

text \<open>
  The batch a leader sends: a gapless run of the log from the index asked for, never empty when there is
  something to send, within the byte budget unless it is a single entry, and no shorter than the budget
  allows.
\<close>

theorem entries_within_batch:
  assumes "storage_wf s"
  shows "\<exists>n. entries_within s i budget = take n (entries_from s i)
    \<and> (entries_from s i \<noteq> [] \<longrightarrow> 0 < n)
    \<and> (1 < n \<longrightarrow> enc_total (take n (entries_from s i)) \<le> budget)
    \<and> (n < length (entries_from s i) \<longrightarrow> budget < enc_total (take (Suc n) (entries_from s i)))"
proof -
  obtain n where "within_loop s budget [max i (first_index s) ..< Suc (last_index s)] 0 [] = take n (entries_from s i)"
    and "entries_from s i \<noteq> [] \<longrightarrow> 0 < n"
    and "1 < n \<longrightarrow> enc_total (take n (entries_from s i)) \<le> budget"
    and "n < length (entries_from s i) \<longrightarrow> budget < enc_total (take (Suc n) (entries_from s i))"
    using within_loop_take [OF entries_from_wf [OF assms, of i], of budget 0 "[]"] by (auto simp del: upt_Suc)
  then show ?thesis
    unfolding entries_within_def by blast
qed

definition three_entries :: mem_storage where
  "three_entries = mem_storage_new\<lparr>ms_log := \<lparr>el_base = \<lparr>sm_index = 4, sm_term = 1\<rparr>,
     el_entries = [\<lparr>e_term = 1, e_index = 5, e_command = Noop\<rparr>,
                   \<lparr>e_term = 2, e_index = 6, e_command = Data [7, 7]\<rparr>,
                   \<lparr>e_term = 2, e_index = 7, e_command = Noop\<rparr>]\<rparr>\<rparr>"

lemma entries_within_batch_witness:
  "storage_wf three_entries \<and> entries_within three_entries 5 60 = take 2 (entries_from three_entries 5)
   \<and> (\<exists>n. entries_within three_entries 5 60 = take n (entries_from three_entries 5)
    \<and> (entries_from three_entries 5 \<noteq> [] \<longrightarrow> 0 < n)
    \<and> (1 < n \<longrightarrow> enc_total (take n (entries_from three_entries 5)) \<le> 60)
    \<and> (n < length (entries_from three_entries 5) \<longrightarrow> 60 < enc_total (take (Suc n) (entries_from three_entries 5))))"
proof -
  have wf: "storage_wf three_entries" by code_simp
  moreover have "entries_within three_entries 5 60 = take 2 (entries_from three_entries 5)" by code_simp
  ultimately show ?thesis using entries_within_batch [OF wf, of 5 60] by blast
qed

text \<open>
  Encoding of members: the decoder accepts exactly the byte strings the encoder writes for lists whose
  ids, contexts and count fit their fields, and gives back the list that was encoded.
\<close>

theorem decode_members_iff:
  "decode_members bs = Some ms \<longleftrightarrow> members_ok ms \<and> bs = encode_members ms"
  using decode_encode_members decode_members_Some by blast

end
