(* ===== verification/RaftMessage.thy ===== *)
theory RaftMessage
  imports RaftLog
begin

text \<open>
  The messages of the consensus protocol (\<^verbatim>\<open>src/src/raft/message.rs\<close>) and what a node asks of its
  transport. The fields of each constructor are in the order of the source.
\<close>

datatype message =
    PreVote nat nat nat  \<comment> \<open>term, last_log_index, last_log_term\<close>
  | PreVoteReply nat bool
  | RequestVote nat nat nat
  | RequestVoteReply nat bool
  | AppendEntries nat nat nat "entry list" nat nat
      \<comment> \<open>term, prev_log_index, prev_log_term, entries, leader_commit, seq\<close>
  | InstallSnapshot nat nat nat nat bytes bool nat "member list option"
      \<comment> \<open>term, last_index, last_term, offset, data, done, seq, members\<close>
  | InstallSnapshotReply nat nat nat bool nat
      \<comment> \<open>term, last_index, next_offset, done, seq\<close>
  | AppendEntriesReply nat bool nat nat "nat option" nat
      \<comment> \<open>term, success, match_index, conflict_index, conflict_term, seq\<close>
  | ReadIndex nat nat
  | ReadIndexReply nat nat "nat option"

fun msg_term :: "message \<Rightarrow> nat" where
  "msg_term (PreVote t _ _) = t"
| "msg_term (PreVoteReply t _) = t"
| "msg_term (RequestVote t _ _) = t"
| "msg_term (RequestVoteReply t _) = t"
| "msg_term (AppendEntries t _ _ _ _ _) = t"
| "msg_term (AppendEntriesReply t _ _ _ _ _) = t"
| "msg_term (InstallSnapshot t _ _ _ _ _ _ _) = t"
| "msg_term (InstallSnapshotReply t _ _ _ _) = t"
| "msg_term (ReadIndex t _) = t"
| "msg_term (ReadIndexReply t _ _) = t"

fun is_vote_request :: "message \<Rightarrow> bool" where
  "is_vote_request (PreVote _ _ _) = True"
| "is_vote_request (RequestVote _ _ _) = True"
| "is_vote_request _ = False"

fun is_request :: "message \<Rightarrow> bool" where
  "is_request (PreVote _ _ _) = True"
| "is_request (RequestVote _ _ _) = True"
| "is_request (AppendEntries _ _ _ _ _ _) = True"
| "is_request (InstallSnapshot _ _ _ _ _ _ _ _) = True"
| "is_request (ReadIndex _ _) = True"
| "is_request _ = False"

datatype action = Send (send_to: nat) (send_msg: message)

lemma vote_request_is_request: "is_vote_request m \<Longrightarrow> is_request m"
  by (cases m) auto

end
