(* ===== verification/RaftNode.thy ===== *)
theory RaftNode
  imports RaftMessage
begin

text \<open>
  The consensus state machine (\<^verbatim>\<open>src/src/raft/node.rs\<close>): one definition per method of \<^verbatim>\<open>Node\<close>, in the
  order of the source, composed as the source composes them.

  A method that takes \<^verbatim>\<open>&mut self\<close> and \<^verbatim>\<open>&mut actions\<close> and returns a \<^verbatim>\<open>Result\<close> is a function of the
  node and the actions so far; an error stops it where \<^verbatim>\<open>?\<close> would, with the changes made up to that
  point. A \<^verbatim>\<open>HashSet\<close> is a set, a \<^verbatim>\<open>HashMap\<close> a map, a \<^verbatim>\<open>u64\<close> that counts terms, indices, rounds or ticks a
  \<open>nat\<close>; the generator of timeouts is kept at its width. The node's storage is that of \<open>RaftLog\<close>, whose
  durable operations may fail.
\<close>

section \<open>Types\<close>

datatype role = Follower | PreCandidate | Candidate | Leader

record config =
  heartbeat_ticks :: nat
  election_timeout_min :: nat
  election_timeout_max :: nat
  max_append_bytes :: nat
  max_entry_bytes :: nat

definition default_config :: config where
  "default_config = \<lparr>heartbeat_ticks = 2, election_timeout_min = 10, election_timeout_max = 20,
     max_append_bytes = 1024 * 1024, max_entry_bytes = 16 * 1024 * 1024\<rparr>"

record accepted =
  acc_index :: nat
  acc_actions :: "action list"

datatype propose_error =
    NotLeader "nat option"
  | TooLarge nat nat
  | StorageErr error
  | Membership string

datatype read_kind = Local nat nat nat  \<comment> \<open>term, seq, index\<close> | Forwarded nat nat  \<comment> \<open>id, leader\<close> | NoLeader

datatype read_state = Pending | Ready nat | Failed

datatype answer = Waiting | Answered nat | Refused

record remote_read =
  rr_from :: nat
  rr_id :: nat
  rr_seq :: nat
  rr_index :: nat

type_synonym rng = "64 word"

definition rng_new :: "nat \<Rightarrow> rng" where
  "rng_new seed = (word_of_nat seed * 6364136223846793005 + 1442695040888963407) OR 1"

definition rng_next :: "rng \<Rightarrow> nat \<times> rng" where
  "rng_next r = (let x = r XOR push_bit 13 r; x = x XOR drop_bit 7 x; x = x XOR push_bit 17 x in (unat x, x))"

definition random_timeout :: "rng \<Rightarrow> config \<Rightarrow> nat \<times> rng" where
  "random_timeout r c =
     (let span = election_timeout_max c - election_timeout_min c in
      if span = 0 then (election_timeout_min c, r)
      else let (x, r) = rng_next r in (election_timeout_min c + x mod (span + 1), r))"

record node =
  n_id :: nat
  bootstrap :: "member list"
  members :: "member list"
  membership_index :: nat
  voters :: "nat list"
  peers :: "nat list"
  replicas :: "nat list"
  n_config :: config
  storage :: mem_storage
  role :: role
  leader_id :: "nat option"
  commit_index :: nat
  last_applied :: nat
  votes :: "nat set"
  leader_start :: nat
  active :: "nat set"
  snapshot_progress :: "nat \<rightharpoonup> nat \<times> nat"
  incoming :: "(nat \<times> mem_snapshot) option"
  next_index :: "nat \<rightharpoonup> nat"
  match_index :: "nat \<rightharpoonup> nat"
  n_seq :: nat
  acked :: "nat \<rightharpoonup> nat"
  auto_promote :: bool
  remote_reads :: "remote_read list"
  forwarded :: "nat \<rightharpoonup> answer"
  next_read :: nat
  election_elapsed :: nat
  heartbeat_elapsed :: nat
  election_timeout :: nat
  n_rng :: rng

section \<open>Operations on a node\<close>

type_synonym nstate = "node \<times> action list"
type_synonym ('e, 'a) nop = "nstate \<Rightarrow> ('e + 'a) \<times> nstate"

definition nret :: "'a \<Rightarrow> ('e, 'a) nop" where
  "nret x s = (Inr x, s)"

definition nfail :: "'e \<Rightarrow> ('e, 'a) nop" where
  "nfail e s = (Inl e, s)"

definition nbind :: "('e, 'a) nop \<Rightarrow> ('a \<Rightarrow> ('e, 'b) nop) \<Rightarrow> ('e, 'b) nop" where
  "nbind m f s = (case m s of (Inl e, s') \<Rightarrow> (Inl e, s') | (Inr x, s') \<Rightarrow> f x s')"

definition nseq :: "('e, 'a) nop \<Rightarrow> ('e, 'b) nop \<Rightarrow> ('e, 'b) nop" where
  "nseq m m' = nbind m (\<lambda>_. m')"

definition nmod :: "(node \<Rightarrow> node) \<Rightarrow> ('e, unit) nop" where
  "nmod f s = (Inr (), f (fst s), snd s)"

text \<open>Continue with what the node is now.\<close>

definition nwith :: "(node \<Rightarrow> ('e, 'a) nop) \<Rightarrow> ('e, 'a) nop" where
  "nwith f s = f (fst s) s"

definition npush :: "action \<Rightarrow> ('e, unit) nop" where
  "npush a s = (Inr (), fst s, snd s @ [a])"

definition nstore :: "(mem_storage \<Rightarrow> 'a res \<times> mem_storage) \<Rightarrow> (error, 'a) nop" where
  "nstore f s = (case f (storage (fst s)) of (r, st) \<Rightarrow> (r, (fst s)\<lparr>storage := st\<rparr>, snd s))"

definition nwhen :: "bool \<Rightarrow> ('e, unit) nop \<Rightarrow> ('e, unit) nop" where
  "nwhen b m = (if b then m else nret ())"

text \<open>\<^verbatim>\<open>From<Error> for ProposeError\<close>, applied by \<^verbatim>\<open>?\<close>.\<close>

definition nstorage_err :: "(error, 'a) nop \<Rightarrow> (propose_error, 'a) nop" where
  "nstorage_err m s = (case m s of (Inl e, s') \<Rightarrow> (Inl (StorageErr e), s') | (Inr x, s') \<Rightarrow> (Inr x, s'))"

text \<open>A public method: it starts with no actions and returns those it collected.\<close>

definition run_op :: "('e, 'a) nop \<Rightarrow> node \<Rightarrow> ('e + 'a \<times> action list) \<times> node" where
  "run_op m n = (case m (n, []) of (Inl e, n', _) \<Rightarrow> (Inl e, n') | (Inr x, n', acts) \<Rightarrow> (Inr (x, acts), n'))"

section \<open>Membership\<close>

definition n_term :: "node \<Rightarrow> nat" where
  "n_term n = hs_term (ms_hard (storage n))"

definition n_vote :: "node \<Rightarrow> nat option" where
  "n_vote n = voted_for (ms_hard (storage n))"

definition is_voter :: "node \<Rightarrow> bool" where
  "is_voter n \<longleftrightarrow> n_id n \<in> set (voters n)"

definition is_member :: "node \<Rightarrow> bool" where
  "is_member n \<longleftrightarrow> list_ex (\<lambda>m. mid m = n_id n) (members n)"

definition quorum :: "node \<Rightarrow> nat" where
  "quorum n = length (voters n) div 2 + 1"

definition has_quorum :: "node \<Rightarrow> nat set \<Rightarrow> bool" where
  "has_quorum n ids \<longleftrightarrow> voters n \<noteq> [] \<and> length (filter (\<lambda>v. v \<in> ids) (voters n)) \<ge> quorum n"

text \<open>The newest membership entry among the indices given, or what came before them.\<close>

fun newest_config :: "mem_storage \<Rightarrow> nat list \<Rightarrow> member list \<times> nat \<Rightarrow> member list \<times> nat" where
  "newest_config st [] acc = acc"
| "newest_config st (i # is) acc = newest_config st is
     (case entry_at st i of
        Some e \<Rightarrow> (case e_command e of Config m \<Rightarrow> (m, i) | _ \<Rightarrow> acc)
      | None \<Rightarrow> acc)"

definition members_at :: "node \<Rightarrow> nat \<Rightarrow> member list" where
  "members_at n index =
     (let st = storage n; start = (case ms_members st of Some ms \<Rightarrow> ms | None \<Rightarrow> bootstrap n) in
      fst (newest_config st [first_index st ..< Suc (min index (last_index st))] (start, 0)))"

definition voter_ids :: "member list \<Rightarrow> nat list" where
  "voter_ids ms = remdups_adj (sort (map mid (filter (\<lambda>m. \<not> is_learner m) ms)))"

definition replica_ids :: "node \<Rightarrow> member list \<Rightarrow> nat \<Rightarrow> nat list" where
  "replica_ids n ms at =
     (let rs = filter (\<lambda>i. i \<noteq> n_id n) (map mid ms);
          rs = (if at > commit_index n
                then fold (\<lambda>m rs. if mid m \<noteq> n_id n \<and> mid m \<notin> set rs then rs @ [mid m] else rs)
                       (members_at n (at - 1)) rs
                else rs)
      in remdups_adj (sort rs))"

definition keep_known :: "nat list \<Rightarrow> (nat \<rightharpoonup> 'v) \<Rightarrow> nat \<rightharpoonup> 'v" where
  "keep_known rs f = f |` set rs"

definition or_insert :: "nat list \<Rightarrow> 'v \<Rightarrow> (nat \<rightharpoonup> 'v) \<Rightarrow> nat \<rightharpoonup> 'v" where
  "or_insert ks v f = fold (\<lambda>k f. if f k = None then f(k \<mapsto> v) else f) ks f"

definition reload_membership :: "node \<Rightarrow> node" where
  "reload_membership n =
     (let st = storage n;
          start = (case ms_members st of Some ms \<Rightarrow> (ms, sm_index (snapshot_meta_of st)) | None \<Rightarrow> (bootstrap n, 0));
          (ms, at) = newest_config st [first_index st ..< Suc (last_index st)] start;
          vs = voter_ids ms; rs = replica_ids n ms at;
          n = n\<lparr>peers := filter (\<lambda>v. v \<noteq> n_id n) vs, voters := vs, replicas := rs, members := ms,
                membership_index := at\<rparr>
      in if role n = Leader
         then n\<lparr>next_index := keep_known rs (or_insert rs (last_index st + 1) (next_index n)),
                match_index := keep_known rs (or_insert rs 0 (match_index n)),
                snapshot_progress := keep_known rs (snapshot_progress n)\<rparr>
         else n)"

definition reset_election_timer :: "node \<Rightarrow> node" where
  "reset_election_timer n = (let (t, r) = random_timeout (n_rng n) (n_config n) in
     n\<lparr>election_elapsed := 0, election_timeout := t, n_rng := r\<rparr>)"

definition with_members :: "nat \<Rightarrow> member list \<Rightarrow> config \<Rightarrow> mem_storage \<Rightarrow> node" where
  "with_members i boot c st =
     (let snapshot = sm_index (snapshot_meta_of st); (t, r) = random_timeout (rng_new i) c in
      reload_membership
       \<lparr>n_id = i, bootstrap = boot, members = [], membership_index = 0, voters = [], peers = [], replicas = [],
        n_config = c, storage = st, role = Follower, leader_id = None,
        commit_index = snapshot, last_applied = snapshot, votes = {}, leader_start = 0, active = {},
        snapshot_progress = Map.empty, incoming = None, next_index = Map.empty, match_index = Map.empty,
        n_seq = 0, acked = Map.empty, auto_promote = True, remote_reads = [], forwarded = Map.empty, next_read = 0,
        election_elapsed = 0, heartbeat_elapsed = 0, election_timeout = t, n_rng = r\<rparr>)"

definition node_new :: "nat \<Rightarrow> nat list \<Rightarrow> config \<Rightarrow> mem_storage \<Rightarrow> node" where
  "node_new i ps c st = with_members i (map (\<lambda>p. voter p []) ps) c st"

definition set_auto_promote :: "bool \<Rightarrow> node \<Rightarrow> node" where
  "set_auto_promote on n = n\<lparr>auto_promote := on\<rparr>"

definition ready_to_serve :: "node \<Rightarrow> bool" where
  "ready_to_serve n \<longleftrightarrow> role n = Leader \<and> commit_index n \<ge> leader_start n"

definition into_storage :: "node \<Rightarrow> mem_storage" where
  "into_storage n = storage n"

section \<open>Replication, the leader's side\<close>

definition get_or :: "(nat \<rightharpoonup> 'v) \<Rightarrow> nat \<Rightarrow> 'v \<Rightarrow> 'v" where
  "get_or f k d = (case f k of Some v \<Rightarrow> v | None \<Rightarrow> d)"

text \<open>What a voter is known to hold.\<close>

definition progress :: "node \<Rightarrow> nat \<Rightarrow> nat" where
  "progress n v = (if v = n_id n then last_index (storage n) else get_or (match_index n) v 0)"

definition maybe_commit :: "node \<Rightarrow> node" where
  "maybe_commit n =
     (if voters n = [] then n
      else let indices = rev (sort (map (progress n) (voters n))); majority = indices ! (quorum n - 1) in
        if majority > commit_index n \<and> term_at (storage n) majority = Some (n_term n)
        then n\<lparr>commit_index := majority\<rparr> else n)"

definition next_for :: "node \<Rightarrow> nat \<Rightarrow> nat" where
  "next_for n peer = get_or (next_index n) peer (last_index (storage n) + 1)"

definition prev_term :: "node \<Rightarrow> nat \<Rightarrow> nat" where
  "prev_term n i = (case term_at (storage n) i of Some t \<Rightarrow> t | None \<Rightarrow> 0)"

definition append_message_for :: "nat \<Rightarrow> (error, action) nop" where
  "append_message_for peer = nwith (\<lambda>n.
     let next = next_for n peer; snapshot = snapshot_meta_of (storage n) in
     if next \<le> sm_index snapshot then
       let offset = (case snapshot_progress n peer of
             Some (index, offset) \<Rightarrow> if index = sm_index snapshot then offset else 0
           | None \<Rightarrow> 0)
       in nbind (nstore (read_snapshot offset (max (max_append_bytes (n_config n)) 1))) (\<lambda>data.
            let fin = (offset + length data \<ge> snapshot_len (storage n)) in
            nret (Send peer (InstallSnapshot (n_term n) (sm_index snapshot) (sm_term snapshot) offset data fin
              (n_seq n) (ms_members (storage n)))))
     else
       nret (Send peer (AppendEntries (n_term n) (next - 1) (prev_term n (next - 1))
         (entries_within (storage n) next (max_append_bytes (n_config n))) (commit_index n) (n_seq n))))"

definition push_append_for :: "nat \<Rightarrow> (error, unit) nop" where
  "push_append_for peer = nbind (append_message_for peer) npush"

fun send_all :: "nat list \<Rightarrow> (error, unit) nop" where
  "send_all [] = nret ()"
| "send_all (p # ps) = nseq (push_append_for p) (send_all ps)"

definition departing :: "node \<Rightarrow> bool" where
  "departing n \<longleftrightarrow> list_ex (\<lambda>r. \<not> list_ex (\<lambda>m. mid m = r) (members n)) (replicas n)"

definition broadcast_append :: "(error, unit) nop" where
  "broadcast_append =
     nseq (nmod (\<lambda>n. if departing n \<and> membership_index n \<le> commit_index n then reload_membership n else n))
      (nwith (\<lambda>n. send_all (replicas n)))"

definition is_config :: "command \<Rightarrow> bool" where
  "is_config c = (case c of Config _ \<Rightarrow> True | _ \<Rightarrow> False)"

definition append_local :: "command \<Rightarrow> (error, nat) nop" where
  "append_local c = nwith (\<lambda>n.
     let index = last_index (storage n) + 1 in
     nseq (nstore (append_entries [\<lparr>e_term = n_term n, e_index = index, e_command = c\<rparr>]))
      (nseq (nmod (\<lambda>n. if is_config c then reload_membership n else n))
       (nseq (nmod maybe_commit) (nret index))))"

section \<open>Proposals\<close>

definition propose_op :: "bytes \<Rightarrow> (propose_error, nat) nop" where
  "propose_op command = nwith (\<lambda>n.
     if role n \<noteq> Leader then nfail (NotLeader (leader_id n))
     else let len = length command + ENTRY_OVERHEAD in
       if len > max_entry_bytes (n_config n) then nfail (TooLarge len (max_entry_bytes (n_config n)))
       else nbind (nstorage_err (append_local (Data command))) (\<lambda>index.
         nseq (nstorage_err broadcast_append) (nret index)))"

definition to_accepted :: "('e + nat \<times> action list) \<times> node \<Rightarrow> ('e + accepted) \<times> node" where
  "to_accepted r = (case r of (Inl e, n) \<Rightarrow> (Inl e, n)
     | (Inr (i, acts), n) \<Rightarrow> (Inr \<lparr>acc_index = i, acc_actions = acts\<rparr>, n))"

definition propose :: "bytes \<Rightarrow> node \<Rightarrow> (propose_error + accepted) \<times> node" where
  "propose command n = to_accepted (run_op (propose_op command) n)"

text \<open>The loop of \<^verbatim>\<open>propose_batch\<close> over the commands: the entries and the answers, in order.\<close>

fun batch_entries :: "nat \<Rightarrow> nat \<Rightarrow> nat \<Rightarrow> bytes list \<Rightarrow> entry list \<times> (propose_error + nat) list" where
  "batch_entries t limit next [] = ([], [])"
| "batch_entries t limit next (c # cs) =
     (let len = length c + ENTRY_OVERHEAD in
      if len > limit then (let (es, as) = batch_entries t limit next cs in (es, Inl (TooLarge len limit) # as))
      else let (es, as) = batch_entries t limit (next + 1) cs in
        (\<lparr>e_term = t, e_index = next, e_command = Data c\<rparr> # es, Inr next # as))"

definition propose_batch_op :: "bytes list \<Rightarrow> (propose_error, (propose_error + nat) list) nop" where
  "propose_batch_op commands = nwith (\<lambda>n.
     if role n \<noteq> Leader then nfail (NotLeader (leader_id n))
     else let (entries, answers) = batch_entries (n_term n) (max_entry_bytes (n_config n))
                (last_index (storage n) + 1) commands in
       nseq (nstorage_err (nwhen (entries \<noteq> [])
              (nseq (nstore (append_entries entries)) (nseq (nmod maybe_commit) broadcast_append))))
        (nret answers))"

definition propose_batch ::
  "bytes list \<Rightarrow> node \<Rightarrow> (propose_error + (propose_error + nat) list \<times> action list) \<times> node" where
  "propose_batch commands n = run_op (propose_batch_op commands) n"

definition propose_membership_op :: "member list \<Rightarrow> (propose_error, nat) nop" where
  "propose_membership_op ms = nwith (\<lambda>n.
     if role n \<noteq> Leader then nfail (NotLeader (leader_id n))
     else if \<not> ready_to_serve n then
       nfail (Membership ''this leader has not yet committed an entry of its own term'')
     else if membership_index n > commit_index n then
       nfail (Membership ''the last membership change has not committed yet'')
     else if card (set (map mid ms)) \<noteq> length ms then nfail (Membership ''a member is listed twice'')
     else let old = set (voters n); new = set (map mid (filter (\<lambda>m. \<not> is_learner m) ms)) in
       if new = {} then nfail (Membership ''a cluster cannot have no voters'')
       else if card ((old - new) \<union> (new - old)) > 1 then
         nfail (Membership ''only one member can be added or removed at a time'')
       else nbind (nstorage_err (append_local (Config ms))) (\<lambda>index.
         nseq (nstorage_err broadcast_append) (nret index)))"

definition propose_membership :: "member list \<Rightarrow> node \<Rightarrow> (propose_error + accepted) \<times> node" where
  "propose_membership ms n = to_accepted (run_op (propose_membership_op ms) n)"

definition caught_up :: "node \<Rightarrow> member \<Rightarrow> bool" where
  "caught_up n m \<longleftrightarrow> is_learner m \<and> get_or (match_index n) (mid m) 0 \<ge> commit_index n"

fun promote_first :: "(member \<Rightarrow> bool) \<Rightarrow> member list \<Rightarrow> member list option" where
  "promote_first p [] = None"
| "promote_first p (m # ms) = (if p m then Some (m\<lparr>is_learner := False\<rparr> # ms)
     else map_option (Cons m) (promote_first p ms))"

definition maybe_promote :: "(error, unit) nop" where
  "maybe_promote = nwith (\<lambda>n.
     if \<not> auto_promote n \<or> \<not> ready_to_serve n \<or> membership_index n > commit_index n then nret ()
     else (case promote_first (caught_up n) (members n) of
         None \<Rightarrow> nret ()
       | Some ms \<Rightarrow> (\<lambda>s. case propose_membership ms (fst s) of
             (Inr acc, n') \<Rightarrow> (Inr (), n', snd s @ acc_actions acc)
           | (Inl (StorageErr e), n') \<Rightarrow> (Inl e, n', snd s)
           | (Inl _, n') \<Rightarrow> (Inr (), n', snd s))))"

text \<open>The loop of \<^verbatim>\<open>take_committed\<close>; an index whose entry is gone is passed over.\<close>

function committed_loop :: "node \<Rightarrow> entry list \<Rightarrow> entry list \<times> node" where
  "committed_loop n out =
     (if last_applied n < commit_index n then
        let n = n\<lparr>last_applied := last_applied n + 1\<rparr> in
        committed_loop n (case entry_at (storage n) (last_applied n) of Some e \<Rightarrow> out @ [e] | None \<Rightarrow> out)
      else (out, n))"
  by pat_completeness auto
termination
  by (relation "measure (\<lambda>(n, _). commit_index n - last_applied n)") auto

declare committed_loop.simps [simp del]

definition take_committed :: "node \<Rightarrow> entry list \<times> node" where
  "take_committed n = committed_loop n []"

section \<open>Elections\<close>

definition become_follower :: "nat \<Rightarrow> nat option \<Rightarrow> (error, unit) nop" where
  "become_follower t leader = nwith (\<lambda>n0.
     nseq (nmod (\<lambda>n. n\<lparr>role := Follower, leader_id := leader, votes := {}, active := {}, remote_reads := []\<rparr>))
      (nseq (nwhen (t \<noteq> n_term n0) (nstore (save_hard_state \<lparr>hs_term = t, voted_for = None\<rparr>)))
        (nmod reset_election_timer)))"

definition take_office :: "node \<Rightarrow> node" where
  "take_office n = n\<lparr>role := Leader, leader_id := Some (n_id n), heartbeat_elapsed := 0, election_elapsed := 0,
     active := {}, snapshot_progress := Map.empty, acked := Map.empty, remote_reads := [],
     next_index := or_insert (replicas n) (last_index (storage n) + 1) Map.empty,
     match_index := or_insert (replicas n) 0 Map.empty\<rparr>"

definition become_leader :: "(error, unit) nop" where
  "become_leader =
     nseq (nmod take_office)
      (nbind (append_local Noop) (\<lambda>start.
        nseq (nmod (\<lambda>n. n\<lparr>leader_start := start\<rparr>)) broadcast_append))"

fun canvass :: "message \<Rightarrow> nat list \<Rightarrow> (error, unit) nop" where
  "canvass msg [] = nret ()"
| "canvass msg (p # ps) = nseq (npush (Send p msg)) (canvass msg ps)"

definition become_candidate :: "(error, unit) nop" where
  "become_candidate = nwith (\<lambda>n0.
     let t = n_term n0 + 1 in
     nseq (nmod (\<lambda>n. n\<lparr>role := Candidate, leader_id := None, remote_reads := []\<rparr>))
      (nseq (nstore (save_hard_state \<lparr>hs_term = t, voted_for = Some (n_id n0)\<rparr>))
       (nseq (nmod (\<lambda>n. reset_election_timer (n\<lparr>votes := {n_id n}\<rparr>)))
         (nwith (\<lambda>n. if has_quorum n (votes n) then become_leader
            else canvass (RequestVote t (last_index (storage n)) (last_term (storage n))) (peers n))))))"

definition become_pre_candidate :: "(error, unit) nop" where
  "become_pre_candidate =
     nseq (nmod (\<lambda>n. reset_election_timer
              (n\<lparr>role := PreCandidate, leader_id := None, remote_reads := [], votes := {n_id n}\<rparr>)))
      (nwith (\<lambda>n. if has_quorum n (votes n) then become_candidate
         else canvass (PreVote (n_term n + 1) (last_index (storage n)) (last_term (storage n))) (peers n)))"

definition handle_pre_vote :: "nat \<Rightarrow> nat \<Rightarrow> nat \<Rightarrow> nat \<Rightarrow> (error, unit) nop" where
  "handle_pre_vote from proposed li lt = nwith (\<lambda>n.
     let granted = (proposed > n_term n \<and> is_up_to_date (storage n) li lt) in
     npush (Send from (PreVoteReply (if granted then proposed else n_term n) granted)))"

definition handle_pre_vote_reply :: "nat \<Rightarrow> nat \<Rightarrow> bool \<Rightarrow> (error, unit) nop" where
  "handle_pre_vote_reply from t granted = nwith (\<lambda>n.
     if granted then
       nwhen (role n = PreCandidate \<and> t = n_term n + 1)
        (nseq (nmod (\<lambda>n. n\<lparr>votes := insert from (votes n)\<rparr>))
          (nwith (\<lambda>n. nwhen (has_quorum n (votes n)) become_candidate)))
     else nwhen (t > n_term n) (become_follower t None))"

definition handle_request_vote :: "nat \<Rightarrow> nat \<Rightarrow> nat \<Rightarrow> (error, unit) nop" where
  "handle_request_vote from li lt = nwith (\<lambda>n.
     let free_to_vote = (case n_vote n of None \<Rightarrow> True | Some v \<Rightarrow> v = from);
         granted = (free_to_vote \<and> is_up_to_date (storage n) li lt) in
     nseq (nwhen granted
            (nseq (nstore (save_hard_state \<lparr>hs_term = n_term n, voted_for = Some from\<rparr>)) (nmod reset_election_timer)))
      (nwith (\<lambda>n. npush (Send from (RequestVoteReply (n_term n) granted)))))"

definition handle_vote_reply :: "nat \<Rightarrow> nat \<Rightarrow> bool \<Rightarrow> (error, unit) nop" where
  "handle_vote_reply from t granted = nwith (\<lambda>n.
     if role n \<noteq> Candidate \<or> t \<noteq> n_term n then nret ()
     else nwhen granted
       (nseq (nmod (\<lambda>n. n\<lparr>votes := insert from (votes n)\<rparr>))
         (nwith (\<lambda>n. nwhen (has_quorum n (votes n)) become_leader))))"

section \<open>Replication, the follower's side\<close>

text \<open>
  The loop of \<^verbatim>\<open>handle_append_entries\<close>: how many of the entries are already held, and whether a
  conflicting suffix was cut off.
\<close>

fun match_entries :: "nat \<Rightarrow> nat \<Rightarrow> nat \<Rightarrow> entry list \<Rightarrow> (error, nat \<times> bool) nop" where
  "match_entries prev offset append_from [] = nret (append_from, False)"
| "match_entries prev offset append_from (e # es) = nwith (\<lambda>n.
     let index = prev + 1 + offset in
     (case term_at (storage n) index of
        Some t \<Rightarrow> if t = e_term e then match_entries prev (offset + 1) (offset + 1) es
                  else nseq (nstore (truncate_from index)) (nret (append_from, True))
      | None \<Rightarrow> nret (append_from, False)))"

definition accept_entries :: "nat \<Rightarrow> entry list \<Rightarrow> (error, unit) nop" where
  "accept_entries prev entries =
     nbind (match_entries prev 0 0 entries) (\<lambda>(append_from, moved).
       let new = drop append_from entries in
       nseq (nwhen (append_from < length entries) (nstore (append_entries new)))
        (nwhen (moved \<or> append_from < length entries \<and> list_ex (\<lambda>e. is_config (e_command e)) new)
          (nmod reload_membership)))"

definition hear_leader :: "nat \<Rightarrow> node \<Rightarrow> node" where
  "hear_leader from n = reset_election_timer (n\<lparr>role := Follower, leader_id := Some from\<rparr>)"

definition handle_append_entries :: "nat \<Rightarrow> nat \<Rightarrow> nat \<Rightarrow> entry list \<Rightarrow> nat \<Rightarrow> nat \<Rightarrow> (error, unit) nop" where
  "handle_append_entries from pi pt es leader_commit sq =
     nseq (nmod (hear_leader from)) (nwith (\<lambda>n.
      let t = n_term n; snapshot = snapshot_meta_of (storage n) in
      if pi < sm_index snapshot \<and> sm_index snapshot - pi \<ge> length es then
        npush (Send from (AppendEntriesReply t True (sm_index snapshot) 0 None sq))
      else
        let (prev, prev_t, entries) =
              (if pi < sm_index snapshot then (sm_index snapshot, sm_term snapshot, drop (sm_index snapshot - pi) es)
               else (pi, pt, es));
            local_term = term_at (storage n) prev in
        if local_term \<noteq> Some prev_t then
          let (conflict_index, conflict_term) = (case local_term of
                None \<Rightarrow> (last_index (storage n) + 1, None)
              | Some t \<Rightarrow> (first_index_of_term (storage n) t, Some t)) in
          npush (Send from (AppendEntriesReply t False 0 conflict_index conflict_term sq))
        else
          let last_covered = prev + length entries in
          nseq (accept_entries prev entries)
           (nseq (nmod (\<lambda>n. if leader_commit > commit_index n
                        then n\<lparr>commit_index := min leader_commit last_covered\<rparr> else n))
             (npush (Send from (AppendEntriesReply t True last_covered 0 None sq))))))"

section \<open>Reads\<close>

definition round_confirmed :: "node \<Rightarrow> nat \<Rightarrow> bool" where
  "round_confirmed n sq = has_quorum n (insert (n_id n)
     (set (filter (\<lambda>p. case acked n p of Some a \<Rightarrow> a \<ge> sq | None \<Rightarrow> False) (peers n))))"

text \<open>The round's heartbeats, and the node with the round opened.\<close>

definition heartbeat_for :: "node \<Rightarrow> nat \<Rightarrow> action option" where
  "heartbeat_for n peer =
     (let next = next_for n peer in
      if next \<le> sm_index (snapshot_meta_of (storage n)) then None
      else Some (Send peer (AppendEntries (n_term n) (next - 1) (prev_term n (next - 1)) [] (commit_index n) (n_seq n))))"

definition open_read_round :: "node \<Rightarrow> (nat \<times> nat) \<times> action list \<times> node" where
  "open_read_round n =
     (let n = n\<lparr>n_seq := n_seq n + 1\<rparr> in
      ((n_seq n, max (commit_index n) (leader_start n)), List.map_filter (heartbeat_for n) (replicas n), n))"

definition read_index :: "node \<Rightarrow> (read_kind \<times> action list) \<times> node" where
  "read_index n =
     (if role n = Leader then
        let ((sq, index), acts, n) = open_read_round n in ((Local (n_term n) sq index, acts), n)
      else (case leader_id n of
          Some leader \<Rightarrow>
            let i = next_read n + 1 in
            ((Forwarded i leader, [Send leader (ReadIndex (n_term n) i)]),
             n\<lparr>next_read := i, forwarded := (forwarded n)(i \<mapsto> Waiting)\<rparr>)
        | None \<Rightarrow> ((NoLeader, []), n)))"

definition read_state_of :: "node \<Rightarrow> read_kind \<Rightarrow> read_state" where
  "read_state_of n r = (case r of
       Local t sq index \<Rightarrow> if role n \<noteq> Leader \<or> n_term n \<noteq> t then Failed
          else if round_confirmed n sq then Ready index else Pending
     | Forwarded i leader \<Rightarrow> (case forwarded n i of
           Some (Answered index) \<Rightarrow> Ready index
         | Some Waiting \<Rightarrow> if leader_id n = Some leader then Pending else Failed
         | _ \<Rightarrow> Failed)
     | NoLeader \<Rightarrow> Failed)"

definition forget_read :: "read_kind \<Rightarrow> node \<Rightarrow> node" where
  "forget_read r n = (case r of Forwarded i _ \<Rightarrow> n\<lparr>forwarded := (forwarded n)(i := None)\<rparr> | _ \<Rightarrow> n)"

definition handle_read_index :: "nat \<Rightarrow> nat \<Rightarrow> ('e, unit) nop" where
  "handle_read_index from i s =
     (if role (fst s) \<noteq> Leader then npush (Send from (ReadIndexReply (n_term (fst s)) i None)) s
      else let ((sq, index), acts, n) = open_read_round (fst s) in
        (Inr (), n\<lparr>remote_reads := remote_reads n @ [\<lparr>rr_from = from, rr_id = i, rr_seq = sq, rr_index = index\<rparr>]\<rparr>,
         snd s @ acts))"

definition release_reads :: "('e, unit) nop" where
  "release_reads s =
     (let n = fst s; ready = (\<lambda>r. round_confirmed n (rr_seq r)) in
      (Inr (), n\<lparr>remote_reads := filter (\<lambda>r. \<not> ready r) (remote_reads n)\<rparr>,
       snd s @ map (\<lambda>r. Send (rr_from r) (ReadIndexReply (n_term n) (rr_id r) (Some (rr_index r))))
                 (filter ready (remote_reads n))))"

section \<open>Replies\<close>

definition heard_round :: "nat \<Rightarrow> nat \<Rightarrow> nat \<Rightarrow> ('e, bool) nop" where
  "heard_round from t sq = nwith (\<lambda>n.
     if role n \<noteq> Leader \<or> t \<noteq> n_term n then nret False
     else let was = get_or (acked n) from 0 in
       nseq (nmod (\<lambda>n. n\<lparr>active := insert from (active n), acked := (acked n)(from \<mapsto> max was sq)\<rparr>))
        (nseq (nwhen (sq > was) release_reads) (nret True)))"

definition handle_append_reply :: "nat \<Rightarrow> bool \<Rightarrow> nat \<Rightarrow> nat \<Rightarrow> nat option \<Rightarrow> (error, unit) nop" where
  "handle_append_reply from success mi conflict_index conflict_term = nwith (\<lambda>n.
     if success then
       nwhen (mi > get_or (match_index n) from 0)
        (nseq (nmod (\<lambda>n. maybe_commit (n\<lparr>match_index := (match_index n)(from \<mapsto> mi),
                 next_index := (next_index n)(from \<mapsto> mi + 1)\<rparr>)))
          (nwith (\<lambda>n. nwhen (mi < last_index (storage n)) (push_append_for from))))
     else
       let next = (case conflict_term of
             Some t \<Rightarrow> (case last_index_of_term (storage n) t of Some i \<Rightarrow> i + 1 | None \<Rightarrow> conflict_index)
           | None \<Rightarrow> conflict_index) in
       nseq (nmod (\<lambda>n. n\<lparr>next_index := (next_index n)(from \<mapsto> max next 1)\<rparr>)) (push_append_for from))"

section \<open>Snapshots\<close>

definition handle_install_snapshot ::
  "nat \<Rightarrow> snapshot_meta \<Rightarrow> nat \<Rightarrow> bytes \<Rightarrow> bool \<Rightarrow> nat \<Rightarrow> member list option \<Rightarrow> (error, unit) nop" where
  "handle_install_snapshot from meta offset data fin sq mems =
     nseq (nmod (hear_leader from)) (nwith (\<lambda>n.
      let t = n_term n; reply = (\<lambda>next_offset fin. Send from (InstallSnapshotReply t (sm_index meta) next_offset fin sq)) in
      if sm_index meta \<le> commit_index n then
        nseq (nmod (\<lambda>n. n\<lparr>incoming := None\<rparr>)) (npush (reply 0 True))
      else
        let continuing = (case incoming n of Some (sender, sink) \<Rightarrow> sender = from \<and> sk_meta sink = meta | None \<Rightarrow> False) in
        if \<not> continuing \<and> offset \<noteq> 0 then npush (reply 0 False)
        else nbind (case incoming n of
               Some (_, sink) \<Rightarrow> if continuing then nret sink else nstore (new_snapshot meta mems)
             | None \<Rightarrow> nstore (new_snapshot meta mems))
          (\<lambda>sink. nseq (nmod (\<lambda>n. n\<lparr>incoming := Some (from, sink)\<rparr>))
            (if offset \<noteq> sink_written sink then npush (reply (sink_written sink) False)
             else let sink = sink_write data sink; held = sink_written sink in
               if \<not> fin then nseq (nmod (\<lambda>n. n\<lparr>incoming := Some (from, sink)\<rparr>)) (npush (reply held False))
               else nseq (nmod (\<lambda>n. n\<lparr>incoming := None\<rparr>))
                 (nseq (nstore (install_snapshot sink))
                   (nseq (nmod (\<lambda>n. let n = reload_membership n in
                              n\<lparr>commit_index := max (commit_index n) (sm_index meta),
                                last_applied := max (last_applied n) (sm_index meta)\<rparr>))
                     (npush (reply held True))))))))"

definition handle_snapshot_reply :: "nat \<Rightarrow> nat \<Rightarrow> nat \<Rightarrow> bool \<Rightarrow> (error, unit) nop" where
  "handle_snapshot_reply from li next_offset fin = nwith (\<lambda>n.
     let current = sm_index (snapshot_meta_of (storage n)) in
     if fin then
       nseq (nmod (\<lambda>n. let n = n\<lparr>snapshot_progress := (snapshot_progress n)(from := None)\<rparr> in
               if li > get_or (match_index n) from 0
               then maybe_commit (n\<lparr>match_index := (match_index n)(from \<mapsto> li), next_index := (next_index n)(from \<mapsto> li + 1)\<rparr>)
               else n))
        (nwith (\<lambda>n. nwhen (get_or (next_index n) from 0 \<le> last_index (storage n)) (push_append_for from)))
     else
       nseq (nmod (\<lambda>n. n\<lparr>snapshot_progress := (snapshot_progress n)(from \<mapsto> (current, if li = current then next_offset else 0))\<rparr>))
        (push_append_for from))"

definition node_begin_compaction :: "nat \<Rightarrow> node \<Rightarrow> mem_snapshot option res \<times> node" where
  "node_begin_compaction index n =
     (if index \<le> sm_index (snapshot_meta_of (storage n)) \<or> index > last_applied n then (Inr None, n)
      else (case term_at (storage n) index of
          None \<Rightarrow> (Inr None, n)
        | Some t \<Rightarrow> (case new_snapshot \<lparr>sm_index = index, sm_term = t\<rparr> (Some (members_at n index)) (storage n) of
              (Inl e, st) \<Rightarrow> (Inl e, n\<lparr>storage := st\<rparr>)
            | (Inr sink, st) \<Rightarrow> (Inr (Some sink), n\<lparr>storage := st\<rparr>))))"

definition node_finish_compaction :: "mem_snapshot \<Rightarrow> node \<Rightarrow> bool res \<times> node" where
  "node_finish_compaction sink n =
     (if sm_index (sk_meta sink) \<le> sm_index (snapshot_meta_of (storage n)) then (Inr False, n)
      else (case install_snapshot sink (storage n) of
          (Inl e, st) \<Rightarrow> (Inl e, n\<lparr>storage := st\<rparr>)
        | (Inr _, st) \<Rightarrow> (Inr True, n\<lparr>storage := st\<rparr>)))"

definition node_compact :: "nat \<Rightarrow> bytes \<Rightarrow> node \<Rightarrow> bool res \<times> node" where
  "node_compact index data n = (case node_begin_compaction index n of
       (Inl e, n) \<Rightarrow> (Inl e, n)
     | (Inr None, n) \<Rightarrow> (Inr False, n)
     | (Inr (Some sink), n) \<Rightarrow> node_finish_compaction (sink_write data sink) n)"

section \<open>Time and messages\<close>

definition check_quorum :: "(error, unit) nop" where
  "check_quorum = nwith (\<lambda>n.
     nwhen (election_elapsed n \<ge> election_timeout n)
      (let reachable = has_quorum n (insert (n_id n) (active n)) in
       nseq (nmod (\<lambda>n. n\<lparr>active := {}\<rparr>))
        (if \<not> reachable then become_follower (n_term n) None else nmod (\<lambda>n. n\<lparr>election_elapsed := 0\<rparr>))))"

definition heartbeat :: "(error, unit) nop" where
  "heartbeat =
     nseq (nmod (\<lambda>n. n\<lparr>heartbeat_elapsed := heartbeat_elapsed n + 1\<rparr>))
      (nwith (\<lambda>n. nwhen (heartbeat_elapsed n \<ge> heartbeat_ticks (n_config n))
         (nseq (nmod (\<lambda>n. n\<lparr>heartbeat_elapsed := 0\<rparr>)) broadcast_append)))"

definition tick_op :: "(error, unit) nop" where
  "tick_op = nwith (\<lambda>n.
     if role n = Leader then
       if \<not> is_voter n \<and> commit_index n \<ge> membership_index n then become_follower (n_term n) None
       else nseq heartbeat (nseq maybe_promote
              (nseq (nmod (\<lambda>n. n\<lparr>election_elapsed := election_elapsed n + 1\<rparr>)) check_quorum))
     else
       nseq (nmod (\<lambda>n. n\<lparr>election_elapsed := election_elapsed n + 1\<rparr>))
        (nwith (\<lambda>n. nwhen (election_elapsed n \<ge> election_timeout n)
           (if is_voter n then become_pre_candidate
            else nmod (\<lambda>n. reset_election_timer (n\<lparr>role := Follower\<rparr>))))))"

definition campaign_op :: "(error, unit) nop" where
  "campaign_op = nwith (\<lambda>n. nwhen (is_voter n) become_candidate)"

definition pre_vote_op :: "(error, unit) nop" where
  "pre_vote_op = nwith (\<lambda>n. nwhen (is_voter n) become_pre_candidate)"

definition expire_election_timer :: "node \<Rightarrow> node" where
  "expire_election_timer n = n\<lparr>election_elapsed := election_timeout n\<rparr>"

definition refuse_vote :: "node \<Rightarrow> nat \<Rightarrow> message \<Rightarrow> action" where
  "refuse_vote n from msg = Send from (case msg of
       PreVote _ _ _ \<Rightarrow> PreVoteReply (n_term n) False
     | _ \<Rightarrow> RequestVoteReply (n_term n) False)"

definition reply_stale :: "node \<Rightarrow> nat \<Rightarrow> message \<Rightarrow> action" where
  "reply_stale n from msg = Send from (case msg of
       PreVote _ _ _ \<Rightarrow> PreVoteReply (n_term n) False
     | RequestVote _ _ _ \<Rightarrow> RequestVoteReply (n_term n) False
     | InstallSnapshot _ li _ _ _ _ _ _ \<Rightarrow> InstallSnapshotReply (n_term n) li 0 False 0
     | ReadIndex _ i \<Rightarrow> ReadIndexReply (n_term n) i None
     | _ \<Rightarrow> AppendEntriesReply (n_term n) False 0 0 None 0)"

definition read_answered :: "nat \<Rightarrow> nat option \<Rightarrow> node \<Rightarrow> node" where
  "read_answered i index n = (case forwarded n i of
       Some Waiting \<Rightarrow> n\<lparr>forwarded := (forwarded n)(i \<mapsto> (case index of None \<Rightarrow> Refused | Some x \<Rightarrow> Answered x))\<rparr>
     | _ \<Rightarrow> n)"

text \<open>The last \<^verbatim>\<open>match\<close> of \<^verbatim>\<open>step\<close>. Pre-vote traffic never gets here.\<close>

fun handle :: "nat \<Rightarrow> message \<Rightarrow> (error, unit) nop" where
  "handle from (RequestVote _ li lt) = handle_request_vote from li lt"
| "handle from (RequestVoteReply t granted) = handle_vote_reply from t granted"
| "handle from (AppendEntries _ pi pt es lc sq) = handle_append_entries from pi pt es lc sq"
| "handle from (AppendEntriesReply t success mi ci ct sq) =
     nbind (heard_round from t sq) (\<lambda>ok. nwhen ok (handle_append_reply from success mi ci ct))"
| "handle from (InstallSnapshot _ li lt off data fin sq mems) =
     handle_install_snapshot from \<lparr>sm_index = li, sm_term = lt\<rparr> off data fin sq mems"
| "handle from (InstallSnapshotReply t li nxt fin sq) =
     nbind (heard_round from t sq) (\<lambda>ok. nwhen ok (handle_snapshot_reply from li nxt fin))"
| "handle from (ReadIndex _ i) = handle_read_index from i"
| "handle from (ReadIndexReply _ i index) = nmod (read_answered i index)"
| "handle from (PreVote _ _ _) = nret ()"
| "handle from (PreVoteReply _ _) = nret ()"

definition step_op :: "nat \<Rightarrow> message \<Rightarrow> (error, unit) nop" where
  "step_op from msg = nwith (\<lambda>n.
     if is_vote_request msg \<and> leader_id n \<noteq> None \<and> election_elapsed n < election_timeout n then
       npush (refuse_vote n from msg)
     else (case msg of
         PreVote t li lt \<Rightarrow> handle_pre_vote from t li lt
       | PreVoteReply t granted \<Rightarrow> handle_pre_vote_reply from t granted
       | _ \<Rightarrow>
           if msg_term msg > n_term n then nseq (become_follower (msg_term msg) None) (handle from msg)
           else if msg_term msg < n_term n \<and> is_request msg then npush (reply_stale n from msg)
           else handle from msg))"

definition discard :: "('e + unit \<times> action list) \<times> node \<Rightarrow> ('e + action list) \<times> node" where
  "discard r = (case r of (Inl e, n) \<Rightarrow> (Inl e, n) | (Inr (_, acts), n) \<Rightarrow> (Inr acts, n))"

definition tick :: "node \<Rightarrow> action list res \<times> node" where
  "tick n = discard (run_op tick_op n)"

definition step :: "nat \<Rightarrow> message \<Rightarrow> node \<Rightarrow> action list res \<times> node" where
  "step from msg n = discard (run_op (step_op from msg) n)"

definition campaign :: "node \<Rightarrow> action list res \<times> node" where
  "campaign n = discard (run_op campaign_op n)"

definition pre_vote :: "node \<Rightarrow> action list res \<times> node" where
  "pre_vote n = discard (run_op pre_vote_op n)"

end
