(* ===== verification/NodeRel.thy ===== *)
theory NodeRel
  imports RaftNode
begin

text \<open>
  How facts about the operations of a node are proved. What an operation may do is a reflexive and
  transitive relation between the node with its actions before and after, whether the operation succeeds
  or fails; the locale \<open>op_rel\<close> gives one rule for each way operations are put together, and the rules of
  every interpretation go to the collection \<open>relI\<close>. Two relations are interpreted here: \<open>quiet\<close>, of the
  operations that leave elections alone, and \<open>vote_le\<close>, of how the durable vote may move.
\<close>

named_theorems relI \<open>composition rules for relations on operations\<close>
named_theorems quietI \<open>operations that leave elections alone\<close>

section \<open>Operations within a relation\<close>

definition does :: "(nstate \<Rightarrow> nstate \<Rightarrow> bool) \<Rightarrow> ('e, 'a) nop \<Rightarrow> nstate \<Rightarrow> bool" where
  "does R m s \<longleftrightarrow> R s (snd (m s))"

lemma nbind_cases:
  obtains (err) e s' where "m s = (Inl e, s')" "nbind m f s = (Inl e, s')"
  | (ok) x s' where "m s = (Inr x, s')" "nbind m f s = f x s'"
  by (cases "m s"; cases "fst (m s)") (auto simp: nbind_def)

locale op_rel =
  fixes R :: "nstate \<Rightarrow> nstate \<Rightarrow> bool"
  assumes rel_refl: "R s s" and rel_trans: "R s t \<Longrightarrow> R t u \<Longrightarrow> R s u"
begin

lemma ret [relI]: "does R (nret x) s"
  by (simp add: does_def nret_def rel_refl)

lemma fail [relI]: "does R (nfail x) s"
  by (simp add: does_def nfail_def rel_refl)

lemma bind [relI]: "does R m s \<Longrightarrow> (\<And>x s'. m s = (Inr x, s') \<Longrightarrow> does R (f x) s') \<Longrightarrow> does R (nbind m f) s"
  by (cases rule: nbind_cases [of m s f]) (auto simp: does_def intro: rel_trans)

lemma seq [relI]: "does R m s \<Longrightarrow> (\<And>x s'. m s = (Inr x, s') \<Longrightarrow> does R m' s') \<Longrightarrow> does R (nseq m m') s"
  unfolding nseq_def by (rule bind)

lemma whenever [relI]: "(b \<Longrightarrow> does R m s) \<Longrightarrow> does R (nwhen b m) s"
  by (simp add: nwhen_def ret)

lemma withnode [relI]: "does R (f (fst s)) s \<Longrightarrow> does R (nwith f) s"
  by (simp add: does_def nwith_def)

lemma cond [relI]: "(b \<Longrightarrow> does R m s) \<Longrightarrow> (\<not> b \<Longrightarrow> does R m' s) \<Longrightarrow> does R (if b then m else m') s"
  by simp

lemma option [relI]: "(x = None \<Longrightarrow> does R m s) \<Longrightarrow> (\<And>y. x = Some y \<Longrightarrow> does R (f y) s) \<Longrightarrow>
    does R (case x of None \<Rightarrow> m | Some y \<Rightarrow> f y) s"
  by (cases x) simp_all

lemma pair [relI]: "(\<And>x y. p = (x, y) \<Longrightarrow> does R (f x y) s) \<Longrightarrow> does R (case p of (x, y) \<Rightarrow> f x y) s"
  by (cases p) simp

lemma storage_err [relI]: "does R m s \<Longrightarrow> does R (nstorage_err m) s"
  by (auto simp: does_def nstorage_err_def split: prod.splits sum.splits)

lemma modify [relI]: "R s (f (fst s), snd s) \<Longrightarrow> does R (nmod f) s"
  by (simp add: does_def nmod_def)

lemma pushed [relI]: "R s (fst s, snd s @ [a]) \<Longrightarrow> does R (npush a) s"
  by (simp add: does_def npush_def)

lemma stored: "(\<And>r st. f (storage (fst s)) = (r, st) \<Longrightarrow> R s ((fst s)\<lparr>storage := st\<rparr>, snd s)) \<Longrightarrow> does R (nstore f) s"
  by (auto simp: does_def nstore_def split: prod.splits)

lemma run: "does R m (n, []) \<Longrightarrow> run_op m n = (r, n') \<Longrightarrow> \<exists>acts. R (n, []) (n', acts) \<and> (\<forall>x as. r = Inr (x, as) \<longrightarrow> as = acts)"
  by (auto simp: does_def run_op_def split: prod.splits sum.splits)

end

section \<open>Storage operations\<close>

text \<open>A durable operation either does its work or changes nothing that counts.\<close>

lemma durably_cases:
  assumes "durably f s = (r, s')"
  obtains (fault) fs e where "s' = s\<lparr>ms_faults := fs\<rparr>" "r = Inl e"
  | (works) fs x where "f (s\<lparr>ms_faults := fs\<rparr>) = (x, s')" "r = Inr x"
proof (cases "ms_faults s")
  case Nil
  then have same: "s\<lparr>ms_faults := []\<rparr> = s" by (cases s) simp
  from Nil show ?thesis
    using assms works [of "[]", unfolded same] by (auto simp: durably_def split: prod.splits)
next
  case (Cons bad rest)
  then show ?thesis
    using assms fault [of rest] works [of rest] by (auto simp: durably_def split: prod.splits if_splits)
qed

lemma append_entries_log: "append_entries es s = (r, s') \<Longrightarrow>
    ms_hard s' = ms_hard s \<and> ms_members s' = ms_members s \<and> ms_snapshot s' = ms_snapshot s \<and>
    ms_log s' = (case r of Inl _ \<Rightarrow> ms_log s | Inr _ \<Rightarrow> fold el_push es (ms_log s))"
  unfolding append_entries_def by (erule durably_cases) auto

lemma truncate_from_log: "truncate_from i s = (r, s') \<Longrightarrow>
    ms_hard s' = ms_hard s \<and> ms_members s' = ms_members s \<and> ms_snapshot s' = ms_snapshot s \<and>
    ms_log s' = (case r of Inl _ \<Rightarrow> ms_log s | Inr _ \<Rightarrow> fst (el_truncate_from i (ms_log s)))"
  unfolding truncate_from_def by (erule durably_cases) auto

lemma save_hard_state_log: "save_hard_state h s = (r, s') \<Longrightarrow>
    ms_hard s' = (case r of Inl _ \<Rightarrow> ms_hard s | Inr _ \<Rightarrow> h) \<and> ms_members s' = ms_members s \<and>
    ms_snapshot s' = ms_snapshot s \<and> ms_log s' = ms_log s"
  unfolding save_hard_state_def by (erule durably_cases) auto

lemma read_snapshot_log: "read_snapshot off len s = (r, s') \<Longrightarrow>
    ms_hard s' = ms_hard s \<and> ms_members s' = ms_members s \<and> ms_snapshot s' = ms_snapshot s \<and> ms_log s' = ms_log s"
  unfolding read_snapshot_def by (erule durably_cases) (auto simp: Let_def)

lemma new_snapshot_log: "new_snapshot meta mems s = (r, s') \<Longrightarrow>
    ms_hard s' = ms_hard s \<and> ms_members s' = ms_members s \<and> ms_snapshot s' = ms_snapshot s \<and> ms_log s' = ms_log s \<and>
    (\<forall>sk. r = Inr sk \<longrightarrow> sk = \<lparr>sk_meta = meta, sk_members = mems, sk_data = []\<rparr>)"
  unfolding new_snapshot_def by (erule durably_cases) auto

lemma install_snapshot_log: "install_snapshot sk s = (r, s') \<Longrightarrow>
    ms_hard s' = ms_hard s \<and>
    (ms_members s' = ms_members s \<or> ms_members s' = sk_members sk) \<and>
    ms_log s' = (case r of Inl _ \<Rightarrow> ms_log s | Inr _ \<Rightarrow> fst (el_compact (sk_meta sk) (ms_log s)))"
  unfolding install_snapshot_def
  by (erule durably_cases) (auto simp: case_prod_beta split: if_splits prod.splits)

lemmas storage_log = append_entries_log truncate_from_log save_hard_state_log read_snapshot_log new_snapshot_log
  install_snapshot_log

section \<open>Operations that leave elections alone\<close>

text \<open>
  \<open>quiet\<close>: the identity, the durable term and vote, the role and the votes gathered are as before, and
  no vote is granted to anyone.
\<close>

fun grants :: "action \<Rightarrow> bool" where
  "grants (Send _ (RequestVoteReply _ granted)) \<longleftrightarrow> granted"
| "grants _ \<longleftrightarrow> False"

definition elec :: "node \<Rightarrow> nat \<times> hard_state \<times> role \<times> nat set" where
  "elec n = (n_id n, ms_hard (storage n), role n, votes n)"

definition quiet :: "nstate \<Rightarrow> nstate \<Rightarrow> bool" where
  "quiet s s' \<longleftrightarrow> elec (fst s') = elec (fst s) \<and> (\<exists>acts. snd s' = snd s @ acts \<and> list_all (\<lambda>a. \<not> grants a) acts)"

interpretation qr: op_rel quiet
  by unfold_locales (auto simp: quiet_def)

lemma quiet_node: "elec n = elec (fst s) \<Longrightarrow> quiet s (n, snd s)"
  by (simp add: quiet_def)

lemma quiet_push: "\<not> grants a \<Longrightarrow> quiet s (fst s, snd s @ [a])"
  by (simp add: quiet_def)

lemma elec_reload [simp]: "elec (reload_membership n) = elec n"
  by (simp add: reload_membership_def elec_def Let_def case_prod_beta)

lemma elec_maybe_commit [simp]: "elec (maybe_commit n) = elec n"
  by (simp add: maybe_commit_def elec_def Let_def)

lemma elec_reset_timer [simp]: "elec (reset_election_timer n) = elec n"
  by (simp add: reset_election_timer_def elec_def case_prod_beta)

lemma elec_storage: "ms_hard st = ms_hard (storage n) \<Longrightarrow> elec (n\<lparr>storage := st\<rparr>) = elec n"
  by (simp add: elec_def)

lemma elec_simps [simp]:
  "elec (n\<lparr>commit_index := c\<rparr>) = elec n" "elec (n\<lparr>last_applied := c\<rparr>) = elec n" "elec (n\<lparr>leader_start := c\<rparr>) = elec n"
  "elec (n\<lparr>active := A\<rparr>) = elec n" "elec (n\<lparr>snapshot_progress := f\<rparr>) = elec n" "elec (n\<lparr>incoming := x\<rparr>) = elec n"
  "elec (n\<lparr>next_index := g\<rparr>) = elec n" "elec (n\<lparr>match_index := g\<rparr>) = elec n" "elec (n\<lparr>n_seq := c\<rparr>) = elec n"
  "elec (n\<lparr>acked := g\<rparr>) = elec n" "elec (n\<lparr>remote_reads := l\<rparr>) = elec n" "elec (n\<lparr>forwarded := h\<rparr>) = elec n"
  "elec (n\<lparr>next_read := c\<rparr>) = elec n" "elec (n\<lparr>election_elapsed := c\<rparr>) = elec n" "elec (n\<lparr>heartbeat_elapsed := c\<rparr>) = elec n"
  "elec (n\<lparr>leader_id := i\<rparr>) = elec n" "elec (n\<lparr>auto_promote := b\<rparr>) = elec n"
  by (simp_all add: elec_def)

lemma elec_read_answered [simp]: "elec (read_answered i x n) = elec n"
  by (simp add: read_answered_def split: option.splits answer.splits)

lemma storage_read_answered [simp]: "storage (read_answered i x n) = storage n"
  by (simp add: read_answered_def split: option.splits answer.splits)

lemma quiet_storage [quietI]:
  "does quiet (nstore (append_entries es)) s" "does quiet (nstore (truncate_from i)) s"
  "does quiet (nstore (read_snapshot off len)) s" "does quiet (nstore (new_snapshot meta mems)) s"
  "does quiet (nstore (install_snapshot sk)) s"
  by (auto intro!: qr.stored quiet_node elec_storage dest!: storage_log)

lemma quiet_append_message [quietI]: "does quiet (append_message_for p) s"
  unfolding append_message_for_def Let_def by (intro relI quietI)

lemma grants_append_message:
  "append_message_for p s = (Inr a, s') \<Longrightarrow> \<not> grants a"
  by (auto simp: append_message_for_def nwith_def nbind_def nret_def Let_def split: prod.splits sum.splits if_splits)

lemma quiet_push_append [quietI]: "does quiet (push_append_for p) s"
  unfolding push_append_for_def
  by (intro relI quietI quiet_push) (rule grants_append_message)

lemma quiet_send_all [quietI]: "does quiet (send_all ps) s"
  by (induction ps arbitrary: s) (auto intro!: relI quietI)

lemma quiet_broadcast [quietI]: "does quiet broadcast_append s"
  unfolding broadcast_append_def by (intro relI quietI quiet_node) auto

lemma quiet_append_local [quietI]: "does quiet (append_local c) s"
  unfolding append_local_def Let_def by (intro relI quietI quiet_node) auto

lemma quiet_propose [quietI]:
  "does quiet (propose_op c) s" "does quiet (propose_batch_op cs) s" "does quiet (propose_membership_op ms) s"
  unfolding propose_op_def propose_batch_op_def propose_membership_op_def Let_def
  by (intro relI quietI quiet_node; simp)+

lemma quiet_run:
  assumes "\<And>s. does quiet m s" and "run_op m n = (r, n')"
  shows "elec n' = elec n" and "r = Inr (x, acts) \<Longrightarrow> list_all (\<lambda>a. \<not> grants a) acts"
  using qr.run [OF assms] by (auto simp: quiet_def)

lemma quiet_propose_membership:
  assumes "propose_membership ms n = (r, n')"
  shows "elec n' = elec n" and "r = Inr acc \<Longrightarrow> list_all (\<lambda>a. \<not> grants a) (acc_actions acc)"
proof -
  obtain q m where q: "run_op (propose_membership_op ms) n = (q, m)" by fastforce
  note r = quiet_run [OF quiet_propose(3) q]
  show "elec n' = elec n" and "r = Inr acc \<Longrightarrow> list_all (\<lambda>a. \<not> grants a) (acc_actions acc)"
    using assms q r by (auto simp: propose_membership_def to_accepted_def split: sum.splits prod.splits)
qed

lemma quiet_maybe_promote [quietI]: "does quiet maybe_promote s"
  unfolding maybe_promote_def
proof (intro relI)
  fix ms
  show "does quiet (\<lambda>s. case propose_membership ms (fst s) of
             (Inr acc, n') \<Rightarrow> (Inr (), n', snd s @ acc_actions acc)
           | (Inl (StorageErr e), n') \<Rightarrow> (Inl e, n', snd s)
           | (Inl _, n') \<Rightarrow> (Inr (), n', snd s)) s"
    by (cases "propose_membership ms (fst s)")
       (auto simp: does_def quiet_def quiet_propose_membership split: sum.splits propose_error.splits)
qed

lemma quiet_canvass [quietI]: "(\<And>t g. msg \<noteq> RequestVoteReply t g) \<Longrightarrow> does quiet (canvass msg ps) s"
proof (induction ps arbitrary: s)
  case Nil
  then show ?case by (simp add: relI)
next
  case (Cons p ps)
  then have "\<not> grants (Send p msg)" by (cases msg) auto
  with Cons show ?case by (auto intro!: relI quiet_push)
qed

lemma quiet_match_entries [quietI]: "does quiet (match_entries prev off k es) s"
  by (induction prev off k es arbitrary: s rule: match_entries.induct) (auto simp: Let_def intro!: relI quietI)

lemma quiet_accept_entries [quietI]: "does quiet (accept_entries prev es) s"
  unfolding accept_entries_def Let_def by (intro relI quietI quiet_node) auto

lemma quiet_read_index [quietI]: "does quiet (handle_read_index from i) s"
  by (auto simp: does_def handle_read_index_def npush_def open_read_round_def Let_def quiet_def heartbeat_for_def
      list_all_iff map_filter_def split: if_splits)

lemma quiet_release_reads [quietI]: "does quiet release_reads s"
  by (auto simp: does_def release_reads_def Let_def quiet_def list_all_iff)

lemma quiet_heard_round [quietI]: "does quiet (heard_round from t sq) s"
  unfolding heard_round_def Let_def by (intro relI quietI quiet_node) auto

lemma quiet_append_reply [quietI]: "does quiet (handle_append_reply from success mi ci ct) s"
  unfolding handle_append_reply_def Let_def by (intro relI quietI quiet_node) auto

lemma quiet_snapshot_reply [quietI]: "does quiet (handle_snapshot_reply from li nxt fin) s"
  unfolding handle_snapshot_reply_def Let_def by (intro relI quietI quiet_node) auto

lemma quiet_pre_vote [quietI]: "does quiet (handle_pre_vote from t li lt) s"
  unfolding handle_pre_vote_def Let_def by (intro relI quiet_push) auto

lemma quiet_heartbeat [quietI]: "does quiet heartbeat s"
  unfolding heartbeat_def by (intro relI quietI quiet_node) auto

lemma quiet_read_answered [quietI]: "does quiet (nmod (read_answered i x)) s"
  by (intro relI quiet_node) simp

end
