(* ===== verification/NodeWf.thy ===== *)
theory NodeWf
  imports NodeRel
begin

text \<open>
  Every log is gapless and every message that carries entries carries a gapless run of them: the
  relation \<open>wf_rel\<close>, kept by every operation of a node, failed ones included. It is what \<^verbatim>\<open>EntryLog\<close>
  checks in debug builds and what makes \<^verbatim>\<open>entries[p]\<close> never out of range.
\<close>

fun msg_wf :: "message \<Rightarrow> bool" where
  "msg_wf (AppendEntries _ pi _ es _ _) \<longleftrightarrow> follows pi es"
| "msg_wf _ \<longleftrightarrow> True"

definition node_wf :: "nstate \<Rightarrow> bool" where
  "node_wf s \<longleftrightarrow> storage_wf (storage (fst s)) \<and> list_all (\<lambda>a. msg_wf (send_msg a)) (snd s)"

definition wf_rel :: "nstate \<Rightarrow> nstate \<Rightarrow> bool" where
  "wf_rel s s' \<longleftrightarrow> (node_wf s \<longrightarrow> node_wf s')"

interpretation wr: op_rel wf_rel
  by unfold_locales (auto simp: wf_rel_def)

named_theorems wfI \<open>operations that keep logs gapless\<close>

lemma wf_same: "ms_log (storage n) = ms_log (storage (fst s)) \<Longrightarrow> wf_rel s (n, snd s)"
  by (simp add: wf_rel_def node_wf_def)

lemma wf_push: "(node_wf s \<Longrightarrow> msg_wf (send_msg a)) \<Longrightarrow> wf_rel s (fst s, snd s @ [a])"
  by (auto simp: wf_rel_def node_wf_def)

lemma storage_reload [simp]: "storage (reload_membership n) = storage n"
  by (simp add: reload_membership_def Let_def case_prod_beta)

lemma storage_maybe_commit [simp]: "storage (maybe_commit n) = storage n"
  by (simp add: maybe_commit_def Let_def)

lemma storage_reset [simp]: "storage (reset_election_timer n) = storage n"
  by (simp add: reset_election_timer_def case_prod_beta)

lemma wf_storage [wfI]:
  "does wf_rel (nstore (save_hard_state h)) s" "does wf_rel (nstore (read_snapshot off len)) s"
  "does wf_rel (nstore (new_snapshot meta mems)) s"
  by (auto intro!: wr.stored wf_same dest!: storage_log)

lemma wf_install [wfI]: "does wf_rel (nstore (install_snapshot sk)) s"
  by (auto intro!: wr.stored simp: wf_rel_def node_wf_def log_wf_compact dest!: install_snapshot_log split: sum.splits)

lemma wf_truncate [wfI]: "does wf_rel (nstore (truncate_from i)) s"
  by (auto intro!: wr.stored simp: wf_rel_def node_wf_def log_wf_truncate dest!: truncate_from_log split: sum.splits)

lemma wf_append:
  assumes "node_wf s \<Longrightarrow> follows (last_index (storage (fst s))) es"
  shows "does wf_rel (nstore (append_entries es)) s"
  using assms
  by (auto intro!: wr.stored log_wf_append simp: wf_rel_def node_wf_def last_index_def dest!: append_entries_log split: sum.splits)

section \<open>What is sent is gapless\<close>

lemma follows_take: "follows i es \<Longrightarrow> follows i (take k es)"
  by (simp add: follows_nth)

lemma entries_from_follows:
  assumes "storage_wf s" and "sm_index (snapshot_meta_of s) < i"
  shows "follows (i - 1) (entries_from s i)"
proof -
  have "entry_at s j = Some e \<Longrightarrow> e_index e = j" for j e
    using el_entry_index [OF assms(1)] by (simp add: entry_at_def)
  moreover have "max i (first_index s) = i" using assms(2) by (simp add: first_index_def)
  ultimately have m: "map (entry_at s) [i ..< Suc (last_index s)] = map Some (entries_from s i)"
    and e: "\<And>j e. entry_at s j = Some e \<Longrightarrow> e_index e = j"
    using entries_from_wf [OF assms(1), of i] by auto
  show ?thesis
    unfolding follows_nth
  proof (intro allI impI)
    fix k assume k: "k < length (entries_from s i)"
    have len: "length (entries_from s i) = Suc (last_index s) - i"
      using arg_cong [OF m, of length] by (simp del: upt_Suc)
    have "map (entry_at s) [i ..< Suc (last_index s)] ! k = Some (entries_from s i ! k)"
      unfolding m using k by simp
    then have "entry_at s (i + k) = Some (entries_from s i ! k)"
      using k len by (simp del: upt_Suc)
    then show "e_index (entries_from s i ! k) = Suc (i - 1 + k)"
      using e assms(2) by fastforce
  qed
qed

lemma entries_within_take: "storage_wf s \<Longrightarrow> \<exists>n. entries_within s i budget = take n (entries_from s i)"
  using within_loop_take [OF entries_from_wf, of s i budget 0 "[]"] unfolding entries_within_def by (metis append_Nil)

lemma entries_within_follows:
  "storage_wf s \<Longrightarrow> sm_index (snapshot_meta_of s) < i \<Longrightarrow> follows (i - 1) (entries_within s i budget)"
  by (metis entries_within_take entries_from_follows follows_take)

lemma wf_append_message [wfI]: "does wf_rel (append_message_for p) s"
  unfolding append_message_for_def Let_def by (intro relI wfI)

lemma append_message_wf:
  assumes "append_message_for p s = (Inr a, s')" and "storage_wf (storage (fst s))"
  shows "msg_wf (send_msg a)"
proof (cases "next_for (fst s) p \<le> sm_index (snapshot_meta_of (storage (fst s)))")
  case True
  then show ?thesis
    using assms(1)
    by (auto simp: append_message_for_def nwith_def nbind_def nret_def Let_def split: prod.splits sum.splits)
next
  case False
  then show ?thesis
    using assms entries_within_follows [of "storage (fst s)" "next_for (fst s) p"]
    by (auto simp: append_message_for_def nwith_def nret_def Let_def)
qed

lemma wf_push_append [wfI]: "does wf_rel (push_append_for p) s"
proof -
  have "wf_rel s (snd (push_append_for p s))"
  proof (cases rule: nbind_cases [of "append_message_for p" s npush])
    case (err e s')
    then show ?thesis using wf_append_message [of p s] by (simp add: push_append_for_def does_def)
  next
    case (ok a s')
    then show ?thesis
      using wf_append_message [of p s] append_message_wf [OF ok(1)]
      by (auto simp: push_append_for_def does_def npush_def wf_rel_def node_wf_def)
  qed
  then show ?thesis by (simp add: does_def)
qed

lemma wf_send_all [wfI]: "does wf_rel (send_all ps) s"
  by (induction ps arbitrary: s) (auto intro!: relI wfI)

lemma wf_broadcast [wfI]: "does wf_rel broadcast_append s"
  unfolding broadcast_append_def by (intro relI wfI wf_same) auto

section \<open>What is appended is gapless\<close>

lemma wf_append_local [wfI]: "does wf_rel (append_local c) s"
  unfolding append_local_def Let_def by (intro relI wfI wf_same wf_append) auto

lemma batch_follows: "batch_entries t limit (Suc i) cs = (es, as) \<Longrightarrow> follows i es"
  by (induction cs arbitrary: i es as) (auto simp: Let_def split: if_splits prod.splits)

lemma wf_propose [wfI]:
  "does wf_rel (propose_op c) s" "does wf_rel (propose_batch_op cs) s" "does wf_rel (propose_membership_op ms) s"
  unfolding propose_op_def propose_batch_op_def propose_membership_op_def Let_def
  by (intro relI wfI wf_same wf_append; auto intro: batch_follows)+

lemma wf_maybe_promote [wfI]: "does wf_rel maybe_promote s"
  unfolding maybe_promote_def
proof (intro relI)
  fix ms
  obtain r n' where p: "propose_membership ms (fst s) = (r, n')" by fastforce
  obtain q m where q: "run_op (propose_membership_op ms) (fst s) = (q, m)" by fastforce
  have "wf_rel (fst s, []) (m, as)" if "q = Inr (x, as)" for x as
    using wr.run [OF wf_propose(3) q] that by auto
  moreover have "\<exists>as. wf_rel (fst s, []) (m, as)"
    using wr.run [OF wf_propose(3) q] by auto
  ultimately show "does wf_rel (\<lambda>s. case propose_membership ms (fst s) of
             (Inr acc, n') \<Rightarrow> (Inr (), n', snd s @ acc_actions acc)
           | (Inl (StorageErr e), n') \<Rightarrow> (Inl e, n', snd s)
           | (Inl _, n') \<Rightarrow> (Inr (), n', snd s)) s"
    using q
    by (auto simp: does_def wf_rel_def node_wf_def propose_membership_def to_accepted_def
        split: sum.splits propose_error.splits prod.splits)
qed

lemma term_at_None:
  "storage_wf s \<Longrightarrow> sm_index (snapshot_meta_of s) \<le> i \<Longrightarrow> term_at s i = None \<longleftrightarrow> last_index s < i"
  by (auto simp: term_at_def last_index_def snapshot_meta_of_def el_term_at_wf el_last_index_wf)

lemma base_le_last: "storage_wf s \<Longrightarrow> sm_index (snapshot_meta_of s) \<le> last_index s"
  by (simp add: last_index_def snapshot_meta_of_def el_last_index_wf)

text \<open>After the scan, if anything is left to append, the log ends just before it.\<close>

lemma match_entries_end:
  assumes "match_entries prev off off es s = (Inr (k, moved), s')" and "storage_wf (storage (fst s))"
    and "sm_index (snapshot_meta_of (storage (fst s))) \<le> prev" and "prev + off \<le> last_index (storage (fst s))"
  shows "k \<le> off + length es \<and> (k < off + length es \<longrightarrow> last_index (storage (fst s')) = prev + k)"
  using assms
proof (induction es arbitrary: off)
  case Nil
  then show ?case by (simp add: nret_def)
next
  case (Cons e es)
  let ?st = "storage (fst s)"
  show ?case
  proof (cases "term_at ?st (prev + 1 + off)")
    case None
    then have "last_index ?st = prev + off"
      using Cons.prems term_at_None [of ?st "prev + 1 + off"] by simp
    then show ?thesis using None Cons.prems(1) by (simp add: nwith_def nret_def)
  next
    case (Some t)
    then have le: "prev + 1 + off \<le> last_index ?st"
      using Cons.prems term_at_None [of ?st "prev + 1 + off"] by (simp flip: not_less)
    show ?thesis
    proof (cases "t = e_term e")
      case True
      then show ?thesis
        using Cons.IH [of "Suc off"] Cons.prems Some le by (simp add: nwith_def)
    next
      case False
      then obtain u st where "truncate_from (prev + 1 + off) ?st = (Inr u, st)" "fst s' = (fst s)\<lparr>storage := st\<rparr>" "k = off"
        using Some Cons.prems(1)
        by (auto simp: nwith_def nseq_def nbind_def nstore_def nret_def split: prod.splits sum.splits)
      then show ?thesis
        using truncate_from_log [of "prev + 1 + off" ?st "Inr u" st] Cons.prems(2,3) le
        by (simp add: last_index_def snapshot_meta_of_def el_last_index_truncate)
    qed
  qed
qed

lemma wf_match_entries [wfI]: "does wf_rel (match_entries prev off k es) s"
  by (induction prev off k es arbitrary: s rule: match_entries.induct) (auto simp: Let_def intro!: relI wfI)

lemma follows_drop: "follows i es \<Longrightarrow> k \<le> length es \<Longrightarrow> follows (i + k) (drop k es)"
  by (simp add: follows_nth add.assoc)

lemma wf_accept_entries:
  assumes "follows prev es"
    and "node_wf s \<Longrightarrow> sm_index (snapshot_meta_of (storage (fst s))) \<le> prev \<and> prev \<le> last_index (storage (fst s))"
  shows "does wf_rel (accept_entries prev es) s"
proof (cases "node_wf s")
  case True
  then show ?thesis
    unfolding accept_entries_def Let_def
  proof (intro relI wfI wf_same wf_append, goal_cases)
    case (1 x s' k moved)
    then show ?case
      using match_entries_end [of prev 0 es s k moved s'] assms by (simp add: follows_drop node_wf_def)
  qed auto
qed (simp add: does_def wf_rel_def)

lemma wf_hear_leader: "wf_rel s (hear_leader from (fst s), snd s)"
  by (intro wf_same) (simp add: hear_leader_def)

section \<open>The handlers\<close>

lemma term_at_Some_bounds:
  "storage_wf s \<Longrightarrow> term_at s i = Some t \<Longrightarrow> sm_index (snapshot_meta_of s) \<le> i \<and> i \<le> last_index s"
  by (auto simp: term_at_def last_index_def snapshot_meta_of_def el_term_at_wf el_last_index_wf split: if_splits)

lemma wf_handle_append_entries:
  assumes "follows pi es"
  shows "does wf_rel (handle_append_entries from pi pt es lc sq) s"
  unfolding handle_append_entries_def Let_def
proof (intro relI wf_hear_leader wf_push wf_accept_entries wf_same, goal_cases)
  case (3 x s' prev y pt' entries)
  then show ?case
    using assms follows_drop [of pi es "sm_index (snapshot_meta_of (storage (fst s'))) - pi"] by (auto split: if_splits)
next
  case (4 x s' prev y pt' entries)
  then show ?case using term_at_Some_bounds by (auto simp: node_wf_def)
qed (auto simp: node_wf_def)

lemma wf_handle_install_snapshot [wfI]: "does wf_rel (handle_install_snapshot from meta off data fin sq mems) s"
  unfolding handle_install_snapshot_def Let_def
  by (intro relI wfI wf_hear_leader wf_push wf_same) (auto simp: case_prod_beta split: option.splits intro!: relI wfI)

lemma wf_become_follower [wfI]: "does wf_rel (become_follower t l) s"
  unfolding become_follower_def by (intro relI wfI wf_same) auto

lemma wf_become_leader [wfI]: "does wf_rel become_leader s"
  unfolding become_leader_def take_office_def by (intro relI wfI wf_same) auto

lemma wf_canvass [wfI]: "msg_wf msg \<Longrightarrow> does wf_rel (canvass msg ps) s"
  by (induction ps arbitrary: s) (auto intro!: relI wf_push)

lemma wf_become_candidate [wfI]: "does wf_rel become_candidate s"
  unfolding become_candidate_def Let_def by (intro relI wfI wf_same) auto

lemma wf_become_pre_candidate [wfI]: "does wf_rel become_pre_candidate s"
  unfolding become_pre_candidate_def Let_def by (intro relI wfI wf_same) auto

lemma wf_vote_handlers [wfI]:
  "does wf_rel (handle_pre_vote from t li lt) s" "does wf_rel (handle_pre_vote_reply from t g) s"
  "does wf_rel (handle_request_vote from li lt) s" "does wf_rel (handle_vote_reply from t g) s"
  unfolding handle_pre_vote_def handle_pre_vote_reply_def handle_request_vote_def handle_vote_reply_def Let_def
  by (intro relI wfI wf_same wf_push; simp)+

lemma wf_read_index [wfI]: "does wf_rel (handle_read_index from i) s"
  by (auto simp: does_def handle_read_index_def npush_def open_read_round_def Let_def wf_rel_def node_wf_def
      heartbeat_for_def list_all_iff map_filter_def split: if_splits)

lemma wf_release_reads [wfI]: "does wf_rel release_reads s"
  by (auto simp: does_def release_reads_def Let_def wf_rel_def node_wf_def list_all_iff)

lemma wf_reply_handlers [wfI]:
  "does wf_rel (heard_round from t sq) s" "does wf_rel (handle_append_reply from success mi ci ct) s"
  "does wf_rel (handle_snapshot_reply from li nxt fin) s"
  unfolding heard_round_def handle_append_reply_def handle_snapshot_reply_def Let_def
  by (intro relI wfI wf_same; simp)+

lemma wf_handle: "msg_wf msg \<Longrightarrow> does wf_rel (handle from msg) s"
  by (cases msg) (auto intro!: relI wfI wf_same wf_handle_append_entries)

lemma wf_step: "msg_wf msg \<Longrightarrow> does wf_rel (step_op from msg) s"
  unfolding step_op_def
  by (intro wr.withnode; cases msg; simp;
      intro conjI impI relI wfI wf_push wf_handle_append_entries wf_same;
      auto simp: refuse_vote_def reply_stale_def)

lemma wf_tick: "does wf_rel tick_op s"
  unfolding tick_op_def heartbeat_def check_quorum_def Let_def by (intro relI wfI wf_same) auto

lemma wf_campaign: "does wf_rel campaign_op s" "does wf_rel pre_vote_op s"
  unfolding campaign_op_def pre_vote_op_def by (intro relI wfI)+

end
