(* ===== verification/NodeStatic.thy ===== *)
theory NodeStatic
  imports NodeWf
begin

text \<open>
  A cluster whose membership is never changed: if the membership a node was started with and every
  membership it hears of has the voters \<open>vs\<close> and no learner, and no log or message holds a membership
  entry, then every operation but \<^verbatim>\<open>propose_membership\<close> keeps it so. \<open>reload_membership\<close> then always
  comes to the same voters.
\<close>

definition plain :: "nat list \<Rightarrow> member list \<Rightarrow> bool" where
  "plain vs ms \<longleftrightarrow> voter_ids ms = vs \<and> list_all (\<lambda>m. \<not> is_learner m) ms"

abbreviation plain_opt :: "nat list \<Rightarrow> member list option \<Rightarrow> bool" where
  "plain_opt vs mo \<equiv> (case mo of None \<Rightarrow> True | Some ms \<Rightarrow> plain vs ms)"

abbreviation no_config :: "entry list \<Rightarrow> bool" where
  "no_config es \<equiv> list_all (\<lambda>e. \<not> is_config (e_command e)) es"

fun msg_static :: "nat list \<Rightarrow> message \<Rightarrow> bool" where
  "msg_static vs (AppendEntries _ _ _ es _ _) \<longleftrightarrow> no_config es"
| "msg_static vs (InstallSnapshot _ _ _ _ _ _ _ mems) \<longleftrightarrow> plain_opt vs mems"
| "msg_static vs _ \<longleftrightarrow> True"

definition memb_ok :: "nat list \<Rightarrow> node \<Rightarrow> bool" where
  "memb_ok vs n \<longleftrightarrow> voters n = vs \<and> plain vs (bootstrap n) \<and> plain vs (members n) \<and>
     no_config (el_entries (ms_log (storage n))) \<and> plain_opt vs (ms_members (storage n)) \<and>
     (case incoming n of None \<Rightarrow> True | Some (_, sk) \<Rightarrow> plain_opt vs (sk_members sk))"

definition static :: "nat list \<Rightarrow> nstate \<Rightarrow> bool" where
  "static vs s \<longleftrightarrow> node_wf s \<and> memb_ok vs (fst s) \<and> list_all (\<lambda>a. msg_static vs (send_msg a)) (snd s)"

definition st_rel :: "nat list \<Rightarrow> nstate \<Rightarrow> nstate \<Rightarrow> bool" where
  "st_rel vs s s' \<longleftrightarrow> (static vs s \<longrightarrow> static vs s')"

interpretation sr: op_rel "st_rel vs" for vs
  by unfold_locales (auto simp: st_rel_def)

named_theorems statI \<open>operations that keep the membership\<close>

definition memb :: "node \<Rightarrow> nat list \<times> member list \<times> member list \<times> entry_log \<times> member list option \<times> (nat \<times> mem_snapshot) option" where
  "memb n = (voters n, bootstrap n, members n, ms_log (storage n), ms_members (storage n), incoming n)"

lemma memb_ok_cong: "memb n = memb n' \<Longrightarrow> memb_ok vs n = memb_ok vs n'"
  by (simp add: memb_def memb_ok_def)

lemma st_same: "memb n = memb (fst s) \<Longrightarrow> st_rel vs s (n, snd s)"
  by (simp add: st_rel_def static_def node_wf_def memb_def memb_ok_def)

lemma st_push: "(static vs s \<Longrightarrow> msg_wf (send_msg a) \<and> msg_static vs (send_msg a)) \<Longrightarrow> st_rel vs s (fst s, snd s @ [a])"
  by (auto simp: st_rel_def static_def node_wf_def)

lemma memb_simps [simp]:
  "memb (n\<lparr>commit_index := c\<rparr>) = memb n" "memb (n\<lparr>last_applied := c\<rparr>) = memb n" "memb (n\<lparr>leader_start := c\<rparr>) = memb n"
  "memb (n\<lparr>active := A\<rparr>) = memb n" "memb (n\<lparr>snapshot_progress := f\<rparr>) = memb n" "memb (n\<lparr>votes := A\<rparr>) = memb n"
  "memb (n\<lparr>next_index := g\<rparr>) = memb n" "memb (n\<lparr>match_index := g\<rparr>) = memb n" "memb (n\<lparr>n_seq := c\<rparr>) = memb n"
  "memb (n\<lparr>acked := g\<rparr>) = memb n" "memb (n\<lparr>remote_reads := l\<rparr>) = memb n" "memb (n\<lparr>forwarded := h\<rparr>) = memb n"
  "memb (n\<lparr>next_read := c\<rparr>) = memb n" "memb (n\<lparr>election_elapsed := c\<rparr>) = memb n" "memb (n\<lparr>heartbeat_elapsed := c\<rparr>) = memb n"
  "memb (n\<lparr>leader_id := i\<rparr>) = memb n" "memb (n\<lparr>role := r\<rparr>) = memb n" "memb (n\<lparr>auto_promote := b\<rparr>) = memb n"
  by (simp_all add: memb_def)

lemma memb_maybe_commit [simp]: "memb (maybe_commit n) = memb n"
  by (simp add: maybe_commit_def Let_def)

lemma memb_reset [simp]: "memb (reset_election_timer n) = memb n"
  by (simp add: reset_election_timer_def memb_def case_prod_beta)

lemma memb_hear [simp]: "memb (hear_leader from n) = memb n"
  by (simp add: hear_leader_def)

lemma memb_read_answered [simp]: "memb (read_answered i x n) = memb n"
  by (simp add: read_answered_def split: option.splits answer.splits)

section \<open>The membership is what it was\<close>

lemma el_entry_in: "log_wf l \<Longrightarrow> el_entry l i = Some e \<Longrightarrow> e \<in> set (el_entries l)"
  by (auto simp: el_entry_wf split: if_splits)

lemma newest_config_none:
  assumes "storage_wf st" and "no_config (el_entries (ms_log st))"
  shows "newest_config st is acc = acc"
proof (induction "is" arbitrary: acc)
  case (Cons i js)
  have "entry_at st i = Some e \<Longrightarrow> \<not> is_config (e_command e)" for e
    using el_entry_in [OF assms(1)] assms(2) by (auto simp: entry_at_def list_all_iff)
  then show ?case using Cons by (auto simp: is_config_def split: option.splits command.splits)
qed simp

lemma memb_ok_reload:
  assumes "memb_ok vs n" and "storage_wf (storage n)"
  shows "memb_ok vs (reload_membership n)"
  using assms
  by (auto simp: memb_ok_def reload_membership_def newest_config_none Let_def plain_def case_prod_beta split: option.splits)

lemma plain_members_at:
  "memb_ok vs n \<Longrightarrow> storage_wf (storage n) \<Longrightarrow> plain vs (members_at n i)"
  by (simp add: members_at_def newest_config_none Let_def memb_ok_def split: option.splits)

lemma st_reload: "st_rel vs s (reload_membership (fst s), snd s)"
  by (auto simp: st_rel_def static_def node_wf_def memb_ok_reload)

lemma st_reload_if: "st_rel vs s (if b then reload_membership (fst s) else fst s, snd s)"
  by (simp add: st_reload sr.rel_refl)

section \<open>Storage\<close>

lemma st_store:
  assumes "\<And>r st. f (storage (fst s)) = (r, st) \<Longrightarrow> ms_log st = ms_log (storage (fst s)) \<and> ms_members st = ms_members (storage (fst s))"
  shows "does (st_rel vs) (nstore f) s"
  using assms by (intro sr.stored st_same) (simp add: memb_def)

lemma st_storage [statI]:
  "does (st_rel vs) (nstore (save_hard_state h)) s" "does (st_rel vs) (nstore (read_snapshot off len)) s"
  "does (st_rel vs) (nstore (new_snapshot meta mems)) s"
  by (auto intro!: st_store dest!: storage_log)

lemma st_from_wf:
  assumes "does wf_rel m s"
    and "static vs s \<Longrightarrow> node_wf (snd (m s)) \<Longrightarrow>
      memb_ok vs (fst (snd (m s))) \<and> list_all (\<lambda>a. msg_static vs (send_msg a)) (snd (snd (m s)))"
  shows "does (st_rel vs) m s"
  using assms by (auto simp: does_def st_rel_def wf_rel_def static_def)

lemma st_append:
  assumes "static vs s \<Longrightarrow> follows (last_index (storage (fst s))) es" and "no_config es"
  shows "does (st_rel vs) (nstore (append_entries es)) s"
proof (cases "static vs s")
  case True
  then show ?thesis
    using assms
    by (intro st_from_wf wf_append)
       (auto simp: nstore_def static_def memb_ok_def fold_push dest!: append_entries_log split: prod.splits sum.splits)
qed (simp add: does_def st_rel_def)

lemma st_truncate [statI]: "does (st_rel vs) (nstore (truncate_from i)) s"
  by (intro st_from_wf wfI)
     (auto simp: nstore_def static_def memb_ok_def el_truncate_from_def Let_def list_all_iff dest!: truncate_from_log in_set_takeD
       split: prod.splits sum.splits)

lemma st_install:
  assumes "plain_opt vs (sk_members sk)"
  shows "does (st_rel vs) (nstore (install_snapshot sk)) s"
proof -
  have "no_config es \<Longrightarrow> no_config (drop k es)" for k es
    by (auto simp: list_all_iff dest: in_set_dropD)
  then show ?thesis
    using assms
    by (intro st_from_wf wfI)
       (auto simp: nstore_def static_def memb_ok_def el_compact_def Let_def dest!: install_snapshot_log
         split: prod.splits sum.splits)
qed

section \<open>The operations\<close>

lemma entries_within_static:
  assumes "storage_wf st" and "no_config (el_entries (ms_log st))"
  shows "no_config (entries_within st i budget)"
proof -
  obtain k where "entries_within st i budget = take k (entries_from st i)"
    using entries_within_take [OF assms(1)] by blast
  moreover have "set (entries_from st i) \<subseteq> set (el_entries (ms_log st))"
    by (auto simp: entries_from_def el_entries_from_def split: option.splits dest: in_set_dropD)
  ultimately show ?thesis
    using assms(2) by (auto simp: list_all_iff dest: in_set_takeD)
qed

lemma st_append_message [statI]: "does (st_rel vs) (append_message_for p) s"
  unfolding append_message_for_def Let_def by (intro relI statI)

lemma append_message_static:
  assumes "append_message_for p s = (Inr a, s')" and "static vs s"
  shows "msg_static vs (send_msg a)"
  using assms entries_within_static [of "storage (fst s)"]
  by (auto simp: append_message_for_def nwith_def nbind_def nret_def Let_def static_def node_wf_def memb_ok_def
      split: prod.splits sum.splits if_splits)

lemma st_push_append [statI]: "does (st_rel vs) (push_append_for p) s"
proof (cases rule: nbind_cases [of "append_message_for p" s npush])
  case (err e s')
  then show ?thesis using st_append_message [of vs p s] by (simp add: push_append_for_def does_def)
next
  case (ok a s')
  then show ?thesis
    using st_append_message [of vs p s] append_message_static [OF ok(1)] append_message_wf [OF ok(1)]
    by (auto simp: push_append_for_def does_def npush_def st_rel_def static_def node_wf_def)
qed

lemma st_send_all [statI]: "does (st_rel vs) (send_all ps) s"
  by (induction ps arbitrary: s) (auto intro!: relI statI)

lemma st_broadcast [statI]: "does (st_rel vs) broadcast_append s"
  unfolding broadcast_append_def by (intro relI statI st_reload_if)

lemma st_append_local [statI]: "\<not> is_config c \<Longrightarrow> does (st_rel vs) (append_local c) s"
  unfolding append_local_def Let_def by (intro relI st_append st_reload_if st_same) auto

lemma is_config_simps [simp]: "\<not> is_config (Data c)" "\<not> is_config Noop" "is_config (Config ms)"
  by (simp_all add: is_config_def)

lemma batch_no_config: "batch_entries t limit i cs = (es, as) \<Longrightarrow> no_config es"
  by (induction cs arbitrary: i es as) (auto simp: Let_def split: if_splits prod.splits)

lemma st_propose [statI]:
  "does (st_rel vs) (propose_op c) s" "does (st_rel vs) (propose_batch_op cs) s"
  unfolding propose_op_def propose_batch_op_def Let_def
  by (intro relI statI st_append st_same; auto intro: batch_follows batch_no_config)+

lemma promote_first_none: "list_all (\<lambda>m. \<not> p m) ms \<Longrightarrow> promote_first p ms = None"
  by (induction ms) auto

lemma st_maybe_promote [statI]: "does (st_rel vs) maybe_promote s"
proof (cases "static vs s")
  case True
  then have "promote_first (caught_up (fst s)) (members (fst s)) = None"
    by (intro promote_first_none) (auto simp: static_def memb_ok_def plain_def caught_up_def list_all_iff)
  then show ?thesis
    by (simp add: maybe_promote_def nwith_def does_def nret_def sr.rel_refl)
qed (simp add: does_def st_rel_def)

lemma st_match_entries [statI]: "does (st_rel vs) (match_entries prev off k es) s"
  by (induction prev off k es arbitrary: s rule: match_entries.induct) (auto simp: Let_def intro!: relI statI)

lemma st_accept_entries:
  assumes "follows prev es" and "no_config es"
    and "static vs s \<Longrightarrow> sm_index (snapshot_meta_of (storage (fst s))) \<le> prev \<and> prev \<le> last_index (storage (fst s))"
  shows "does (st_rel vs) (accept_entries prev es) s"
proof (cases "static vs s")
  case True
  have d: "no_config (drop k es)" for k
    using assms(2) by (auto simp: list_all_iff dest: in_set_dropD)
  show ?thesis
    unfolding accept_entries_def Let_def
  proof (intro relI statI st_reload st_append d, goal_cases)
    case (1 x s' k moved)
    then show ?case
      using match_entries_end [of prev 0 es s k moved s'] assms True
      by (simp add: follows_drop static_def node_wf_def)
  qed
qed (simp add: does_def st_rel_def)

lemma st_handle_append_entries:
  assumes "follows pi es" and "no_config es"
  shows "does (st_rel vs) (handle_append_entries from pi pt es lc sq) s"
  unfolding handle_append_entries_def Let_def
proof (intro relI st_push st_accept_entries st_same, goal_cases)
  case (4 x s' prev y pt' entries)
  then show ?case
    using assms follows_drop [of pi es "sm_index (snapshot_meta_of (storage (fst s'))) - pi"] by (auto split: if_splits)
next
  case (5 x s' prev y pt' entries)
  then show ?case using assms by (auto simp: list_all_iff split: if_splits dest: in_set_dropD)
next
  case (6 x s' prev y pt' entries)
  then show ?case using term_at_Some_bounds by (auto simp: static_def node_wf_def)
qed auto

lemma sink_write_members [simp]: "sk_members (sink_write d sk) = sk_members sk"
  by (simp add: sink_write_def)

lemma st_incoming:
  assumes "static vs s \<Longrightarrow> plain_opt vs (sk_members sk)"
  shows "st_rel vs s ((fst s)\<lparr>incoming := Some (from, sk)\<rparr>, snd s)"
  using assms by (auto simp: st_rel_def static_def node_wf_def memb_ok_def)

lemma st_incoming_none: "st_rel vs s ((fst s)\<lparr>incoming := None\<rparr>, snd s)"
  by (auto simp: st_rel_def static_def node_wf_def memb_ok_def)

lemma st_reload_marks:
  "st_rel vs s ((reload_membership (fst s))\<lparr>commit_index := a, last_applied := b\<rparr>, snd s)"
  using st_reload [of vs s] by (rule sr.rel_trans) (simp add: st_rel_def static_def node_wf_def memb_ok_def)

text \<open>The sink a piece is written to was opened with the members of a snapshot message.\<close>

lemma new_snapshot_members:
  "nstore (new_snapshot meta mems) s = (Inr sk, s') \<Longrightarrow> sk_members sk = mems"
  by (auto simp: nstore_def dest!: new_snapshot_log split: prod.splits)

lemma st_handle_install_snapshot:
  assumes "plain_opt vs mems"
  shows "does (st_rel vs) (handle_install_snapshot from meta off data fin sq mems) s"
proof -
  let ?sink = "\<lambda>n. case incoming n of
      Some (_, sink) \<Rightarrow> if (case incoming n of Some (sender, sink) \<Rightarrow> sender = from \<and> sk_meta sink = meta | None \<Rightarrow> False)
                      then nret sink else nstore (new_snapshot meta mems)
    | None \<Rightarrow> nstore (new_snapshot meta mems)"
  have opened: "does (st_rel vs) (?sink n) s" for n s
    by (auto simp: case_prod_beta split: option.splits intro!: relI statI)
  have sink_ok: "plain_opt vs (sk_members sk)" if "?sink (fst s) s = (Inr sk, s')" "static vs s" for s sk s'
    using that assms new_snapshot_members [of meta mems s sk s']
    by (auto simp: static_def memb_ok_def nret_def split: option.splits if_splits)
  show ?thesis
  proof (cases "static vs s")
    case True
    then have h: "static vs (hear_leader from (fst s), snd s)"
      using st_same [of "hear_leader from (fst s)" s vs] by (simp add: st_rel_def)
    show ?thesis
      unfolding handle_install_snapshot_def Let_def
    proof (intro relI opened st_push st_incoming st_incoming_none st_install st_reload_marks, goal_cases)
      case 1
      then show ?case by (intro st_same) simp
    qed (use h sink_ok in \<open>auto simp: nmod_def intro!: statI\<close>)
  qed (simp add: does_def st_rel_def)
qed

lemma st_become_follower [statI]: "does (st_rel vs) (become_follower t l) s"
  unfolding become_follower_def by (intro relI statI st_same) auto

lemma st_become_leader [statI]: "does (st_rel vs) become_leader s"
  unfolding become_leader_def take_office_def by (intro relI statI st_same) auto

lemma st_canvass [statI]: "msg_wf msg \<Longrightarrow> msg_static vs msg \<Longrightarrow> does (st_rel vs) (canvass msg ps) s"
  by (induction ps arbitrary: s) (auto intro!: relI st_push)

lemma st_become_candidate [statI]: "does (st_rel vs) become_candidate s"
  unfolding become_candidate_def Let_def by (intro relI statI st_same) auto

lemma st_become_pre_candidate [statI]: "does (st_rel vs) become_pre_candidate s"
  unfolding become_pre_candidate_def Let_def by (intro relI statI st_same) auto

lemma st_vote_handlers [statI]:
  "does (st_rel vs) (handle_pre_vote from t li lt) s" "does (st_rel vs) (handle_pre_vote_reply from t g) s"
  "does (st_rel vs) (handle_request_vote from li lt) s" "does (st_rel vs) (handle_vote_reply from t g) s"
  unfolding handle_pre_vote_def handle_pre_vote_reply_def handle_request_vote_def handle_vote_reply_def Let_def
  by (intro relI statI st_same st_push; simp)+

lemma st_read_index [statI]: "does (st_rel vs) (handle_read_index from i) s"
  by (auto simp: does_def handle_read_index_def npush_def open_read_round_def Let_def st_rel_def static_def node_wf_def
      heartbeat_for_def memb_ok_def list_all_iff map_filter_def split: if_splits)

lemma st_release_reads [statI]: "does (st_rel vs) release_reads s"
  by (auto simp: does_def release_reads_def Let_def st_rel_def static_def node_wf_def memb_ok_def list_all_iff)

lemma st_reply_handlers [statI]:
  "does (st_rel vs) (heard_round from t sq) s" "does (st_rel vs) (handle_append_reply from success mi ci ct) s"
  "does (st_rel vs) (handle_snapshot_reply from li nxt fin) s"
  unfolding heard_round_def handle_append_reply_def handle_snapshot_reply_def Let_def
  by (intro relI statI st_same; simp)+

lemma st_step: "msg_wf msg \<Longrightarrow> msg_static vs msg \<Longrightarrow> does (st_rel vs) (step_op from msg) s"
  unfolding step_op_def
  by (intro sr.withnode; cases msg; simp;
      intro conjI impI relI statI st_push st_handle_append_entries st_handle_install_snapshot st_same;
      auto simp: refuse_vote_def reply_stale_def)

lemma st_tick: "does (st_rel vs) tick_op s"
  unfolding tick_op_def heartbeat_def check_quorum_def Let_def by (intro relI statI st_same) auto

lemma st_campaign: "does (st_rel vs) campaign_op s" "does (st_rel vs) pre_vote_op s"
  unfolding campaign_op_def pre_vote_op_def by (intro relI statI)+

end
