(* ===== verification/NodeVote.thy ===== *)
theory NodeVote
  imports NodeStatic
begin

text \<open>
  Votes and elections, one node at a time. \<open>vote_le\<close>: the durable term never goes back, and within a term a
  vote once cast never changes, whatever the operation and whether or not it fails. \<open>cand_ok\<close>: a candidate
  has voted for itself and counts only votes granted to it in its own term; a leader counted a majority.
\<close>

section \<open>The durable vote\<close>

definition vote_le :: "nstate \<Rightarrow> nstate \<Rightarrow> bool" where
  "vote_le s s' \<longleftrightarrow> n_id (fst s') = n_id (fst s) \<and>
     (n_term (fst s) < n_term (fst s') \<or>
      n_term (fst s) = n_term (fst s') \<and> (n_vote (fst s) = None \<or> n_vote (fst s) = n_vote (fst s')))"

interpretation vr: op_rel vote_le
  by unfold_locales (auto simp: vote_le_def)

named_theorems voteI \<open>operations that respect the durable vote\<close>

lemma vote_same: "n_id n = n_id (fst s) \<Longrightarrow> ms_hard (storage n) = ms_hard (storage (fst s)) \<Longrightarrow> vote_le s (n, as)"
  by (simp add: vote_le_def n_term_def n_vote_def)

lemma vote_quiet: "does quiet m s \<Longrightarrow> does vote_le m s"
  by (auto simp: does_def quiet_def elec_def vote_le_def n_term_def n_vote_def)

lemma vote_save:
  assumes "n_term (fst s) < hs_term h \<or> n_term (fst s) = hs_term h \<and> (n_vote (fst s) = None \<or> n_vote (fst s) = voted_for h)"
  shows "does vote_le (nstore (save_hard_state h)) s"
  using assms
  by (intro vr.stored) (auto simp: vote_le_def n_term_def n_vote_def dest!: save_hard_state_log split: sum.splits)

lemma n_id_reload [simp]: "n_id (reload_membership n) = n_id n"
  by (simp add: reload_membership_def Let_def case_prod_beta)

lemma hard_reset [simp]: "n_id (reset_election_timer n) = n_id n" "n_id (hear_leader from n) = n_id n"
  "storage (hear_leader from n) = storage n"
  by (simp_all add: reset_election_timer_def hear_leader_def case_prod_beta)

lemma vote_become_follower: "n_term (fst s) \<le> t \<Longrightarrow> does vote_le (become_follower t l) s"
  unfolding become_follower_def
  by (intro relI vote_save vote_same) (auto simp: n_term_def nmod_def)

lemma vote_become_leader [voteI]: "does vote_le become_leader s"
  unfolding become_leader_def take_office_def by (intro relI vote_same vote_quiet quietI) auto

lemma vote_become_candidate [voteI]: "does vote_le become_candidate s"
  unfolding become_candidate_def Let_def
  by (intro relI voteI vote_same vote_save vote_quiet quietI) (auto simp: n_term_def nmod_def)

lemma vote_become_pre_candidate [voteI]: "does vote_le become_pre_candidate s"
  unfolding become_pre_candidate_def by (intro relI voteI vote_same vote_quiet quietI) auto

lemma vote_handlers [voteI]:
  "does vote_le (handle_pre_vote_reply from t g) s" "does vote_le (handle_request_vote from li lt) s"
  "does vote_le (handle_vote_reply from t g) s"
  unfolding handle_pre_vote_reply_def handle_request_vote_def handle_vote_reply_def Let_def
  by (intro relI voteI vote_same vote_become_follower vote_save; simp add: n_vote_def split: option.splits)+

lemma vote_append_entries [voteI]: "does vote_le (handle_append_entries from pi pt es lc sq) s"
  unfolding handle_append_entries_def Let_def
  by (intro relI vote_same vote_quiet quietI) auto

lemma vote_install_snapshot [voteI]: "does vote_le (handle_install_snapshot from meta off data fin sq mems) s"
  unfolding handle_install_snapshot_def Let_def
  by (intro relI vote_same) (auto simp: case_prod_beta Let_def intro!: relI vote_quiet quietI split: option.splits)

lemma vote_handle: "does vote_le (handle from msg) s"
  by (cases msg) (auto intro!: relI voteI vote_quiet quietI)

lemma vote_step: "does vote_le (step_op from msg) s"
  unfolding step_op_def
  by (intro vr.withnode; cases msg; simp;
      intro conjI impI relI voteI vote_quiet [OF quiet_pre_vote] vote_become_follower vote_handle [of _ "AppendEntries _ _ _ _ _ _"]
        vote_quiet [OF quiet_heard_round] vote_quiet [OF quiet_append_reply] vote_quiet [OF quiet_snapshot_reply]
        vote_quiet [OF quiet_read_index] vote_quiet [OF quiet_read_answered] vote_same;
      auto)

lemma vote_check_quorum [voteI]: "does vote_le check_quorum s"
  unfolding check_quorum_def Let_def
  by (intro relI vote_same vote_become_follower) (auto simp: nmod_def n_term_def)

lemma vote_tick: "does vote_le tick_op s"
  unfolding tick_op_def
  by (intro relI voteI vote_same vote_become_follower vote_quiet [OF quiet_heartbeat] vote_quiet [OF quiet_maybe_promote]) auto

lemma vote_campaign: "does vote_le campaign_op s" "does vote_le pre_vote_op s"
  unfolding campaign_op_def pre_vote_op_def by (intro relI voteI)+

section \<open>Majorities\<close>

definition majority_of :: "nat list \<Rightarrow> nat set \<Rightarrow> bool" where
  "majority_of vs A \<longleftrightarrow> vs \<noteq> [] \<and> length (filter (\<lambda>v. v \<in> A) vs) \<ge> length vs div 2 + 1"

lemma has_quorum_majority: "has_quorum n A \<longleftrightarrow> majority_of (voters n) A"
  by (simp add: has_quorum_def majority_of_def quorum_def)

section \<open>Candidates and leaders\<close>

definition cand_ok :: "(nat \<times> nat) set \<Rightarrow> nat list \<Rightarrow> node \<Rightarrow> bool" where
  "cand_ok G vs n \<longleftrightarrow>
     (role n \<in> {Candidate, Leader} \<longrightarrow>
        n_vote n = Some (n_id n) \<and> votes n \<subseteq> insert (n_id n) {v. (v, n_term n) \<in> G}) \<and>
     (role n = Leader \<longrightarrow> majority_of vs (votes n))"

lemma cand_elec: "elec n' = elec n \<Longrightarrow> cand_ok G vs n \<Longrightarrow> cand_ok G vs n'"
  by (simp add: cand_ok_def elec_def n_vote_def n_term_def)

lemma cand_follower: "role n \<in> {Follower, PreCandidate} \<Longrightarrow> cand_ok G vs n"
  by (auto simp: cand_ok_def)

lemma quiet_elec: "does quiet m s \<Longrightarrow> m s = (r, s') \<Longrightarrow> elec (fst s') = elec (fst s)"
  by (simp add: does_def quiet_def)

lemma nbind_InrE: "nbind m f s = (Inr y, s'') \<Longrightarrow> (\<And>x s'. m s = (Inr x, s') \<Longrightarrow> f x s' = (Inr y, s'') \<Longrightarrow> P) \<Longrightarrow> P"
  by (auto simp: nbind_def split: prod.splits sum.splits)

lemma nseq_InrE: "nseq m m' s = (Inr y, s'') \<Longrightarrow> (\<And>x s'. m s = (Inr x, s') \<Longrightarrow> m' s' = (Inr y, s'') \<Longrightarrow> P) \<Longrightarrow> P"
  unfolding nseq_def by (erule nbind_InrE)

lemma nseq_nmod: "nseq (nmod f) m s = m (f (fst s), snd s)"
  by (simp add: nseq_def nbind_def nmod_def)

lemma nstoreD: "nstore f s = (r, s') \<Longrightarrow> \<exists>st. f (storage (fst s)) = (r, st) \<and> s' = ((fst s)\<lparr>storage := st\<rparr>, snd s)"
  by (simp add: nstore_def split: prod.splits)

lemma save_ok: "nstore (save_hard_state h) s = (Inr x, s') \<Longrightarrow>
    ms_hard (storage (fst s')) = h \<and> n_id (fst s') = n_id (fst s) \<and> role (fst s') = role (fst s) \<and> votes (fst s') = votes (fst s)
    \<and> voters (fst s') = voters (fst s) \<and> snd s' = snd s"
  by (auto dest!: nstoreD save_hard_state_log)

lemma reset_fields [simp]: "role (reset_election_timer n) = role n" "votes (reset_election_timer n) = votes n"
  "voters (reset_election_timer n) = voters n"
  by (simp_all add: reset_election_timer_def case_prod_beta)

lemma become_follower_role: "become_follower t l s = (Inr x, s') \<Longrightarrow> role (fst s') = Follower"
  unfolding become_follower_def nwith_def
  by (auto elim!: nseq_InrE simp: nmod_def nwhen_def nret_def split: if_splits dest!: save_ok)

lemma become_leader_elec:
  assumes "become_leader s = (Inr x, s')"
  shows "role (fst s') = Leader \<and> n_id (fst s') = n_id (fst s) \<and> votes (fst s') = votes (fst s) \<and>
    ms_hard (storage (fst s')) = ms_hard (storage (fst s))"
proof -
  let ?rest = "nbind (append_local Noop) (\<lambda>start. nseq (nmod (\<lambda>n. n\<lparr>leader_start := start\<rparr>)) broadcast_append)"
  let ?s1 = "(take_office (fst s), snd s)"
  have r: "?rest ?s1 = (Inr x, s')" using assms by (simp add: become_leader_def nseq_nmod)
  have "does quiet ?rest ?s1" by (intro relI quietI quiet_node) simp
  from quiet_elec [OF this r] show ?thesis by (simp add: elec_def take_office_def)
qed

lemma cand_become_leader:
  assumes "become_leader s = (Inr x, s')" and "role (fst s) = Candidate" and "cand_ok G vs (fst s)"
    and "majority_of vs (votes (fst s))"
  shows "cand_ok G vs (fst s')"
  using become_leader_elec [OF assms(1)] assms(2-4) by (simp add: cand_ok_def n_vote_def n_term_def)

lemma canvass_elec:
  "canvass (RequestVote t li lt) ps s = (r, s') \<Longrightarrow> elec (fst s') = elec (fst s)"
  "canvass (PreVote t li lt) ps s = (r, s') \<Longrightarrow> elec (fst s') = elec (fst s)"
  using quiet_elec [OF quiet_canvass] by blast+

lemma cand_become_candidate:
  assumes "become_candidate s = (Inr x, s')" and "voters (fst s) = vs"
  shows "cand_ok G vs (fst s')"
proof -
  let ?t = "n_term (fst s) + 1"
  let ?n = "(fst s)\<lparr>role := Candidate, leader_id := None, remote_reads := []\<rparr>"
  obtain u s0 where s0: "nstore (save_hard_state \<lparr>hs_term = ?t, voted_for = Some (n_id (fst s))\<rparr>) (?n, snd s) = (Inr u, s0)"
    and rest0: "nseq (nmod (\<lambda>n. reset_election_timer (n\<lparr>votes := {n_id n}\<rparr>)))
         (nwith (\<lambda>n. if has_quorum n (votes n) then become_leader
            else canvass (RequestVote ?t (last_index (storage n)) (last_term (storage n))) (peers n))) s0 = (Inr x, s')"
    using assms(1) unfolding become_candidate_def nwith_def [of _ s] Let_def nseq_nmod by (elim nseq_InrE) simp
  define s1 where "s1 = (reset_election_timer ((fst s0)\<lparr>votes := {n_id (fst s0)}\<rparr>), snd s0)"
  have s1: "role (fst s1) = Candidate" "n_id (fst s1) = n_id (fst s)" "votes (fst s1) = {n_id (fst s)}"
    "ms_hard (storage (fst s1)) = \<lparr>hs_term = ?t, voted_for = Some (n_id (fst s))\<rparr>" "voters (fst s1) = vs"
    using save_ok [OF s0] assms(2) by (simp_all add: s1_def)
  have rest: "(if has_quorum (fst s1) (votes (fst s1)) then become_leader
            else canvass (RequestVote ?t (last_index (storage (fst s1))) (last_term (storage (fst s1)))) (peers (fst s1))) s1 = (Inr x, s')"
    using rest0 unfolding nseq_nmod nwith_def s1_def [symmetric] .
  have ok: "cand_ok G vs (fst s1)" using s1 by (simp add: cand_ok_def n_vote_def)
  show ?thesis
  proof (cases "has_quorum (fst s1) (votes (fst s1))")
    case True
    then show ?thesis
      using rest cand_become_leader [OF _ s1(1) ok] s1(5) by (simp add: has_quorum_majority)
  next
    case False
    then show ?thesis
      using rest canvass_elec(1) by (intro cand_elec [OF _ ok]) simp
  qed
qed

lemma cand_become_pre_candidate:
  assumes "become_pre_candidate s = (Inr x, s')" and "voters (fst s) = vs"
  shows "cand_ok G vs (fst s')"
proof -
  define s1 where "s1 = (reset_election_timer
    ((fst s)\<lparr>role := PreCandidate, leader_id := None, remote_reads := [], votes := {n_id (fst s)}\<rparr>), snd s)"
  have rest: "(if has_quorum (fst s1) (votes (fst s1)) then become_candidate
            else canvass (PreVote (n_term (fst s1) + 1) (last_index (storage (fst s1))) (last_term (storage (fst s1)))) (peers (fst s1))) s1
      = (Inr x, s')"
    using assms(1) unfolding become_pre_candidate_def nseq_nmod nwith_def s1_def [symmetric] .
  have s1: "role (fst s1) = PreCandidate" "voters (fst s1) = vs" using assms(2) by (simp_all add: s1_def)
  show ?thesis
  proof (cases "has_quorum (fst s1) (votes (fst s1))")
    case True
    then show ?thesis using rest cand_become_candidate s1(2) by simp
  next
    case False
    then show ?thesis
      using rest canvass_elec(2) s1(1) by (intro cand_elec [of "fst s'" "fst s1"]) (simp_all add: cand_follower)
  qed
qed

lemma cand_pre_vote_reply:
  assumes "handle_pre_vote_reply from t g s = (Inr x, s')" and "voters (fst s) = vs" and "cand_ok G vs (fst s)"
  shows "cand_ok G vs (fst s')"
  using assms(1) become_follower_role cand_become_candidate [where vs = vs and G = G] assms(2,3)
  by (auto simp: handle_pre_vote_reply_def nwith_def nwhen_def nret_def nseq_nmod cand_follower split: if_splits)

lemma save_then_reset:
  assumes "nseq (nstore (save_hard_state h)) (nmod reset_election_timer) s = (Inr x, s')"
  shows "ms_hard (storage (fst s')) = h \<and> n_id (fst s') = n_id (fst s) \<and> role (fst s') = role (fst s) \<and>
    votes (fst s') = votes (fst s) \<and> snd s' = snd s"
  using assms
proof (elim nseq_InrE)
  fix y s1
  assume saved: "nstore (save_hard_state h) s = (Inr y, s1)" and "nmod reset_election_timer s1 = (Inr x, s')"
  from this(2) have "s' = (reset_election_timer (fst s1), snd s1)" by (simp add: nmod_def)
  then show ?thesis using save_ok [OF saved] by simp
qed

text \<open>What a request for a vote comes to: a vote is granted only when none was cast for anyone else.\<close>

lemma request_vote_ok:
  assumes "handle_request_vote from li lt s = (Inr x, s')"
  obtains granted where "snd s' = snd s @ [Send from (RequestVoteReply (n_term (fst s)) granted)]"
    and "n_id (fst s') = n_id (fst s)" and "role (fst s') = role (fst s)" and "votes (fst s') = votes (fst s)"
    and "n_term (fst s') = n_term (fst s)" and "n_vote (fst s') = (if granted then Some from else n_vote (fst s))"
    and "granted \<Longrightarrow> n_vote (fst s) \<in> {None, Some from}"
proof -
  define granted where "granted = ((case n_vote (fst s) of None \<Rightarrow> True | Some v \<Rightarrow> v = from) \<and> is_up_to_date (storage (fst s)) li lt)"
  obtain y s1 where w: "nwhen granted (nseq (nstore (save_hard_state \<lparr>hs_term = n_term (fst s), voted_for = Some from\<rparr>))
        (nmod reset_election_timer)) s = (Inr y, s1)"
    and p: "s' = (fst s1, snd s1 @ [Send from (RequestVoteReply (n_term (fst s1)) granted)])"
    using assms unfolding handle_request_vote_def nwith_def [of _ s] Let_def granted_def [symmetric]
    by (elim nseq_InrE) (simp add: nwith_def npush_def)
  have free: "granted \<Longrightarrow> n_vote (fst s) \<in> {None, Some from}"
    by (auto simp: granted_def split: option.splits)
  show ?thesis
  proof (rule that [of granted])
  qed (use w p free save_then_reset [of _ s y s1] in \<open>auto simp: nwhen_def nret_def n_term_def n_vote_def split: if_splits\<close>)
qed

lemma cand_request_vote:
  assumes "handle_request_vote from li lt s = (Inr x, s')" and "cand_ok G vs (fst s)"
  shows "cand_ok G vs (fst s')"
  using assms(1)
proof (rule request_vote_ok)
qed (use assms(2) in \<open>auto simp: cand_ok_def split: if_splits\<close>)

lemma cand_vote_reply:
  assumes "handle_vote_reply from t g s = (Inr x, s')" and "voters (fst s) = vs" and "cand_ok G vs (fst s)"
    and "g \<Longrightarrow> (from, t) \<in> G"
  shows "cand_ok G vs (fst s')"
proof (cases "role (fst s) = Candidate \<and> t = n_term (fst s) \<and> g")
  case False
  then show ?thesis using assms(1,3) by (auto simp: handle_vote_reply_def nwith_def nwhen_def nret_def split: if_splits)
next
  case True
  define s1 where "s1 = ((fst s)\<lparr>votes := insert from (votes (fst s))\<rparr>, snd s)"
  have rest: "(if has_quorum (fst s1) (votes (fst s1)) then become_leader else nret ()) s1 = (Inr x, s')"
    using assms(1) True unfolding s1_def by (simp add: handle_vote_reply_def nwith_def nwhen_def nseq_nmod)
  have s1: "role (fst s1) = Candidate" "voters (fst s1) = vs" "cand_ok G vs (fst s1)"
    using True assms(2-4) by (auto simp: s1_def cand_ok_def n_vote_def n_term_def)
  show ?thesis
    using rest s1 cand_become_leader [of s1 x s' G vs] by (auto simp: nret_def has_quorum_majority split: if_splits)
qed

lemma role_hear_leader [simp]: "role (hear_leader from n) = Follower"
  by (simp add: hear_leader_def)

lemma hear_then_quiet:
  assumes "m0 = nseq (nmod (hear_leader from)) m" and "m0 s = (r, s')" and "\<And>s. does quiet m s"
  shows "role (fst s') = Follower"
proof -
  have "m (hear_leader from (fst s), snd s) = (r, s')" using assms(1,2) by (simp add: nseq_nmod)
  from quiet_elec [OF assms(3) this] show ?thesis by (simp add: elec_def)
qed

lemma role_append_entries: "handle_append_entries from pi pt es lc sq s = (r, s') \<Longrightarrow> role (fst s') = Follower"
  by (rule hear_then_quiet [OF handle_append_entries_def], assumption, unfold Let_def)
     (intro relI quietI quiet_push quiet_node; simp)

lemma role_install_snapshot: "handle_install_snapshot from meta off data fin sq mems s = (r, s') \<Longrightarrow> role (fst s') = Follower"
  by (rule hear_then_quiet [OF handle_install_snapshot_def], assumption, unfold Let_def)
     (intro relI quietI quiet_push quiet_node; auto simp: case_prod_beta intro!: relI quietI split: option.splits)

fun decides :: "message \<Rightarrow> bool" where
  "decides (RequestVote _ _ _) \<longleftrightarrow> True"
| "decides (RequestVoteReply _ _) \<longleftrightarrow> True"
| "decides (AppendEntries _ _ _ _ _ _) \<longleftrightarrow> True"
| "decides (InstallSnapshot _ _ _ _ _ _ _ _) \<longleftrightarrow> True"
| "decides _ \<longleftrightarrow> False"

lemma quiet_handle: "\<not> decides msg \<Longrightarrow> does quiet (handle from msg) s"
  by (cases msg) (auto intro!: relI quietI)

lemma cand_handle:
  assumes "handle from msg s = (Inr x, s')" and "voters (fst s) = vs" and "cand_ok G vs (fst s)"
    and "\<And>t. msg = RequestVoteReply t True \<Longrightarrow> (from, t) \<in> G"
  shows "cand_ok G vs (fst s')"
proof (cases msg)
  case (RequestVote t li lt)
  then show ?thesis using assms cand_request_vote by simp
next
  case (RequestVoteReply t g)
  then show ?thesis using assms cand_vote_reply [of "from" t g s x s' vs G] by auto
next
  case (AppendEntries t pi pt es lc sq)
  then show ?thesis using assms(1) role_append_entries cand_follower by fastforce
next
  case (InstallSnapshot t li lt off data fin sq mems)
  then show ?thesis using assms(1) role_install_snapshot cand_follower by fastforce
qed (rule cand_elec [OF quiet_elec [OF quiet_handle assms(1)] assms(3)]; simp)+

lemma voters_become_follower: "become_follower t l s = (Inr x, s') \<Longrightarrow> voters (fst s') = voters (fst s)"
  unfolding become_follower_def nwith_def
  by (auto elim!: nseq_InrE simp: nmod_def nwhen_def nret_def split: if_splits dest!: save_ok)

fun pre_vote_msg :: "message \<Rightarrow> bool" where
  "pre_vote_msg (PreVote _ _ _) \<longleftrightarrow> True"
| "pre_vote_msg (PreVoteReply _ _) \<longleftrightarrow> True"
| "pre_vote_msg _ \<longleftrightarrow> False"

lemma case_other: "\<not> pre_vote_msg msg \<Longrightarrow> (case msg of PreVote t li lt \<Rightarrow> f t li lt | PreVoteReply t g \<Rightarrow> h t g | _ \<Rightarrow> m) = m"
  by (cases msg) simp_all

lemma step_op_other:
  assumes "\<not> pre_vote_msg msg"
  shows "step_op from msg = nwith (\<lambda>n.
     if is_vote_request msg \<and> leader_id n \<noteq> None \<and> election_elapsed n < election_timeout n then npush (refuse_vote n from msg)
     else if msg_term msg > n_term n then nseq (become_follower (msg_term msg) None) (handle from msg)
     else if msg_term msg < n_term n \<and> is_request msg then npush (reply_stale n from msg)
     else handle from msg)"
  unfolding step_op_def case_other [OF assms] ..

lemma refusals: "\<not> grants (refuse_vote n from msg)" "\<not> grants (reply_stale n from msg)"
  by (simp_all add: refuse_vote_def reply_stale_def split: message.splits)

text \<open>The ways a message can be dealt with.\<close>

lemma step_op_cases:
  assumes "step_op from msg s = (r, s')"
  obtains (refused) a where "s' = (fst s, snd s @ [a])" "\<not> grants a"
  | (pre) t li lt where "handle_pre_vote from t li lt s = (r, s')"
  | (pre_reply) t g where "handle_pre_vote_reply from t g s = (r, s')"
  | (later) "n_term (fst s) < msg_term msg" "nseq (become_follower (msg_term msg) None) (handle from msg) s = (r, s')"
  | (handled) "handle from msg s = (r, s')"
proof (cases "pre_vote_msg msg")
  case True
  then show ?thesis
    using assms refusals refused pre pre_reply
    by (cases msg) (auto simp: step_op_def nwith_def npush_def split: if_splits)
next
  case False
  then show ?thesis
    using assms refusals refused later handled
    by (auto simp: step_op_other nwith_def npush_def split: if_splits)
qed

lemma cand_step:
  assumes "step_op from msg s = (Inr x, s')" and "voters (fst s) = vs" and "cand_ok G vs (fst s)"
    and "\<And>t. msg = RequestVoteReply t True \<Longrightarrow> (from, t) \<in> G"
  shows "cand_ok G vs (fst s')"
  using assms(1)
proof (cases rule: step_op_cases)
  case later
  show ?thesis
    using later(2)
  proof (elim nseq_InrE)
    fix y s1
    assume f: "become_follower (msg_term msg) None s = (Inr y, s1)" and h: "handle from msg s1 = (Inr x, s')"
    show ?thesis
      using cand_handle [OF h _ cand_follower assms(4)] become_follower_role [OF f] voters_become_follower [OF f] assms(2)
      by simp
  qed
next
  case (pre t li lt)
  show ?thesis using cand_elec [OF quiet_elec [OF quiet_pre_vote pre] assms(3)] .
next
  case (pre_reply t g)
  then show ?thesis using cand_pre_vote_reply [OF _ assms(2,3)] by simp
next
  case handled
  then show ?thesis using cand_handle [OF _ assms(2-4)] by simp
qed (use assms(3) in simp)

lemma cand_check_quorum:
  assumes "check_quorum s = (Inr x, s')" and "cand_ok G vs (fst s)"
  shows "cand_ok G vs (fst s')"
  using assms become_follower_role cand_follower
  by (auto simp: check_quorum_def nwith_def nwhen_def Let_def nseq_nmod nret_def split: if_splits)
     (auto simp: nmod_def intro: cand_elec [rotated])

lemma cand_quiet: "does quiet m s \<Longrightarrow> m s = (r, s') \<Longrightarrow> cand_ok G vs (fst s) \<Longrightarrow> cand_ok G vs (fst s')"
  using cand_elec quiet_elec by blast

lemma cand_tick:
  assumes "tick_op s = (Inr x, s')" and "voters (fst s) = vs" and "cand_ok G vs (fst s)"
  shows "cand_ok G vs (fst s')"
proof (cases "role (fst s) = Leader")
  case True
  show ?thesis
  proof (cases "\<not> is_voter (fst s) \<and> commit_index (fst s) \<ge> membership_index (fst s)")
    case True
    then show ?thesis
      using assms(1) \<open>role (fst s) = Leader\<close> become_follower_role cand_follower by (fastforce simp: tick_op_def nwith_def)
  next
    case False
    let ?beat = "nseq heartbeat (nseq maybe_promote (nmod (\<lambda>n. n\<lparr>election_elapsed := election_elapsed n + 1\<rparr>)))"
    have "nseq ?beat check_quorum s = (Inr x, s')"
      using assms(1) True False
      by (auto simp: tick_op_def nwith_def nseq_def nbind_def split: prod.splits sum.splits)
    then obtain y s1 where b: "?beat s = (Inr y, s1)" and c: "check_quorum s1 = (Inr x, s')"
      by (rule nseq_InrE)
    have "does quiet ?beat s" by (intro relI quietI quiet_node) simp
    from cand_check_quorum [OF c cand_quiet [OF this b assms(3)]] show ?thesis .
  qed
next
  case False
  define s1 where "s1 = ((fst s)\<lparr>election_elapsed := election_elapsed (fst s) + 1\<rparr>, snd s)"
  have s1: "voters (fst s1) = vs" "cand_ok G vs (fst s1)"
    using assms(2,3) by (auto simp: s1_def intro: cand_elec [rotated])
  have rest: "nwhen (election_elapsed (fst s1) \<ge> election_timeout (fst s1))
      (if is_voter (fst s1) then become_pre_candidate
       else nmod (\<lambda>n. reset_election_timer (n\<lparr>role := Follower\<rparr>))) s1 = (Inr x, s')"
    using assms(1) False unfolding tick_op_def nwith_def [of _ s] by (simp add: nseq_nmod nwith_def s1_def)
  show ?thesis
    using rest s1 cand_become_pre_candidate [of s1 x s' vs G] cand_follower
    by (auto simp: nwhen_def nret_def nmod_def split: if_splits)
qed

lemma cand_campaign:
  assumes "campaign_op s = (Inr x, s') \<or> pre_vote_op s = (Inr x, s')" and "voters (fst s) = vs" and "cand_ok G vs (fst s)"
  shows "cand_ok G vs (fst s')"
  using assms(1,3) cand_become_candidate [of s x s' vs G] cand_become_pre_candidate [of s x s' vs G] assms(2)
  by (auto simp: campaign_op_def pre_vote_op_def nwith_def nwhen_def nret_def split: if_splits)

section \<open>Who is granted a vote\<close>

definition silent :: "nstate \<Rightarrow> nstate \<Rightarrow> bool" where
  "silent s s' \<longleftrightarrow> (\<exists>acts. snd s' = snd s @ acts \<and> list_all (\<lambda>a. \<not> grants a) acts)"

interpretation sl: op_rel silent
  by unfold_locales (auto simp: silent_def)

named_theorems silentI \<open>operations that grant no vote\<close>

lemma silent_quiet: "does quiet m s \<Longrightarrow> does silent m s"
  by (auto simp: does_def quiet_def silent_def)

lemma silent_node: "silent s (n, snd s)"
  by (simp add: silent_def)

lemma silent_push: "\<not> grants a \<Longrightarrow> silent s (fst s, snd s @ [a])"
  by (simp add: silent_def)

lemma silent_save [silentI]: "does silent (nstore (save_hard_state h)) s"
  by (intro sl.stored silent_node)

lemma silent_become [silentI]:
  "does silent (become_follower t l) s" "does silent become_leader s"
  unfolding become_follower_def become_leader_def
  by (intro relI silentI silent_node silent_quiet [OF quiet_append_local] silent_quiet [OF quiet_broadcast])+

lemma silent_become_candidate [silentI]: "does silent become_candidate s"
  unfolding become_candidate_def Let_def
  by (intro relI silentI silent_node silent_quiet [OF quiet_canvass]) auto

lemma silent_become_pre_candidate [silentI]: "does silent become_pre_candidate s"
  unfolding become_pre_candidate_def Let_def
  by (intro relI silentI silent_node silent_quiet [OF quiet_canvass]) auto

lemma silent_vote_replies [silentI]:
  "does silent (handle_pre_vote_reply from t g) s" "does silent (handle_vote_reply from t g) s"
  unfolding handle_pre_vote_reply_def handle_vote_reply_def by (intro relI silentI silent_node)+

lemma silent_append_entries [silentI]: "does silent (handle_append_entries from pi pt es lc sq) s"
  unfolding handle_append_entries_def Let_def
  by (intro relI silent_node silent_push silent_quiet [OF quiet_accept_entries]) auto

lemma silent_install_snapshot [silentI]: "does silent (handle_install_snapshot from meta off data fin sq mems) s"
  unfolding handle_install_snapshot_def Let_def
  by (intro relI silent_node silent_push silent_quiet [OF quiet_storage(4)] silent_quiet [OF quiet_storage(5)])
     (auto simp: case_prod_beta intro!: relI silent_quiet quietI split: option.splits)

lemma silent_check_quorum [silentI]: "does silent check_quorum s"
  unfolding check_quorum_def Let_def by (intro relI silentI silent_node)

lemma silent_tick: "does silent tick_op s"
  unfolding tick_op_def
  by (intro relI silentI silent_node silent_quiet [OF quiet_heartbeat] silent_quiet [OF quiet_maybe_promote])

lemma silent_campaign: "does silent campaign_op s" "does silent pre_vote_op s"
  unfolding campaign_op_def pre_vote_op_def by (intro relI silentI)+

definition grants_ok :: "nat \<Rightarrow> nstate \<Rightarrow> nstate \<Rightarrow> bool" where
  "grants_ok from s s' \<longleftrightarrow> (\<exists>acts. snd s' = snd s @ acts \<and>
     (\<forall>a \<in> set acts. grants a \<longrightarrow> a = Send from (RequestVoteReply (n_term (fst s')) True) \<and> n_vote (fst s') = Some from))"

lemma grants_silent: "silent s s' \<Longrightarrow> grants_ok from s s'"
  by (auto simp: silent_def grants_ok_def list_all_iff)

lemma grants_handle: "handle from msg s = (Inr x, s') \<Longrightarrow> grants_ok from s s'"
proof (cases msg)
  case (RequestVote t li lt)
  moreover assume "handle from msg s = (Inr x, s')"
  ultimately show ?thesis
    by (simp, elim request_vote_ok) (auto simp: grants_ok_def)
next
  case (RequestVoteReply t g)
  moreover assume "handle from msg s = (Inr x, s')"
  ultimately show ?thesis using silent_vote_replies(2) [of "from" t g s] by (simp add: does_def grants_silent)
next
  case (AppendEntries t pi pt es lc sq)
  moreover assume "handle from msg s = (Inr x, s')"
  ultimately show ?thesis using silent_append_entries [of "from" pi pt es lc sq s] by (simp add: does_def grants_silent)
next
  case (InstallSnapshot t li lt off data fin sq mems)
  moreover assume "handle from msg s = (Inr x, s')"
  ultimately show ?thesis
    using silent_install_snapshot [of "from" "\<lparr>sm_index = li, sm_term = lt\<rparr>" off data fin sq mems s]
    by (simp add: does_def grants_silent)
qed (use silent_quiet [OF quiet_handle, of msg "from" s] in \<open>simp_all add: does_def grants_silent\<close>)

lemma grants_step:
  assumes "step_op from msg s = (Inr x, s')"
  shows "grants_ok from s s'"
  using assms
proof (cases rule: step_op_cases)
  case later
  show ?thesis
    using later(2)
  proof (elim nseq_InrE)
    fix y s1
    assume f: "become_follower (msg_term msg) None s = (Inr y, s1)" and h: "handle from msg s1 = (Inr x, s')"
    show ?thesis
      using silent_become(1) [of "msg_term msg" None s] f grants_handle [OF h]
      by (auto simp: does_def silent_def grants_ok_def list_all_iff)
  qed
next
  case (pre t li lt)
  then show ?thesis
    using silent_quiet [OF quiet_pre_vote, of "from" t li lt s] by (simp add: does_def grants_silent)
next
  case (pre_reply t g)
  then show ?thesis using silent_vote_replies(1) [of "from" t g s] by (simp add: does_def grants_silent)
next
  case handled
  then show ?thesis by (rule grants_handle)
qed (simp add: grants_ok_def)

end
