(* ===== verification/RaftCluster.thy ===== *)
theory RaftCluster
  imports NodeVote
begin

text \<open>
  A cluster of nodes. Every message a node sends stays in the network and may be delivered any number of
  times, in any order, or never; any node may tick, be asked to stand, to propose, to read, to apply or to
  compact at any moment, may crash and come back with what its storage kept, and any durable operation may
  fail. A failed \<^verbatim>\<open>tick\<close>, \<^verbatim>\<open>step\<close> or \<^verbatim>\<open>campaign\<close> ends the process (\<^verbatim>\<open>storage_failed\<close> in
  \<^verbatim>\<open>src/src/cluster.rs\<close>), so its node comes back from its storage. The membership is the one the cluster
  was started with.

  Beside the nodes and the network the state records, for the statements, every vote a node ever held and
  every office a node ever took.
\<close>

section \<open>The cluster\<close>

type_synonym packet = "nat \<times> nat \<times> message"  \<comment> \<open>from, to, message\<close>

record cluster =
  cl_nodes :: "nat \<Rightarrow> node"
  cl_net :: "packet list"
  cl_sinks :: "(nat \<times> mem_snapshot) list"
  cl_cast :: "(nat \<times> nat \<times> nat) list"  \<comment> \<open>voter, term, candidate\<close>
  cl_led :: "(nat \<times> nat) list"  \<comment> \<open>term, leader\<close>

datatype event =
    Tick nat
  | Deliver nat nat message
  | Campaign nat
  | PreVoteNow nat
  | Propose nat bytes
  | ProposeBatch nat "bytes list"
  | Read nat
  | ForgetRead nat read_kind
  | Apply nat
  | BeginCompaction nat nat
  | FinishCompaction nat mem_snapshot bytes
  | Restart nat
  | Faults nat "bool list"
  | AutoPromote nat bool
  | ExpireTimer nat

definition observed :: "nat \<Rightarrow> node \<Rightarrow> cluster \<Rightarrow> cluster" where
  "observed i n c = c\<lparr>
     cl_cast := (case n_vote n of Some v \<Rightarrow> [(i, n_term n, v)] | None \<Rightarrow> []) @ cl_cast c,
     cl_led := (if role n = Leader then [(n_term n, i)] else []) @ cl_led c\<rparr>"

definition put_node :: "nat \<Rightarrow> node \<Rightarrow> action list \<Rightarrow> cluster \<Rightarrow> cluster" where
  "put_node i n acts c = observed i n (c\<lparr>cl_nodes := (cl_nodes c)(i := n),
     cl_net := map (\<lambda>a. (i, send_to a, send_msg a)) acts @ cl_net c\<rparr>)"

text \<open>A failure of these operations aborts the process; it starts again from its storage.\<close>

definition settle :: "config \<Rightarrow> member list \<Rightarrow> nat \<Rightarrow> action list res \<times> node \<Rightarrow> cluster \<Rightarrow> cluster" where
  "settle cfg boot i r c = (case r of
       (Inr acts, n) \<Rightarrow> put_node i n acts c
     | (Inl _, n) \<Rightarrow> put_node i (with_members i boot cfg (into_storage n)) [] c)"

fun enabled :: "cluster \<Rightarrow> event \<Rightarrow> bool" where
  "enabled c (Deliver from to m) \<longleftrightarrow> (from, to, m) \<in> set (cl_net c)"
| "enabled c (FinishCompaction i sk data) \<longleftrightarrow> (i, sk) \<in> set (cl_sinks c)"
| "enabled c _ \<longleftrightarrow> True"

fun apply_event :: "config \<Rightarrow> member list \<Rightarrow> cluster \<Rightarrow> event \<Rightarrow> cluster" where
  "apply_event cfg boot c (Tick i) = settle cfg boot i (tick (cl_nodes c i)) c"
| "apply_event cfg boot c (Deliver from i m) = settle cfg boot i (step from m (cl_nodes c i)) c"
| "apply_event cfg boot c (Campaign i) = settle cfg boot i (campaign (cl_nodes c i)) c"
| "apply_event cfg boot c (PreVoteNow i) = settle cfg boot i (pre_vote (cl_nodes c i)) c"
| "apply_event cfg boot c (Propose i cmd) = (case propose cmd (cl_nodes c i) of
       (Inr acc, n) \<Rightarrow> put_node i n (acc_actions acc) c
     | (Inl _, n) \<Rightarrow> put_node i n [] c)"
| "apply_event cfg boot c (ProposeBatch i cmds) = (case propose_batch cmds (cl_nodes c i) of
       (Inr (_, acts), n) \<Rightarrow> put_node i n acts c
     | (Inl _, n) \<Rightarrow> put_node i n [] c)"
| "apply_event cfg boot c (Read i) = (let ((_, acts), n) = read_index (cl_nodes c i) in put_node i n acts c)"
| "apply_event cfg boot c (ForgetRead i r) = put_node i (forget_read r (cl_nodes c i)) [] c"
| "apply_event cfg boot c (Apply i) = put_node i (snd (take_committed (cl_nodes c i))) [] c"
| "apply_event cfg boot c (BeginCompaction i idx) = (case node_begin_compaction idx (cl_nodes c i) of
       (Inr (Some sk), n) \<Rightarrow> put_node i n [] (c\<lparr>cl_sinks := (i, sk) # cl_sinks c\<rparr>)
     | (_, n) \<Rightarrow> put_node i n [] c)"
| "apply_event cfg boot c (FinishCompaction i sk data) =
     put_node i (snd (node_finish_compaction (sink_write data sk) (cl_nodes c i))) [] c"
| "apply_event cfg boot c (Restart i) = put_node i (with_members i boot cfg (into_storage (cl_nodes c i))) [] c"
| "apply_event cfg boot c (Faults i fs) =
     put_node i ((cl_nodes c i)\<lparr>storage := (storage (cl_nodes c i))\<lparr>ms_faults := fs\<rparr>\<rparr>) [] c"
| "apply_event cfg boot c (AutoPromote i on) = put_node i (set_auto_promote on (cl_nodes c i)) [] c"
| "apply_event cfg boot c (ExpireTimer i) = put_node i (expire_election_timer (cl_nodes c i)) [] c"

definition cluster_init :: "config \<Rightarrow> member list \<Rightarrow> cluster" where
  "cluster_init cfg boot = \<lparr>cl_nodes = (\<lambda>i. with_members i boot cfg mem_storage_new),
     cl_net = [], cl_sinks = [], cl_cast = [], cl_led = []\<rparr>"

inductive reach :: "config \<Rightarrow> member list \<Rightarrow> cluster \<Rightarrow> bool" for cfg boot where
  init: "reach cfg boot (cluster_init cfg boot)"
| step: "reach cfg boot c \<Longrightarrow> enabled c e \<Longrightarrow> reach cfg boot (apply_event cfg boot c e)"

text \<open>Runs, for concrete executions.\<close>

fun run_events :: "config \<Rightarrow> member list \<Rightarrow> cluster \<Rightarrow> event list \<Rightarrow> cluster option" where
  "run_events cfg boot c [] = Some c"
| "run_events cfg boot c (e # es) = (if enabled c e then run_events cfg boot (apply_event cfg boot c e) es else None)"

lemma reach_run: "reach cfg boot c \<Longrightarrow> run_events cfg boot c es = Some c' \<Longrightarrow> reach cfg boot c'"
  by (induction es arbitrary: c) (auto split: if_splits intro: reach.step)

section \<open>Two majorities share a voter\<close>

locale quorums =
  fixes Q :: "'a set \<Rightarrow> bool"
  assumes meet: "Q A \<Longrightarrow> Q B \<Longrightarrow> A \<inter> B \<noteq> {}"
begin

text \<open>A relation that gives each voter one choice gives every quorum the same choice.\<close>

lemma one_choice:
  assumes "\<And>v x y. (v, x) \<in> chose \<Longrightarrow> (v, y) \<in> chose \<Longrightarrow> x = y"
    and "Q A" "\<forall>v \<in> A. (v, x) \<in> chose" and "Q B" "\<forall>v \<in> B. (v, y) \<in> chose"
  shows "x = y"
  using meet [OF assms(2,4)] assms(1,3,5) by blast

end

lemma majorities_meet:
  assumes "majority_of vs A" and "majority_of vs B"
  shows "A \<inter> B \<noteq> {}"
proof
  assume disjoint: "A \<inter> B = {}"
  have "length (filter (\<lambda>v. v \<in> A) vs) + length (filter (\<lambda>v. v \<in> B) vs) \<le> length vs"
  proof (induction vs)
    case (Cons v vs)
    then show ?case using disjoint by auto
  qed simp
  then show False using assms by (auto simp: majority_of_def)
qed

interpretation mq: quorums "majority_of vs" for vs
  by unfold_locales (rule majorities_meet)

section \<open>The invariant\<close>

definition granted_to :: "cluster \<Rightarrow> nat \<Rightarrow> (nat \<times> nat) set" where
  "granted_to c i = {(v, t). (v, t, i) \<in> set (cl_cast c)}"

definition packet_ok :: "nat list \<Rightarrow> cluster \<Rightarrow> packet \<Rightarrow> bool" where
  "packet_ok vs c p = (case p of (from, to, m) \<Rightarrow> msg_wf m \<and> msg_static vs m \<and>
     (\<forall>t. m = RequestVoteReply t True \<longrightarrow> (from, t, to) \<in> set (cl_cast c)))"

definition node_ok :: "nat list \<Rightarrow> cluster \<Rightarrow> nat \<Rightarrow> node \<Rightarrow> bool" where
  "node_ok vs c i n \<longleftrightarrow> n_id n = i \<and> static vs (n, []) \<and> cand_ok (granted_to c i) vs n \<and>
     (\<forall>v. n_vote n = Some v \<longrightarrow> (i, n_term n, v) \<in> set (cl_cast c)) \<and>
     (\<forall>t v. (i, t, v) \<in> set (cl_cast c) \<longrightarrow> t \<le> n_term n \<and> (t = n_term n \<longrightarrow> n_vote n = Some v)) \<and>
     (role n = Leader \<longrightarrow> (n_term n, i) \<in> set (cl_led c))"

definition cluster_ok :: "nat list \<Rightarrow> cluster \<Rightarrow> bool" where
  "cluster_ok vs c \<longleftrightarrow> (\<forall>i. node_ok vs c i (cl_nodes c i)) \<and> (\<forall>p \<in> set (cl_net c). packet_ok vs c p) \<and>
     (\<forall>v t x y. (v, t, x) \<in> set (cl_cast c) \<longrightarrow> (v, t, y) \<in> set (cl_cast c) \<longrightarrow> x = y) \<and>
     (\<forall>(t, i) \<in> set (cl_led c). \<exists>A. majority_of vs A \<and> (\<forall>v \<in> A. (v, t, i) \<in> set (cl_cast c))) \<and>
     (\<forall>(i, sk) \<in> set (cl_sinks c). plain_opt vs (sk_members sk))"

lemma cluster_okD:
  assumes "cluster_ok vs c"
  shows "node_ok vs c i (cl_nodes c i)"
    and "p \<in> set (cl_net c) \<Longrightarrow> packet_ok vs c p"
    and "(v, t, x) \<in> set (cl_cast c) \<Longrightarrow> (v, t, y) \<in> set (cl_cast c) \<Longrightarrow> x = y"
    and "(t, i) \<in> set (cl_led c) \<Longrightarrow> \<exists>A. majority_of vs A \<and> (\<forall>v \<in> A. (v, t, i) \<in> set (cl_cast c))"
    and "(i, sk) \<in> set (cl_sinks c) \<Longrightarrow> plain_opt vs (sk_members sk)"
  using assms unfolding cluster_ok_def by (metis, metis, metis, fast, fast)

lemma cand_mono: "cand_ok G vs n \<Longrightarrow> G \<subseteq> G' \<Longrightarrow> cand_ok G' vs n"
  unfolding cand_ok_def by blast

text \<open>What a node's move must satisfy for the invariant to survive it.\<close>

definition good_move :: "nat list \<Rightarrow> cluster \<Rightarrow> nat \<Rightarrow> node \<Rightarrow> action list \<Rightarrow> bool" where
  "good_move vs c i n acts \<longleftrightarrow> static vs (n, acts) \<and> vote_le (cl_nodes c i, []) (n, []) \<and> cand_ok (granted_to c i) vs n \<and>
     (\<forall>a \<in> set acts. grants a \<longrightarrow> (\<exists>v. a = Send v (RequestVoteReply (n_term n) True) \<and> n_vote n = Some v))"

lemma put_node_simps [simp]:
  "cl_nodes (put_node i n acts c) = (cl_nodes c)(i := n)"
  "cl_net (put_node i n acts c) = map (\<lambda>a. (i, send_to a, send_msg a)) acts @ cl_net c"
  "cl_sinks (put_node i n acts c) = cl_sinks c"
  "set (cl_cast (put_node i n acts c)) = {(i, n_term n, v) | v. n_vote n = Some v} \<union> set (cl_cast c)"
  "set (cl_led (put_node i n acts c)) = (if role n = Leader then {(n_term n, i)} else {}) \<union> set (cl_led c)"
  by (auto simp: put_node_def observed_def split: option.splits)

lemma granted_mono: "granted_to c j \<subseteq> granted_to (put_node i n acts c) j"
  by (auto simp: granted_to_def)

lemma put_node_packet: "packet_ok vs c p \<Longrightarrow> packet_ok vs (put_node i n acts c) p"
  by (auto simp: packet_ok_def)

lemma put_node_other:
  assumes "node_ok vs c j m" and "j \<noteq> i"
  shows "node_ok vs (put_node i n acts c) j m"
  using assms cand_mono [OF _ granted_mono [of c j i n acts]] by (auto simp: node_ok_def)

lemma move_cast:
  assumes "node_ok vs c i (cl_nodes c i)" and "vote_le (cl_nodes c i, []) (n, [])" and "(i, t, v) \<in> set (cl_cast c)"
  shows "t \<le> n_term n \<and> (t = n_term n \<longrightarrow> n_vote n = Some v)"
  using assms by (fastforce simp: node_ok_def vote_le_def)

lemma put_node_self:
  assumes "node_ok vs c i (cl_nodes c i)" and g: "good_move vs c i n acts"
  shows "node_ok vs (put_node i n acts c) i n"
proof -
  have v: "vote_le (cl_nodes c i, []) (n, [])" and st: "static vs (n, [])" and cand: "cand_ok (granted_to c i) vs n"
    using g by (auto simp: good_move_def static_def node_wf_def)
  have "n_id n = i" using v assms(1) by (simp add: vote_le_def node_ok_def)
  then show ?thesis
    using st cand_mono [OF cand granted_mono] move_cast [OF assms(1) v]
    unfolding node_ok_def by auto
qed

lemma leader_majority:
  assumes "node_ok vs c i n" and "role n = Leader"
  shows "\<exists>A. majority_of vs A \<and> (\<forall>v \<in> A. (v, n_term n, i) \<in> set (cl_cast c))"
  using assms by (intro exI [of _ "votes n"]) (auto simp: node_ok_def cand_ok_def granted_to_def)

lemma move_packets:
  assumes "good_move vs c i n acts" and "a \<in> set acts"
  shows "packet_ok vs (put_node i n acts c) (i, send_to a, send_msg a)"
proof -
  have "msg_wf (send_msg a) \<and> msg_static vs (send_msg a)"
    using assms by (auto simp: good_move_def static_def node_wf_def list_all_iff)
  moreover have "(i, t, send_to a) \<in> set (cl_cast (put_node i n acts c))" if "send_msg a = RequestVoteReply t True" for t
  proof -
    have "grants a" using that by (cases a) auto
    then show ?thesis using assms that by (auto simp: good_move_def)
  qed
  ultimately show ?thesis by (simp add: packet_ok_def)
qed

lemma put_node_ok:
  assumes ok: "cluster_ok vs c" and g: "good_move vs c i n acts"
  shows "cluster_ok vs (put_node i n acts c)"
proof -
  let ?c = "put_node i n acts c"
  have ci: "node_ok vs c j (cl_nodes c j)" for j using ok by (simp add: cluster_ok_def)
  have self: "node_ok vs ?c i n" by (rule put_node_self [OF ci g])
  have "node_ok vs ?c j (cl_nodes ?c j)" for j
    using self put_node_other [OF ci] by (cases "j = i") auto
  moreover have "packet_ok vs ?c p" if "p \<in> set (cl_net ?c)" for p
    using that ok by (auto simp: cluster_ok_def intro: move_packets [OF g] put_node_packet)
  moreover have "x = y" if xy: "(v, t, x) \<in> set (cl_cast ?c)" "(v, t, y) \<in> set (cl_cast ?c)" for v t x y
  proof (cases "v = i \<and> t = n_term n")
    case True
    have "\<forall>t v. (i, t, v) \<in> set (cl_cast ?c) \<longrightarrow> t = n_term n \<longrightarrow> n_vote n = Some v"
      using self unfolding node_ok_def by blast
    then show ?thesis using True xy by (metis option.inject)
  next
    case False
    then have "(v, t, x) \<in> set (cl_cast c)" and "(v, t, y) \<in> set (cl_cast c)" using xy by auto
    then show ?thesis using ok by (simp add: cluster_ok_def)
  qed
  moreover have "\<exists>A. majority_of vs A \<and> (\<forall>v \<in> A. (v, t, j) \<in> set (cl_cast ?c))" if "(t, j) \<in> set (cl_led ?c)" for t j
  proof (cases "(t, j) \<in> set (cl_led c)")
    case True
    then have "\<exists>A. majority_of vs A \<and> (\<forall>v \<in> A. (v, t, j) \<in> set (cl_cast c))" using ok by (auto simp: cluster_ok_def)
    then show ?thesis by auto
  next
    case False
    then show ?thesis using that leader_majority [OF self] by (auto split: if_splits)
  qed
  moreover have "\<forall>(j, sk) \<in> set (cl_sinks ?c). plain_opt vs (sk_members sk)" using ok by (simp add: cluster_ok_def)
  ultimately show ?thesis unfolding cluster_ok_def by blast
qed

section \<open>Every event is a good move\<close>

definition disk_static :: "nat list \<Rightarrow> mem_storage \<Rightarrow> bool" where
  "disk_static vs st \<longleftrightarrow> storage_wf st \<and> no_config (el_entries (ms_log st)) \<and> plain_opt vs (ms_members st)"

lemma static_disk: "static vs (n, acts) \<Longrightarrow> disk_static vs (storage n)"
  by (simp add: static_def node_wf_def memb_ok_def disk_static_def)

lemma with_members_fields [simp]:
  "n_id (with_members i boot cfg st) = i" "storage (with_members i boot cfg st) = st"
  "role (with_members i boot cfg st) = Follower"
  by (simp_all add: with_members_def reload_membership_def Let_def case_prod_beta)

lemma with_members_static:
  assumes "plain vs boot" and "disk_static vs st"
  shows "static vs (with_members i boot cfg st, [])"
  using assms
  by (auto simp: static_def node_wf_def disk_static_def memb_ok_def with_members_def reload_membership_def newest_config_none
      Let_def plain_def case_prod_beta split: option.splits)

lemma vote_le_storage: "vote_le (n, as) (n', bs) \<Longrightarrow> storage m = storage n' \<Longrightarrow> n_id m = n_id n' \<Longrightarrow> vote_le (n, cs) (m, ds)"
  by (simp add: vote_le_def n_term_def n_vote_def)

lemma restart_move:
  assumes "plain vs boot" and "static vs (n, as)" and "vote_le (cl_nodes c i, []) (n, bs)" and "n_id (cl_nodes c i) = i"
  shows "good_move vs c i (with_members i boot cfg (storage n)) []"
  unfolding good_move_def
proof (intro conjI)
  show "vote_le (cl_nodes c i, []) (with_members i boot cfg (storage n), [])"
    using assms(3,4) by (simp add: vote_le_def n_term_def n_vote_def)
qed (use assms in \<open>auto intro: with_members_static static_disk cand_follower\<close>)

text \<open>An operation that fails sends nobody anything; the process ends.\<close>

lemma settle_ok:
  assumes ok: "cluster_ok vs c" and boot: "plain vs boot" and r: "discard (run_op m (cl_nodes c i)) = (r, n)"
    and st: "\<And>s. does (st_rel vs) m s" and vote: "\<And>s. does vote_le m s"
    and cand: "\<And>x s'. m (cl_nodes c i, []) = (Inr x, s') \<Longrightarrow> cand_ok (granted_to c i) vs (fst s') \<and> (\<exists>f. grants_ok f (cl_nodes c i, []) s')"
  shows "cluster_ok vs (settle cfg boot i (discard (run_op m (cl_nodes c i))) c)"
proof -
  obtain x n' acts where m: "m (cl_nodes c i, []) = (x, n', acts)" by (metis prod_cases3)
  have i: "n_id (cl_nodes c i) = i" and s0: "static vs (cl_nodes c i, [])" using ok by (auto simp: cluster_ok_def node_ok_def)
  have s1: "static vs (n', acts)" and v1: "vote_le (cl_nodes c i, []) (n', acts)"
    using st [of "(cl_nodes c i, [])"] vote [of "(cl_nodes c i, [])"] m s0 by (auto simp: does_def st_rel_def)
  show ?thesis
  proof (cases x)
    case (Inl e)
    then show ?thesis
      using m put_node_ok [OF ok restart_move [OF boot s1 v1 i]]
      by (simp add: settle_def discard_def run_op_def into_storage_def)
  next
    case (Inr y)
    have "good_move vs c i n' acts"
      using s1 v1 cand [of y "(n', acts)"] m Inr
      by (fastforce simp: good_move_def grants_ok_def vote_le_def)
    then show ?thesis
      using m Inr put_node_ok [OF ok] by (simp add: settle_def discard_def run_op_def)
  qed
qed

lemma quiet_good:
  assumes ok: "cluster_ok vs c" and "elec n = elec (cl_nodes c i)" and "static vs (n, acts)" and "list_all (\<lambda>a. \<not> grants a) acts"
  shows "good_move vs c i n acts"
  unfolding good_move_def
proof (intro conjI)
  show "vote_le (cl_nodes c i, []) (n, [])" using assms(2) by (simp add: vote_le_def elec_def n_term_def n_vote_def)
  show "cand_ok (granted_to c i) vs n" using cand_elec [OF assms(2)] ok by (simp add: cluster_ok_def node_ok_def)
qed (use assms in \<open>auto simp: list_all_iff\<close>)

lemma memb_static: "static vs (m, []) \<Longrightarrow> memb n = memb m \<Longrightarrow> static vs (n, [])"
  by (simp add: static_def node_wf_def memb_ok_def memb_def)

lemma quiet_put:
  assumes ok: "cluster_ok vs c" and "elec n = elec (cl_nodes c i)" and "memb n = memb (cl_nodes c i)"
  shows "cluster_ok vs (put_node i n [] c)"
  using assms memb_static [OF _ assms(3)] by (intro put_node_ok quiet_good) (auto simp: cluster_ok_def node_ok_def)

lemma quiet_run_ok:
  assumes ok: "cluster_ok vs c" and q: "\<And>s. does quiet m s" and st: "\<And>s. does (st_rel vs) m s"
    and r: "run_op m (cl_nodes c i) = (r, n)"
  shows "cluster_ok vs (put_node i n (case r of Inr (_, acts) \<Rightarrow> acts | Inl _ \<Rightarrow> []) c)"
proof -
  obtain acts where a: "quiet (cl_nodes c i, []) (n, acts)" "\<forall>x as. r = Inr (x, as) \<longrightarrow> as = acts"
    using qr.run [OF q r] by blast
  obtain acts' where b: "st_rel vs (cl_nodes c i, []) (n, acts')" "\<forall>x as. r = Inr (x, as) \<longrightarrow> as = acts'"
    using sr.run [OF st r] by blast
  have s: "static vs (n, acts')" using ok b(1) by (auto simp: st_rel_def cluster_ok_def node_ok_def)
  then have "static vs (n, [])" by (simp add: static_def node_wf_def)
  then show ?thesis
    using a b s by (intro put_node_ok [OF ok] quiet_good [OF ok]) (auto simp: quiet_def split: sum.splits)
qed

section \<open>Every reachable cluster\<close>

lemma silent_some: "silent s s' \<Longrightarrow> \<exists>f. grants_ok f s s'"
  using grants_silent by blast

lemma tick_ok: "cluster_ok vs c \<Longrightarrow> plain vs boot \<Longrightarrow> cluster_ok vs (settle cfg boot i (tick (cl_nodes c i)) c)"
proof -
  assume ok: "cluster_ok vs c" and boot: "plain vs boot"
  obtain r n where r: "discard (run_op tick_op (cl_nodes c i)) = (r, n)" by fastforce
  have v: "voters (cl_nodes c i) = vs" "cand_ok (granted_to c i) vs (cl_nodes c i)"
    using ok by (auto simp: cluster_ok_def node_ok_def static_def memb_ok_def)
  show ?thesis
    unfolding tick_def
  proof (rule settle_ok [OF ok boot r st_tick vote_tick])
    fix x s' assume t: "tick_op (cl_nodes c i, []) = (Inr x, s')"
    then show "cand_ok (granted_to c i) vs (fst s') \<and> (\<exists>f. grants_ok f (cl_nodes c i, []) s')"
      using cand_tick [OF t] v silent_tick [of "(cl_nodes c i, [])"] by (auto simp: does_def intro: silent_some)
  qed
qed

lemma campaign_ok:
  assumes ok: "cluster_ok vs c" and boot: "plain vs boot"
  shows "cluster_ok vs (settle cfg boot i (campaign (cl_nodes c i)) c)"
    and "cluster_ok vs (settle cfg boot i (pre_vote (cl_nodes c i)) c)"
proof -
  have v: "voters (cl_nodes c i) = vs" "cand_ok (granted_to c i) vs (cl_nodes c i)"
    using ok by (auto simp: cluster_ok_def node_ok_def static_def memb_ok_def)
  have g: "cand_ok (granted_to c i) vs (fst s') \<and> (\<exists>f. grants_ok f (cl_nodes c i, []) s')"
    if "m = campaign_op \<or> m = pre_vote_op" "m (cl_nodes c i, []) = (Inr x, s')" for x s' m
    using that cand_campaign [of "(cl_nodes c i, [])" x s' vs "granted_to c i"] v
      silent_campaign [of "(cl_nodes c i, [])"]
    by (auto simp: does_def intro: silent_some)
  obtain r n r' n' where r: "discard (run_op campaign_op (cl_nodes c i)) = (r, n)"
    and r': "discard (run_op pre_vote_op (cl_nodes c i)) = (r', n')" by (meson surj_pair)
  show "cluster_ok vs (settle cfg boot i (campaign (cl_nodes c i)) c)"
    unfolding campaign_def by (rule settle_ok [OF ok boot r st_campaign(1) vote_campaign(1)]) (rule g [of campaign_op], simp_all)
  show "cluster_ok vs (settle cfg boot i (pre_vote (cl_nodes c i)) c)"
    unfolding pre_vote_def by (rule settle_ok [OF ok boot r' st_campaign(2) vote_campaign(2)]) (rule g [of pre_vote_op], simp_all)
qed

lemma deliver_ok:
  assumes ok: "cluster_ok vs c" and boot: "plain vs boot" and p: "(from, i, m) \<in> set (cl_net c)"
  shows "cluster_ok vs (settle cfg boot i (step from m (cl_nodes c i)) c)"
proof -
  obtain r n where r: "discard (run_op (step_op from m) (cl_nodes c i)) = (r, n)" by fastforce
  have v: "voters (cl_nodes c i) = vs" "cand_ok (granted_to c i) vs (cl_nodes c i)"
    using ok by (auto simp: cluster_ok_def node_ok_def static_def memb_ok_def)
  have pk: "packet_ok vs c (from, i, m)" using ok p by (auto simp: cluster_ok_def)
  then have st: "does (st_rel vs) (step_op from m) s" for s by (intro st_step) (auto simp: packet_ok_def)
  show ?thesis
    unfolding step_def
  proof (rule settle_ok [OF ok boot r st vote_step])
    fix x s' assume t: "step_op from m (cl_nodes c i, []) = (Inr x, s')"
    have "cand_ok (granted_to c i) vs (fst s')"
      using v pk by (intro cand_step [OF t]) (auto simp: packet_ok_def granted_to_def)
    with grants_step [OF t] show "cand_ok (granted_to c i) vs (fst s') \<and> (\<exists>f. grants_ok f (cl_nodes c i, []) s')" by blast
  qed
qed

lemma propose_ok:
  assumes ok: "cluster_ok vs c"
  shows "cluster_ok vs (apply_event cfg boot c (Propose i cmd))"
    and "cluster_ok vs (apply_event cfg boot c (ProposeBatch i cmds))"
proof -
  obtain r n r' n' where r: "run_op (propose_op cmd) (cl_nodes c i) = (r, n)"
    and r': "run_op (propose_batch_op cmds) (cl_nodes c i) = (r', n')" by (meson surj_pair)
  show "cluster_ok vs (apply_event cfg boot c (Propose i cmd))"
    using quiet_run_ok [OF ok quiet_propose(1) st_propose(1) r] r
    by (auto simp: propose_def to_accepted_def split: sum.splits prod.splits)
  show "cluster_ok vs (apply_event cfg boot c (ProposeBatch i cmds))"
    using quiet_run_ok [OF ok quiet_propose(2) st_propose(2) r'] r'
    by (auto simp: propose_batch_def split: sum.splits prod.splits)
qed

lemma heartbeats_ok:
  assumes "a \<in> set (List.map_filter (heartbeat_for n) ps)"
  shows "\<not> grants a" and "msg_wf (send_msg a)" and "msg_static vs (send_msg a)"
  using assms by (auto simp: map_filter_def heartbeat_for_def Let_def split: if_splits)

lemma read_ok:
  assumes ok: "cluster_ok vs c"
  shows "cluster_ok vs (apply_event cfg boot c (Read i))"
proof -
  obtain k acts n where r: "read_index (cl_nodes c i) = ((k, acts), n)" by (metis surj_pair)
  have "elec n = elec (cl_nodes c i)" and m: "memb n = memb (cl_nodes c i)"
    and a: "\<And>a. a \<in> set acts \<Longrightarrow> \<not> grants a \<and> msg_wf (send_msg a) \<and> msg_static vs (send_msg a)"
    using r heartbeats_ok by (auto simp: read_index_def open_read_round_def Let_def split: if_splits option.splits)
  moreover have "static vs (n, acts)"
    using memb_static [OF _ m] ok a by (auto simp: cluster_ok_def node_ok_def static_def node_wf_def list_all_iff)
  ultimately show ?thesis
    using r by (auto simp: list_all_iff intro!: put_node_ok quiet_good ok)
qed

lemma committed_loop_same:
  "elec (snd (committed_loop n out)) = elec n \<and> memb (snd (committed_loop n out)) = memb n"
proof (induction n out rule: committed_loop.induct)
  case (1 n out)
  show ?case
  proof (cases "last_applied n < commit_index n")
    case True
    then show ?thesis using 1 [OF True refl] by (simp add: committed_loop.simps [of n out])
  next
    case False
    then show ?thesis by (simp add: committed_loop.simps [of n out])
  qed
qed

lemma begin_ok:
  assumes ok: "cluster_ok vs c"
  shows "cluster_ok vs (apply_event cfg boot c (BeginCompaction i idx))"
proof -
  obtain r n where b: "node_begin_compaction idx (cl_nodes c i) = (r, n)" by fastforce
  have st: "static vs (cl_nodes c i, [])" using ok by (simp add: cluster_ok_def node_ok_def)
  have e: "elec n = elec (cl_nodes c i)" "memb n = memb (cl_nodes c i)"
    and sk: "\<And>sk. r = Inr (Some sk) \<Longrightarrow> plain_opt vs (sk_members sk)"
    using b plain_members_at [of vs "cl_nodes c i" idx] st
    by (auto simp: node_begin_compaction_def elec_def memb_def static_def node_wf_def
        split: if_splits option.splits sum.splits prod.splits dest!: new_snapshot_log)
  have "cluster_ok vs (put_node i n [] c)" by (rule quiet_put [OF ok e])
  moreover have "cluster_ok vs (put_node i n [] (c\<lparr>cl_sinks := (i, sk) # cl_sinks c\<rparr>))" if "r = Inr (Some sk)" for sk
  proof -
    have "cluster_ok vs (c\<lparr>cl_sinks := (i, sk) # cl_sinks c\<rparr>)"
      using ok sk [OF that] by (auto simp: cluster_ok_def node_ok_def packet_ok_def granted_to_def)
    then show ?thesis by (rule quiet_put) (simp_all add: e)
  qed
  ultimately show ?thesis using b by (auto split: sum.splits option.splits)
qed

lemma finish_ok:
  assumes ok: "cluster_ok vs c" and "(i, sk) \<in> set (cl_sinks c)"
  shows "cluster_ok vs (put_node i (snd (node_finish_compaction (sink_write data sk) (cl_nodes c i))) [] c)"
proof (rule put_node_ok [OF ok quiet_good [OF ok]])
  let ?n = "cl_nodes c i"
  have sk: "plain_opt vs (sk_members (sink_write data sk))" using assms by (auto simp: cluster_ok_def)
  have st: "static vs (?n, [])" using ok by (simp add: cluster_ok_def node_ok_def)
  show "elec (snd (node_finish_compaction (sink_write data sk) ?n)) = elec ?n"
    by (auto simp: node_finish_compaction_def elec_def dest!: install_snapshot_log split: prod.splits sum.splits)
  have "does (st_rel vs) (nstore (install_snapshot (sink_write data sk))) (?n, [])" by (rule st_install [OF sk])
  then show "static vs (snd (node_finish_compaction (sink_write data sk) ?n), [])"
    using st by (auto simp: node_finish_compaction_def does_def st_rel_def nstore_def split: prod.splits sum.splits)
qed simp

lemma apply_event_ok:
  assumes ok: "cluster_ok vs c" and boot: "plain vs boot" and "enabled c e"
  shows "cluster_ok vs (apply_event cfg boot c e)"
proof (cases e)
  case (Restart i)
  have n: "static vs (cl_nodes c i, [])" "n_id (cl_nodes c i) = i" using ok by (auto simp: cluster_ok_def node_ok_def)
  show ?thesis
    using Restart put_node_ok [OF ok restart_move [OF boot n(1) vr.rel_refl n(2)]] by (simp add: into_storage_def)
next
  case (Faults i fs)
  have "cluster_ok vs (put_node i ((cl_nodes c i)\<lparr>storage := (storage (cl_nodes c i))\<lparr>ms_faults := fs\<rparr>\<rparr>) [] c)"
    by (rule quiet_put [OF ok]) (simp_all add: elec_def memb_def)
  then show ?thesis using Faults by simp
next
  case (ForgetRead i r)
  have "cluster_ok vs (put_node i (forget_read r (cl_nodes c i)) [] c)"
    by (rule quiet_put [OF ok]) (auto simp: forget_read_def split: read_kind.splits)
  then show ?thesis using ForgetRead by simp
next
  case (Apply i)
  then show ?thesis using quiet_put [OF ok] committed_loop_same by (simp add: take_committed_def)
next
  case (AutoPromote i b)
  have "cluster_ok vs (put_node i (set_auto_promote b (cl_nodes c i)) [] c)"
    by (rule quiet_put [OF ok]) (simp_all add: set_auto_promote_def)
  then show ?thesis using AutoPromote by simp
next
  case (ExpireTimer i)
  have "cluster_ok vs (put_node i (expire_election_timer (cl_nodes c i)) [] c)"
    by (rule quiet_put [OF ok]) (simp_all add: expire_election_timer_def)
  then show ?thesis using ExpireTimer by simp
next
  case (Propose i cmd)
  then show ?thesis using propose_ok(1) [OF ok] by blast
next
  case (ProposeBatch i cmds)
  then show ?thesis using propose_ok(2) [OF ok] by blast
next
  case (Read i)
  then show ?thesis using read_ok [OF ok] by blast
next
  case (BeginCompaction i idx)
  then show ?thesis using begin_ok [OF ok] by blast
qed (use assms tick_ok deliver_ok campaign_ok finish_ok in \<open>simp_all\<close>)

lemma init_ok: "plain vs boot \<Longrightarrow> cluster_ok vs (cluster_init cfg boot)"
proof -
  assume boot: "plain vs boot"
  have d: "disk_static vs mem_storage_new"
    by (simp add: disk_static_def mem_storage_new_def log_wf_def)
  show ?thesis
    using with_members_static [OF boot d]
    by (auto simp: cluster_ok_def cluster_init_def node_ok_def cand_follower n_vote_def mem_storage_new_def)
qed

lemma reach_ok: "reach cfg boot c \<Longrightarrow> plain vs boot \<Longrightarrow> cluster_ok vs c"
  by (induction rule: reach.induct) (auto intro: init_ok apply_event_ok)

section \<open>What every run guarantees\<close>

lemma plain_start: "list_all (\<lambda>m. \<not> is_learner m) boot \<Longrightarrow> plain (voter_ids boot) boot"
  by (simp add: plain_def)

text \<open>A run for the witnesses: node 1 stands, node 2 votes for it, and it leads and replicates a command.\<close>

definition demo_config :: config where
  "demo_config = \<lparr>heartbeat_ticks = 2, election_timeout_min = 3, election_timeout_max = 3, max_append_bytes = 100,
     max_entry_bytes = 100\<rparr>"

definition demo_boot :: "member list" where
  "demo_boot = [voter 1 [], voter 2 [], voter 3 []]"

definition demo_entries :: "entry list" where
  "demo_entries = [\<lparr>e_term = 1, e_index = 1, e_command = Noop\<rparr>, \<lparr>e_term = 1, e_index = 2, e_command = Data [7]\<rparr>]"

definition demo_events :: "event list" where
  "demo_events = [Campaign 1, Deliver 1 2 (RequestVote 1 0 0), Deliver 2 1 (RequestVoteReply 1 True), Propose 1 [7],
     Deliver 1 2 (AppendEntries 1 0 0 demo_entries 0 0), Deliver 2 1 (AppendEntriesReply 1 True 2 0 None 0)]"

definition demo_cluster :: cluster where
  "demo_cluster = the (run_events demo_config demo_boot (cluster_init demo_config demo_boot) demo_events)"

lemma demo_runs: "run_events demo_config demo_boot (cluster_init demo_config demo_boot) demo_events \<noteq> None"
  by code_simp

lemma demo_led: "cl_led demo_cluster = [(1, 1), (1, 1), (1, 1)]"
  by code_simp

lemma demo_reach: "reach demo_config demo_boot demo_cluster"
proof (rule reach_run [OF reach.init])
  show "run_events demo_config demo_boot (cluster_init demo_config demo_boot) demo_events = Some demo_cluster"
    using demo_runs by (auto simp: demo_cluster_def)
qed

text \<open>
  (C1) Election safety: in any run of a cluster whose membership is not changed, with messages lost,
  duplicated and reordered, nodes crashing and restarting and storage failing at any point, at most
  one node is ever leader in a term.
\<close>

theorem election_safety:
  assumes "reach cfg boot c" and "list_all (\<lambda>m. \<not> is_learner m) boot"
    and "(t, i) \<in> set (cl_led c)" and "(t, j) \<in> set (cl_led c)"
  shows "i = j"
proof -
  let ?vs = "voter_ids boot"
  have ok: "cluster_ok ?vs c" using reach_ok [OF assms(1) plain_start [OF assms(2)]] .
  obtain A B where A: "majority_of ?vs A" "\<forall>v \<in> A. (v, t, i) \<in> set (cl_cast c)"
    and B: "majority_of ?vs B" "\<forall>v \<in> B. (v, t, j) \<in> set (cl_cast c)"
    using cluster_okD(4) [OF ok assms(3)] cluster_okD(4) [OF ok assms(4)] by metis
  have one: "x = y" if "(v, t, x) \<in> set (cl_cast c)" "(v, t, y) \<in> set (cl_cast c)" for v x y
    using cluster_okD(3) [OF ok that] .
  show ?thesis
    by (rule mq.one_choice [where chose = "{(v, x). (v, t, x) \<in> set (cl_cast c)}" and A = A and B = B])
       (use A B one in auto)
qed

theorem election_safety_witness:
  "\<exists>c. reach demo_config demo_boot c \<and> (1, 1) \<in> set (cl_led c) \<and> {j. (1, j) \<in> set (cl_led c)} = {1}"
proof (intro exI conjI)
  have l: "(1, 1) \<in> set (cl_led demo_cluster)" by (simp add: demo_led)
  have "list_all (\<lambda>m. \<not> is_learner m) demo_boot" by (simp add: demo_boot_def voter_def)
  from election_safety [OF demo_reach this l] l
  show "{j. (1, j) \<in> set (cl_led demo_cluster)} = {1}" by blast
  show "(1, 1) \<in> set (cl_led demo_cluster)" by (rule l)
qed (rule demo_reach)

text \<open>
  (C26) A node votes for one candidate in a term and never forgets it: across crashes and storage
  failures, no two votes a node ever holds in one term differ, and the vote it holds is never older than
  one it held before.
\<close>

theorem one_vote_per_term:
  assumes "reach cfg boot c" and "list_all (\<lambda>m. \<not> is_learner m) boot" and "(v, t, x) \<in> set (cl_cast c)"
  shows "t \<le> n_term (cl_nodes c v) \<and> (t = n_term (cl_nodes c v) \<longrightarrow> n_vote (cl_nodes c v) = Some x) \<and>
    (\<forall>y. (v, t, y) \<in> set (cl_cast c) \<longrightarrow> x = y)"
proof -
  have "cluster_ok (voter_ids boot) c" using reach_ok [OF assms(1) plain_start [OF assms(2)]] .
  note D = cluster_okD [OF this]
  have "t \<le> n_term (cl_nodes c v) \<and> (t = n_term (cl_nodes c v) \<longrightarrow> n_vote (cl_nodes c v) = Some x)"
    using D(1) [of v] assms(3) unfolding node_ok_def by simp
  then show ?thesis using D(3) [OF assms(3)] by blast
qed

lemma demo_cast: "(2, 1, 1) \<in> set (cl_cast demo_cluster)"
  by code_simp

theorem one_vote_per_term_witness:
  "\<exists>c. reach demo_config demo_boot c \<and> (2, 1, 1) \<in> set (cl_cast c) \<and> 1 \<le> n_term (cl_nodes c 2) \<and>
    {y. (2, 1, y) \<in> set (cl_cast c)} = {1}"
proof (intro exI conjI)
  have "list_all (\<lambda>m. \<not> is_learner m) demo_boot" by (simp add: demo_boot_def voter_def)
  note w = one_vote_per_term [OF demo_reach this demo_cast]
  show "1 \<le> n_term (cl_nodes demo_cluster 2)" using w by blast
  show "{y. (2, 1, y) \<in> set (cl_cast demo_cluster)} = {1}" using w demo_cast by auto
qed (rule demo_reach demo_cast)+

text \<open>
  (C27) Logs have no gaps: in any such run every node's log holds consecutive indices from its snapshot on,
  and every run of entries in flight follows on from the index it says it follows.
\<close>

theorem logs_gapless:
  assumes "reach cfg boot c" and "list_all (\<lambda>m. \<not> is_learner m) boot"
  shows "log_wf (ms_log (storage (cl_nodes c i))) \<and>
    (\<forall>from to t pi pt es lc sq. (from, to, AppendEntries t pi pt es lc sq) \<in> set (cl_net c) \<longrightarrow> follows pi es)"
proof -
  note D = cluster_okD [OF reach_ok [OF assms(1) plain_start [OF assms(2)]]]
  have "log_wf (ms_log (storage (cl_nodes c i)))" using D(1) [of i] by (simp add: node_ok_def static_def node_wf_def)
  then show ?thesis using D(2) by (fastforce simp: packet_ok_def)
qed

lemma demo_packet: "(1, 2, AppendEntries 1 0 0 demo_entries 0 0) \<in> set (cl_net demo_cluster)"
  by code_simp

theorem logs_gapless_witness:
  "\<exists>c. reach demo_config demo_boot c \<and> log_wf (ms_log (storage (cl_nodes c 2))) \<and> follows 0 demo_entries"
proof (intro exI conjI)
  have b: "list_all (\<lambda>m. \<not> is_learner m) demo_boot" by (simp add: demo_boot_def voter_def)
  show "log_wf (ms_log (storage (cl_nodes demo_cluster 2)))" using logs_gapless [OF demo_reach b] by blast
  show "follows 0 demo_entries" using logs_gapless [OF demo_reach b] demo_packet by blast
qed (rule demo_reach)

section \<open>The commit index of a follower can go back\<close>

text \<open>
  A late duplicate of a follower's refusal makes the leader offer it the log from the start again; the
  message carries one entry, by the byte budget, and the leader's commit index, by now past the
  follower's.
\<close>

definition small_config :: config where
  "small_config = demo_config\<lparr>max_append_bytes := 30\<rparr>"

definition back_entry :: "nat \<Rightarrow> nat \<Rightarrow> entry" where
  "back_entry t i = \<lparr>e_term = t, e_index = i, e_command = Noop\<rparr>"

definition back_events :: "event list" where
  "back_events = [Campaign 1, Deliver 1 2 (RequestVote 1 0 0), Deliver 2 1 (RequestVoteReply 1 True),
     Campaign 1, Deliver 1 2 (RequestVote 2 1 1), Deliver 2 1 (RequestVoteReply 2 True),
     Deliver 1 2 (AppendEntries 2 1 1 [back_entry 2 2] 0 0), Deliver 2 1 (AppendEntriesReply 2 False 0 1 None 0),
     Deliver 1 2 (AppendEntries 2 0 0 [back_entry 1 1] 0 0), Deliver 2 1 (AppendEntriesReply 2 True 1 0 None 0),
     Deliver 1 2 (AppendEntries 2 1 1 [back_entry 2 2] 0 0), Deliver 2 1 (AppendEntriesReply 2 True 2 0 None 0),
     Propose 1 [7], Deliver 1 2 (AppendEntries 2 2 2 [\<lparr>e_term = 2, e_index = 3, e_command = Data [7]\<rparr>] 2 0),
     Deliver 2 1 (AppendEntriesReply 2 True 3 0 None 0), Deliver 2 1 (AppendEntriesReply 2 False 0 1 None 0)]"

definition back_cluster :: cluster where
  "back_cluster = the (run_events small_config demo_boot (cluster_init small_config demo_boot) back_events)"

definition back_event :: event where
  "back_event = Deliver 1 2 (AppendEntries 2 0 0 [back_entry 1 1] 3 0)"

lemma back_runs: "run_events small_config demo_boot (cluster_init small_config demo_boot) back_events \<noteq> None"
  by code_simp

lemma back_enabled: "enabled back_cluster back_event"
  by code_simp

lemma back_commits: "commit_index (cl_nodes back_cluster 2) = 2"
  "commit_index (cl_nodes (apply_event small_config demo_boot back_cluster back_event) 2) = 1"
  by code_simp+


end
