(* ===== verification/RaftWire.thy ===== *)
theory RaftWire
  imports RaftMessage
begin

text \<open>
  Messages on a socket (\<^verbatim>\<open>src/src/raft/wire.rs\<close>): the body of each message, the frame around it, and
  reading a frame from a stream. A stream is the bytes that have yet to be read; a read that wants more
  than is left meets its end.
\<close>

section \<open>Bodies\<close>

definition put_entry :: "entry \<Rightarrow> bytes" where
  "put_entry e = put_u64 [e_term e, e_index e] @ (case e_command e of
       Noop \<Rightarrow> [0] @ put_u64 [0]
     | Data bs \<Rightarrow> [1] @ put_u64 [length bs] @ bs
     | Config ms \<Rightarrow> (let encoded = encode_members ms in [2] @ put_u64 [length encoded] @ encoded))"

definition put_members :: "member list option \<Rightarrow> bytes" where
  "put_members mo = (case mo of
       Some ms \<Rightarrow> (let encoded = encode_members ms in [1] @ put_u64 [length encoded] @ encoded)
     | None \<Rightarrow> [0])"

fun encode_msg :: "message \<Rightarrow> bytes" where
  "encode_msg (PreVote t li lt) = [5] @ put_u64 [t, li, lt]"
| "encode_msg (PreVoteReply t granted) = [6] @ put_u64 [t] @ put_bool granted"
| "encode_msg (RequestVote t li lt) = [1] @ put_u64 [t, li, lt]"
| "encode_msg (RequestVoteReply t granted) = [2] @ put_u64 [t] @ put_bool granted"
| "encode_msg (AppendEntries t pi pt es lc sq) =
     [3] @ put_u64 [t, pi, pt, lc, sq, length es] @ concat (map put_entry es)"
| "encode_msg (InstallSnapshot t li lt off data fin sq mems) =
     [7] @ put_u64 [t, li, lt, off, sq, length data] @ data @ put_bool fin @ put_members mems"
| "encode_msg (InstallSnapshotReply t li nxt fin sq) = [8] @ put_u64 [t, li, nxt, sq] @ put_bool fin"
| "encode_msg (AppendEntriesReply t success mi ci ct sq) =
     [4] @ put_u64 [t, mi, ci, sq] @ put_bool success @
     (case ct of Some c \<Rightarrow> [1] @ put_u64 [c] | None \<Rightarrow> [0] @ put_u64 [0])"
| "encode_msg (ReadIndex t i) = [9] @ put_u64 [t, i]"
| "encode_msg (ReadIndexReply t i idx) =
     [10] @ put_u64 [t, i] @ put_bool (idx \<noteq> None) @ put_u64 [case idx of Some n \<Rightarrow> n | None \<Rightarrow> 0]"

text \<open>\<^verbatim>\<open>decode_members(r.bytes(len)?)?\<close>\<close>

definition rd_members :: "nat \<Rightarrow> member list reader" where
  "rd_members len = rd_bind (rd_bytes len) (\<lambda>bs.
     case decode_members bs of Some ms \<Rightarrow> rd_ret ms | None \<Rightarrow> rd_fail)"

definition rd_entry :: "entry reader" where
  "rd_entry = rd_bind rd_u64 (\<lambda>t. rd_bind rd_u64 (\<lambda>i. rd_bind rd_u8 (\<lambda>kind. rd_bind rd_u64 (\<lambda>len.
     rd_bind (if kind = 0 then rd_ret Noop
              else if kind = 1 then rd_bind (rd_bytes len) (\<lambda>bs. rd_ret (Data bs))
              else if kind = 2 then rd_bind (rd_members len) (\<lambda>ms. rd_ret (Config ms))
              else rd_fail)
       (\<lambda>c. rd_ret \<lparr>e_term = t, e_index = i, e_command = c\<rparr>)))))"

definition rd_opt_members :: "member list option reader" where
  "rd_opt_members = rd_bind rd_bool (\<lambda>b.
     if \<not> b then rd_ret None else rd_bind rd_u64 (\<lambda>len. rd_bind (rd_members len) (\<lambda>ms. rd_ret (Some ms))))"

definition rd_message :: "nat \<Rightarrow> byte \<Rightarrow> message reader" where
  "rd_message body_len tag =
    (if tag = 5 then rd_bind rd_u64 (\<lambda>t. rd_bind rd_u64 (\<lambda>li. rd_bind rd_u64 (\<lambda>lt. rd_ret (PreVote t li lt))))
     else if tag = 6 then rd_bind rd_u64 (\<lambda>t. rd_bind rd_bool (\<lambda>g. rd_ret (PreVoteReply t g)))
     else if tag = 1 then rd_bind rd_u64 (\<lambda>t. rd_bind rd_u64 (\<lambda>li. rd_bind rd_u64 (\<lambda>lt. rd_ret (RequestVote t li lt))))
     else if tag = 2 then rd_bind rd_u64 (\<lambda>t. rd_bind rd_bool (\<lambda>g. rd_ret (RequestVoteReply t g)))
     else if tag = 3 then
       rd_bind rd_u64 (\<lambda>t. rd_bind rd_u64 (\<lambda>pi. rd_bind rd_u64 (\<lambda>pt. rd_bind rd_u64 (\<lambda>lc. rd_bind rd_u64 (\<lambda>sq.
       rd_bind rd_u64 (\<lambda>count. if count > body_len then rd_fail
         else rd_bind (rd_rep rd_entry count) (\<lambda>es. rd_ret (AppendEntries t pi pt es lc sq))))))))
     else if tag = 7 then
       rd_bind rd_u64 (\<lambda>t. rd_bind rd_u64 (\<lambda>li. rd_bind rd_u64 (\<lambda>lt. rd_bind rd_u64 (\<lambda>off. rd_bind rd_u64 (\<lambda>sq.
       rd_bind rd_u64 (\<lambda>len. rd_bind (rd_bytes len) (\<lambda>data. rd_bind rd_bool (\<lambda>fin. rd_bind rd_opt_members (\<lambda>mems.
         rd_ret (InstallSnapshot t li lt off data fin sq mems))))))))))
     else if tag = 8 then
       rd_bind rd_u64 (\<lambda>t. rd_bind rd_u64 (\<lambda>li. rd_bind rd_u64 (\<lambda>nxt. rd_bind rd_u64 (\<lambda>sq. rd_bind rd_bool (\<lambda>fin.
         rd_ret (InstallSnapshotReply t li nxt fin sq))))))
     else if tag = 4 then
       rd_bind rd_u64 (\<lambda>t. rd_bind rd_u64 (\<lambda>mi. rd_bind rd_u64 (\<lambda>ci. rd_bind rd_u64 (\<lambda>sq.
       rd_bind rd_bool (\<lambda>success. rd_bind rd_bool (\<lambda>has_term. rd_bind rd_u64 (\<lambda>c.
         rd_ret (AppendEntriesReply t success mi ci (if has_term then Some c else None) sq))))))))
     else if tag = 9 then rd_bind rd_u64 (\<lambda>t. rd_bind rd_u64 (\<lambda>i. rd_ret (ReadIndex t i)))
     else if tag = 10 then
       rd_bind rd_u64 (\<lambda>t. rd_bind rd_u64 (\<lambda>i. rd_bind rd_bool (\<lambda>has_index. rd_bind rd_u64 (\<lambda>idx.
         rd_ret (ReadIndexReply t i (if has_index then Some idx else None))))))
     else rd_fail)"

definition decode_msg :: "bytes \<Rightarrow> message option" where
  "decode_msg body = rd_all (rd_bind rd_u8 (rd_message (length body))) body"

section \<open>Frames\<close>

definition MAGIC :: nat where
  "MAGIC = 0x4d435246"

definition PREFIX_LEN :: nat where
  "PREFIX_LEN = 20"

definition MAX_FRAME :: nat where
  "MAX_FRAME = 64 * 1024 * 1024"

definition invalid :: "string \<Rightarrow> error" where
  "invalid detail = Io InvalidData detail"

text \<open>What \<^verbatim>\<open>write_message\<close> hands to \<^verbatim>\<open>write_all\<close>.\<close>

definition write_message :: "nat \<Rightarrow> message \<Rightarrow> bytes" where
  "write_message from msg =
     (let body = encode_msg msg in
      le_bytes 4 MAGIC @ le_bytes 4 (as_u32 (length body + 12)) @ le_bytes 4 (unat (crc32_parts [body]))
        @ le_bytes 8 from @ body)"

definition read_message :: "bytes \<Rightarrow> (nat \<times> message) option res \<times> bytes" where
  "read_message r =
     (if length r < PREFIX_LEN then (Inr None, [])
      else let prefix = take PREFIX_LEN r; r = drop PREFIX_LEN r;
               magic = from_le (slice 0 4 prefix); len = from_le (slice 4 8 prefix);
               crc = from_le (slice 8 12 prefix); from = from_le (slice 12 20 prefix) in
        if magic \<noteq> MAGIC then (Inl (invalid ''not a minicask raft stream''), r)
        else if \<not> (12 \<le> len \<and> len \<le> MAX_FRAME) then (Inl (invalid ''implausible frame length''), r)
        else if length r < len - 12 then (Inl (Io UnexpectedEof ''failed to fill whole buffer''), [])
        else let body = take (len - 12) r; r = drop (len - 12) r in
          if unat (crc32_parts [body]) \<noteq> crc then (Inl (invalid ''checksum mismatch on a raft message''), r)
          else (case decode_msg body of
              None \<Rightarrow> (Inl (invalid ''malformed raft message''), r)
            | Some m \<Rightarrow> (Inr (Some (from, m)), r)))"

text \<open>
  The loop of \<^verbatim>\<open>read_from_peer\<close> (\<^verbatim>\<open>src/src/cluster.rs\<close>): the messages handed to \<^verbatim>\<open>step\<close>, in order, and
  how the loop ended. Every frame takes its prefix off the stream, so the loop ends with the stream.
\<close>

lemma read_message_consumes: "read_message r = (Inr (Some x), r') \<Longrightarrow> length r' < length r"
  by (auto simp: read_message_def PREFIX_LEN_def Let_def split: if_splits option.splits)

function read_from_peer :: "bytes \<Rightarrow> (nat \<times> message) list \<times> unit res" where
  "read_from_peer r = (case read_message r of
       (Inl e, _) \<Rightarrow> ([], Inl e)
     | (Inr None, _) \<Rightarrow> ([], Inr ())
     | (Inr (Some m), r') \<Rightarrow> (let (ms, x) = read_from_peer r' in (m # ms, x)))"
  by pat_completeness auto
termination
  by (relation "measure length") (auto dest: sym [THEN read_message_consumes])

declare read_from_peer.simps [simp del]

section \<open>Round trip\<close>

definition command_ok :: "command \<Rightarrow> bool" where
  "command_ok c \<longleftrightarrow> length (command_payload c) < 2 ^ 64 \<and>
     (case c of Config ms \<Rightarrow> members_ok ms | _ \<Rightarrow> True)"

definition entry_ok :: "entry \<Rightarrow> bool" where
  "entry_ok e \<longleftrightarrow> e_term e < 2 ^ 64 \<and> e_index e < 2 ^ 64 \<and> command_ok (e_command e)"

abbreviation u64s :: "nat list \<Rightarrow> bool" where
  "u64s ns \<equiv> list_all (\<lambda>n. n < 2 ^ 64) ns"

fun message_ok :: "message \<Rightarrow> bool" where
  "message_ok (PreVote t li lt) \<longleftrightarrow> u64s [t, li, lt]"
| "message_ok (PreVoteReply t _) \<longleftrightarrow> u64s [t]"
| "message_ok (RequestVote t li lt) \<longleftrightarrow> u64s [t, li, lt]"
| "message_ok (RequestVoteReply t _) \<longleftrightarrow> u64s [t]"
| "message_ok (AppendEntries t pi pt es lc sq) \<longleftrightarrow> u64s [t, pi, pt, lc, sq, length es] \<and> list_all entry_ok es"
| "message_ok (InstallSnapshot t li lt off data _ sq mems) \<longleftrightarrow> u64s [t, li, lt, off, sq, length data] \<and>
     (case mems of None \<Rightarrow> True | Some ms \<Rightarrow> members_ok ms \<and> length (encode_members ms) < 2 ^ 64)"
| "message_ok (InstallSnapshotReply t li nxt _ sq) \<longleftrightarrow> u64s [t, li, nxt, sq]"
| "message_ok (AppendEntriesReply t _ mi ci ct sq) \<longleftrightarrow> u64s [t, mi, ci, sq] \<and> (case ct of None \<Rightarrow> True | Some c \<Rightarrow> c < 2 ^ 64)"
| "message_ok (ReadIndex t i) \<longleftrightarrow> u64s [t, i]"
| "message_ok (ReadIndexReply t i idx) \<longleftrightarrow> u64s [t, i] \<and> (case idx of None \<Rightarrow> True | Some c \<Rightarrow> c < 2 ^ 64)"

lemma rd_members_enc:
  "members_ok ms \<Longrightarrow> n = length (encode_members ms) \<Longrightarrow> rd_members n (encode_members ms @ rest) = Some (ms, rest)"
  by (simp add: rd_members_def codec_simps decode_encode_members rd_ret_def)

lemma rd_ret_bind [simp]: "rd_bind (rd_ret x) f = f x"
  by (rule ext) (simp add: rd_bind_def rd_ret_def)

interpretation entc: prefix_codec put_entry rd_entry entry_ok
proof
  fix e :: entry and rest
  assume "entry_ok e"
  then show "rd_entry (put_entry e @ rest) = Some (e, rest)"
    by (cases "e_command e")
       (simp_all add: entry_ok_def command_ok_def command_payload_def put_entry_def rd_entry_def put_u64_Cons codec_simps
         Let_def rd_bind_def [of "rd_members _"] rd_bind_def [of "rd_bind (rd_bytes _) _"]
         rd_bind_def [of "rd_bind (rd_members _) _"] rd_members_enc rd_ret_def)
qed

interpretation optmemc: prefix_codec put_members rd_opt_members
  "\<lambda>mo. case mo of None \<Rightarrow> True | Some ms \<Rightarrow> members_ok ms \<and> length (encode_members ms) < 2 ^ 64"
proof
  fix mo :: "member list option" and rest
  assume "case mo of None \<Rightarrow> True | Some ms \<Rightarrow> members_ok ms \<and> length (encode_members ms) < 2 ^ 64"
  then show "rd_opt_members (put_members mo @ rest) = Some (mo, rest)"
    by (cases mo)
       (simp_all add: put_members_def rd_opt_members_def put_u64_Cons codec_simps Let_def
         rd_bind_def [of "rd_members _"] rd_members_enc rd_ret_def)
qed

text \<open>
  What an entry takes on the wire: \<^verbatim>\<open>encoded_len\<close>, which batches are budgeted by, is exact.
\<close>

theorem put_entry_length: "length (put_entry e) = encoded_len e"
  by (simp add: put_entry_def put_u64_Cons encoded_len_def command_payload_def ENTRY_OVERHEAD_def Let_def split: command.split)

lemma put_entries_length: "length (concat (map put_entry es)) = enc_total es"
  by (induction es)
     (simp_all add: put_entry_def put_u64_Cons encoded_len_def command_payload_def ENTRY_OVERHEAD_def Let_def split: command.split)

lemma entries_count: "length es \<le> enc_total es"
  by (induction es) (simp_all add: encoded_len_def ENTRY_OVERHEAD_def)

lemma decode_encode_msg:
  assumes "message_ok m"
  shows "decode_msg (encode_msg m) = Some m"
proof (cases m)
  case (AppendEntries t pi pt es lc sq)
  then have "list_all entry_ok es" using assms by simp
  then have "rd_rep rd_entry (length es) (concat (map put_entry es)) = Some (es, [])"
    using entc.rep_enc [of es "[]"] by simp
  moreover have "length es \<le> length (encode_msg m)"
    using AppendEntries entries_count [of es] by (simp add: put_u64_Cons put_entries_length)
  ultimately show ?thesis
    using assms AppendEntries
    by (simp add: decode_msg_def rd_all_def rd_message_def put_u64_Cons codec_simps rd_ret_def rd_bind_def [of "rd_rep _ _"])
next
  case (InstallSnapshot t li lt off data fin sq mems)
  then show ?thesis
    using assms optmemc.dec_enc [of mems "[]"]
    by (simp add: decode_msg_def rd_all_def rd_message_def put_u64_Cons codec_simps rd_ret_def rd_bind_def [of rd_opt_members])
next
  case (AppendEntriesReply t success mi ci ct sq)
  then show ?thesis
    using assms
    by (cases ct) (simp_all add: decode_msg_def rd_all_def rd_message_def put_u64_Cons codec_simps rd_ret_def)
next
  case (ReadIndexReply t i idx)
  then show ?thesis
    using assms by (simp add: decode_msg_def rd_all_def rd_message_def put_u64_Cons codec_simps rd_ret_def split: option.splits)
qed (use assms in \<open>simp_all add: decode_msg_def rd_all_def rd_message_def put_u64_Cons codec_simps rd_ret_def\<close>)

lemma unat_crc: "unat (crc32_parts bs) < 256 ^ 4"
  using unsigned_less [of "crc32_parts bs"] by simp

text \<open>What reading a frame comes to, whatever is in it, when its length field is true.\<close>

lemma read_frame:
  assumes "from < 2 ^ 64" and "length body + 12 \<le> MAX_FRAME" and "crc < 256 ^ 4"
  shows "read_message (le_bytes 4 MAGIC @ le_bytes 4 (length body + 12) @ le_bytes 4 crc @ le_bytes 8 from @ body @ rest) =
    (if unat (crc32_parts [body]) \<noteq> crc then Inl (invalid ''checksum mismatch on a raft message'')
     else case decode_msg body of None \<Rightarrow> Inl (invalid ''malformed raft message'') | Some m \<Rightarrow> Inr (Some (from, m)), rest)"
proof -
  define p where "p = le_bytes 4 MAGIC @ le_bytes 4 (length body + 12) @ le_bytes 4 crc @ le_bytes 8 from"
  have l: "length p = 20" and len: "length body + 12 < 256 ^ 4"
    using assms(2) by (simp_all add: p_def MAX_FRAME_def)
  have f: "from_le (slice 0 4 p) = MAGIC" "from_le (slice 4 8 p) = length body + 12"
    "from_le (slice 8 12 p) = crc" "from_le (slice 12 20 p) = from"
    using assms len by (simp_all add: p_def slice_def MAGIC_def)
  have t: "take 20 (p @ body @ rest) = p" "drop 20 (p @ body @ rest) = body @ rest" "\<not> length (p @ body @ rest) < 20"
    using l by simp_all
  have "read_message (p @ body @ rest) =
    (if unat (crc32_parts [body]) \<noteq> crc then Inl (invalid ''checksum mismatch on a raft message'')
     else case decode_msg body of None \<Rightarrow> Inl (invalid ''malformed raft message'') | Some m \<Rightarrow> Inr (Some (from, m)), rest)"
    unfolding read_message_def PREFIX_LEN_def t Let_def f using assms(2) t(3)
    by (simp split: option.split)
  then show ?thesis by (simp add: p_def)
qed

definition sendable :: "message \<Rightarrow> bool" where
  "sendable m \<longleftrightarrow> message_ok m \<and> length (encode_msg m) + 12 \<le> MAX_FRAME"

lemma write_message_frame:
  "length (encode_msg m) + 12 \<le> MAX_FRAME \<Longrightarrow> write_message from m @ rest =
     le_bytes 4 MAGIC @ le_bytes 4 (length (encode_msg m) + 12) @ le_bytes 4 (unat (crc32_parts [encode_msg m]))
       @ le_bytes 8 from @ encode_msg m @ rest"
  by (simp add: write_message_def Let_def MAX_FRAME_def)

lemma read_write_message:
  "sendable m \<Longrightarrow> from < 2 ^ 64 \<Longrightarrow> read_message (write_message from m @ rest) = (Inr (Some (from, m)), rest)"
  using read_frame [OF _ _ unat_crc, of "from" "encode_msg m" "[encode_msg m]" rest]
  by (simp add: sendable_def write_message_frame decode_encode_msg)

section \<open>A stream of frames\<close>

abbreviation frames :: "(nat \<times> message) list \<Rightarrow> bytes" where
  "frames ms \<equiv> concat (map (\<lambda>(from, m). write_message from m) ms)"

abbreviation all_sendable :: "(nat \<times> message) list \<Rightarrow> bool" where
  "all_sendable ms \<equiv> list_all (\<lambda>(from, m). from < 2 ^ 64 \<and> sendable m) ms"

lemma read_from_peer_frames:
  "all_sendable ms \<Longrightarrow> read_from_peer (frames ms @ rest) = (ms @ fst (read_from_peer rest), snd (read_from_peer rest))"
proof (induction ms)
  case Nil
  then show ?case by simp
next
  case (Cons x ms)
  obtain f m where x: "x = (f, m)" by (cases x)
  with Cons show ?case
    by (simp add: read_from_peer.simps [of "write_message f m @ _"] read_write_message case_prod_beta)
qed

lemma read_from_peer_short: "length rest < 20 \<Longrightarrow> read_from_peer rest = ([], Inr ())"
  by (simp add: read_from_peer.simps [of rest] read_message_def PREFIX_LEN_def)

text \<open>
  (C30) The peer link: whatever messages one node writes, the other's reader hands on exactly those, in order,
  each with its sender, and the stream then ends cleanly; also when the connection is cut less than a
  frame's prefix into the next message, which the reader does not tell from a clean end.
\<close>

theorem peer_link_delivers:
  assumes "all_sendable ms" and "length part < 20"
  shows "read_from_peer (frames ms @ part) = (ms, Inr ())"
  using assms by (simp add: read_from_peer_frames read_from_peer_short)

lemma peer_link_delivers_witness:
  "read_from_peer (frames [(1, RequestVote 3 9 2), (1, AppendEntries 3 9 2 [\<lparr>e_term = 3, e_index = 10, e_command = Data [1, 2]\<rparr>] 7 1)]
      @ [70, 82]) =
   ([(1, RequestVote 3 9 2), (1, AppendEntries 3 9 2 [\<lparr>e_term = 3, e_index = 10, e_command = Data [1, 2]\<rparr>] 7 1)], Inr ())"
  by (rule peer_link_delivers)
     (simp_all add: sendable_def MAX_FRAME_def put_u64_Cons put_entry_def entry_ok_def command_ok_def command_payload_def)

text \<open>
  (C31) Damage on the link: if up to four consecutive bytes of a message's body are changed on the way, the
  messages before it are delivered, it is refused, and nothing after it is delivered.
\<close>

theorem peer_link_damage:
  assumes "all_sendable ms" and "src < 2 ^ 64" and "sendable m"
    and "encode_msg m = xs @ es @ ys" and "length es' = length es" and "length es \<le> 4" and "es' \<noteq> es"
    and "write_message src m = prefix @ encode_msg m"
  shows "read_from_peer (frames ms @ prefix @ (xs @ es' @ ys) @ rest) =
    (ms, Inl (invalid ''checksum mismatch on a raft message''))"
proof -
  let ?body = "xs @ es' @ ys"
  have fits: "length (encode_msg m) + 12 \<le> MAX_FRAME" using assms(3) by (simp add: sendable_def)
  have len: "length ?body = length (encode_msg m)" using assms(4,5) by simp
  have fits': "length ?body + 12 \<le> MAX_FRAME" using fits unfolding len .
  have p: "prefix = le_bytes 4 MAGIC @ le_bytes 4 (length ?body + 12) @ le_bytes 4 (unat (crc32_parts [encode_msg m])) @ le_bytes 8 src"
    using assms(8) write_message_frame [OF fits, of src "[]"] unfolding len by simp
  have bad: "unat (crc32_parts [?body]) \<noteq> unat (crc32_parts [encode_msg m])"
    using crc_update_burst [of es' es] assms(4-7) by (simp add: word_unat_eq_iff [symmetric] crc32_parts_eq_iff del: crc_update_append)
  have "read_message (prefix @ ?body @ rest) = (Inl (invalid ''checksum mismatch on a raft message''), rest)"
    using read_frame [OF assms(2) fits' unat_crc, of "[encode_msg m]" rest] bad
    unfolding p by simp
  then show ?thesis
    by (simp add: read_from_peer_frames [OF assms(1)] read_from_peer.simps [of "prefix @ _"])
qed

definition demo_vote :: message where
  "demo_vote = RequestVoteReply 3 True"

lemma peer_link_damage_witness:
  "read_from_peer (frames [(2, ReadIndex 1 1)] @ take 20 (write_message 2 demo_vote)
      @ ([2, 3, 0, 0, 0, 0, 0, 0, 0] @ [0] @ []) @ []) =
   ([(2, ReadIndex 1 1)], Inl (invalid ''checksum mismatch on a raft message''))"
proof (rule peer_link_damage [where m = demo_vote and src = 2 and es = "[1]"])
  have e: "encode_msg demo_vote = [2, 3, 0, 0, 0, 0, 0, 0, 0, 1]"
    by code_simp
  then show "encode_msg demo_vote = [2, 3, 0, 0, 0, 0, 0, 0, 0] @ [1] @ []" by simp
  show "sendable demo_vote" using e by (simp add: sendable_def MAX_FRAME_def) (simp add: demo_vote_def)
  show "write_message 2 demo_vote = take 20 (write_message 2 demo_vote) @ encode_msg demo_vote"
    by (simp add: write_message_def Let_def)
qed (simp_all add: sendable_def MAX_FRAME_def put_u64_Cons)

text \<open>
  The checksum does not cover the sender: a frame whose sender field is damaged is accepted as the
  same message from another node, so that a vote can be counted for a node that did not cast it. The
  header of the source file says the checksum is over header and body.
\<close>

theorem sender_unchecked:
  assumes "sendable m" and "other < 2 ^ 64"
  shows "read_message (take 12 (write_message from m) @ le_bytes 8 other @ drop 20 (write_message from m)) =
    (Inr (Some (other, m)), [])"
proof -
  have "take 12 (write_message from m) @ le_bytes 8 other @ drop 20 (write_message from m) = write_message other m @ []"
    by (simp add: write_message_def Let_def)
  then show ?thesis using read_write_message [OF assms, of "[]"] by simp
qed

lemma sender_unchecked_witness:
  "sendable demo_vote \<and>
   read_message (take 12 (write_message 2 demo_vote) @ le_bytes 8 3 @ drop 20 (write_message 2 demo_vote)) =
    (Inr (Some (3, demo_vote)), [])"
proof -
  have s: "sendable demo_vote"
    by (simp add: sendable_def demo_vote_def MAX_FRAME_def put_u64_Cons put_bool_def)
  show ?thesis using s sender_unchecked [OF s, of 3 2] by simp
qed

end
