(* ===== verification/NodeProps.thy ===== *)
theory NodeProps
  imports NodeVote RaftWire "HOL-Library.Multiset"
begin

text \<open>
  What the operations of a single node do: which index a leader commits, what is handed to the state
  machine, how long election timeouts are, what a proposal is answered, and that what a leader sends fits
  a frame.
\<close>

section \<open>The commit index\<close>

lemma sorted_rev_nth_count:
  assumes "sorted (rev ys)" and "0 < q" and "q \<le> length ys"
  shows "q \<le> length (filter (\<lambda>x. i \<le> x) ys) \<longleftrightarrow> i \<le> (ys :: nat list) ! (q - 1)"
  using assms
proof (induction ys arbitrary: q)
  case Nil
  then show ?case by simp
next
  case (Cons y ys)
  have le: "\<forall>z \<in> set ys. z \<le> y" and srt: "sorted (rev ys)" using Cons.prems(1) by (auto simp: sorted_append)
  show ?case
  proof (cases "i \<le> y")
    case True
    obtain p where "q = Suc p" using Cons.prems(2) by (cases q) auto
    then show ?thesis
      using True Cons.IH [OF srt, of p] Cons.prems(3) by (cases p) auto
  next
    case False
    then have "filter (\<lambda>x. i \<le> x) (y # ys) = []" using le by (auto simp: filter_empty_conv)
    moreover have "(y # ys) ! (q - 1) \<le> y"
      using le Cons.prems(2,3) by (cases "q - 1") auto
    ultimately show ?thesis using False Cons.prems(2) by simp
  qed
qed

lemma filter_sort_length: "length (filter P (rev (sort (map f vs)))) = length (filter (\<lambda>v. P (f v)) vs)"
proof -
  have "mset (filter P (rev (sort (map f vs)))) = mset (filter P (map f vs))"
    by (simp only: mset_filter mset_rev mset_sort)
  from arg_cong [OF this, of size] show ?thesis
    by (simp only: size_mset filter_map comp_def length_map)
qed

text \<open>The median of the code is the largest index a majority holds.\<close>

lemma majority_index:
  assumes "voters n \<noteq> []"
  shows "majority_of (voters n) {v. i \<le> progress n v} \<longleftrightarrow>
    i \<le> rev (sort (map (progress n) (voters n))) ! (quorum n - 1)"
proof -
  let ?ys = "rev (sort (map (progress n) (voters n)))"
  have "0 < quorum n" and "quorum n \<le> length ?ys"
    using assms by (simp_all add: quorum_def) (cases "voters n"; simp)
  from sorted_rev_nth_count [OF _ this, of i]
  show ?thesis
    using assms filter_sort_length [of "\<lambda>x. i \<le> x" "progress n" "voters n"]
    by (simp add: majority_of_def quorum_def)
qed

text \<open>
  (C28) A leader commits by counting: the commit index never moves back, it moves only to an index whose
  entry is of the leader's own term and which a majority of the voters hold, and that index is the largest
  a majority holds.
\<close>

theorem maybe_commit_majority:
  fixes n :: node
  defines "i \<equiv> commit_index (maybe_commit n)"
  shows "commit_index n \<le> i \<and>
    (i = commit_index n \<or>
     term_at (storage n) i = Some (n_term n) \<and> majority_of (voters n) {v. i \<le> progress n v} \<and>
     (\<forall>j. majority_of (voters n) {v. j \<le> progress n v} = (j \<le> i)))"
proof (cases "voters n = []")
  case True
  then show ?thesis by (simp add: i_def maybe_commit_def)
next
  case False
  then show ?thesis
    unfolding i_def maybe_commit_def Let_def by (auto simp: majority_index [OF False])
qed

section \<open>What is handed to the state machine\<close>

lemma committed_loop_closed:
  "committed_loop n out = (out @ List.map_filter (entry_at (storage n)) [Suc (last_applied n) ..< Suc (commit_index n)],
     n\<lparr>last_applied := max (last_applied n) (commit_index n)\<rparr>)"
proof (induction n out rule: committed_loop.induct)
  case (1 n out)
  show ?case
  proof (cases "last_applied n < commit_index n")
    case True
    have "[Suc (last_applied n) ..< Suc (commit_index n)] = Suc (last_applied n) # [Suc (Suc (last_applied n)) ..< Suc (commit_index n)]"
      using True by (simp add: upt_conv_Cons)
    then show ?thesis
      using 1 [OF True refl] True
      by (simp add: committed_loop.simps [of n out] map_filter_simps max_def del: upt_Suc split: option.splits)
  next
    case False
    then show ?thesis by (simp add: committed_loop.simps [of n out] map_filter_simps max_absorb1)
  qed
qed

lemma take_committed_held:
  assumes "storage_wf (storage n)" and "sm_index (snapshot_meta_of (storage n)) \<le> last_applied n"
    and "commit_index n \<le> last_index (storage n)"
  shows "\<exists>es. take_committed n = (es, n\<lparr>last_applied := max (last_applied n) (commit_index n)\<rparr>) \<and>
    map Some es = map (entry_at (storage n)) [Suc (last_applied n) ..< Suc (commit_index n)] \<and>
    map e_index es = [Suc (last_applied n) ..< Suc (commit_index n)]"
proof -
  let ?is = "[Suc (last_applied n) ..< Suc (commit_index n)]"
  have held: "\<exists>e. entry_at (storage n) i = Some e \<and> e_index e = i" if "i \<in> set ?is" for i
  proof -
    have "sm_index (el_base (ms_log (storage n))) < i" "i \<le> sm_index (el_base (ms_log (storage n))) + length (el_entries (ms_log (storage n)))"
      using that assms by (auto simp: snapshot_meta_of_def last_index_def el_last_index_wf simp del: upt_Suc)
    then obtain e where e: "el_entry (ms_log (storage n)) i = Some e"
      using el_entry_wf [OF assms(1), of i] by auto
    then show ?thesis using el_entry_index [OF assms(1) e] by (simp add: entry_at_def)
  qed
  have filt: "map Some (List.map_filter (entry_at (storage n)) js) = map (entry_at (storage n)) js \<and>
      map e_index (List.map_filter (entry_at (storage n)) js) = js" if "set js \<subseteq> set ?is" for js
    using that
  proof (induction js)
    case (Cons j js)
    then obtain e where "entry_at (storage n) j = Some e" "e_index e = j" using held [of j] by auto
    then show ?case using Cons by (simp add: map_filter_simps del: upt_Suc)
  qed (simp add: map_filter_simps)
  show ?thesis
    using filt [of ?is] by (simp add: take_committed_def committed_loop_closed del: upt_Suc)
qed

text \<open>
  (C29) Entries are handed over once each, in order, with none left out: from a node whose log holds
  everything it has still to apply, \<^verbatim>\<open>take_committed\<close> returns exactly the entries after the last applied
  one up to the commit index, and asking again returns nothing.
\<close>

theorem take_committed_exact:
  assumes "storage_wf (storage n)" and "sm_index (snapshot_meta_of (storage n)) \<le> last_applied n"
    and "commit_index n \<le> last_index (storage n)"
  shows "map Some (fst (take_committed n)) = map (entry_at (storage n)) [Suc (last_applied n) ..< Suc (commit_index n)] \<and>
    map e_index (fst (take_committed n)) = [Suc (last_applied n) ..< Suc (commit_index n)] \<and>
    fst (take_committed (snd (take_committed n))) = []"
proof -
  obtain es where "take_committed n = (es, n\<lparr>last_applied := max (last_applied n) (commit_index n)\<rparr>)"
    "map Some es = map (entry_at (storage n)) [Suc (last_applied n) ..< Suc (commit_index n)]"
    "map e_index es = [Suc (last_applied n) ..< Suc (commit_index n)]"
    using take_committed_held [OF assms] by blast
  then show ?thesis
    by (simp add: take_committed_def committed_loop_closed map_filter_simps max_def del: upt_Suc)
qed

definition demo_applying :: node where
  "demo_applying = (node_new 1 [1, 2, 3] default_config three_entries)\<lparr>commit_index := 6\<rparr>"

lemma take_committed_exact_witness:
  "map e_index (fst (take_committed demo_applying)) = [5, 6] \<and> fst (take_committed (snd (take_committed demo_applying))) = []"
proof -
  have s: "storage demo_applying = three_entries" "commit_index demo_applying = 6" "last_applied demo_applying = 4"
    by (simp_all add: demo_applying_def node_new_def with_members_def reload_membership_def Let_def case_prod_beta
        snapshot_meta_of_def three_entries_def)
  have "storage_wf (storage demo_applying)" "sm_index (snapshot_meta_of (storage demo_applying)) \<le> last_applied demo_applying"
    "commit_index demo_applying \<le> last_index (storage demo_applying)"
    unfolding s by code_simp+
  from take_committed_exact [OF this] show ?thesis
    by (simp add: s upt_rec)
qed

section \<open>Election timeouts\<close>

lemma xor_push_bit_eq_0: "x XOR push_bit k x = 0 \<Longrightarrow> 0 < k \<Longrightarrow> x = (0 :: 64 word)"
proof -
  assume e: "x XOR push_bit k x = 0" and k: "0 < k"
  then have p: "push_bit k x = x" by (simp add: word_xor_eq_0)
  have "\<not> bit x i" for i
  proof (induction i rule: less_induct)
    case (less i)
    show ?case
    proof
      assume b: "bit x i"
      then have "bit (push_bit k x) i" by (simp add: p)
      then have "k \<le> i" "bit x (i - k)" by (auto simp: bit_push_bit_iff)
      then show False using less [of "i - k"] k by simp
    qed
  qed
  then show "x = 0" by (simp add: bit_eq_iff)
qed

lemma xor_drop_bit_eq_0: "x XOR drop_bit k x = 0 \<Longrightarrow> 0 < k \<Longrightarrow> x = (0 :: 64 word)"
proof -
  assume e: "x XOR drop_bit k x = 0" and k: "0 < k"
  then have p: "drop_bit k x = x" by (simp add: word_xor_eq_0)
  have step: "bit x (i + k) = bit x i" for i
  proof -
    have "bit (drop_bit k x) i = bit x (i + k)" by (simp add: bit_drop_bit_eq add.commute)
    then show ?thesis unfolding p by simp
  qed
  have "bit x (i + n * k) = bit x i" for i n
  proof (induction n)
    case (Suc n)
    then show ?case using step [of "i + n * k"] by (simp add: ac_simps)
  qed simp
  moreover have "\<not> bit x (i + 64 * k)" for i
  proof
    assume "bit x (i + 64 * k)"
    then have "i + 64 * k < LENGTH(64)" by (rule bit_imp_le_length)
    then show False using k by simp
  qed
  ultimately have "\<not> bit x i" for i by blast
  then show "x = 0" by (simp add: bit_eq_iff)
qed

lemma rng_next_nonzero: "r \<noteq> 0 \<Longrightarrow> snd (rng_next r) \<noteq> 0"
proof -
  assume "r \<noteq> 0"
  define x where "x = r XOR push_bit 13 r"
  define y where "y = x XOR drop_bit 7 x"
  have "x \<noteq> 0" using xor_push_bit_eq_0 [of r 13] \<open>r \<noteq> 0\<close> by (auto simp: x_def)
  then have "y \<noteq> 0" using xor_drop_bit_eq_0 [of x 7] by (auto simp: y_def)
  then have "y XOR push_bit 17 y \<noteq> 0" using xor_push_bit_eq_0 [of y 17] by auto
  then show ?thesis unfolding rng_next_def Let_def x_def [symmetric] y_def [symmetric] by simp
qed

lemma rng_new_nonzero: "rng_new seed \<noteq> 0"
proof -
  have "bit (rng_new seed) 0" by (simp add: rng_new_def bit_or_iff)
  then show ?thesis by (auto simp del: bit_0)
qed

text \<open>
  Election timeouts stay in their range: every timeout a node draws lies between the configured
  bounds, and the generator never reaches zero, the one state it could not leave.
\<close>

theorem election_timeout_bounds:
  assumes "election_timeout_min (n_config n) \<le> election_timeout_max (n_config n)" and "n_rng n \<noteq> 0"
  shows "election_timeout_min (n_config n) \<le> election_timeout (reset_election_timer n)
    \<and> election_timeout (reset_election_timer n) \<le> election_timeout_max (n_config n)
    \<and> n_rng (reset_election_timer n) \<noteq> 0 \<and> n_config (reset_election_timer n) = n_config n
    \<and> rng_new i \<noteq> 0"
proof -
  let ?c = "n_config n"
  let ?span = "election_timeout_max ?c - election_timeout_min ?c"
  obtain x r where x: "rng_next (n_rng n) = (x, r)" by fastforce
  have "election_timeout_min ?c + x mod Suc ?span \<le> election_timeout_max ?c"
    using mod_less_divisor [of "Suc ?span" x] assms(1) by linarith
  moreover have "r \<noteq> 0" using rng_next_nonzero [OF assms(2)] x by simp
  ultimately show ?thesis
    using assms x rng_new_nonzero by (auto simp: reset_election_timer_def random_timeout_def Let_def)
qed

lemma election_timeout_bounds_witness:
  "10 \<le> election_timeout (reset_election_timer (node_new 3 [1, 2, 3] default_config mem_storage_new))
   \<and> election_timeout (reset_election_timer (node_new 3 [1, 2, 3] default_config mem_storage_new)) \<le> 20"
proof -
  let ?n = "node_new 3 [1, 2, 3] default_config mem_storage_new"
  have c: "n_config ?n = default_config"
    by (simp add: node_new_def with_members_def reload_membership_def Let_def case_prod_beta)
  have "n_rng ?n \<noteq> 0"
    using rng_next_nonzero [OF rng_new_nonzero [of 3]]
    by (simp add: node_new_def with_members_def reload_membership_def Let_def case_prod_beta random_timeout_def default_config_def)
  from election_timeout_bounds [OF _ this, unfolded c] show ?thesis by (simp add: default_config_def)
qed

section \<open>Proposals\<close>

text \<open>Operations that leave the log as it is.\<close>

definition log_same :: "nstate \<Rightarrow> nstate \<Rightarrow> bool" where
  "log_same s s' \<longleftrightarrow> ms_log (storage (fst s')) = ms_log (storage (fst s))"

interpretation ls: op_rel log_same
  by unfold_locales (simp_all add: log_same_def)

lemma log_same_node: "ms_log (storage n) = ms_log (storage (fst s)) \<Longrightarrow> log_same s (n, as)"
  by (simp add: log_same_def)

lemma log_same_push_append: "does log_same (push_append_for p) s"
  unfolding push_append_for_def append_message_for_def Let_def
  by (intro relI ls.stored log_same_node) (auto dest!: read_snapshot_log)

lemma log_same_send_all: "does log_same (send_all ps) s"
  by (induction ps arbitrary: s) (auto intro!: relI log_same_push_append)

lemma log_same_broadcast: "does log_same broadcast_append s"
  unfolding broadcast_append_def by (intro relI log_same_send_all log_same_node) simp

text \<open>With a storage that works, nothing a leader does on a proposal fails.\<close>

definition sound :: "(error, 'a) nop \<Rightarrow> nstate \<Rightarrow> bool" where
  "sound m s \<longleftrightarrow> (ms_faults (storage (fst s)) = [] \<longrightarrow>
     (\<exists>x s'. m s = (Inr x, s') \<and> ms_faults (storage (fst s')) = []))"

lemma sound_bind: "sound m s \<Longrightarrow> (\<And>x s'. m s = (Inr x, s') \<Longrightarrow> sound (f x) s') \<Longrightarrow> sound (nbind m f) s"
  by (fastforce simp: sound_def nbind_def)

lemma sound_seq: "sound m s \<Longrightarrow> (\<And>x s'. m s = (Inr x, s') \<Longrightarrow> sound m' s') \<Longrightarrow> sound (nseq m m') s"
  unfolding nseq_def by (rule sound_bind)

lemma sound_basic:
  "sound (nret x) s" "sound (npush a) s" "ms_faults (storage (f (fst s))) = ms_faults (storage (fst s)) \<Longrightarrow> sound (nmod f) s"
  by (simp_all add: sound_def nret_def npush_def nmod_def)

lemma sound_with: "sound (f (fst s)) s \<Longrightarrow> sound (nwith f) s"
  by (simp add: sound_def nwith_def)

lemma sound_cond: "sound m s \<Longrightarrow> sound m' s \<Longrightarrow> sound (if b then m else m') s"
  by simp

lemma sound_store:
  assumes "\<And>st. ms_faults st = [] \<Longrightarrow> ms_faults (snd (f st)) = []"
  shows "sound (nstore (durably f)) s"
  using assms [of "storage (fst s)"] by (auto simp: sound_def nstore_def durably_def split: prod.splits)

lemma sound_append: "sound (nstore (append_entries es)) s"
  unfolding append_entries_def by (rule sound_store) simp

lemma sound_push_append: "sound (push_append_for p) s"
proof -
  have "sound (nstore (read_snapshot off len)) s" for off len s
    unfolding read_snapshot_def by (rule sound_store) (simp add: Let_def)
  then have "sound (append_message_for p) s"
    unfolding append_message_for_def Let_def by (intro sound_with sound_cond sound_bind sound_basic)
  then show ?thesis unfolding push_append_for_def by (intro sound_bind sound_basic)
qed

lemma sound_broadcast: "sound broadcast_append s"
proof -
  have "sound (send_all ps) s" for ps s
    by (induction ps arbitrary: s) (auto intro!: sound_seq sound_push_append sound_basic)
  then show ?thesis
    unfolding broadcast_append_def by (intro sound_seq sound_with sound_basic) simp_all
qed

lemma sound_append_local: "sound (append_local c) s"
  unfolding append_local_def Let_def by (intro sound_with sound_seq sound_append sound_basic) simp_all

lemma append_local_log:
  assumes "append_local c s = (Inr i, s')"
  shows "i = last_index (storage (fst s)) + 1"
    and "ms_log (storage (fst s')) = fold el_push [\<lparr>e_term = n_term (fst s), e_index = i, e_command = c\<rparr>] (ms_log (storage (fst s)))"
  using assms unfolding append_local_def nwith_def Let_def
  by (auto elim!: nseq_InrE simp: nmod_def nret_def dest!: nstoreD append_entries_log)

text \<open>
  A proposal: only a leader accepts one, and only if an entry can carry it, and a refusal changes
  nothing; on a storage that works it is accepted at the index after the log's end, where the log then
  holds it under the leader's term, and nothing below it changes.
\<close>

theorem propose_answers:
  shows "(role n \<noteq> Leader \<longrightarrow> propose cmd n = (Inl (NotLeader (leader_id n)), n)) \<and>
    (role n = Leader \<and> max_entry_bytes (n_config n) < length cmd + ENTRY_OVERHEAD \<longrightarrow>
      propose cmd n = (Inl (TooLarge (length cmd + ENTRY_OVERHEAD) (max_entry_bytes (n_config n))), n)) \<and>
    (role n = Leader \<and> length cmd + ENTRY_OVERHEAD \<le> max_entry_bytes (n_config n) \<and>
      storage_wf (storage n) \<and> ms_faults (storage n) = [] \<longrightarrow>
      (\<exists>acts n'. propose cmd n = (Inr \<lparr>acc_index = last_index (storage n) + 1, acc_actions = acts\<rparr>, n') \<and>
        entry_at (storage n') (last_index (storage n) + 1) =
          Some \<lparr>e_term = n_term n, e_index = last_index (storage n) + 1, e_command = Data cmd\<rparr> \<and>
        last_index (storage n') = last_index (storage n) + 1 \<and>
        (\<forall>j \<le> last_index (storage n). entry_at (storage n') j = entry_at (storage n) j) \<and>
        n_term n' = n_term n \<and> role n' = Leader))"
proof (intro conjI impI; (elim conjE)?)
  show "role n \<noteq> Leader \<Longrightarrow> propose cmd n = (Inl (NotLeader (leader_id n)), n)"
    by (simp add: propose_def propose_op_def run_op_def nwith_def nfail_def to_accepted_def)
  show "role n = Leader \<Longrightarrow> max_entry_bytes (n_config n) < length cmd + ENTRY_OVERHEAD \<Longrightarrow>
      propose cmd n = (Inl (TooLarge (length cmd + ENTRY_OVERHEAD) (max_entry_bytes (n_config n))), n)"
    by (simp add: propose_def propose_op_def run_op_def nwith_def nfail_def to_accepted_def)
  assume lead: "role n = Leader" and fits: "length cmd + ENTRY_OVERHEAD \<le> max_entry_bytes (n_config n)"
    and wf: "storage_wf (storage n)" and nf: "ms_faults (storage n) = []"
  let ?l = "last_index (storage n)"
  let ?e = "\<lparr>e_term = n_term n, e_index = ?l + 1, e_command = Data cmd\<rparr>"
  obtain i s1 where a: "append_local (Data cmd) (n, []) = (Inr i, s1)" and nf1: "ms_faults (storage (fst s1)) = []"
    using sound_append_local [of "Data cmd" "(n, [])"] nf by (auto simp: sound_def)
  obtain u s2 where b: "broadcast_append s1 = (Inr u, s2)"
    using sound_broadcast [of s1] nf1 by (auto simp: sound_def)
  have log: "ms_log (storage (fst s2)) = fold el_push [?e] (ms_log (storage n))"
    using append_local_log [OF a] log_same_broadcast [of s1] b by (simp add: does_def log_same_def)
  have e: "elec (fst s2) = elec n"
    using quiet_elec [OF quiet_append_local a] quiet_elec [OF quiet_broadcast b] by simp
  have fol: "follows (el_last_index (ms_log (storage n))) [?e]" by (simp add: last_index_def)
  have "propose cmd n = (Inr \<lparr>acc_index = ?l + 1, acc_actions = snd s2\<rparr>, fst s2)"
    using lead fits a b append_local_log(1) [OF a]
    by (cases s2) (simp add: propose_def propose_op_def run_op_def nwith_def nbind_def nseq_def nret_def nstorage_err_def to_accepted_def)
  moreover have "entry_at (storage (fst s2)) (?l + 1) = Some ?e" "last_index (storage (fst s2)) = ?l + 1"
    "\<forall>j \<le> ?l. entry_at (storage (fst s2)) j = entry_at (storage n) j"
    using el_entry_append [OF wf fol] el_last_index_append [OF wf fol] log
    by (simp_all add: entry_at_def last_index_def)
  moreover have "n_term (fst s2) = n_term n" "role (fst s2) = Leader" using e lead by (simp_all add: elec_def n_term_def)
  ultimately show "\<exists>acts n'. propose cmd n = (Inr \<lparr>acc_index = ?l + 1, acc_actions = acts\<rparr>, n') \<and>
        entry_at (storage n') (?l + 1) = Some ?e \<and> last_index (storage n') = ?l + 1 \<and>
        (\<forall>j \<le> ?l. entry_at (storage n') j = entry_at (storage n) j) \<and> n_term n' = n_term n \<and> role n' = Leader"
    by blast
qed

definition demo_leader :: node where
  "demo_leader = (node_new 1 [1, 2, 3] default_config three_entries)\<lparr>role := Leader, leader_id := Some 1\<rparr>"

lemma propose_answers_witness:
  "propose [9] (demo_leader\<lparr>role := Follower\<rparr>) = (Inl (NotLeader (Some 1)), demo_leader\<lparr>role := Follower\<rparr>) \<and>
   (\<exists>acts n'. propose [9] demo_leader = (Inr \<lparr>acc_index = 8, acc_actions = acts\<rparr>, n') \<and> last_index (storage n') = 8)"
proof -
  have s: "storage demo_leader = three_entries" "n_config demo_leader = default_config" "leader_id demo_leader = Some 1"
    "role demo_leader = Leader"
    by (simp_all add: demo_leader_def node_new_def with_members_def reload_membership_def Let_def case_prod_beta)
  have l: "last_index three_entries = 7" by code_simp
  have "storage_wf (storage demo_leader)" "ms_faults (storage demo_leader) = []" unfolding s by code_simp+
  with propose_answers [of demo_leader "[9]"] propose_answers [of "demo_leader\<lparr>role := Follower\<rparr>" "[9]"]
  show ?thesis
    unfolding s l by (auto simp: ENTRY_OVERHEAD_def default_config_def s)
qed

end
