(* ===== verification/FsFaults.thy ===== *)
theory FsFaults
  imports BufFile
begin

text \<open>
  The directory under failures, for the storage of the consensus node. \<open>fs_pwrite\<close> is a \<^verbatim>\<open>seek\<close>
  followed by a \<^verbatim>\<open>write_all\<close>: bytes are put over what is there. \<open>fs_crash\<close> is what a crash leaves of
  a directory: of every file at least the part that was synced and at most what had been written,
  the choice being an argument. The lemmas \<open>fs_\<dots>_cases\<close> say what each call does for any
  schedule of faults: it either fails and leaves every file as it was (a write may have put
  some of its bytes there), or does its work. Stopping an operation at the call that fails and then
  crashing is a crash at that point of the operation.
\<close>

section \<open>Writing at an offset\<close>

definition put_at :: "nat \<Rightarrow> bytes \<Rightarrow> dfile \<Rightarrow> dfile" where
  "put_at off bs f =
     \<lparr> fdata = take off (fdata f) @ replicate (off - length (fdata f)) 0 @ bs @ drop (off + length bs) (fdata f),
       fsynced = min off (fsynced f) \<rparr>"

definition fs_put_at :: "string \<Rightarrow> nat \<Rightarrow> bytes \<Rightarrow> fs \<Rightarrow> fs" where
  "fs_put_at n off bs d = (case fs_file d n of
      None \<Rightarrow> d
    | Some f \<Rightarrow> fs_put n (put_at off bs f) d)"

definition fs_pwrite :: "string \<Rightarrow> nat \<Rightarrow> bytes \<Rightarrow> fs \<Rightarrow> unit io" where
  "fs_pwrite n off bs d = (case faults d of
      [] \<Rightarrow> (Inr (), fs_put_at n off bs d)
    | None # fl \<Rightarrow> (Inr (), fs_put_at n off bs (d\<lparr> faults := fl \<rparr>))
    | Some k # fl \<Rightarrow> (Inl device_fault, fs_put_at n off (take (min k (length bs - 1)) bs) (d\<lparr> faults := fl \<rparr>)))"

section \<open>Crashes\<close>

definition crash_file :: "nat \<Rightarrow> dfile \<Rightarrow> dfile" where
  "crash_file k f = (let bs = take (max (fsynced f) k) (fdata f) in \<lparr> fdata = bs, fsynced = length bs \<rparr>)"

definition fs_crash :: "(string \<Rightarrow> nat) \<Rightarrow> fs \<Rightarrow> fs" where
  "fs_crash k d = \<lparr> files = map (\<lambda>(n, f). (n, crash_file (k n) f)) (files d), faults = [] \<rparr>"

lemma map_of_map_key: "map_of (map (\<lambda>(n, f). (n, g n f)) al) m = map_option (g m) (map_of al m)"
  by (induction al) auto

lemma fs_file_crash: "fs_file (fs_crash k d) n = map_option (crash_file (k n)) (fs_file d n)"
  by (simp add: fs_file_def fs_crash_def map_of_map_key)

lemma fs_ok_crash [simp]: "fs_wf d \<Longrightarrow> fs_ok (fs_crash k d)"
  by (simp add: fs_ok_def fs_wf_def fs_crash_def comp_def case_prod_unfold)

definition stable :: "dfile \<Rightarrow> bool" where
  "stable f \<longleftrightarrow> fsynced f = length (fdata f)"

lemma crash_stable [simp]: "stable f \<Longrightarrow> crash_file k f = f"
  by (simp add: stable_def crash_file_def Let_def)

lemma stable_crash [simp]: "stable (crash_file k f)"
  by (simp add: stable_def crash_file_def Let_def)

lemma crash_between:
  assumes "fsynced f = length xs" and "fdata f = xs @ ys"
  obtains j where "j \<le> length ys" "fdata (crash_file k f) = xs @ take j ys"
proof -
  have "fdata (crash_file k f) = xs @ take (min (length ys) (k - length xs)) ys"
    using assms by (auto simp: crash_file_def Let_def max_def min_def)
  then show ?thesis using that [of "min (length ys) (k - length xs)"] by simp
qed

section \<open>Every call under every schedule\<close>

lemma fs_file_faults [simp]: "fs_file (d\<lparr> faults := fl \<rparr>) = fs_file d"
  by (simp add: fs_file_def fun_eq_iff)

lemma fs_wf_faults [simp]: "fs_wf (d\<lparr> faults := fl \<rparr>) = fs_wf d"
  by (simp add: fs_wf_def)

text \<open>
  A call that starts in \<open>d\<close> and gives \<open>m\<close>: the directory stays well formed, \<open>Q\<close> holds of the result and the
  files when it succeeds, \<open>E\<close> of the files when it fails, and on a working device it succeeds.
\<close>

type_synonym fmap = "string \<Rightarrow> dfile option"

definition io_ok :: "fs \<Rightarrow> 'a io \<Rightarrow> ('a \<Rightarrow> fmap \<Rightarrow> bool) \<Rightarrow> (fmap \<Rightarrow> bool) \<Rightarrow> bool" where
  "io_ok d m Q E \<longleftrightarrow> fs_wf (snd m) \<and> (faults d = [] \<longrightarrow> faults (snd m) = [] \<and> (\<exists>x. fst m = Inr x)) \<and>
     (case fst m of Inl _ \<Rightarrow> E (fs_file (snd m)) | Inr x \<Rightarrow> Q x (fs_file (snd m)))"

lemma io_ok_bind:
  assumes "io_ok d m Q' E"
    and "\<And>x d'. fs_wf d' \<Longrightarrow> Q' x (fs_file d') \<Longrightarrow> io_ok d' (g x d') Q E"
  shows "io_ok d (io_bind m g) Q E"
proof (cases m)
  case (Pair r d1)
  show ?thesis
  proof (cases r)
    case (Inl e)
    then show ?thesis using assms(1) Pair by (simp add: io_ok_def)
  next
    case (Inr x)
    then have "io_ok d1 (g x d1) Q E" using assms Pair by (simp add: io_ok_def)
    then show ?thesis using assms(1) Pair Inr by (auto simp: io_ok_def)
  qed
qed

lemma io_ok_conseq:
  assumes "io_ok d m Q E" and "\<And>x F. Q x F \<Longrightarrow> Q' x F" and "\<And>F. E F \<Longrightarrow> E' F"
  shows "io_ok d m Q' E'"
  using assms by (auto simp: io_ok_def split: sum.splits)

lemma io_ok_then:
  assumes "io_ok d m Q' E'" and "\<And>F. E' F \<Longrightarrow> E F"
    and "\<And>x d'. fs_wf d' \<Longrightarrow> Q' x (fs_file d') \<Longrightarrow> io_ok d' (g x d') Q E"
  shows "io_ok d (io_bind m g) Q E"
  using io_ok_bind [OF io_ok_conseq [OF assms(1), of Q' E]] assms(2,3) by blast

lemma io_ok_return: "fs_wf d \<Longrightarrow> Q x (fs_file d) \<Longrightarrow> io_ok d (Inr x, d) Q E"
  by (simp add: io_ok_def)

lemma io_okD:
  assumes "io_ok d m Q E"
  shows "fs_wf (snd m)" "m = (Inr x, d') \<Longrightarrow> Q x (fs_file d')" "m = (Inl e, d') \<Longrightarrow> E (fs_file d')"
    "fs_ok d \<Longrightarrow> \<exists>x d'. m = (Inr x, d') \<and> fs_ok d'"
  using assms by (cases m; auto simp: io_ok_def fs_ok_def)+

lemma io_ok_op:
  assumes "fs_wf d"
    and "\<And>e. fs_wf e \<Longrightarrow> fs_file e = fs_file d \<Longrightarrow> \<exists>x e'. f e = (Inr x, e') \<and> faults e' = faults e \<and> fs_wf e' \<and> Q x (fs_file e')"
  shows "io_ok d (fs_op f d) Q (\<lambda>F. F = fs_file d)"
  using assms(1) assms(2) [of d] assms(2) [of "d\<lparr> faults := tl (faults d) \<rparr>"]
  by (auto simp: io_ok_def fs_op_def split: list.splits option.splits sum.splits)

lemma io_ok_with:
  assumes "fs_wf d" and "fs_file d n = Some x"
    and "\<And>e. fs_wf e \<Longrightarrow> fs_file e = fs_file d \<Longrightarrow> \<exists>y e'. f x e = (Inr y, e') \<and> faults e' = faults e \<and> fs_wf e' \<and> Q y (fs_file e')"
  shows "io_ok d (fs_with n f d) Q (\<lambda>F. F = fs_file d)"
  unfolding fs_with_def using assms by (intro io_ok_op) simp_all

lemma fs_file_put_fun: "fs_file (fs_put n f d) = (fs_file d)(n \<mapsto> f)"
  and fs_file_del_fun: "fs_file (fs_del n d) = (fs_file d)(n := None)"
  by (simp_all add: fun_eq_iff)

lemma io_ok_write:
  assumes "fs_wf d" and "fs_file d n = Some f"
  shows "io_ok d (fs_write_all n bs d) (\<lambda>_ F. F = (fs_file d)(n \<mapsto> f\<lparr> fdata := fdata f @ bs \<rparr>))
    (\<lambda>F. \<exists>k. F = (fs_file d)(n \<mapsto> f\<lparr> fdata := fdata f @ take k bs \<rparr>))"
  using assms
  by (auto simp: io_ok_def fs_write_all_def fs_append_def fs_file_put_fun split: list.splits option.splits)

lemma io_ok_pwrite:
  assumes "fs_wf d" and "fs_file d n = Some f"
  shows "io_ok d (fs_pwrite n off bs d) (\<lambda>_ F. F = (fs_file d)(n \<mapsto> put_at off bs f))
    (\<lambda>F. \<exists>k. F = (fs_file d)(n \<mapsto> put_at off (take k bs) f))"
  using assms
  by (auto simp: io_ok_def fs_pwrite_def fs_put_at_def fs_file_put_fun split: list.splits option.splits)

lemma io_ok_create:
  "fs_wf d \<Longrightarrow> io_ok d (fs_create n d) (\<lambda>_ F. F = (fs_file d)(n \<mapsto> \<lparr> fdata = [], fsynced = 0 \<rparr>)) (\<lambda>F. F = fs_file d)"
  unfolding fs_create_def by (rule io_ok_op) (simp_all add: fs_file_put_fun)

lemma io_ok_sync:
  "fs_wf d \<Longrightarrow> fs_file d n = Some f \<Longrightarrow>
   io_ok d (fs_sync n d) (\<lambda>_ F. F = (fs_file d)(n \<mapsto> f\<lparr> fsynced := length (fdata f) \<rparr>)) (\<lambda>F. F = fs_file d)"
  unfolding fs_sync_def by (rule io_ok_with, assumption+) (simp add: fs_file_put_fun)

lemma io_ok_set_len:
  "fs_wf d \<Longrightarrow> fs_file d n = Some f \<Longrightarrow> k \<le> length (fdata f) \<Longrightarrow>
   io_ok d (fs_set_len n k d) (\<lambda>_ F. F = (fs_file d)(n \<mapsto> \<lparr> fdata = take k (fdata f), fsynced = min k (fsynced f) \<rparr>))
     (\<lambda>F. F = fs_file d)"
  unfolding fs_set_len_def by (rule io_ok_with, assumption+) (simp add: fs_file_put_fun)

lemma io_ok_rename:
  "fs_wf d \<Longrightarrow> fs_file d a = Some f \<Longrightarrow>
   io_ok d (fs_rename a b d) (\<lambda>_ F. F = (fs_file d)(a := None, b \<mapsto> f)) (\<lambda>F. F = fs_file d)"
  unfolding fs_rename_def by (rule io_ok_with, assumption+) (simp add: fs_file_put_fun fs_file_del_fun)

lemma io_ok_remove:
  "fs_wf d \<Longrightarrow> fs_file d n = Some f \<Longrightarrow>
   io_ok d (fs_remove n d) (\<lambda>_ F. F = (fs_file d)(n := None)) (\<lambda>F. F = fs_file d)"
  unfolding fs_remove_def by (rule io_ok_with, assumption+) (simp add: fs_file_del_fun)

lemma io_ok_sync_dir:
  "fs_wf d \<Longrightarrow> io_ok d (fs_sync_dir d) (\<lambda>_ F. F = fs_file d) (\<lambda>F. F = fs_file d)"
  unfolding fs_sync_dir_def by (rule io_ok_op) simp_all

section \<open>Files replaced whole\<close>

text \<open>
  \<^verbatim>\<open>write_atomically\<close> under any schedule: of the named file the old contents or the new, never a part,
  and the new ones synced; no other file but the temporary one is touched.
\<close>

lemma write_atomically_any:
  assumes wf: "fs_wf d"
  shows "io_ok d (write_atomically n bs d)
    (\<lambda>_ F. F n = Some \<lparr> fdata = bs, fsynced = length bs \<rparr> \<and> (\<forall>m. m \<notin> {n, n @ ''.tmp''} \<longrightarrow> F m = fs_file d m))
    (\<lambda>F. (F n = fs_file d n \<or> F n = Some \<lparr> fdata = bs, fsynced = length bs \<rparr>)
       \<and> (\<forall>m. m \<notin> {n, n @ ''.tmp''} \<longrightarrow> F m = fs_file d m))"
proof -
  let ?t = "n @ ''.tmp''"
  let ?empty = "\<lparr> fdata = [], fsynced = 0 \<rparr> :: dfile"
  show ?thesis
    unfolding write_atomically_def Let_def
    apply (rule io_ok_then [OF io_ok_create [OF wf]], simp)
    apply (rule io_ok_then [OF io_ok_write [where f = ?empty]], assumption, simp, force)
    apply (rule io_ok_then [OF io_ok_sync [where f = "\<lparr> fdata = bs, fsynced = 0 \<rparr>"]], assumption, simp, force)
    apply (rule io_ok_then [OF io_ok_rename [where f = "\<lparr> fdata = bs, fsynced = length bs \<rparr>"]], assumption, simp, force)
    apply (rule io_ok_conseq [OF io_ok_sync_dir], assumption, force, force)
    done
qed

section \<open>Buffered files under every schedule\<close>

lemma buf_flush_any:
  assumes "fs_wf d" and "fs_file d (bw_name w) = Some f" and "buf_flush w d = (r, w', d')"
  shows "fs_wf d'" "bw_name w' = bw_name w" "bw_cap w' = bw_cap w"
    "\<exists>g y. fs_file d' = (fs_file d)(bw_name w \<mapsto> g) \<and> fdata g = fdata f @ y \<and> (r = Inr () \<longrightarrow> fdata g @ bw_buf w' = fdata f @ bw_buf w \<and> bw_buf w' = [])"
    "faults d = [] \<Longrightarrow> faults d' = [] \<and> r = Inr ()"
proof -
  have "fs_wf d' \<and> bw_name w' = bw_name w \<and> bw_cap w' = bw_cap w \<and>
    (\<exists>g y. fs_file d' = (fs_file d)(bw_name w \<mapsto> g) \<and> fdata g = fdata f @ y \<and> (r = Inr () \<longrightarrow> fdata g @ bw_buf w' = fdata f @ bw_buf w \<and> bw_buf w' = []))
    \<and> (faults d = [] \<longrightarrow> faults d' = [] \<and> r = Inr ())"
  proof (cases "bw_buf w = []")
    case True
    then show ?thesis using assms by (auto simp: buf_flush_def map_upd_triv intro!: exI [of _ f])
  next
    case False
    obtain q e where q: "fs_write_all (bw_name w) (bw_buf w) d = (q, e)" by (cases "fs_write_all (bw_name w) (bw_buf w) d")
    with io_ok_write [OF assms(1,2), of "bw_buf w"] False assms(3) show ?thesis
      by (auto simp: buf_flush_def io_ok_def split: sum.splits)
  qed
  then show "fs_wf d'" "bw_name w' = bw_name w" "bw_cap w' = bw_cap w"
    "\<exists>g y. fs_file d' = (fs_file d)(bw_name w \<mapsto> g) \<and> fdata g = fdata f @ y \<and> (r = Inr () \<longrightarrow> fdata g @ bw_buf w' = fdata f @ bw_buf w \<and> bw_buf w' = [])"
    "faults d = [] \<Longrightarrow> faults d' = [] \<and> r = Inr ()" by auto
qed

lemma buf_write_all_any:
  assumes "fs_wf d" and "fs_file d (bw_name w) = Some f" and "buf_write_all w bs d = (r, w', d')"
  shows "fs_wf d' \<and> bw_name w' = bw_name w \<and> bw_cap w' = bw_cap w \<and>
    (\<exists>g y. fs_file d' = (fs_file d)(bw_name w \<mapsto> g) \<and> fdata g = fdata f @ y \<and> (r = Inr () \<longrightarrow> fdata g @ bw_buf w' = fdata f @ bw_buf w @ bs))
    \<and> (faults d = [] \<longrightarrow> faults d' = [] \<and> r = Inr ())"
proof -
  obtain r1 w1 d1 where 1: "(if length bs > bw_cap w - length (bw_buf w) then buf_flush w d else (Inr (), w, d)) = (r1, w1, d1)"
    by (metis prod_cases3)
  obtain g y where g: "fs_wf d1" "bw_name w1 = bw_name w" "bw_cap w1 = bw_cap w" "fs_file d1 = (fs_file d)(bw_name w \<mapsto> g)" "fdata g = fdata f @ y"
    "r1 = Inr () \<longrightarrow> fdata g @ bw_buf w1 = fdata f @ bw_buf w \<and> (length bs > bw_cap w - length (bw_buf w) \<longrightarrow> bw_buf w1 = [])"
    "faults d = [] \<longrightarrow> faults d1 = [] \<and> r1 = Inr ()"
  proof (cases "length bs > bw_cap w - length (bw_buf w)")
    case True
    then have fl: "buf_flush w d = (r1, w1, d1)" using 1 by simp
    show ?thesis using buf_flush_any [OF assms(1,2) fl] that by blast
  next
    case False
    then show ?thesis using assms(1,2) 1 that [of f] by (auto simp: map_upd_triv)
  qed
  show ?thesis
  proof (cases "r1 = Inr () \<and> length bs \<ge> bw_cap w1")
    case True
    obtain q e where q: "fs_write_all (bw_name w1) bs d1 = (q, e)" by (cases "fs_write_all (bw_name w1) bs d1")
    have rq: "r = q" "w' = w1" "d' = e"
      using True assms(3) q by (auto simp: buf_write_all_def 1)
    have em: "bw_buf w1 = [] \<or> bs = []"
    proof (cases "length bs > bw_cap w - length (bw_buf w)")
      case False
      then have "bs = [] \<or> bw_buf w = []" using True g(3) by (cases bs; cases "bw_buf w") auto
      then show ?thesis using False 1 by auto
    qed (use g True in blast)
    have "fs_file d1 (bw_name w1) = Some g" using g(2,4) by simp
    then show ?thesis
      using io_ok_write [OF g(1), of "bw_name w1" g bs] q g True em by (auto simp: io_ok_def rq split: sum.splits)
  next
    case False
    then show ?thesis using assms(3) g by (auto simp: buf_write_all_def 1 split: sum.splits)
  qed
qed

end
