(* ===== verification/DiskStorage.thy ===== *)
theory DiskStorage
  imports FsFaults RaftLog
begin

text \<open>
  The state of a consensus node on disk (\<^verbatim>\<open>src/src/raft/storage.rs\<close>): the term and vote in
  \<^verbatim>\<open>hard-state\<close>, the entries in \<^verbatim>\<open>entries\<close>, one record each, the state machine in \<^verbatim>\<open>snapshot\<close>. A
  file handle is the name its file has; the handle of a file that is renamed follows it. Each
  call of \<^verbatim>\<open>record::now_millis\<close> takes the next reading of a clock, which is an argument. Seeking is not
  a call that can fail. A snapshot being written (\<^verbatim>\<open>DiskSnapshot\<close>) is a part file with a buffer.
\<close>

section \<open>Constants and state\<close>

definition HARD_STATE_LEN :: nat where
  "HARD_STATE_LEN = 20"

definition NO_VOTE :: nat where
  "NO_VOTE = u64_max"

text \<open>The bytes of \<^verbatim>\<open>MCS2\<close>.\<close>

definition SNAPSHOT_MAGIC :: bytes where
  "SNAPSHOT_MAGIC = [77, 67, 83, 50]"

definition OLD_SNAPSHOT_HEADER_LEN :: nat where
  "OLD_SNAPSHOT_HEADER_LEN = 4 + 8 + 8"

definition NO_MEMBERS :: nat where
  "NO_MEMBERS = u32_max"

definition CONFIG_ENTRY :: byte where
  "CONFIG_ENTRY = 1"

definition SNAP_BUF_CAP :: nat where
  "SNAP_BUF_CAP = 64 * 1024"

type_synonym clock = "nat \<Rightarrow> 64 word"

record disk_storage =
  ds_file :: string
  ds_hard :: hard_state
  ds_log :: entry_log
  ds_offsets :: "nat list"
  ds_end :: nat
  ds_snapshot_len :: nat
  ds_data_at :: nat
  ds_members :: "member list option"
  ds_next_part :: nat
  ds_fs :: fs

record disk_snapshot =
  dn_meta :: snapshot_meta
  dn_members :: "member list option"
  dn_header :: bytes
  dn_file :: "buf_writer option"
  dn_path :: string
  dn_crc :: crc32_running
  dn_written :: nat

section \<open>The hard state\<close>

definition default_hard_state :: hard_state where
  "default_hard_state = \<lparr> hs_term = 0, voted_for = None \<rparr>"

definition hard_body :: "hard_state \<Rightarrow> bytes" where
  "hard_body h = le_bytes 8 (hs_term h) @ le_bytes 8 (case voted_for h of Some v \<Rightarrow> v | None \<Rightarrow> NO_VOTE)"

definition hard_bytes :: "hard_state \<Rightarrow> bytes" where
  "hard_bytes h = le_bytes 4 (unat (crc32_parts [hard_body h])) @ hard_body h"

text \<open>What \<^verbatim>\<open>read_hard_state\<close> makes of the bytes of the file; a short file is a fresh one.\<close>

definition parse_hard_state :: "bytes \<Rightarrow> hard_state res" where
  "parse_hard_state bs =
     (if length bs < HARD_STATE_LEN then Inr default_hard_state
      else
        let buf = take HARD_STATE_LEN bs in
        if crc32_parts [drop 4 buf] \<noteq> word_of_nat (from_le (slice 0 4 buf)) then
          Inl (Corrupt 0 0 ''checksum mismatch in the raft hard state'')
        else
          let voted = from_le (slice 12 20 buf) in
          Inr \<lparr> hs_term = from_le (slice 4 12 buf),
                voted_for = (if voted \<noteq> NO_VOTE then Some voted else None) \<rparr>)"

definition read_hard_state :: "fs \<Rightarrow> hard_state io" where
  "read_hard_state d = (case fs_read ''hard-state'' d of
      (Inl e, d) \<Rightarrow> (case e of Io NotFound _ \<Rightarrow> (Inr default_hard_state, d) | _ \<Rightarrow> (Inl e, d))
    | (Inr bs, d) \<Rightarrow> (parse_hard_state bs, d))"

definition ds_save_hard_state :: "hard_state \<Rightarrow> disk_storage \<Rightarrow> unit res \<times> disk_storage" where
  "ds_save_hard_state h s =
     (if h = ds_hard s then (Inr (), s)
      else case write_atomically ''hard-state'' (hard_bytes h) (ds_fs s) of
        (Inl e, d) \<Rightarrow> (Inl e, s\<lparr> ds_fs := d \<rparr>)
      | (Inr _, d) \<Rightarrow> (Inr (), s\<lparr> ds_hard := h, ds_fs := d \<rparr>))"

section \<open>Entries\<close>

definition entry_key :: "nat \<Rightarrow> nat \<Rightarrow> bytes" where
  "entry_key i t = le_bytes 8 i @ le_bytes 8 t"

definition encode_entry :: "entry \<Rightarrow> nat \<Rightarrow> bytes res" where
  "encode_entry e now =
     (let key = entry_key (e_index e) (e_term e) in
      case e_command e of
        Noop \<Rightarrow> encode_record key None now
      | Data bs \<Rightarrow> encode_record key (Some bs) now
      | Config ms \<Rightarrow> encode_record (key @ [CONFIG_ENTRY]) (Some (encode_members ms)) now)"

text \<open>The loop of \<^verbatim>\<open>append\<close> and of \<^verbatim>\<open>rewrite_entries\<close>: the bytes of the entries, where each begins if the
  first begins at \<open>p\<close>, and where the last ends.\<close>

fun encode_entries :: "clock \<Rightarrow> nat \<Rightarrow> entry list \<Rightarrow> (bytes \<times> nat list \<times> nat) res" where
  "encode_entries c p [] = Inr ([], [], p)"
| "encode_entries c p (e # es) = (case encode_entry e (unat (c 0)) of
      Inl err \<Rightarrow> Inl err
    | Inr bs \<Rightarrow> (case encode_entries (\<lambda>k. c (Suc k)) (p + length bs) es of
          Inl err \<Rightarrow> Inl err
        | Inr (buf, offs, q) \<Rightarrow> Inr (bs @ buf, p # offs, q)))"

definition ds_append :: "clock \<Rightarrow> entry list \<Rightarrow> disk_storage \<Rightarrow> unit res \<times> disk_storage" where
  "ds_append c es s =
     (if es = [] then (Inr (), s)
      else case encode_entries c (ds_end s) es of
        Inl e \<Rightarrow> (Inl e, s)
      | Inr (buf, offs, q) \<Rightarrow>
          (case io_bind (fs_pwrite (ds_file s) (ds_end s) buf (ds_fs s)) (\<lambda>_ d. fs_sync (ds_file s) d) of
             (Inl e, d) \<Rightarrow> (Inl e, s\<lparr> ds_fs := d \<rparr>)
           | (Inr _, d) \<Rightarrow> (Inr (), s\<lparr> ds_end := q, ds_log := fold el_push es (ds_log s),
                ds_offsets := ds_offsets s @ offs, ds_fs := d \<rparr>)))"

definition ds_truncate_from :: "nat \<Rightarrow> disk_storage \<Rightarrow> unit res \<times> disk_storage" where
  "ds_truncate_from i s =
     (let (l, keep) = el_truncate_from i (ds_log s); s = s\<lparr> ds_log := l \<rparr> in
      if keep \<ge> length (ds_offsets s) then (Inr (), s)
      else
        let p = ds_offsets s ! keep in
        case io_bind (fs_set_len (ds_file s) p (ds_fs s)) (\<lambda>_ d. fs_sync (ds_file s) d) of
          (Inl e, d) \<Rightarrow> (Inl e, s\<lparr> ds_fs := d \<rparr>)
        | (Inr _, d) \<Rightarrow> (Inr (), s\<lparr> ds_offsets := take keep (ds_offsets s), ds_end := p, ds_fs := d \<rparr>))"

text \<open>The handle of the new file takes over before it is renamed.\<close>

definition rewrite_entries :: "clock \<Rightarrow> disk_storage \<Rightarrow> unit res \<times> disk_storage" where
  "rewrite_entries c s = (case encode_entries c 0 (el_entries (ds_log s)) of
      Inl e \<Rightarrow> (Inl e, s)
    | Inr (buf, offs, q) \<Rightarrow>
        let tmp = ''entries.tmp'' in
        case io_bind (fs_create tmp (ds_fs s)) (\<lambda>_ d. io_bind (fs_write_all tmp buf d) (\<lambda>_ d. fs_sync tmp d)) of
          (Inl e, d) \<Rightarrow> (Inl e, s\<lparr> ds_fs := d \<rparr>)
        | (Inr _, d) \<Rightarrow> (case fs_rename tmp ''entries'' d of
            (Inl e, d) \<Rightarrow> (Inl e, s\<lparr> ds_file := tmp, ds_fs := d \<rparr>)
          | (Inr _, d) \<Rightarrow> (case fs_sync_dir d of
              (Inl e, d) \<Rightarrow> (Inl e, s\<lparr> ds_file := ''entries'', ds_fs := d \<rparr>)
            | (Inr _, d) \<Rightarrow> (Inr (), s\<lparr> ds_file := ''entries'', ds_offsets := offs, ds_end := q, ds_fs := d \<rparr>))))"

section \<open>Snapshots\<close>

definition snapshot_header :: "snapshot_meta \<Rightarrow> member list option \<Rightarrow> bytes" where
  "snapshot_header meta mems = le_bytes 8 (sm_index meta) @ le_bytes 8 (sm_term meta) @
     (case mems of
        Some ms \<Rightarrow> le_bytes 4 (as_u32 (length (encode_members ms))) @ encode_members ms
      | None \<Rightarrow> le_bytes 4 NO_MEMBERS)"

definition snap_part_name :: "nat \<Rightarrow> string" where
  "snap_part_name k = ''snapshot.part-'' @ dec_digits k"

definition ds_new_snapshot ::
  "snapshot_meta \<Rightarrow> member list option \<Rightarrow> disk_storage \<Rightarrow> disk_snapshot res \<times> disk_storage" where
  "ds_new_snapshot meta mems s =
     (let k = ds_next_part s + 1; path = snap_part_name k; header = snapshot_header meta mems in
      case io_bind (fs_create path (ds_fs s)) (\<lambda>_ d. fs_write_all path (replicate (8 + length header) 0) d) of
        (Inl e, d) \<Rightarrow> (Inl e, s\<lparr> ds_next_part := k, ds_fs := d \<rparr>)
      | (Inr _, d) \<Rightarrow>
          (Inr \<lparr> dn_meta = meta, dn_members = mems, dn_header = header,
                 dn_file = Some \<lparr> bw_name = path, bw_cap = SNAP_BUF_CAP, bw_buf = [] \<rparr>, dn_path = path,
                 dn_crc = crc32_feed crc32_new header, dn_written = 0 \<rparr>,
           s\<lparr> ds_next_part := k, ds_fs := d \<rparr>))"

text \<open>\<^verbatim>\<open>write_all\<close> on a snapshot. A write that fails leaves the checksum behind the file, and what then
  remains to be done with the snapshot is to drop it.\<close>

definition snap_write :: "disk_snapshot \<Rightarrow> bytes \<Rightarrow> fs \<Rightarrow> unit res \<times> disk_snapshot \<times> fs" where
  "snap_write k bs d = (case dn_file k of
      None \<Rightarrow> (Inl (Io OtherKind ''written after install''), k, d)
    | Some w \<Rightarrow> (case buf_write_all w bs d of
          (Inl e, w, d) \<Rightarrow> (Inl e, k\<lparr> dn_file := Some w \<rparr>, d)
        | (Inr _, w, d) \<Rightarrow> (Inr (), k\<lparr> dn_file := Some w, dn_crc := crc32_feed (dn_crc k) bs,
              dn_written := dn_written k + length bs \<rparr>, d)))"

definition snap_flush :: "disk_snapshot \<Rightarrow> fs \<Rightarrow> unit res \<times> disk_snapshot \<times> fs" where
  "snap_flush k d = (case dn_file k of
      None \<Rightarrow> (Inl (Io OtherKind ''flushed after install''), k, d)
    | Some w \<Rightarrow> (case buf_flush w d of (r, w, d) \<Rightarrow> (r, k\<lparr> dn_file := Some w \<rparr>, d)))"

definition snap_drop :: "disk_snapshot \<Rightarrow> fs \<Rightarrow> fs" where
  "snap_drop k d = (case dn_file k of None \<Rightarrow> d | Some w \<Rightarrow> snd (fs_remove (dn_path k) (buf_drop w d)))"

text \<open>\<^verbatim>\<open>finish\<close>: the buffer is flushed and the room at the front is filled in.\<close>

definition snap_finish :: "disk_snapshot \<Rightarrow> fs \<Rightarrow> string io" where
  "snap_finish k d = (case dn_file k of
      None \<Rightarrow> (Inl (Io OtherKind ''finished twice''), d)
    | Some w \<Rightarrow> (case buf_flush w d of
          (Inl e, w, d) \<Rightarrow> (Inl e, buf_drop w d)
        | (Inr _, w, d) \<Rightarrow>
            io_bind (fs_pwrite (dn_path k) 0 SNAPSHOT_MAGIC d) (\<lambda>_ d.
            io_bind (fs_pwrite (dn_path k) 4 (le_bytes 4 (unat (crc32_finish (dn_crc k)))) d) (\<lambda>_ d.
            io_bind (fs_pwrite (dn_path k) 8 (dn_header k) d) (\<lambda>_ d.
            io_bind (fs_sync (dn_path k) d) (\<lambda>_ d.
            (Inr (dn_path k), d)))))))"

definition ds_install_snapshot :: "clock \<Rightarrow> disk_snapshot \<Rightarrow> disk_storage \<Rightarrow> unit res \<times> disk_storage" where
  "ds_install_snapshot c k s =
     (let meta = dn_meta k in
      if sm_index meta \<le> sm_index (el_base (ds_log s)) then (Inr (), s\<lparr> ds_fs := snap_drop k (ds_fs s) \<rparr>)
      else
        let len = dn_written k; data_at = 8 + length (dn_header k); mems = dn_members k in
        case io_bind (snap_finish k (ds_fs s)) (\<lambda>part d.
             io_bind (fs_rename part ''snapshot'' d) (\<lambda>_ d. fs_sync_dir d)) of
          (Inl e, d) \<Rightarrow> (Inl e, s\<lparr> ds_fs := d \<rparr>)
        | (Inr _, d) \<Rightarrow>
            rewrite_entries c (s\<lparr> ds_snapshot_len := len, ds_data_at := data_at, ds_members := mems,
              ds_log := fst (el_compact meta (ds_log s)), ds_fs := d \<rparr>))"

definition ds_read_snapshot :: "nat \<Rightarrow> nat \<Rightarrow> disk_storage \<Rightarrow> bytes io" where
  "ds_read_snapshot off len s =
     (if off \<ge> ds_snapshot_len s then (Inr [], ds_fs s)
      else
        let len = min len (ds_snapshot_len s - off); start = ds_data_at s + off in
        io_bind (fs_read ''snapshot'' (ds_fs s)) (\<lambda>bs d.
          (case get_range start (start + len) bs of None \<Rightarrow> (Inl eof_error, d) | Some x \<Rightarrow> (Inr x, d))))"

definition ds_snapshot_reader :: "disk_storage \<Rightarrow> bytes io" where
  "ds_snapshot_reader s =
     io_bind (fs_read ''snapshot'' (ds_fs s)) (\<lambda>bs d. (Inr (take (ds_snapshot_len s) (drop (ds_data_at s) bs)), d))"

section \<open>Opening\<close>

record snap_header =
  sh_meta :: snapshot_meta
  sh_members :: "member list option"
  sh_data_at :: nat
  sh_data_len :: nat

definition default_snap_header :: snap_header where
  "default_snap_header = \<lparr> sh_meta = no_meta, sh_members = None, sh_data_at = 0, sh_data_len = 0 \<rparr>"

definition snap_short :: error where
  "snap_short = Corrupt 0 0 ''the raft snapshot is shorter than its header''"

text \<open>The end of \<^verbatim>\<open>read_snapshot_header\<close>: the data, to the end of the file, against the checksum.\<close>

definition snap_checked ::
  "nat \<Rightarrow> crc32_running \<Rightarrow> snapshot_meta \<Rightarrow> member list option \<Rightarrow> nat \<Rightarrow> bytes \<Rightarrow> snap_header res" where
  "snap_checked expected crc meta mems data_at rest =
     (if crc32_finish (crc32_feed crc rest) \<noteq> word_of_nat expected then
        Inl (Corrupt 0 0 ''checksum mismatch in the raft snapshot'')
      else Inr \<lparr> sh_meta = meta, sh_members = mems, sh_data_at = data_at, sh_data_len = length rest \<rparr>)"

definition parse_snapshot :: "bytes \<Rightarrow> snap_header res" where
  "parse_snapshot bs =
     (if length bs < 4 then Inl snap_short
      else
        let first = take 4 bs; rest = drop 4 bs in
        if first = SNAPSHOT_MAGIC then
          if length rest < 24 then Inl snap_short
          else
            let fixed = take 24 rest; rest = drop 24 rest;
                crc = crc32_feed crc32_new (drop 4 fixed);
                expected = from_le (slice 0 4 fixed);
                meta = \<lparr> sm_index = from_le (slice 4 12 fixed), sm_term = from_le (slice 12 20 fixed) \<rparr>;
                mlen = from_le (slice 20 24 fixed) in
            if mlen = NO_MEMBERS then snap_checked expected crc meta None (4 + 24) rest
            else if length rest < mlen then Inl snap_short
            else
              let encoded = take mlen rest in
              (case decode_members encoded of
                 None \<Rightarrow> Inl (Corrupt 0 0 ''the raft snapshot's membership is malformed'')
               | Some ms \<Rightarrow>
                   snap_checked expected (crc32_feed crc encoded) meta (Some ms) (4 + 24 + mlen) (drop mlen rest))
        else
          let n = OLD_SNAPSHOT_HEADER_LEN - 4 in
          if length rest < n then Inl snap_short
          else
            let fixed = take n rest in
            snap_checked (from_le first) (crc32_feed crc32_new fixed)
              \<lparr> sm_index = from_le (slice 0 8 fixed), sm_term = from_le (slice 8 16 fixed) \<rparr> None
              OLD_SNAPSHOT_HEADER_LEN (drop n rest))"

definition read_snapshot_header :: "fs \<Rightarrow> snap_header io" where
  "read_snapshot_header d = (case fs_read ''snapshot'' d of
      (Inl e, d) \<Rightarrow> (case e of Io NotFound _ \<Rightarrow> (Inr default_snap_header, d) | _ \<Rightarrow> (Inl e, d))
    | (Inr bs, d) \<Rightarrow> (parse_snapshot bs, d))"

definition is_stray :: "string \<Rightarrow> bool" where
  "is_stray n \<longleftrightarrow> take 14 n = ''snapshot.part-'' \<or> n = ''snapshot.tmp''"

fun remove_strays :: "string list \<Rightarrow> fs \<Rightarrow> unit io" where
  "remove_strays [] d = (Inr (), d)"
| "remove_strays (n # ns) d =
     (if is_stray n then io_bind (fs_remove n d) (\<lambda>_ d. remove_strays ns d) else remove_strays ns d)"

definition remove_stray_parts :: "fs \<Rightarrow> unit io" where
  "remove_stray_parts d = io_bind (fs_read_dir d) (\<lambda>names d. remove_strays names d)"

text \<open>One whole record of the entries file, at offset \<open>p\<close>, after the entries \<open>es\<close>. The index is a
  \<^verbatim>\<open>u64\<close>, so the successor of the greatest wraps.\<close>

definition recover_entry :: "nat \<Rightarrow> entry list \<Rightarrow> header \<Rightarrow> bytes \<Rightarrow> bytes \<Rightarrow> entry res" where
  "recover_entry p es h key val =
     (if \<not> header_verify h key val then Inl (Corrupt 0 p ''checksum mismatch in the raft log'')
      else if \<not> (length key = 16 \<or> length key = 17 \<and> key ! 16 = CONFIG_ENTRY) then
        Inl (Corrupt 0 p ''raft log entry has a malformed key'')
      else
        let config = (length key = 17); i = from_le (slice 0 8 key); t = from_le (slice 8 16 key) in
        if es \<noteq> [] \<and> i \<noteq> (e_index (last es) + 1) mod 2 ^ 64 then
          Inl (Corrupt 0 p ''raft log entries are out of order'')
        else if es = [] \<and> i = 0 then Inl (Corrupt 0 p ''raft log entry has index 0'')
        else if config then
          (case decode_members val of
             None \<Rightarrow> Inl (Corrupt 0 p ''raft log membership entry is malformed'')
           | Some ms \<Rightarrow> Inr \<lparr> e_term = t, e_index = i, e_command = Config ms \<rparr>)
        else if header_is_tombstone h then Inr \<lparr> e_term = t, e_index = i, e_command = Noop \<rparr>
        else Inr \<lparr> e_term = t, e_index = i, e_command = Data val \<rparr>)"

text \<open>The loop of \<^verbatim>\<open>recover\<close>: the reader's position is what is left to read. A length that does not fit
  the machine's address space cannot arise on a 64-bit one.\<close>

function recover_loop ::
  "nat \<Rightarrow> bytes \<Rightarrow> nat \<Rightarrow> entry list \<Rightarrow> nat list \<Rightarrow> (entry list \<times> nat list \<times> nat) res" where
  "recover_loop sz rest p es offs =
     (if length rest < HEADER_LEN then Inr (es, offs, p)
      else
        let h = header_decode (take HEADER_LEN rest); body = drop HEADER_LEN rest;
            body_len = hdr_key_len h + hdr_value_len h in
        if header_record_len h > sz - p then Inr (es, offs, p)
        else if length body < body_len then Inr (es, offs, p)
        else case recover_entry p es h (take (hdr_key_len h) body) (slice (hdr_key_len h) body_len body) of
            Inl e \<Rightarrow> Inl e
          | Inr e \<Rightarrow> recover_loop sz (drop body_len body) (p + header_record_len h) (es @ [e]) (offs @ [p]))"
  by pat_completeness auto

termination
  by (relation "measure (\<lambda>(sz, rest, _). length rest)") (auto simp: HEADER_LEN_def)

declare recover_loop.simps [simp del]

definition recover :: "string \<Rightarrow> fs \<Rightarrow> (entry list \<times> nat list \<times> nat) io" where
  "recover n d =
     io_bind (fs_len n d) (\<lambda>sz d.
     io_bind (fs_read n d) (\<lambda>bs d.
     case recover_loop sz bs 0 [] [] of
       Inl e \<Rightarrow> (Inl e, d)
     | Inr (es, offs, p) \<Rightarrow>
         if p \<noteq> sz then
           io_bind (fs_set_len n p d) (\<lambda>_ d. io_bind (fs_sync n d) (\<lambda>_ d. (Inr (es, offs, p), d)))
         else (Inr (es, offs, p), d)))"

definition ds_open :: "clock \<Rightarrow> fs \<Rightarrow> disk_storage io" where
  "ds_open c d =
     io_bind (fs_create_dir_all d) (\<lambda>_ d.
     io_bind (read_hard_state d) (\<lambda>hs d.
     io_bind (read_snapshot_header d) (\<lambda>sh d.
     io_bind (remove_stray_parts d) (\<lambda>_ d.
     io_bind (fs_open_append ''entries'' d) (\<lambda>_ d.
     io_bind (recover ''entries'' d) (\<lambda>(es, offs, p) d.
     let base = sh_meta sh;
         s = \<lparr> ds_file = ''entries'', ds_hard = hs, ds_log = \<lparr> el_base = no_meta, el_entries = [] \<rparr>,
               ds_offsets = offs, ds_end = p, ds_snapshot_len = sh_data_len sh, ds_data_at = sh_data_at sh,
               ds_members = sh_members sh, ds_next_part = 0, ds_fs = d \<rparr> in
     if es = [] \<or> e_index (hd es) = (sm_index base + 1) mod 2 ^ 64 then
       let s = s\<lparr> ds_log := \<lparr> el_base = base, el_entries = es \<rparr> \<rparr> in (Inr s, ds_fs s)
     else if e_index (hd es) \<le> sm_index base then
       let l = \<lparr> el_base = \<lparr> sm_index = e_index (hd es) - 1, sm_term = 0 \<rparr>, el_entries = es \<rparr> in
       (case rewrite_entries c (s\<lparr> ds_log := fst (el_compact base l) \<rparr>) of
          (Inl e, s) \<Rightarrow> (Inl e, ds_fs s)
        | (Inr _, s) \<Rightarrow> (Inr s, ds_fs s))
     else (Inl (Corrupt 0 0 ''the raft log does not begin where the snapshot ends''), d)))))))"

definition ds_disk_bytes :: "disk_storage \<Rightarrow> nat" where
  "ds_disk_bytes s = ds_end s"

section \<open>What a storage promises in memory\<close>

text \<open>The snapshot's data as the file holds it.\<close>

definition ds_data :: "disk_storage \<Rightarrow> bytes" where
  "ds_data s = (case fs_file (ds_fs s) ''snapshot'' of
     None \<Rightarrow> [] | Some f \<Rightarrow> take (ds_snapshot_len s) (drop (ds_data_at s) (fdata f)))"

definition ds_abs :: "disk_storage \<Rightarrow> mem_storage" where
  "ds_abs s = \<lparr> ms_hard = ds_hard s, ms_log = ds_log s, ms_snapshot = ds_data s, ms_members = ds_members s,
     ms_faults = [] \<rparr>"

end
