(* ===== verification/DiskEntries.thy ===== *)
theory DiskEntries
  imports DiskStorage
begin

text \<open>
  The entries file of the consensus storage (\<^verbatim>\<open>src/src/raft/storage.rs\<close>) and its two small neighbours, as
  bytes: the records that stand for entries, what the loop of \<^verbatim>\<open>recover\<close> reads from them when the
  last is cut short, and the round trips of the hard state and of the snapshot's header.
\<close>

section \<open>Records of entries\<close>

definition entry_ok :: "entry \<Rightarrow> bool" where
  "entry_ok e \<longleftrightarrow> e_index e < 2 ^ 64 \<and> e_term e < 2 ^ 64 \<and> length (command_payload (e_command e)) < 2 ^ 32 \<and>
     (case e_command e of Config ms \<Rightarrow> members_ok ms | _ \<Rightarrow> True)"

definition entry_rec :: "entry \<Rightarrow> nat \<Rightarrow> krec" where
  "entry_rec e now = (let key = entry_key (e_index e) (e_term e) in
     case e_command e of
       Noop \<Rightarrow> KRec key None now
     | Data bs \<Rightarrow> KRec key (Some bs) now
     | Config ms \<Rightarrow> KRec (key @ [CONFIG_ENTRY]) (Some (encode_members ms)) now)"

abbreviation recs_cat :: "krec list \<Rightarrow> bytes" where
  "recs_cat rs \<equiv> concat (map rec_bytes rs)"

definition rec_of :: "krec \<Rightarrow> entry \<Rightarrow> bool" where
  "rec_of r e \<longleftrightarrow> entry_ok e \<and> (\<exists>now < 2 ^ 64. r = entry_rec e now)"

fun starts :: "nat \<Rightarrow> krec list \<Rightarrow> nat list" where
  "starts p [] = []"
| "starts p (r # rs) = p # starts (p + length (rec_bytes r)) rs"

lemma length_starts [simp]: "length (starts p rs) = length rs"
  by (induction rs arbitrary: p) auto

lemma starts_append: "starts p (xs @ ys) = starts p xs @ starts (p + length (recs_cat xs)) ys"
  by (induction xs arbitrary: p) (simp_all add: add.assoc)

lemma starts_take: "take k (starts p rs) = starts p (take k rs)"
  by (induction rs arbitrary: p k) (simp_all add: take_Cons split: nat.splits)

lemma starts_nth: "k < length rs \<Longrightarrow> starts p rs ! k = p + length (recs_cat (take k rs))"
proof (induction rs arbitrary: p k)
  case (Cons r rs)
  then show ?case by (cases k) simp_all
qed simp

lemma length_entry_key [simp]: "length (entry_key i t) = 16"
  by (simp add: entry_key_def)

lemma entry_key_not_Nil [simp]: "entry_key i t \<noteq> []"
  using length_entry_key [of i t] by (metis list.size(3) zero_neq_numeral)

lemma slice_entry_key:
  "slice 0 8 (entry_key i t @ ys) = le_bytes 8 i" "slice 8 16 (entry_key i t @ ys) = le_bytes 8 t"
  "slice 0 8 (entry_key i t) = le_bytes 8 i" "slice 8 16 (entry_key i t) = le_bytes 8 t"
  by (simp_all add: entry_key_def slice_def)

lemma entry_rec_ok: "entry_ok e \<Longrightarrow> now < 2 ^ 64 \<Longrightarrow> rec_ok (entry_rec e now)"
  by (auto simp: entry_ok_def entry_rec_def rec_ok_def rpayload_def command_payload_def split: command.splits)

lemma rec_of_ok: "rec_of r e \<Longrightarrow> rec_ok r"
  by (auto simp: rec_of_def entry_rec_ok)

lemma encode_entry_rec: "entry_ok e \<Longrightarrow> encode_entry e now = Inr (rec_bytes (entry_rec e now))"
  by (auto simp: encode_entry_def entry_rec_def Let_def encode_record_Inr entry_ok_def command_payload_def
      rpayload_def split: command.splits)

lemma encode_entries_recs:
  assumes "list_all entry_ok es"
  shows "\<exists>rs. list_all2 rec_of rs es \<and>
    encode_entries c p es = Inr (recs_cat rs, starts p rs, p + length (recs_cat rs))"
  using assms
proof (induction es arbitrary: c p)
  case Nil
  then show ?case by simp
next
  case (Cons e es)
  let ?r = "entry_rec e (unat (c 0))"
  obtain rs where rs: "list_all2 rec_of rs es"
    "encode_entries (\<lambda>k. c (Suc k)) (p + length (rec_bytes ?r)) es
      = Inr (recs_cat rs, starts (p + length (rec_bytes ?r)) rs, p + length (rec_bytes ?r) + length (recs_cat rs))"
    using Cons.IH [of "\<lambda>k. c (Suc k)"] Cons.prems by auto
  have "unat (c 0) < 2 ^ 64" using unsigned_less [of "c 0"] by simp
  then have "rec_of ?r e" using Cons.prems by (auto simp: rec_of_def)
  then show ?case using rs Cons.prems
    by (intro exI [of _ "?r # rs"]) (simp add: encode_entry_rec add.assoc)
qed

section \<open>Recovering\<close>

definition cut_short :: "bytes \<Rightarrow> bool" where
  "cut_short t \<longleftrightarrow> (\<exists>r n. rec_ok r \<and> n < length (rec_bytes r) \<and> t = take n (rec_bytes r))"

lemma cut_short_Nil [simp]: "cut_short []"
  unfolding cut_short_def
  by (rule exI [of _ "KRec [0] None 0"], rule exI [of _ 0]) (simp add: rec_ok_def rpayload_def)

lemma take_recs_cut:
  assumes "list_all rec_ok rs"
  shows "\<exists>k t. k \<le> length rs \<and> take n (recs_cat rs) = recs_cat (take k rs) @ t \<and> cut_short t \<and>
    (length (recs_cat rs) \<le> n \<longrightarrow> k = length rs \<and> t = [])"
  using assms
proof (induction rs arbitrary: n)
  case Nil
  then show ?case by simp
next
  case (Cons r rs)
  show ?case
  proof (cases "n < length (rec_bytes r)")
    case True
    then have "cut_short (take n (rec_bytes r))" using Cons.prems by (auto simp: cut_short_def)
    then show ?thesis using True by (intro exI [of _ 0] exI [of _ "take n (rec_bytes r)"]) simp
  next
    case False
    obtain k t where "k \<le> length rs" "take (n - length (rec_bytes r)) (recs_cat rs) = recs_cat (take k rs) @ t" "cut_short t"
      "length (recs_cat rs) \<le> n - length (rec_bytes r) \<longrightarrow> k = length rs \<and> t = []"
      using Cons.IH [of "n - length (rec_bytes r)"] Cons.prems by auto
    then show ?thesis using False by (intro exI [of _ "Suc k"] exI [of _ t]) auto
  qed
qed

lemma recover_loop_cut:
  assumes "cut_short t" and "sz = p + length t"
  shows "recover_loop sz t p es offs = Inr (es, offs, p)"
proof -
  obtain r n where r: "rec_ok r" "n < length (rec_bytes r)" "t = take n (rec_bytes r)"
    using assms(1) by (auto simp: cut_short_def)
  show ?thesis
  proof (cases "n < HEADER_LEN")
    case True
    then show ?thesis using r by (subst recover_loop.simps) simp
  next
    case False
    have n: "length t = n" using r by simp
    have "take HEADER_LEN t = header_encode (rec_header r)"
      using r False by (simp add: min_absorb1 take_rec_bytes)
    then have "header_decode (take HEADER_LEN t) = rec_header r"
      using r(1) by (simp add: header_decode_encode rec_header_wf)
    then show ?thesis using r(2) n False assms(2) by (subst recover_loop.simps) (simp add: Let_def)
  qed
qed

definition chained :: "entry list \<Rightarrow> entry list \<Rightarrow> bool" where
  "chained es es' \<longleftrightarrow> (if es = [] then (\<exists>i. follows i es') else follows (e_index (last es)) es')"

lemma chained_Cons:
  "chained es (e # es') \<Longrightarrow> chained (es @ [e]) es' \<and> (es = [] \<longrightarrow> 0 < e_index e) \<and> (es \<noteq> [] \<longrightarrow> e_index e = Suc (e_index (last es)))"
  by (auto simp: chained_def split: if_splits)

lemma recover_entry_rec:
  assumes "rec_of r e" and "chained es (e # es')"
  shows "recover_entry p es (rec_header r) (rkey r) (rpayload r) = Inr e"
proof -
  obtain now where r: "entry_ok e" "r = entry_rec e now" using assms(1) by (auto simp: rec_of_def)
  have v: "header_verify (rec_header r) (rkey r) (rpayload r)" by simp
  have i: "es \<noteq> [] \<longrightarrow> (e_index (last es) + 1) mod 2 ^ 64 = e_index e" "es = [] \<longrightarrow> e_index e \<noteq> 0"
    using chained_Cons [OF assms(2)] r(1) by (auto simp: entry_ok_def)
  show ?thesis
  proof (cases "e_command e")
    case Noop
    then show ?thesis using r v i tombstone_rec [of r]
      by (cases "es = []") (simp_all add: recover_entry_def entry_rec_def Let_def slice_entry_key entry_ok_def)
  next
    case (Data bs)
    then show ?thesis using r v i tombstone_rec [of r]
      by (cases "es = []") (simp_all add: recover_entry_def entry_rec_def Let_def slice_entry_key entry_ok_def rpayload_def)
  next
    case (Config ms)
    then show ?thesis using r v i decode_encode_members [of ms]
      by (cases "es = []") (simp_all add: recover_entry_def entry_rec_def Let_def slice_entry_key entry_ok_def rpayload_def nth_append)
  qed
qed

lemma recover_loop_whole:
  assumes "rec_ok r" and "length (rec_bytes r) \<le> sz - p"
    and "recover_entry p es (rec_header r) (rkey r) (rpayload r) = Inr e"
  shows "recover_loop sz (rec_bytes r @ x) p es offs
    = recover_loop sz x (p + length (rec_bytes r)) (es @ [e]) (offs @ [p])"
proof -
  define y where "y = rec_bytes r @ x"
  have "take HEADER_LEN y = header_encode (rec_header r)" by (simp add: y_def rec_bytes_def)
  then have h: "header_decode (take HEADER_LEN y) = rec_header r"
    using assms(1) by (simp add: header_decode_encode rec_header_wf)
  have dr: "drop HEADER_LEN y = rkey r @ rpayload r @ x" by (simp add: y_def rec_bytes_def)
  have len: "\<not> length y < HEADER_LEN" using rec_bytes_not_short [of r] by (simp add: y_def del: rec_bytes_not_short)
  show ?thesis
    unfolding y_def [symmetric] using assms(2,3) len
    by (subst recover_loop.simps) (simp add: h dr Let_def slice_def)
qed

lemma recover_loop_recs:
  assumes "list_all2 rec_of rs es'" and "chained es es'" and "cut_short t"
    and "sz = p + length (recs_cat rs @ t)"
  shows "recover_loop sz (recs_cat rs @ t) p es offs = Inr (es @ es', offs @ starts p rs, p + length (recs_cat rs))"
  using assms
proof (induction rs es' arbitrary: p es offs rule: list_all2_induct)
  case Nil
  then show ?case using recover_loop_cut by simp
next
  case (Cons r rs e es')
  have "recover_loop sz (rec_bytes r @ recs_cat rs @ t) p es offs
      = recover_loop sz (recs_cat rs @ t) (p + length (rec_bytes r)) (es @ [e]) (offs @ [p])"
    using Cons.prems
    by (intro recover_loop_whole [OF rec_of_ok [OF Cons.hyps(1)] _ recover_entry_rec [OF Cons.hyps(1) Cons.prems(1)]]) simp
  also have "\<dots> = Inr ((es @ [e]) @ es', (offs @ [p]) @ starts (p + length (rec_bytes r)) rs,
      p + length (rec_bytes r) + length (recs_cat rs))"
    using Cons.prems chained_Cons [OF Cons.prems(1)] by (intro Cons.IH) simp_all
  finally show ?case by (simp add: add.assoc)
qed

section \<open>The hard state\<close>

definition hs_ok :: "hard_state \<Rightarrow> bool" where
  "hs_ok h \<longleftrightarrow> hs_term h < 2 ^ 64 \<and> (case voted_for h of Some v \<Rightarrow> v < NO_VOTE | None \<Rightarrow> True)"

lemma length_hard_bytes: "length (hard_bytes h) = HARD_STATE_LEN"
  by (simp add: hard_bytes_def hard_body_def HARD_STATE_LEN_def)

lemma word_of_nat_unat_u32: "(word_of_nat (unat w) :: u32) = w"
  by simp

lemma parse_hard_bytes: "hs_ok h \<Longrightarrow> parse_hard_state (hard_bytes h) = Inr h"
proof -
  assume ok: "hs_ok h"
  define v where "v = (case voted_for h of Some v \<Rightarrow> v | None \<Rightarrow> NO_VOTE)"
  have v: "v < 2 ^ 64" "v \<noteq> NO_VOTE \<longrightarrow> voted_for h = Some v" "v = NO_VOTE \<longrightarrow> voted_for h = None"
    using ok by (auto simp: v_def hs_ok_def NO_VOTE_def u64_max_def split: option.splits)
  define b where "b = hard_bytes h"
  have b: "b = le_bytes 4 (unat (crc32_parts [hard_body h])) @ le_bytes 8 (hs_term h) @ le_bytes 8 v"
    "drop 4 b = hard_body h" "length b = 20"
    by (simp_all add: b_def hard_bytes_def hard_body_def v_def)
  have sl: "slice 0 4 b = le_bytes 4 (unat (crc32_parts [hard_body h]))" "slice 4 12 b = le_bytes 8 (hs_term h)"
    "slice 12 20 b = le_bytes 8 v"
    unfolding b(1) by (simp_all add: slice_def)
  have "parse_hard_state b = Inr h"
    using ok v u32_less [of "crc32_parts [hard_body h]"]
    by (auto simp: parse_hard_state_def HARD_STATE_LEN_def Let_def b(2,3) sl hs_ok_def)
  then show ?thesis by (simp add: b_def)
qed

section \<open>The snapshot file\<close>

definition snap_bytes :: "snapshot_meta \<Rightarrow> member list option \<Rightarrow> bytes \<Rightarrow> bytes" where
  "snap_bytes meta mems bs = SNAPSHOT_MAGIC @ le_bytes 4 (unat (crc32_parts [snapshot_header meta mems, bs]))
     @ snapshot_header meta mems @ bs"

definition snap_ok :: "snapshot_meta \<Rightarrow> member list option \<Rightarrow> bool" where
  "snap_ok meta mems \<longleftrightarrow> sm_index meta < 2 ^ 64 \<and> sm_term meta < 2 ^ 64 \<and>
     (case mems of Some ms \<Rightarrow> members_ok ms \<and> length (encode_members ms) < NO_MEMBERS | None \<Rightarrow> True)"

lemma crc32_feed_feed: "crc32_feed (crc32_feed c xs) ys = crc32_feed c (xs @ ys)"
  by (cases c) simp

lemma crc32_finish_parts: "crc32_finish (crc32_feed crc32_new xs) = crc32_parts [xs]"
  by (simp add: crc32_new_def crc32_parts_def)

lemma crc32_parts_two: "crc32_parts [xs, ys] = crc32_parts [xs @ ys]"
  by (simp add: crc32_parts_def)

lemma parse_snap_bytes:
  assumes "snap_ok meta mems"
  shows "parse_snapshot (snap_bytes meta mems bs) =
    Inr \<lparr> sh_meta = meta, sh_members = mems, sh_data_at = 8 + length (snapshot_header meta mems), sh_data_len = length bs \<rparr>"
proof -
  define tl where "tl = (case mems of Some ms \<Rightarrow> encode_members ms | None \<Rightarrow> [])"
  define ml where "ml = (case mems of Some ms \<Rightarrow> length (encode_members ms) | None \<Rightarrow> NO_MEMBERS)"
  define cs where "cs = unat (crc32_parts [snapshot_header meta mems, bs])"
  define fx where "fx = le_bytes 4 cs @ le_bytes 8 (sm_index meta) @ le_bytes 8 (sm_term meta) @ le_bytes 4 ml"
  have ml: "ml < 2 ^ 32" using assms by (auto simp: ml_def snap_ok_def NO_MEMBERS_def u32_max_def split: option.splits)
  have hd: "snapshot_header meta mems = drop 4 fx @ tl"
    using ml by (auto simp: snapshot_header_def fx_def tl_def ml_def split: option.splits)
  have b: "snap_bytes meta mems bs = SNAPSHOT_MAGIC @ fx @ tl @ bs"
    unfolding snap_bytes_def cs_def [symmetric] unfolding hd by (simp add: fx_def)
  have fx: "length fx = 24" "slice 0 4 fx = le_bytes 4 cs" "slice 4 12 fx = le_bytes 8 (sm_index meta)"
    "slice 12 20 fx = le_bytes 8 (sm_term meta)" "slice 20 24 fx = le_bytes 4 ml"
    by (simp_all add: fx_def slice_def)
  have cs: "cs < 2 ^ 32" "(word_of_nat cs :: u32) = crc32_parts [drop 4 fx @ tl @ bs]"
    using u32_less [of "crc32_parts [snapshot_header meta mems, bs]"] by (simp_all add: cs_def hd crc32_parts_two)
  have len: "length (snapshot_header meta mems) = 20 + length tl" using fx(1) by (simp add: hd)
  note facts = parse_snapshot_def Let_def SNAPSHOT_MAGIC_def fx cs snap_checked_def crc32_feed_feed crc32_finish_parts
  have "parse_snapshot (SNAPSHOT_MAGIC @ fx @ tl @ bs) =
    Inr \<lparr> sh_meta = meta, sh_members = mems, sh_data_at = 28 + length tl, sh_data_len = length bs \<rparr>"
  proof (cases mems)
    case None
    then have "tl = []" "ml = NO_MEMBERS" by (simp_all add: tl_def ml_def)
    then show ?thesis using assms ml cs None by (simp add: facts snap_ok_def)
  next
    case (Some ms)
    then have "tl = encode_members ms" "ml = length tl" "ml \<noteq> NO_MEMBERS" "decode_members tl = Some ms"
      using assms decode_encode_members [of ms] by (auto simp: tl_def ml_def snap_ok_def)
    then show ?thesis using assms ml cs Some by (simp add: facts snap_ok_def)
  qed
  then show ?thesis by (simp add: b len)
qed

end
