(* ===== verification/DiskOpen.thy ===== *)
theory DiskOpen
  imports DiskEntries
begin

text \<open>
  Opening the consensus storage (\<^verbatim>\<open>DiskStorage::open\<close>, \<^verbatim>\<open>src/src/raft/storage.rs\<close>): the invariant of an
  open storage, what a directory has to hold to be opened, and the storage that results, also when the log
  still has the entries a snapshot covers or ends in half an append.
\<close>

section \<open>What a directory holds\<close>

definition hard_on :: "dfile option \<Rightarrow> hard_state \<Rightarrow> bool" where
  "hard_on fo h = (case fo of None \<Rightarrow> h = default_hard_state | Some f \<Rightarrow> stable f \<and> parse_hard_state (fdata f) = Inr h)"

definition snap_on :: "dfile option \<Rightarrow> snap_header \<Rightarrow> bool" where
  "snap_on fo sh = (case fo of None \<Rightarrow> sh = default_snap_header | Some f \<Rightarrow> stable f \<and> parse_snapshot (fdata f) = Inr sh)"

definition entries_on :: "dfile option \<Rightarrow> entry list \<Rightarrow> bool" where
  "entries_on fo es = (case fo of
     None \<Rightarrow> es = []
   | Some f \<Rightarrow> stable f \<and> (\<exists>rs t. list_all2 rec_of rs es \<and> cut_short t \<and> fdata f = recs_cat rs @ t))"

definition disk_holds :: "fmap \<Rightarrow> hard_state \<Rightarrow> snap_header \<Rightarrow> entry list \<Rightarrow> bool" where
  "disk_holds F h sh es \<longleftrightarrow>
     hard_on (F ''hard-state'') h \<and> snap_on (F ''snapshot'') sh \<and> entries_on (F ''entries'') es"

definition snap_data :: "dfile option \<Rightarrow> snap_header \<Rightarrow> bytes" where
  "snap_data fo sh = (case fo of None \<Rightarrow> [] | Some f \<Rightarrow> take (sh_data_len sh) (drop (sh_data_at sh) (fdata f)))"

text \<open>The log that a directory with the snapshot \<open>base\<close> and the entries after index \<open>i\<close> stands for.\<close>

definition reconcile :: "snapshot_meta \<Rightarrow> nat \<Rightarrow> entry list \<Rightarrow> entry_log" where
  "reconcile base i es =
     (if i = sm_index base then \<lparr> el_base = base, el_entries = es \<rparr>
      else fst (el_compact base \<lparr> el_base = \<lparr> sm_index = i, sm_term = 0 \<rparr>, el_entries = es \<rparr>))"

section \<open>The invariant of an open storage\<close>

definition ds_header :: "disk_storage \<Rightarrow> snap_header" where
  "ds_header s = \<lparr> sh_meta = el_base (ds_log s), sh_members = ds_members s, sh_data_at = ds_data_at s,
     sh_data_len = ds_snapshot_len s \<rparr>"

definition entries_file :: "dfile option \<Rightarrow> disk_storage \<Rightarrow> bool" where
  "entries_file fo s \<longleftrightarrow> (\<exists>f rs. fo = Some f \<and> stable f \<and> list_all2 rec_of rs (el_entries (ds_log s)) \<and>
     fdata f = recs_cat rs \<and> ds_offsets s = starts 0 rs \<and> ds_end s = length (recs_cat rs))"

definition ds_ok :: "disk_storage \<Rightarrow> bool" where
  "ds_ok s \<longleftrightarrow> fs_wf (ds_fs s) \<and> ds_file s = ''entries'' \<and> log_wf (ds_log s) \<and>
     hard_on (fs_file (ds_fs s) ''hard-state'') (ds_hard s) \<and>
     snap_on (fs_file (ds_fs s) ''snapshot'') (ds_header s) \<and>
     entries_file (fs_file (ds_fs s) ''entries'') s"

lemma snap_header_eta [simp]:
  "\<lparr> sh_meta = sh_meta sh, sh_members = sh_members sh, sh_data_at = sh_data_at sh, sh_data_len = sh_data_len sh \<rparr> = sh"
  by (cases sh) simp

lemma list_all2_rec_ok: "list_all2 rec_of rs es \<Longrightarrow> list_all rec_ok rs \<and> list_all entry_ok es"
  by (induction rs es rule: list_all2_induct) (simp_all add: rec_of_ok, simp add: rec_of_def)

lemma entries_file_on: "entries_file fo s \<Longrightarrow> entries_on fo (el_entries (ds_log s))"
  unfolding entries_file_def entries_on_def by (force intro: cut_short_Nil)

lemma ds_ok_holds: "ds_ok s \<Longrightarrow> disk_holds (fs_file (ds_fs s)) (ds_hard s) (ds_header s) (el_entries (ds_log s))"
  by (simp add: ds_ok_def disk_holds_def entries_file_on)

lemma ds_data_snap: "ds_data s = snap_data (fs_file (ds_fs s) ''snapshot'') (ds_header s)"
  by (simp add: ds_data_def snap_data_def ds_header_def split: option.splits)

lemma reconcile_wf: "follows i es \<Longrightarrow> i \<le> sm_index base \<Longrightarrow> log_wf (reconcile base i es)"
  by (auto simp: reconcile_def log_wf_follows intro!: log_wf_compact [unfolded log_wf_follows])

lemma reconcile_base [simp]: "i \<le> sm_index base \<Longrightarrow> el_base (reconcile base i es) = base"
  by (auto simp: reconcile_def el_compact_def)

lemma reconcile_entries: "set (el_entries (reconcile base i es)) \<subseteq> set es"
  by (auto simp: reconcile_def el_compact_def dest: in_set_dropD)

lemma reconcile_Nil: "i \<le> sm_index base \<Longrightarrow> reconcile base i [] = \<lparr> el_base = base, el_entries = [] \<rparr>"
  by (auto simp: reconcile_def el_compact_def)

text \<open>Cutting the log after the snapshot is what reconciling does.\<close>

lemma reconcile_compact:
  assumes "log_wf l" and "sm_index (el_base l) < sm_index meta"
  shows "reconcile meta (sm_index (el_base l)) (el_entries l) = fst (el_compact meta l)"
proof -
  let ?l = "\<lparr> el_base = \<lparr> sm_index = sm_index (el_base l), sm_term = 0 \<rparr>, el_entries = el_entries l \<rparr>"
  have "log_wf ?l" using assms(1) by (simp add: log_wf_def)
  then have "el_term_at ?l (sm_index meta) = el_term_at l (sm_index meta)"
    using assms by (simp add: el_term_at_def el_entry_wf)
  then show ?thesis using assms(2) by (simp add: reconcile_def el_compact_def)
qed

section \<open>The pieces of opening\<close>

lemma read_hard_state_ok: "fs_ok d \<Longrightarrow> hard_on (fs_file d ''hard-state'') h \<Longrightarrow> read_hard_state d = (Inr h, d)"
  by (cases "fs_file d ''hard-state''")
     (simp_all add: read_hard_state_def hard_on_def fs_read_def fs_with_def fs_op_ok not_found_def)

lemma read_snapshot_header_ok: "fs_ok d \<Longrightarrow> snap_on (fs_file d ''snapshot'') sh \<Longrightarrow> read_snapshot_header d = (Inr sh, d)"
  by (cases "fs_file d ''snapshot''")
     (simp_all add: read_snapshot_header_def snap_on_def fs_read_def fs_with_def fs_op_ok not_found_def)

lemma remove_strays_ok:
  assumes "fs_ok d" and "distinct ns" and "\<forall>n \<in> set ns. fs_file d n \<noteq> None"
  shows "\<exists>d'. remove_strays ns d = (Inr (), d') \<and> fs_ok d' \<and> (\<forall>n. \<not> is_stray n \<longrightarrow> fs_file d' n = fs_file d n)"
  using assms
proof (induction ns arbitrary: d)
  case Nil
  then show ?case by simp
next
  case (Cons n ns)
  show ?case
  proof (cases "is_stray n")
    case True
    obtain f where f: "fs_file d n = Some f" using Cons.prems(3) by auto
    have rm: "fs_remove n d = (Inr (), fs_del n d)"
      using Cons.prems(1) f by (simp add: fs_remove_def fs_simps)
    have ns: "\<forall>m \<in> set ns. fs_file (fs_del n d) m \<noteq> None"
      using Cons.prems(2,3) by (metis distinct.simps(2) fs_file_del list.set_intros(2))
    obtain d' where "remove_strays ns (fs_del n d) = (Inr (), d')" "fs_ok d'"
      "\<forall>m. \<not> is_stray m \<longrightarrow> fs_file d' m = fs_file (fs_del n d) m"
      using Cons.IH [OF _ _ ns] Cons.prems by auto
    then show ?thesis using True rm by auto
  next
    case False
    then show ?thesis using Cons.IH [of d] Cons.prems by simp
  qed
qed

lemma remove_stray_parts_ok:
  assumes "fs_ok d"
  shows "\<exists>d'. remove_stray_parts d = (Inr (), d') \<and> fs_ok d' \<and> (\<forall>n. \<not> is_stray n \<longrightarrow> fs_file d' n = fs_file d n)"
proof -
  have "distinct (adom (files d))" using assms by (simp add: fs_ok_def fs_wf_def)
  moreover have "\<forall>n \<in> set (adom (files d)). fs_file d n \<noteq> None" using fs_names [of _ d] by simp
  ultimately show ?thesis
    using remove_strays_ok [OF assms, of "adom (files d)"] assms
    by (simp add: remove_stray_parts_def fs_read_dir_def fs_simps)
qed

lemma recover_ok:
  assumes d: "fs_ok d" and f: "fs_file d n = Some f" "stable f" and rs: "list_all2 rec_of rs es"
    and t: "cut_short t" and data: "fdata f = recs_cat rs @ t" and i: "follows i es"
  shows "\<exists>d'. recover n d = (Inr (es, starts 0 rs, length (recs_cat rs)), d') \<and> fs_ok d' \<and>
    fs_file d' n = Some \<lparr> fdata = recs_cat rs, fsynced = length (recs_cat rs) \<rparr> \<and> (\<forall>m. m \<noteq> n \<longrightarrow> fs_file d' m = fs_file d m)"
proof -
  have "chained [] es" using i by (auto simp: chained_def)
  then have loop: "recover_loop (length (fdata f)) (fdata f) 0 [] [] = Inr (es, starts 0 rs, length (recs_cat rs))"
    using recover_loop_recs [OF rs _ t, of "[]" "length (fdata f)" 0 "[]"] data by simp
  show ?thesis
  proof (cases "t = []")
    case True
    then have "f = \<lparr> fdata = recs_cat rs, fsynced = length (recs_cat rs) \<rparr>" using f(2) data by (simp add: stable_def)
    then show ?thesis using d f(1) loop True data by (simp add: recover_def fs_calls fs_simps)
  next
    case False
    then show ?thesis using d f loop data
      by (simp add: recover_def fs_calls fs_simps stable_def)
  qed
qed

text \<open>Rewriting the entries file, under any schedule: the old file stays until the new one is complete.\<close>

lemma rewrite_entries_any:
  assumes wf: "fs_wf (ds_fs s)" and ok: "list_all entry_ok (el_entries (ds_log s))"
    and run: "rewrite_entries c s = (r, s')"
  shows "\<exists>rs d'. list_all2 rec_of rs (el_entries (ds_log s)) \<and> ds_fs s' = d' \<and> fs_wf d' \<and>
    (faults (ds_fs s) = [] \<longrightarrow> faults d' = [] \<and> r = Inr ()) \<and>
    (r = Inr () \<longrightarrow> s' = s\<lparr> ds_file := ''entries'', ds_offsets := starts 0 rs, ds_end := length (recs_cat rs), ds_fs := d' \<rparr> \<and>
       fs_file d' ''entries'' = Some \<lparr> fdata = recs_cat rs, fsynced = length (recs_cat rs) \<rparr>) \<and>
    (fs_file d' ''entries'' = fs_file (ds_fs s) ''entries'' \<or>
     fs_file d' ''entries'' = Some \<lparr> fdata = recs_cat rs, fsynced = length (recs_cat rs) \<rparr>) \<and>
    (\<forall>m. m \<notin> {''entries'', ''entries.tmp''} \<longrightarrow> fs_file d' m = fs_file (ds_fs s) m)"
proof -
  obtain rs where rs: "list_all2 rec_of rs (el_entries (ds_log s))"
    "encode_entries c 0 (el_entries (ds_log s)) = Inr (recs_cat rs, starts 0 rs, length (recs_cat rs))"
    using encode_entries_recs [OF ok, of c 0] by auto
  let ?f = "\<lparr> fdata = recs_cat rs, fsynced = length (recs_cat rs) \<rparr>"
  let ?frame = "\<lambda>F. (\<forall>m. m \<notin> {''entries'', ''entries.tmp''} \<longrightarrow> F m = fs_file (ds_fs s) m)"
  let ?t = "''entries.tmp''"
  let ?m1 = "io_bind (fs_create ?t (ds_fs s)) (\<lambda>_ d. io_bind (fs_write_all ?t (recs_cat rs) d) (\<lambda>_ d. fs_sync ?t d))"
  have 1: "io_ok (ds_fs s) ?m1 (\<lambda>_ F. F = (fs_file (ds_fs s))(?t \<mapsto> ?f))
      (\<lambda>F. F ''entries'' = fs_file (ds_fs s) ''entries'' \<and> ?frame F)"
    apply (rule io_ok_then [OF io_ok_create [OF wf]], simp)
    apply (rule io_ok_then [OF io_ok_write [where f = "\<lparr> fdata = [], fsynced = 0 \<rparr>"]], assumption, simp, force)
    apply (rule io_ok_conseq [OF io_ok_sync [where f = "\<lparr> fdata = recs_cat rs, fsynced = 0 \<rparr>"]], assumption, simp, simp, force)
    done
  obtain r1 d1 where m1: "?m1 = (r1, d1)" by (cases ?m1)
  show ?thesis
  proof (cases r1)
    case (Inl e)
    then have "r = Inl e" "s' = s\<lparr> ds_fs := d1 \<rparr>" using run by (simp_all add: rewrite_entries_def rs Let_def m1)
    then show ?thesis using 1 rs(1) by (auto simp: io_ok_def m1 Inl intro: exI [of _ rs])
  next
    case (Inr x)
    have d1: "fs_wf d1" "fs_file d1 = (fs_file (ds_fs s))(?t \<mapsto> ?f)" "faults (ds_fs s) = [] \<longrightarrow> faults d1 = []"
      using 1 by (auto simp: io_ok_def m1 Inr)
    obtain r2 d2 where m2: "fs_rename ?t ''entries'' d1 = (r2, d2)" by (cases "fs_rename ?t ''entries'' d1")
    note 2 = io_ok_rename [OF d1(1), of ?t ?f "''entries''"]
    show ?thesis
    proof (cases r2)
      case (Inl e)
      then have "r = Inl e" "s' = s\<lparr> ds_file := ?t, ds_fs := d2 \<rparr>"
        using run by (simp_all add: rewrite_entries_def rs Let_def m1 m2 Inr)
      then show ?thesis using 2 d1 rs(1) by (auto simp: io_ok_def m2 Inl intro: exI [of _ rs])
    next
      case (Inr y)
      have d2: "fs_wf d2" "fs_file d2 = (fs_file d1)(?t := None, ''entries'' \<mapsto> ?f)" "faults d1 = [] \<longrightarrow> faults d2 = []"
        using 2 d1 by (auto simp: io_ok_def m2 Inr)
      obtain r3 d3 where m3: "fs_sync_dir d2 = (r3, d3)" by (cases "fs_sync_dir d2")
      have d3: "fs_wf d3" "fs_file d3 = fs_file d2" "faults d2 = [] \<longrightarrow> faults d3 = [] \<and> r3 = Inr ()"
        using io_ok_sync_dir [OF d2(1)] by (auto simp: io_ok_def m3 split: sum.splits)
      have "r = r3" "s' = (if r3 = Inr () then s\<lparr> ds_file := ''entries'', ds_offsets := starts 0 rs, ds_end := length (recs_cat rs), ds_fs := d3 \<rparr>
          else s\<lparr> ds_file := ''entries'', ds_fs := d3 \<rparr>)"
        using run \<open>r1 = Inr x\<close> Inr by (auto simp: rewrite_entries_def rs Let_def m1 m2 m3 split: sum.splits)
      then show ?thesis using d1 d2 d3 rs(1) by (auto intro!: exI [of _ rs])
    qed
  qed
qed

section \<open>Opening\<close>

text \<open>Nothing the storage keeps is taken for a stray part file.\<close>

lemma kept_names:
  "\<not> is_stray ''hard-state''" "\<not> is_stray ''snapshot''" "\<not> is_stray ''entries''" "\<not> is_stray ''entries.tmp''"
  by (simp_all add: is_stray_def)

lemma parse_snapshot_index: "parse_snapshot bs = Inr sh \<Longrightarrow> sm_index (sh_meta sh) < 2 ^ 64"
  using from_le_slice_less [of 12 "take 24 (drop 4 bs)" 4] from_le_slice_less [of 8 "take 16 (drop 4 bs)" 0]
  by (auto simp: parse_snapshot_def Let_def snap_checked_def OLD_SNAPSHOT_HEADER_LEN_def split: if_splits option.splits)

lemma snap_on_index: "snap_on fo sh \<Longrightarrow> sm_index (sh_meta sh) < 2 ^ 64"
  by (cases fo) (simp add: snap_on_def default_snap_header_def no_meta_def, auto simp: snap_on_def dest: parse_snapshot_index)

lemma ds_open_ok:
  assumes d: "fs_ok d" and holds: "disk_holds (fs_file d) h sh es"
    and i: "follows i es" "i \<le> sm_index (sh_meta sh)"
  shows "\<exists>s. ds_open c d = (Inr s, ds_fs s) \<and> fs_ok (ds_fs s) \<and> ds_ok s \<and> ds_next_part s = 0 \<and>
    ds_abs s = \<lparr> ms_hard = h, ms_log = reconcile (sh_meta sh) i es, ms_snapshot = snap_data (fs_file d ''snapshot'') sh,
      ms_members = sh_members sh, ms_faults = [] \<rparr>"
proof -
  let ?base = "sh_meta sh"
  obtain d1 where d1: "remove_stray_parts d = (Inr (), d1)" "fs_ok d1" "\<And>n. \<not> is_stray n \<Longrightarrow> fs_file d1 n = fs_file d n"
    using remove_stray_parts_ok [OF d] by blast
  define d2 where "d2 = snd (fs_open_append ''entries'' d1)"
  have d2: "fs_open_append ''entries'' d1 = (Inr (), d2)" "fs_ok d2" "\<And>n. n \<noteq> ''entries'' \<Longrightarrow> fs_file d2 n = fs_file d1 n"
    using d1(2) by (auto simp: d2_def fs_open_append_def fs_simps split: option.splits)
  have e1: "fs_file d1 ''entries'' = fs_file d ''entries''" by (rule d1(3)) (simp add: is_stray_def)
  obtain f rs t where f: "fs_file d2 ''entries'' = Some f" "stable f" "list_all2 rec_of rs es" "cut_short t" "fdata f = recs_cat rs @ t"
  proof (cases "fs_file d ''entries''")
    case None
    then have "es = []" using holds by (simp add: disk_holds_def entries_on_def)
    moreover have "fs_file d2 ''entries'' = Some \<lparr> fdata = [], fsynced = 0 \<rparr>"
      using None e1 d1(2) by (simp add: d2_def fs_open_append_def fs_simps)
    ultimately show ?thesis using that [of "\<lparr> fdata = [], fsynced = 0 \<rparr>" "[]" "[]"] by (simp add: stable_def)
  next
    case (Some f)
    then have "fs_file d2 ''entries'' = Some f" using e1 d1(2) by (simp add: d2_def fs_open_append_def fs_simps)
    then show ?thesis using that holds Some by (auto simp: disk_holds_def entries_on_def)
  qed
  obtain d3 where d3: "recover ''entries'' d2 = (Inr (es, starts 0 rs, length (recs_cat rs)), d3)" "fs_ok d3"
    "fs_file d3 ''entries'' = Some \<lparr> fdata = recs_cat rs, fsynced = length (recs_cat rs) \<rparr>"
    "\<And>m. m \<noteq> ''entries'' \<Longrightarrow> fs_file d3 m = fs_file d2 m"
    using recover_ok [OF d2(2) f i(1)] by blast
  have same: "fs_file d3 n = fs_file d n" if "\<not> is_stray n" "n \<noteq> ''entries''" for n
    using that d1(3) d2(3) d3(4) by simp
  have hs: "hard_on (fs_file d3 ''hard-state'') h" and sn: "snap_on (fs_file d3 ''snapshot'') sh"
    and sn_eq: "fs_file d3 ''snapshot'' = fs_file d ''snapshot''"
    using holds same [of "''hard-state''"] same [of "''snapshot''"] kept_names by (simp_all add: disk_holds_def)
  define s where "s = \<lparr> ds_file = ''entries'', ds_hard = h, ds_log = \<lparr> el_base = no_meta, el_entries = [] \<rparr>,
     ds_offsets = starts 0 rs, ds_end = length (recs_cat rs), ds_snapshot_len = sh_data_len sh, ds_data_at = sh_data_at sh,
     ds_members = sh_members sh, ds_next_part = 0, ds_fs = d3 \<rparr>"
  have cd: "fs_create_dir_all d = (Inr (), d)" using d by (simp add: fs_create_dir_all_def fs_simps)
  have rh: "read_hard_state d = (Inr h, d)" "read_snapshot_header d = (Inr sh, d)"
    using read_hard_state_ok [OF d] read_snapshot_header_ok [OF d] holds by (simp_all add: disk_holds_def)
  note steps = ds_open_def cd rh d1(1) d2(1) d3(1) Let_def s_def [symmetric]
  have hd: "e_index (hd es) = Suc i \<and> e_index (hd es) < 2 ^ 64" if "es \<noteq> []"
    using that i(1) list_all2_rec_ok [OF f(3)] by (cases es) (auto simp: entry_ok_def)
  show ?thesis
  proof (cases "es = [] \<or> i = sm_index ?base")
    case True
    have "es = [] \<or> e_index (hd es) = (sm_index ?base + 1) mod 2 ^ 64" using True hd by (cases "es = []") auto
    moreover define s' where "s' = s\<lparr> ds_log := \<lparr> el_base = ?base, el_entries = es \<rparr> \<rparr>"
    ultimately have op: "ds_open c d = (Inr s', ds_fs s')" by (simp add: steps) (simp add: s'_def s_def)
    have rec: "reconcile ?base i es = \<lparr> el_base = ?base, el_entries = es \<rparr>"
      using True reconcile_Nil [OF i(2)] by (auto simp: reconcile_def)
    have "ds_ok s'"
      unfolding ds_ok_def entries_file_def using d3(2,3) hs sn f(3) reconcile_wf [OF i] rec
      by (auto simp: s'_def s_def fs_ok_def ds_header_def stable_def)
    moreover have "ds_abs s' = \<lparr> ms_hard = h, ms_log = reconcile ?base i es, ms_snapshot = snap_data (fs_file d ''snapshot'') sh,
      ms_members = sh_members sh, ms_faults = [] \<rparr>"
      using sn_eq by (simp add: ds_abs_def ds_data_def snap_data_def s'_def s_def rec split: option.splits)
    ultimately show ?thesis using op d3(2) by (auto simp: s'_def s_def)
  next
    case False
    then have lt: "es \<noteq> []" "Suc i \<le> sm_index ?base" using i(2) by auto
    have ne: "e_index (hd es) \<noteq> (sm_index ?base + 1) mod 2 ^ 64"
      using hd lt snap_on_index [OF sn] by (cases "sm_index ?base + 1 < 2 ^ 64") (auto simp: mod_if)
    define l where "l = reconcile ?base i es"
    have l: "fst (el_compact ?base \<lparr> el_base = \<lparr> sm_index = e_index (hd es) - 1, sm_term = 0 \<rparr>, el_entries = es \<rparr>) = l"
      using False hd lt by (auto simp: l_def reconcile_def)
    obtain r s' where run: "rewrite_entries c (s\<lparr> ds_log := l \<rparr>) = (r, s')" by (cases "rewrite_entries c (s\<lparr> ds_log := l \<rparr>)")
    have ok: "list_all entry_ok (el_entries (ds_log (s\<lparr> ds_log := l \<rparr>)))"
      using list_all2_rec_ok [OF f(3)] reconcile_entries [of ?base i es] by (auto simp: l_def list_all_iff)
    have wf: "fs_wf (ds_fs (s\<lparr> ds_log := l \<rparr>))" "faults (ds_fs (s\<lparr> ds_log := l \<rparr>)) = []"
      using d3(2) by (simp_all add: s_def fs_ok_def)
    obtain rs' d' where R: "list_all2 rec_of rs' (el_entries l)" "fs_wf d'" "faults d' = []" "r = Inr ()"
      "s' = s\<lparr> ds_log := l, ds_file := ''entries'', ds_offsets := starts 0 rs', ds_end := length (recs_cat rs'), ds_fs := d' \<rparr>"
      "fs_file d' ''entries'' = Some \<lparr> fdata = recs_cat rs', fsynced = length (recs_cat rs') \<rparr>"
      "\<forall>m. m \<notin> {''entries'', ''entries.tmp''} \<longrightarrow> fs_file d' m = fs_file d3 m"
      using rewrite_entries_any [OF wf(1) ok run] wf(2) by (auto simp: s_def)
    have op: "ds_open c d = (Inr s', ds_fs s')"
      using ne lt hd l run [unfolded s_def] R(4) by (simp add: ds_open_def cd rh d1(1) d2(1) d3(1) Let_def)
    have kept: "fs_file d' ''hard-state'' = fs_file d3 ''hard-state''" "fs_file d' ''snapshot'' = fs_file d3 ''snapshot''"
      using R(7) by simp_all
    have "ds_ok s'"
      unfolding ds_ok_def entries_file_def using R hs sn reconcile_wf [OF i] i(2)
      by (auto simp: kept s_def ds_header_def stable_def l_def)
    moreover have "ds_abs s' = \<lparr> ms_hard = h, ms_log = l, ms_snapshot = snap_data (fs_file d ''snapshot'') sh,
      ms_members = sh_members sh, ms_faults = [] \<rparr>"
      using R(5) kept sn_eq by (simp add: ds_abs_def ds_data_def snap_data_def s_def split: option.splits)
    ultimately show ?thesis using op R(2,3,5) by (auto simp: l_def fs_ok_def s_def)
  qed
qed

end
