(* ===== verification/DiskOps.thy ===== *)
theory DiskOps
  imports DiskOpen
begin

text \<open>
  The operations of the consensus storage under any schedule of faults (\<^verbatim>\<open>impl Storage for DiskStorage\<close>,
  \<^verbatim>\<open>src/src/raft/storage.rs\<close>). Each either does what the storage in memory (\<^verbatim>\<open>MemStorage\<close>) does, or
  reports an error and leaves a directory that a crash, with any part of the unsynced bytes
  surviving, and a reopening turn into the state before the operation or the one after it; an append may
  also have got some of its entries, in order, on disk.
\<close>

section \<open>Recovery\<close>

text \<open>Whatever a crash leaves of the directory, opening it succeeds and gives one of the storages in \<open>M\<close>.\<close>

definition recovers :: "fs \<Rightarrow> mem_storage set \<Rightarrow> bool" where
  "recovers d M \<longleftrightarrow> (\<forall>k c. \<exists>s. ds_open c (fs_crash k d) = (Inr s, ds_fs s) \<and> fs_ok (ds_fs s) \<and> ds_ok s \<and> ds_abs s \<in> M)"

definition disk_mem :: "fmap \<Rightarrow> hard_state \<Rightarrow> snap_header \<Rightarrow> nat \<Rightarrow> entry list \<Rightarrow> mem_storage" where
  "disk_mem F h sh i es = \<lparr> ms_hard = h, ms_log = reconcile (sh_meta sh) i es,
     ms_snapshot = snap_data (F ''snapshot'') sh, ms_members = sh_members sh, ms_faults = [] \<rparr>"

lemma hard_on_crash: "hard_on fo h \<Longrightarrow> map_option (crash_file k) fo = fo"
  and snap_on_crash: "snap_on fo sh \<Longrightarrow> map_option (crash_file k) fo = fo"
  and entries_on_crash: "entries_on fo es \<Longrightarrow> map_option (crash_file k) fo = fo"
  by (auto simp: hard_on_def snap_on_def entries_on_def split: option.splits)

lemma recovers_cases:
  assumes "fs_wf d" and "hard_on (fs_file d ''hard-state'') h" and "snap_on (fs_file d ''snapshot'') sh"
    and "\<And>k. \<exists>i es. entries_on (map_option (crash_file k) (fs_file d ''entries'')) es \<and> follows i es \<and>
      i \<le> sm_index (sh_meta sh) \<and> disk_mem (fs_file d) h sh i es \<in> M"
  shows "recovers d M"
  unfolding recovers_def
proof (intro allI)
  fix k c
  obtain i es where e: "entries_on (map_option (crash_file (k ''entries'')) (fs_file d ''entries'')) es" "follows i es"
    "i \<le> sm_index (sh_meta sh)" "disk_mem (fs_file d) h sh i es \<in> M"
    using assms(4) by blast
  have "disk_holds (fs_file (fs_crash k d)) h sh es" and sn: "fs_file (fs_crash k d) ''snapshot'' = fs_file d ''snapshot''"
    using assms(2,3) e(1) hard_on_crash [OF assms(2)] snap_on_crash [OF assms(3)]
    by (simp_all add: disk_holds_def fs_file_crash)
  from ds_open_ok [OF fs_ok_crash [OF assms(1)] this(1) e(2,3), of c] e(4)
  show "\<exists>s. ds_open c (fs_crash k d) = (Inr s, ds_fs s) \<and> fs_ok (ds_fs s) \<and> ds_ok s \<and> ds_abs s \<in> M"
    unfolding disk_mem_def sn by (metis (no_types, lifting))
qed

lemma recovers_holds:
  assumes "fs_wf d" and "disk_holds (fs_file d) h sh es" and "follows i es" and "i \<le> sm_index (sh_meta sh)"
    and "disk_mem (fs_file d) h sh i es \<in> M"
  shows "recovers d M"
  using assms entries_on_crash by (intro recovers_cases [of d h sh]) (auto simp: disk_holds_def, metis)

lemma disk_mem_ok:
  "ds_ok s \<Longrightarrow> disk_mem (fs_file (ds_fs s)) (ds_hard s) (ds_header s) (sm_index (el_base (ds_log s))) (el_entries (ds_log s)) = ds_abs s"
  by (simp add: disk_mem_def ds_abs_def ds_data_snap reconcile_def) (simp add: ds_header_def)

lemma ds_ok_follows: "ds_ok s \<Longrightarrow> follows (sm_index (el_base (ds_log s))) (el_entries (ds_log s))"
  by (simp add: ds_ok_def log_wf_follows)

lemma ds_ok_recovers:
  assumes "ds_ok s" and "ds_abs s \<in> M" shows "recovers (ds_fs s) M"
proof -
  have "fs_wf (ds_fs s)" using assms(1) by (simp add: ds_ok_def)
  then show ?thesis
    using recovers_holds [OF _ ds_ok_holds [OF assms(1)] ds_ok_follows [OF assms(1)]] disk_mem_ok [OF assms(1)] assms(2)
    by (simp add: ds_header_def)
qed

section \<open>What an operation does\<close>

text \<open>From \<open>s\<close> to \<open>s'\<close> with the result \<open>r\<close>: \<open>m\<close> is the storage in memory it has to have on success, \<open>M\<close> are those a
  failure may leave on disk, and \<open>P\<close> the numbers of the part files it may touch.\<close>

definition op_does ::
  "disk_storage \<Rightarrow> disk_storage \<Rightarrow> unit res \<Rightarrow> mem_storage \<Rightarrow> mem_storage set \<Rightarrow> nat set \<Rightarrow> bool" where
  "op_does s s' r m M P \<longleftrightarrow> fs_wf (ds_fs s') \<and>
     (faults (ds_fs s) = [] \<longrightarrow> faults (ds_fs s') = [] \<and> r = Inr ()) \<and>
     (r = Inr () \<longrightarrow> ds_ok s' \<and> ds_abs s' = m) \<and> (r \<noteq> Inr () \<longrightarrow> recovers (ds_fs s') M) \<and>
     ds_next_part s' = ds_next_part s \<and>
     (\<forall>j. j \<notin> P \<longrightarrow> fs_file (ds_fs s') (snap_part_name j) = fs_file (ds_fs s) (snap_part_name j))"

lemma part_names [simp]:
  "snap_part_name j \<noteq> ''hard-state''" "snap_part_name j \<noteq> ''hard-state.tmp''" "snap_part_name j \<noteq> ''entries''"
  "snap_part_name j \<noteq> ''entries.tmp''"
  by (simp_all add: snap_part_name_def)

lemma part_name_snapshot [simp]: "snap_part_name j \<noteq> ''snapshot''"
proof -
  have "length (snap_part_name j) > 8" by (simp add: snap_part_name_def)
  then show ?thesis by auto
qed

lemmas part_names_sym [simp] = part_names [symmetric] part_name_snapshot [symmetric]

lemma part_name_inject [simp]: "snap_part_name i = snap_part_name j \<longleftrightarrow> i = j"
  by (auto simp: snap_part_name_def) (metis parse_dec_digits)

text \<open>The term and the vote.\<close>

lemma ds_save_hard_state_any:
  assumes ok: "ds_ok s" and h: "hs_ok h" and run: "ds_save_hard_state h s = (r, s')"
  shows "op_does s s' r (snd (save_hard_state h (ds_abs s))) {ds_abs s, snd (save_hard_state h (ds_abs s))} {}"
proof (cases "h = ds_hard s")
  case True
  then have "r = Inr ()" "s' = s" "snd (save_hard_state h (ds_abs s)) = ds_abs s"
    using run by (simp_all add: ds_save_hard_state_def save_hard_state_def durably_def ds_abs_def)
  then show ?thesis using ok by (simp add: op_does_def ds_ok_def)
next
  case False
  let ?F = "fs_file (ds_fs s)" and ?n = "\<lparr> fdata = hard_bytes h, fsynced = length (hard_bytes h) \<rparr>"
  obtain q d where w: "write_atomically ''hard-state'' (hard_bytes h) (ds_fs s) = (q, d)"
    by (cases "write_atomically ''hard-state'' (hard_bytes h) (ds_fs s)")
  have wf: "fs_wf (ds_fs s)" using ok by (simp add: ds_ok_def)
  have "fs_wf d" and frame: "\<forall>m. m \<notin> {''hard-state'', ''hard-state.tmp''} \<longrightarrow> fs_file d m = ?F m"
    and new: "q = Inr () \<longrightarrow> fs_file d ''hard-state'' = Some ?n"
    and old: "fs_file d ''hard-state'' = ?F ''hard-state'' \<or> fs_file d ''hard-state'' = Some ?n"
    and live: "faults (ds_fs s) = [] \<longrightarrow> faults d = [] \<and> q = Inr ()"
    using write_atomically_any [OF wf, of "''hard-state''" "hard_bytes h"]
    by (auto simp: io_ok_def w split: sum.splits)
  have kept: "fs_file d ''snapshot'' = ?F ''snapshot''" "fs_file d ''entries'' = ?F ''entries''" using frame by simp_all
  have on: "hard_on (Some ?n) h" using h by (simp add: hard_on_def stable_def parse_hard_bytes)
  have s': "r = q" "s' = (if q = Inr () then s\<lparr> ds_hard := h, ds_fs := d \<rparr> else s\<lparr> ds_fs := d \<rparr>)"
    using run False by (auto simp: ds_save_hard_state_def w split: sum.splits)
  let ?s = "s\<lparr> ds_hard := h, ds_fs := d \<rparr>"
  have m: "snd (save_hard_state h (ds_abs s)) = ds_abs ?s"
    using kept by (simp add: save_hard_state_def durably_def ds_abs_def ds_data_snap ds_header_def)
  have new_ok: "ds_ok ?s" if "fs_file d ''hard-state'' = Some ?n"
    using ok \<open>fs_wf d\<close> kept on that by (simp add: ds_ok_def ds_header_def entries_file_def)
  have old_ok: "ds_ok (s\<lparr> ds_fs := d \<rparr>) \<and> ds_abs (s\<lparr> ds_fs := d \<rparr>) = ds_abs s" if "fs_file d ''hard-state'' = ?F ''hard-state''"
    using ok \<open>fs_wf d\<close> kept that by (simp add: ds_ok_def ds_header_def entries_file_def ds_abs_def ds_data_snap)
  have rec: "recovers d {ds_abs s, ds_abs ?s}"
    using old ds_ok_recovers [of ?s] ds_ok_recovers [of "s\<lparr> ds_fs := d \<rparr>"] new_ok old_ok by auto
  show ?thesis
    unfolding op_does_def m using s' rec new new_ok live frame \<open>fs_wf d\<close> by simp
qed

text \<open>Appending: a failure may leave any beginning of the new bytes after the old ones.\<close>

lemma put_at_end: "off = length (fdata f) \<Longrightarrow> fsynced f \<le> off \<Longrightarrow> put_at off bs f = f\<lparr> fdata := fdata f @ bs \<rparr>"
  by (simp add: put_at_def min_def)

lemma ds_append_io:
  assumes wf: "fs_wf d" and f: "fs_file d n = Some f" "stable f" and off: "off = length (fdata f)"
  shows "io_ok d (io_bind (fs_pwrite n off bs d) (\<lambda>_ d. fs_sync n d))
    (\<lambda>_ F. F = (fs_file d)(n \<mapsto> \<lparr> fdata = fdata f @ bs, fsynced = length (fdata f @ bs) \<rparr>))
    (\<lambda>F. \<exists>k. F = (fs_file d)(n \<mapsto> f\<lparr> fdata := fdata f @ take k bs \<rparr>))"
proof -
  have put: "put_at off xs f = f\<lparr> fdata := fdata f @ xs \<rparr>" for xs
    using off f(2) by (intro put_at_end) (simp_all add: stable_def)
  show ?thesis
  proof (rule io_ok_then [OF io_ok_pwrite [OF wf f(1)]])
    fix F assume "\<exists>k. F = (fs_file d)(n \<mapsto> put_at off (take k bs) f)"
    then show "\<exists>k. F = (fs_file d)(n \<mapsto> f\<lparr> fdata := fdata f @ take k bs \<rparr>)" by (simp add: put)
  next
    fix u :: unit and d' assume d': "fs_wf d'" "fs_file d' = (fs_file d)(n \<mapsto> put_at off bs f)"
    show "io_ok d' (fs_sync n d') (\<lambda>_ F. F = (fs_file d)(n \<mapsto> \<lparr> fdata = fdata f @ bs, fsynced = length (fdata f @ bs) \<rparr>))
      (\<lambda>F. \<exists>k. F = (fs_file d)(n \<mapsto> f\<lparr> fdata := fdata f @ take k bs \<rparr>))"
      by (rule io_ok_conseq [OF io_ok_sync [OF d'(1)]])
         (auto simp: d'(2) put intro: exI [of _ "length bs"])
  qed
qed

text \<open>What a crash may leave of an append: some of the new records whole, one of them in part.\<close>

lemma crash_append:
  assumes "list_all2 rec_of rs es" and "list_all2 rec_of rs' es'" and "stable f" and "fdata f = recs_cat rs"
  shows "\<exists>n \<le> length es'. entries_on (Some (crash_file k (f\<lparr> fdata := fdata f @ take j (recs_cat rs') \<rparr>))) (es @ take n es')"
proof -
  let ?f = "f\<lparr> fdata := fdata f @ take j (recs_cat rs') \<rparr>"
  have "fsynced ?f = length (recs_cat rs)" "fdata ?f = recs_cat rs @ take j (recs_cat rs')"
    using assms(3,4) by (simp_all add: stable_def)
  then obtain i where i: "fdata (crash_file k ?f) = recs_cat rs @ take i (take j (recs_cat rs'))"
    using crash_between by metis
  obtain n t where n: "n \<le> length rs'" "take (min i j) (recs_cat rs') = recs_cat (take n rs') @ t" "cut_short t"
    using take_recs_cut [of rs' "min i j"] list_all2_rec_ok [OF assms(2)] by blast
  have "list_all2 rec_of (rs @ take n rs') (es @ take n es')"
    using assms(1,2) by (simp add: list_all2_appendI list_all2_takeI)
  moreover have "fdata (crash_file k ?f) = recs_cat (rs @ take n rs') @ t" using i n(2) by (simp add: min.commute)
  ultimately show ?thesis
    using n(1,3) list_all2_lengthD [OF assms(2)] unfolding entries_on_def
    by (intro exI [of _ n]) (auto simp del: map_append concat_append)
qed

lemma ds_append_any:
  assumes ok: "ds_ok s" and es: "follows (el_last_index (ds_log s)) es" "list_all entry_ok es"
    and run: "ds_append c es s = (r, s')"
  shows "op_does s s' r (snd (append_entries es (ds_abs s))) (range (\<lambda>n. snd (append_entries (take n es) (ds_abs s)))) {}"
proof (cases "es = []")
  case True
  then have "r = Inr ()" "s' = s" "snd (append_entries es (ds_abs s)) = ds_abs s"
    using run by (simp_all add: ds_append_def append_entries_def durably_def ds_abs_def)
  then show ?thesis using ok by (simp add: op_does_def ds_ok_def)
next
  case False
  let ?F = "fs_file (ds_fs s)" and ?l = "fold el_push es (ds_log s)"
  obtain f rs where f: "?F ''entries'' = Some f" "stable f" "list_all2 rec_of rs (el_entries (ds_log s))" "fdata f = recs_cat rs"
    "ds_offsets s = starts 0 rs" "ds_end s = length (recs_cat rs)"
    using ok by (auto simp: ds_ok_def entries_file_def)
  obtain rs' where rs': "list_all2 rec_of rs' es"
    "encode_entries c (ds_end s) es = Inr (recs_cat rs', starts (ds_end s) rs', ds_end s + length (recs_cat rs'))"
    using encode_entries_recs [OF es(2)] by blast
  have wf: "fs_wf (ds_fs s)" and hnd: "ds_file s = ''entries''" and lwf: "log_wf (ds_log s)" using ok by (simp_all add: ds_ok_def)
  let ?m = "io_bind (fs_pwrite ''entries'' (ds_end s) (recs_cat rs') (ds_fs s)) (\<lambda>_ d. fs_sync ''entries'' d)"
  obtain q d where w: "?m = (q, d)" by (cases ?m)
  have io: "fs_wf d" "faults (ds_fs s) = [] \<longrightarrow> faults d = [] \<and> q = Inr ()"
    "q = Inr () \<longrightarrow> fs_file d = ?F(''entries'' \<mapsto> \<lparr> fdata = recs_cat (rs @ rs'), fsynced = length (recs_cat (rs @ rs')) \<rparr>)"
    "q \<noteq> Inr () \<longrightarrow> (\<exists>j. fs_file d = ?F(''entries'' \<mapsto> f\<lparr> fdata := fdata f @ take j (recs_cat rs') \<rparr>))"
    using ds_append_io [OF wf f(1,2), of "ds_end s" "recs_cat rs'", unfolded w] f(4,6) by (auto simp: io_ok_def split: sum.splits)
  let ?s = "s\<lparr> ds_end := ds_end s + length (recs_cat rs'), ds_log := ?l, ds_offsets := ds_offsets s @ starts (ds_end s) rs', ds_fs := d \<rparr>"
  have s': "r = q" "s' = (if q = Inr () then ?s else s\<lparr> ds_fs := d \<rparr>)"
    using run False by (auto simp: ds_append_def rs'(2) hnd w split: sum.splits)
  have kept: "fs_file d n = ?F n" if "n \<noteq> ''entries''" for n
    using io(3,4) that by (cases "q = Inr ()") auto
  have "ds_ok ?s" if "q = Inr ()"
  proof -
    have "list_all2 rec_of (rs @ rs') (el_entries ?l)" using f(3) rs'(1) by (simp add: fold_push list_all2_appendI)
    then have "entries_file (fs_file d ''entries'') ?s"
      unfolding entries_file_def using io(3) that f(5,6)
      by (intro exI [of _ "\<lparr> fdata = recs_cat (rs @ rs'), fsynced = length (recs_cat (rs @ rs')) \<rparr>"] exI [of _ "rs @ rs'"])
         (simp add: stable_def starts_append)
    then show ?thesis
      using ok io(1) kept log_wf_append [OF lwf es(1)] by (simp add: ds_ok_def ds_header_def)
  qed
  moreover have "snd (append_entries es (ds_abs s)) = ds_abs ?s"
    using kept by (simp add: append_entries_def durably_def ds_abs_def ds_data_snap ds_header_def)
  moreover have "recovers d (range (\<lambda>n. snd (append_entries (take n es) (ds_abs s))))" if bad: "q \<noteq> Inr ()"
  proof -
    obtain j where j: "fs_file d = ?F(''entries'' \<mapsto> f\<lparr> fdata := fdata f @ take j (recs_cat rs') \<rparr>)" using io(4) bad by blast
    show ?thesis
    proof (rule recovers_cases [of d "ds_hard s" "ds_header s"])
      fix k
      obtain n where n: "n \<le> length es" "entries_on (map_option (crash_file k) (fs_file d ''entries'')) (el_entries (ds_log s) @ take n es)"
        using crash_append [OF f(3) rs'(1) f(2,4), of k j] j by auto
      have "follows (el_last_index (ds_log s)) (take n es)"
        using es(1) follows_append [of _ "take n es" "drop n es"] by simp
      then have "follows (sm_index (el_base (ds_log s))) (el_entries (ds_log s) @ take n es)"
        using lwf by (simp add: follows_append log_wf_follows el_last_index_wf)
      moreover have "disk_mem (fs_file d) (ds_hard s) (ds_header s) (sm_index (el_base (ds_log s))) (el_entries (ds_log s) @ take n es)
          = snd (append_entries (take n es) (ds_abs s))"
        using kept
        by (simp add: disk_mem_def append_entries_def durably_def ds_abs_def ds_data_snap reconcile_def fold_push)
           (simp add: ds_header_def)
      ultimately show "\<exists>i es'. entries_on (map_option (crash_file k) (fs_file d ''entries'')) es' \<and> follows i es' \<and>
        i \<le> sm_index (sh_meta (ds_header s)) \<and> disk_mem (fs_file d) (ds_hard s) (ds_header s) i es' \<in> range (\<lambda>n. snd (append_entries (take n es) (ds_abs s)))"
        using n(2) by (intro exI [of _ "sm_index (el_base (ds_log s))"] exI [of _ "el_entries (ds_log s) @ take n es"])
          (simp add: ds_header_def)
    qed (use ok io(1) kept in \<open>simp_all add: ds_ok_def\<close>)
  qed
  ultimately show ?thesis
    unfolding op_does_def using s' io(1,2) kept by simp
qed

text \<open>Truncating: the file is cut at the start of the first entry to go.\<close>

lemma ds_truncate_io:
  assumes wf: "fs_wf d" and f: "fs_file d n = Some f" "stable f" and p: "p \<le> length (fdata f)"
  shows "io_ok d (io_bind (fs_set_len n p d) (\<lambda>_ d. fs_sync n d))
    (\<lambda>_ F. F = (fs_file d)(n \<mapsto> \<lparr> fdata = take p (fdata f), fsynced = p \<rparr>))
    (\<lambda>F. F = fs_file d \<or> F = (fs_file d)(n \<mapsto> \<lparr> fdata = take p (fdata f), fsynced = p \<rparr>))"
proof (rule io_ok_then [OF io_ok_set_len [OF wf f(1) p]])
  fix u :: unit and d'
  assume d': "fs_wf d'" "fs_file d' = (fs_file d)(n \<mapsto> \<lparr> fdata = take p (fdata f), fsynced = min p (fsynced f) \<rparr>)"
  then have g: "fs_file d' n = Some \<lparr> fdata = take p (fdata f), fsynced = p \<rparr>"
    using p f(2) by (simp add: stable_def min_def)
  show "io_ok d' (fs_sync n d') (\<lambda>_ F. F = (fs_file d)(n \<mapsto> \<lparr> fdata = take p (fdata f), fsynced = p \<rparr>))
    (\<lambda>F. F = fs_file d \<or> F = (fs_file d)(n \<mapsto> \<lparr> fdata = take p (fdata f), fsynced = p \<rparr>))"
    by (rule io_ok_conseq [OF io_ok_sync [OF d'(1) g]]) (use d'(2) p f(2) in \<open>auto simp: stable_def min_def\<close>)
qed simp

lemma ds_truncate_any:
  assumes ok: "ds_ok s" and run: "ds_truncate_from i s = (r, s')"
  shows "op_does s s' r (snd (truncate_from i (ds_abs s))) {ds_abs s, snd (truncate_from i (ds_abs s))} {}"
proof -
  let ?F = "fs_file (ds_fs s)"
  obtain l keep where lk: "el_truncate_from i (ds_log s) = (l, keep)" by (cases "el_truncate_from i (ds_log s)")
  then have l: "l = (ds_log s)\<lparr> el_entries := take keep (el_entries (ds_log s)) \<rparr>" "keep \<le> length (el_entries (ds_log s))"
    by (auto simp: el_truncate_from_def Let_def)
  obtain f rs where f: "?F ''entries'' = Some f" "stable f" "list_all2 rec_of rs (el_entries (ds_log s))" "fdata f = recs_cat rs"
    "ds_offsets s = starts 0 rs" "ds_end s = length (recs_cat rs)"
    using ok by (auto simp: ds_ok_def entries_file_def)
  have len: "length rs = length (el_entries (ds_log s))" using f(3) by (rule list_all2_lengthD)
  have wf: "fs_wf (ds_fs s)" "ds_file s = ''entries''" "log_wf l"
    using ok log_wf_truncate [of "ds_log s" i] lk by (simp_all add: ds_ok_def)
  have m: "snd (truncate_from i (ds_abs s)) = (ds_abs s)\<lparr> ms_log := l \<rparr>"
    by (simp add: truncate_from_def durably_def ds_abs_def lk)
  show ?thesis
  proof (cases "keep \<ge> length rs")
    case True
    then have "l = ds_log s" using l len by simp
    moreover have "r = Inr ()" "s' = s\<lparr> ds_log := l \<rparr>" using run True f(5) by (simp_all add: ds_truncate_from_def lk)
    ultimately show ?thesis using ok m wf(1) by (simp add: op_does_def ds_abs_def)
  next
    case False
    define p where "p = length (recs_cat (take keep rs))"
    have p: "starts 0 rs ! keep = p" using False by (simp add: starts_nth p_def)
    have tk: "take p (fdata f) = recs_cat (take keep rs)"
      using f(4) by (metis append_take_drop_id concat_map_append p_def take_length_append)
    then have pl: "p \<le> length (fdata f)" by (metis length_take min.cobounded1 p_def)
    let ?m = "io_bind (fs_set_len ''entries'' p (ds_fs s)) (\<lambda>_ d. fs_sync ''entries'' d)"
    obtain q d where w: "?m = (q, d)" by (cases ?m)
    let ?f = "\<lparr> fdata = recs_cat (take keep rs), fsynced = p \<rparr>"
    have io: "fs_wf d" "faults (ds_fs s) = [] \<longrightarrow> faults d = [] \<and> q = Inr ()" "q = Inr () \<longrightarrow> fs_file d = ?F(''entries'' \<mapsto> ?f)"
      "fs_file d = ?F \<or> fs_file d = ?F(''entries'' \<mapsto> ?f)"
      using ds_truncate_io [OF wf(1) f(1,2) pl, unfolded w] tk by (auto simp: io_ok_def split: sum.splits)
    let ?s = "s\<lparr> ds_log := l, ds_offsets := take keep (ds_offsets s), ds_end := p, ds_fs := d \<rparr>"
    have s': "r = q" "s' = (if q = Inr () then ?s else s\<lparr> ds_log := l, ds_fs := d \<rparr>)"
      using run False f(5) wf(2) w by (auto simp: ds_truncate_from_def lk p Let_def split: sum.splits)
    have kept: "fs_file d n = ?F n" if "n \<noteq> ''entries''" for n using io(4) that by auto
    have abs: "ds_abs ?s = (ds_abs s)\<lparr> ms_log := l \<rparr>" using kept l(1) by (simp add: ds_abs_def ds_data_snap ds_header_def)
    have new: "ds_ok ?s" if "fs_file d = ?F(''entries'' \<mapsto> ?f)"
      using ok that wf(3) io(1) l(1) f(3,5) unfolding ds_ok_def entries_file_def
      by (auto simp: ds_header_def stable_def p_def starts_take list_all2_takeI intro!: exI [of _ "take keep rs"])
    have old: "ds_ok (s\<lparr> ds_fs := d \<rparr>) \<and> ds_abs (s\<lparr> ds_fs := d \<rparr>) = ds_abs s" if "fs_file d = ?F"
      using ok that io(1) by (simp add: ds_ok_def ds_header_def entries_file_def ds_abs_def ds_data_snap)
    have "recovers d {ds_abs s, (ds_abs s)\<lparr> ms_log := l \<rparr>}"
      using io(4) new old ds_ok_recovers [of ?s] ds_ok_recovers [of "s\<lparr> ds_fs := d \<rparr>"] abs by auto
    then show ?thesis
      unfolding op_does_def m using s' io(1-3) kept new abs by simp
  qed
qed

end
