(* ===== verification/DiskSnap.thy ===== *)
theory DiskSnap
  imports DiskOps
begin

text \<open>
  Snapshots on their way to disk (\<^verbatim>\<open>DiskSnapshot\<close>, \<^verbatim>\<open>new_snapshot\<close>, \<^verbatim>\<open>install_snapshot\<close> of
  \<^verbatim>\<open>src/src/raft/storage.rs\<close>): a part file stands for the snapshot being built in memory, a finished one
  is a snapshot file that reads back, and installing it is one step as far as a crash can tell.
\<close>

section \<open>A snapshot being written\<close>

definition sink_holds :: "fmap \<Rightarrow> nat \<Rightarrow> disk_snapshot \<Rightarrow> mem_snapshot \<Rightarrow> bool" where
  "sink_holds F p k m \<longleftrightarrow>
     dn_meta k = sk_meta m \<and> dn_members k = sk_members m \<and> snap_ok (sk_meta m) (sk_members m) \<and>
     dn_header k = snapshot_header (sk_meta m) (sk_members m) \<and> dn_path k = snap_part_name p \<and>
     dn_written k = length (sk_data m) \<and> dn_crc k = crc32_feed crc32_new (dn_header k @ sk_data m) \<and>
     (\<exists>w f x. dn_file k = Some w \<and> bw_name w = snap_part_name p \<and> F (snap_part_name p) = Some f \<and>
       fdata f = replicate (8 + length (dn_header k)) 0 @ x \<and> x @ bw_buf w = sk_data m)"

lemma sink_holds_frame: "sink_holds F p k m \<Longrightarrow> F' (snap_part_name p) = F (snap_part_name p) \<Longrightarrow> sink_holds F' p k m"
  unfolding sink_holds_def by metis

lemma ds_new_snapshot_any:
  assumes wf: "fs_wf (ds_fs s)" and ok: "snap_ok meta mems" and run: "ds_new_snapshot meta mems s = (r, s')"
  shows "\<exists>d. s' = s\<lparr> ds_next_part := Suc (ds_next_part s), ds_fs := d \<rparr> \<and> fs_wf d \<and>
    (faults (ds_fs s) = [] \<longrightarrow> faults d = [] \<and> (\<exists>k. r = Inr k)) \<and>
    (\<forall>n. n \<noteq> snap_part_name (Suc (ds_next_part s)) \<longrightarrow> fs_file d n = fs_file (ds_fs s) n) \<and>
    (\<forall>k. r = Inr k \<longrightarrow> sink_holds (fs_file d) (Suc (ds_next_part s)) k \<lparr> sk_meta = meta, sk_members = mems, sk_data = [] \<rparr>)"
proof -
  let ?p = "snap_part_name (Suc (ds_next_part s))" and ?z = "replicate (8 + length (snapshot_header meta mems)) (0 :: byte)"
  let ?m = "io_bind (fs_create ?p (ds_fs s)) (\<lambda>_ d. fs_write_all ?p ?z d)"
  obtain q d where w: "?m = (q, d)" by (cases ?m)
  have "io_ok (ds_fs s) ?m (\<lambda>_ F. F = (fs_file (ds_fs s))(?p \<mapsto> \<lparr> fdata = ?z, fsynced = 0 \<rparr>))
    (\<lambda>F. \<forall>n. n \<noteq> ?p \<longrightarrow> F n = fs_file (ds_fs s) n)"
    apply (rule io_ok_then [OF io_ok_create [OF wf]], simp)
    apply (rule io_ok_conseq [OF io_ok_write [where f = "\<lparr> fdata = [], fsynced = 0 \<rparr>"]], assumption, simp, simp, force)
    done
  then have io: "fs_wf d" "faults (ds_fs s) = [] \<longrightarrow> faults d = [] \<and> q = Inr ()" "\<forall>n. n \<noteq> ?p \<longrightarrow> fs_file d n = fs_file (ds_fs s) n"
    "q = Inr () \<longrightarrow> fs_file d ?p = Some \<lparr> fdata = ?z, fsynced = 0 \<rparr>"
    unfolding w by (auto simp: io_ok_def split: sum.splits)
  show ?thesis
  proof (cases q)
    case (Inl e)
    then have "r = Inl e" "s' = s\<lparr> ds_next_part := Suc (ds_next_part s), ds_fs := d \<rparr>"
      using run w by (simp_all add: ds_new_snapshot_def Let_def)
    then show ?thesis using io Inl by auto
  next
    case (Inr u)
    let ?k = "\<lparr> dn_meta = meta, dn_members = mems, dn_header = snapshot_header meta mems,
      dn_file = Some \<lparr> bw_name = ?p, bw_cap = SNAP_BUF_CAP, bw_buf = [] \<rparr>, dn_path = ?p,
      dn_crc = crc32_feed crc32_new (snapshot_header meta mems), dn_written = 0 \<rparr>"
    have "r = Inr ?k" "s' = s\<lparr> ds_next_part := Suc (ds_next_part s), ds_fs := d \<rparr>"
      using run w Inr by (simp_all add: ds_new_snapshot_def Let_def)
    then show ?thesis using io Inr ok by (auto simp: sink_holds_def)
  qed
qed

lemma snap_write_any:
  assumes wf: "fs_wf d" and k: "sink_holds (fs_file d) p k m" and run: "snap_write k bs d = (r, k', d')"
  shows "fs_wf d' \<and> (faults d = [] \<longrightarrow> faults d' = [] \<and> r = Inr ()) \<and>
    (\<forall>n. n \<noteq> snap_part_name p \<longrightarrow> fs_file d' n = fs_file d n) \<and>
    (r = Inr () \<longrightarrow> sink_holds (fs_file d') p k' (sink_write bs m))"
proof -
  obtain w f x where w: "dn_file k = Some w" "bw_name w = snap_part_name p" "fs_file d (bw_name w) = Some f"
    "fdata f = replicate (8 + length (dn_header k)) 0 @ x" "x @ bw_buf w = sk_data m"
    using k by (auto simp: sink_holds_def)
  obtain q w' e where b: "buf_write_all w bs d = (q, w', e)" by (cases "buf_write_all w bs d")
  obtain g y where g: "fs_wf e" "bw_name w' = bw_name w" "fs_file e = (fs_file d)(bw_name w \<mapsto> g)" "fdata g = fdata f @ y"
    "q = Inr () \<longrightarrow> fdata g @ bw_buf w' = fdata f @ bw_buf w @ bs" "faults d = [] \<longrightarrow> faults e = [] \<and> q = Inr ()"
    using buf_write_all_any [OF wf w(3) b] by blast
  have r: "r = q" "d' = e" "q = Inr () \<Longrightarrow> k' = k\<lparr> dn_file := Some w', dn_crc := crc32_feed (dn_crc k) bs, dn_written := dn_written k + length bs \<rparr>"
    using run w(1) by (auto simp: snap_write_def b split: sum.splits)
  have "sink_holds (fs_file e) p k' (sink_write bs m)" if q: "q = Inr ()"
  proof -
    have "y @ bw_buf w' = bw_buf w @ bs" using g(4,5) q by simp
    then have "(x @ y) @ bw_buf w' = sk_data m @ bs" using w(5) by (metis append.assoc)
    then show ?thesis
      using k w g(2-4) by (auto simp: sink_holds_def sink_write_def r(3) [OF q] crc32_feed_feed)
  qed
  then show ?thesis using g(1,3,6) r(1,2) w(2) by auto
qed

lemma snap_flush_any:
  assumes wf: "fs_wf d" and k: "sink_holds (fs_file d) p k m" and run: "snap_flush k d = (r, k', d')"
  shows "fs_wf d' \<and> (faults d = [] \<longrightarrow> faults d' = [] \<and> r = Inr ()) \<and>
    (\<forall>n. n \<noteq> snap_part_name p \<longrightarrow> fs_file d' n = fs_file d n) \<and>
    (r = Inr () \<longrightarrow> sink_holds (fs_file d') p k' m)"
proof -
  obtain w f x where w: "dn_file k = Some w" "bw_name w = snap_part_name p" "fs_file d (bw_name w) = Some f"
    "fdata f = replicate (8 + length (dn_header k)) 0 @ x" "x @ bw_buf w = sk_data m"
    using k by (auto simp: sink_holds_def)
  obtain q w' e where b: "buf_flush w d = (q, w', e)" by (cases "buf_flush w d")
  obtain g y where g: "fs_file e = (fs_file d)(bw_name w \<mapsto> g)" "fdata g = fdata f @ y"
    "q = Inr () \<longrightarrow> fdata g @ bw_buf w' = fdata f @ bw_buf w \<and> bw_buf w' = []"
    using buf_flush_any(4) [OF wf w(3) b] by blast
  note b' = buf_flush_any(1,2,5) [OF wf w(3) b]
  have r: "r = q" "d' = e" "k' = k\<lparr> dn_file := Some w' \<rparr>"
    using run w(1) by (auto simp: snap_flush_def b)
  have "sink_holds (fs_file e) p k' m" if q: "q = Inr ()"
  proof -
    have "y @ bw_buf w' = bw_buf w" using g(2,3) q by auto
    then have "(x @ y) @ bw_buf w' = sk_data m" using w(5) by (metis append.assoc)
    then show ?thesis using k w g(1,2) b'(2) by (auto simp: sink_holds_def r(3))
  qed
  then show ?thesis using g(1) b'(1,3) r(1,2) w(2) by auto
qed

lemma buf_drop_any:
  assumes "fs_wf d" and "fs_file d (bw_name w) = Some f"
  shows "fs_wf (buf_drop w d) \<and> (\<exists>g. fs_file (buf_drop w d) = (fs_file d)(bw_name w \<mapsto> g)) \<and>
    (faults d = [] \<longrightarrow> faults (buf_drop w d) = [])"
proof -
  obtain q w' e where b: "buf_flush w d = (q, w', e)" by (cases "buf_flush w d")
  show ?thesis using buf_flush_any [OF assms b] by (auto simp: buf_drop_def b)
qed

lemma snap_drop_any:
  assumes wf: "fs_wf d" and k: "sink_holds (fs_file d) p k m"
  shows "fs_wf (snap_drop k d) \<and> (faults d = [] \<longrightarrow> faults (snap_drop k d) = []) \<and>
    (\<forall>n. n \<noteq> snap_part_name p \<longrightarrow> fs_file (snap_drop k d) n = fs_file d n)"
proof -
  obtain w f where w: "dn_file k = Some w" "bw_name w = snap_part_name p" "fs_file d (bw_name w) = Some f" "dn_path k = snap_part_name p"
    using k by (auto simp: sink_holds_def)
  obtain g where g: "fs_wf (buf_drop w d)" "fs_file (buf_drop w d) = (fs_file d)(bw_name w \<mapsto> g)"
    "faults d = [] \<longrightarrow> faults (buf_drop w d) = []"
    using buf_drop_any [OF wf w(3)] by blast
  have "fs_file (buf_drop w d) (snap_part_name p) = Some g" using g(2) w(2) by simp
  from io_ok_remove [OF g(1) this] show ?thesis
    using g w by (auto simp: snap_drop_def io_ok_def split: sum.splits)
qed

section \<open>Finishing and installing\<close>

lemma front_filled:
  assumes "length h = n" and "fdata f = replicate (8 + n) 0 @ bs" and "length a = 4" and "length b = 4"
  shows "fdata (put_at 8 h (put_at 4 b (put_at 0 a f))) = a @ b @ h @ bs"
  using assms by (simp add: put_at_def)

lemma snap_finish_any:
  assumes wf: "fs_wf d" and k: "sink_holds (fs_file d) p k m"
  shows "io_ok d (snap_finish k d)
    (\<lambda>part F. part = snap_part_name p \<and> F = (fs_file d)(snap_part_name p \<mapsto>
       \<lparr> fdata = snap_bytes (sk_meta m) (sk_members m) (sk_data m),
         fsynced = length (snap_bytes (sk_meta m) (sk_members m) (sk_data m)) \<rparr>))
    (\<lambda>F. \<exists>g. F = (fs_file d)(snap_part_name p \<mapsto> g))" (is "io_ok d _ ?Q ?E")
proof -
  let ?path = "snap_part_name p" and ?h = "snapshot_header (sk_meta m) (sk_members m)"
  obtain w f x where w: "dn_file k = Some w" "bw_name w = ?path" "fs_file d (bw_name w) = Some f"
    "fdata f = replicate (8 + length (dn_header k)) 0 @ x" "x @ bw_buf w = sk_data m"
    using k by (auto simp: sink_holds_def)
  have k': "dn_path k = ?path" "dn_header k = ?h" "crc32_finish (dn_crc k) = crc32_parts [?h, sk_data m]"
    using k by (simp_all add: sink_holds_def crc32_finish_parts crc32_parts_two)
  obtain q w' e where b: "buf_flush w d = (q, w', e)" by (cases "buf_flush w d")
  obtain g y where g: "fs_file e = (fs_file d)(?path \<mapsto> g)" "fdata g = fdata f @ y"
    "q = Inr () \<longrightarrow> fdata g @ bw_buf w' = fdata f @ bw_buf w \<and> bw_buf w' = []"
    using buf_flush_any(4) [OF wf w(3) b] w(2) by auto
  note b' = buf_flush_any(1,2,5) [OF wf w(3) b]
  show ?thesis
  proof (cases q)
    case (Inl err)
    obtain g' where "fs_wf (buf_drop w' e)" "fs_file (buf_drop w' e) = (fs_file e)(bw_name w' \<mapsto> g')"
      using buf_drop_any [OF b'(1), of w' g] b'(2) w(2) g(1) by auto
    then show ?thesis
      using b' g(1) w(2) Inl by (auto simp: snap_finish_def w(1) b io_ok_def)
  next
    case (Inr u)
    then have data: "fdata g = replicate (8 + length ?h) 0 @ sk_data m" using g w(4,5) k'(2) by auto
    let ?c = "le_bytes 4 (unat (crc32_parts [?h, sk_data m]))"
    let ?g1 = "put_at 0 SNAPSHOT_MAGIC g" let ?g2 = "put_at 4 ?c ?g1" let ?g3 = "put_at 8 ?h ?g2"
    have g3: "fdata ?g3 = snap_bytes (sk_meta m) (sk_members m) (sk_data m)"
      using front_filled [OF refl data, of SNAPSHOT_MAGIC ?c] by (simp add: snap_bytes_def SNAPSHOT_MAGIC_def)
    have g3': "?g3\<lparr> fsynced := j \<rparr> = \<lparr> fdata = snap_bytes (sk_meta m) (sk_members m) (sk_data m), fsynced = j \<rparr>" for j
      using g3 by (cases ?g3) simp
    have fin: "snap_finish k d = io_bind (fs_pwrite ?path 0 SNAPSHOT_MAGIC e) (\<lambda>_ d. io_bind (fs_pwrite ?path 4 ?c d) (\<lambda>_ d.
        io_bind (fs_pwrite ?path 8 ?h d) (\<lambda>_ d. io_bind (fs_sync ?path d) (\<lambda>_ d. (Inr ?path, d)))))"
      by (simp add: snap_finish_def w(1) b Inr k')
    have "io_ok e (snap_finish k d) ?Q ?E"
      unfolding fin
      apply (rule io_ok_then [OF io_ok_pwrite [OF b'(1), of _ g]], simp add: g(1), force simp: g(1))
      apply (rule io_ok_then [OF io_ok_pwrite [where f = ?g1]], assumption, simp, force simp: g(1))
      apply (rule io_ok_then [OF io_ok_pwrite [where f = ?g2]], assumption, simp, force simp: g(1))
      apply (rule io_ok_then [OF io_ok_sync [where f = ?g3]], assumption, simp, force simp: g(1))
      apply (rule io_ok_return, assumption, simp add: g(1) g3 g3')
      done
    then show ?thesis using b'(3) by (auto simp: io_ok_def)
  qed
qed

text \<open>The rename that makes a finished part file the snapshot.\<close>

lemma snap_install_io:
  assumes wf: "fs_wf d" and k: "sink_holds (fs_file d) p k m"
    and new: "new = \<lparr> fdata = snap_bytes (sk_meta m) (sk_members m) (sk_data m),
         fsynced = length (snap_bytes (sk_meta m) (sk_members m) (sk_data m)) \<rparr>"
    and run: "io_bind (snap_finish k d) (\<lambda>part d. io_bind (fs_rename part ''snapshot'' d) (\<lambda>_ d. fs_sync_dir d)) = (q, d')"
  shows "fs_wf d'" "faults d = [] \<Longrightarrow> faults d' = [] \<and> q = Inr ()"
    "fs_file d' ''snapshot'' = fs_file d ''snapshot'' \<or> fs_file d' ''snapshot'' = Some new"
    "q = Inr () \<Longrightarrow> fs_file d' ''snapshot'' = Some new"
    "n \<noteq> ''snapshot'' \<Longrightarrow> n \<noteq> snap_part_name p \<Longrightarrow> fs_file d' n = fs_file d n"
proof -
  let ?P = "\<lambda>F. (\<forall>n. n \<noteq> ''snapshot'' \<longrightarrow> n \<noteq> snap_part_name p \<longrightarrow> F n = fs_file d n)"
  have "io_ok d (q, d') (\<lambda>_ F. F ''snapshot'' = Some new \<and> ?P F)
      (\<lambda>F. (F ''snapshot'' = fs_file d ''snapshot'' \<or> F ''snapshot'' = Some new) \<and> ?P F)"
    unfolding run [symmetric]
  proof (rule io_ok_then [OF snap_finish_any [OF wf k]])
    fix part d1
    assume d1: "fs_wf d1" "part = snap_part_name p \<and> fs_file d1 = (fs_file d)(snap_part_name p \<mapsto>
       \<lparr> fdata = snap_bytes (sk_meta m) (sk_members m) (sk_data m),
         fsynced = length (snap_bytes (sk_meta m) (sk_members m) (sk_data m)) \<rparr>)"
    then have f: "fs_file d1 part = Some new" by (simp add: new)
    show "io_ok d1 (io_bind (fs_rename part ''snapshot'' d1) (\<lambda>_ d. fs_sync_dir d)) (\<lambda>_ F. F ''snapshot'' = Some new \<and> ?P F)
      (\<lambda>F. (F ''snapshot'' = fs_file d ''snapshot'' \<or> F ''snapshot'' = Some new) \<and> ?P F)"
      apply (rule io_ok_then [OF io_ok_rename [OF d1(1) f]], use d1(2) new in auto)
      apply (rule io_ok_conseq [OF io_ok_sync_dir], assumption, use d1(2) new in auto)
      done
  qed auto
  then show "fs_wf d'" "faults d = [] \<Longrightarrow> faults d' = [] \<and> q = Inr ()"
    "fs_file d' ''snapshot'' = fs_file d ''snapshot'' \<or> fs_file d' ''snapshot'' = Some new"
    "q = Inr () \<Longrightarrow> fs_file d' ''snapshot'' = Some new"
    "n \<noteq> ''snapshot'' \<Longrightarrow> n \<noteq> snap_part_name p \<Longrightarrow> fs_file d' n = fs_file d n"
    by (auto simp: io_ok_def split: sum.splits)
qed

text \<open>The directory once the new snapshot has its name, whatever has become of the entries file.\<close>

definition new_header :: "mem_snapshot \<Rightarrow> snap_header" where
  "new_header m = \<lparr> sh_meta = sk_meta m, sh_members = sk_members m,
     sh_data_at = 8 + length (snapshot_header (sk_meta m) (sk_members m)), sh_data_len = length (sk_data m) \<rparr>"

definition new_snap_file :: "mem_snapshot \<Rightarrow> dfile" where
  "new_snap_file m = \<lparr> fdata = snap_bytes (sk_meta m) (sk_members m) (sk_data m),
     fsynced = length (snap_bytes (sk_meta m) (sk_members m) (sk_data m)) \<rparr>"

lemma new_snap_file_on: "snap_ok (sk_meta m) (sk_members m) \<Longrightarrow> snap_on (Some (new_snap_file m)) (new_header m)"
  by (simp add: snap_on_def stable_def new_snap_file_def new_header_def parse_snap_bytes)

lemma new_snap_file_data: "snap_data (Some (new_snap_file m)) (new_header m) = sk_data m"
proof -
  define front where "front = SNAPSHOT_MAGIC @ le_bytes 4 (unat (crc32_parts [snapshot_header (sk_meta m) (sk_members m), sk_data m]))
    @ snapshot_header (sk_meta m) (sk_members m)"
  have "snap_bytes (sk_meta m) (sk_members m) (sk_data m) = front @ sk_data m"
    "length front = 8 + length (snapshot_header (sk_meta m) (sk_members m))"
    by (simp_all add: front_def snap_bytes_def SNAPSHOT_MAGIC_def)
  then show ?thesis by (simp add: snap_data_def new_snap_file_def new_header_def)
qed

lemma recovers_new_snapshot:
  assumes ok: "ds_ok s" and sn: "snap_ok (sk_meta m) (sk_members m)"
    and newer: "sm_index (el_base (ds_log s)) < sm_index (sk_meta m)"
    and d: "fs_wf d" "fs_file d ''hard-state'' = fs_file (ds_fs s) ''hard-state''" "fs_file d ''snapshot'' = Some (new_snap_file m)"
    and es: "entries_on (fs_file d ''entries'') (el_entries (ds_log s)) \<or>
      entries_on (fs_file d ''entries'') (el_entries (fst (el_compact (sk_meta m) (ds_log s))))"
  shows "recovers d {snd (install_snapshot m (ds_abs s))}"
proof -
  let ?l = "fst (el_compact (sk_meta m) (ds_log s))"
  have wf: "log_wf (ds_log s)" using ok by (simp add: ds_ok_def)
  have base: "el_base ?l = sk_meta m" "?l = \<lparr> el_base = sk_meta m, el_entries = el_entries ?l \<rparr>"
    using newer by (simp_all add: el_compact_def)
  have m: "snd (install_snapshot m (ds_abs s)) = \<lparr> ms_hard = ds_hard s, ms_log = ?l, ms_snapshot = sk_data m,
      ms_members = sk_members m, ms_faults = [] \<rparr>"
    using newer by (simp add: install_snapshot_def durably_def ds_abs_def el_compact_def)
  have hs: "hard_on (fs_file d ''hard-state'') (ds_hard s)" using ok d(2) by (simp add: ds_ok_def)
  have on: "snap_on (fs_file d ''snapshot'') (new_header m)" using new_snap_file_on [OF sn] d(3) by simp
  from es show ?thesis
  proof
    assume e: "entries_on (fs_file d ''entries'') (el_entries (ds_log s))"
    show ?thesis
      using recovers_holds [OF d(1) _ ds_ok_follows [OF ok], of "ds_hard s" "new_header m"] hs on e newer
        reconcile_compact [OF wf newer]
      by (simp add: disk_holds_def disk_mem_def d(3) new_snap_file_data m) (simp add: new_header_def)
  next
    assume e: "entries_on (fs_file d ''entries'') (el_entries ?l)"
    have "follows (sm_index (sk_meta m)) (el_entries ?l)"
      using log_wf_compact [OF wf, of "sk_meta m"] base(1) by (simp add: log_wf_follows)
    then show ?thesis
      using recovers_holds [OF d(1), of "ds_hard s" "new_header m" "el_entries ?l" "sm_index (sk_meta m)"] hs on e base(2)
      by (simp add: disk_holds_def disk_mem_def d(3) new_snap_file_data m reconcile_def) (simp add: new_header_def)
  qed
qed

lemma ds_install_any:
  assumes ok: "ds_ok s" and k: "sink_holds (fs_file (ds_fs s)) p k m" and run: "ds_install_snapshot c k s = (r, s')"
  shows "op_does s s' r (snd (install_snapshot m (ds_abs s))) {ds_abs s, snd (install_snapshot m (ds_abs s))} {p}"
proof (cases "sm_index (sk_meta m) \<le> sm_index (el_base (ds_log s))")
  case True
  have wf: "fs_wf (ds_fs s)" using ok by (simp add: ds_ok_def)
  note dr = snap_drop_any [OF wf k]
  have "r = Inr ()" "s' = s\<lparr> ds_fs := snap_drop k (ds_fs s) \<rparr>"
    using run True k by (simp_all add: ds_install_snapshot_def sink_holds_def)
  moreover have "snd (install_snapshot m (ds_abs s)) = ds_abs s"
    using True by (simp add: install_snapshot_def durably_def ds_abs_def el_compact_def)
  ultimately show ?thesis
    using ok dr by (simp add: op_does_def ds_ok_def ds_header_def entries_file_def ds_abs_def ds_data_snap)
next
  case False
  let ?F = "fs_file (ds_fs s)" and ?l = "fst (el_compact (sk_meta m) (ds_log s))"
  let ?m = "io_bind (snap_finish k (ds_fs s)) (\<lambda>part d. io_bind (fs_rename part ''snapshot'' d) (\<lambda>_ d. fs_sync_dir d))"
  obtain q d where w: "?m = (q, d)" by (cases ?m)
  have wf: "fs_wf (ds_fs s)" "log_wf (ds_log s)" and newer: "sm_index (el_base (ds_log s)) < sm_index (sk_meta m)"
    using ok False by (simp_all add: ds_ok_def)
  note io = snap_install_io [OF wf(1) k new_snap_file_def w]
  have kept: "fs_file d n = ?F n" if "n \<in> {''hard-state'', ''entries''}" for n using io(5) [of n] that by auto
  have sn: "snap_ok (sk_meta m) (sk_members m)" using k by (simp add: sink_holds_def)
  have old_es: "entries_on (fs_file d ''entries'') (el_entries (ds_log s))" using ds_ok_holds [OF ok] kept by (simp add: disk_holds_def)
  have mk: "dn_meta k = sk_meta m" using k by (simp add: sink_holds_def)
  let ?M = "{ds_abs s, snd (install_snapshot m (ds_abs s))}"
  have more: "recovers e {snd (install_snapshot m (ds_abs s))} \<Longrightarrow> recovers e ?M" for e by (force simp: recovers_def)
  show ?thesis
  proof (cases "q = Inr ()")
    case bad: False
    then have s': "r = q" "s' = s\<lparr> ds_fs := d \<rparr>"
      using run False mk w by (auto simp: ds_install_snapshot_def Let_def split: sum.splits)
    have "recovers d ?M"
      using io(3)
    proof
      assume "fs_file d ''snapshot'' = ?F ''snapshot''"
      then have "ds_ok s'" "ds_abs s' = ds_abs s" using ok io(1) kept
        by (simp_all add: s' ds_ok_def ds_header_def entries_file_def ds_abs_def ds_data_snap)
      then show ?thesis using ds_ok_recovers [of s' ?M] by (simp add: s')
    next
      assume "fs_file d ''snapshot'' = Some (new_snap_file m)"
      then show ?thesis using recovers_new_snapshot [OF ok sn newer io(1)] kept old_es by (intro more) simp
    qed
    then show ?thesis using bad s' io(1,2,5) by (auto simp: op_does_def)
  next
    case good: True
    define t where "t = s\<lparr> ds_snapshot_len := dn_written k, ds_data_at := 8 + length (dn_header k), ds_members := dn_members k,
      ds_log := ?l, ds_fs := d \<rparr>"
    have rw: "rewrite_entries c t = (r, s')"
      using run False mk w good by (simp add: ds_install_snapshot_def t_def Let_def)
    have t: "ds_header t = new_header m" "ds_fs t = d" "ds_log t = ?l" "ds_hard t = ds_hard s"
      using k newer by (simp_all add: t_def ds_header_def new_header_def sink_holds_def el_compact_def)
    have "set (el_entries ?l) \<subseteq> set (el_entries (ds_log s))"
      using newer by (auto simp: el_compact_def dest: in_set_dropD)
    then have es: "list_all entry_ok (el_entries (ds_log t))"
      using ok list_all2_rec_ok by (fastforce simp: ds_ok_def entries_file_def list_all_iff t(3))
    obtain rs d' where R: "list_all2 rec_of rs (el_entries ?l)" "ds_fs s' = d'" "fs_wf d'"
      "faults d = [] \<longrightarrow> faults d' = [] \<and> r = Inr ()"
      "r = Inr () \<longrightarrow> s' = t\<lparr> ds_file := ''entries'', ds_offsets := starts 0 rs, ds_end := length (recs_cat rs), ds_fs := d' \<rparr> \<and>
         fs_file d' ''entries'' = Some \<lparr> fdata = recs_cat rs, fsynced = length (recs_cat rs) \<rparr>"
      "fs_file d' ''entries'' = fs_file d ''entries'' \<or> fs_file d' ''entries'' = Some \<lparr> fdata = recs_cat rs, fsynced = length (recs_cat rs) \<rparr>"
      "\<forall>n. n \<notin> {''entries'', ''entries.tmp''} \<longrightarrow> fs_file d' n = fs_file d n"
      using rewrite_entries_any [OF _ es rw] io(1) t by auto
    have files: "fs_file d' ''snapshot'' = Some (new_snap_file m)" "fs_file d' ''hard-state'' = ?F ''hard-state''"
      using R(7) io(4) [OF good] kept by simp_all
    have new_es: "entries_on (Some \<lparr> fdata = recs_cat rs, fsynced = length (recs_cat rs) \<rparr>) (el_entries ?l)"
      using R(1) by (force simp: entries_on_def stable_def intro: cut_short_Nil)
    have "recovers d' {snd (install_snapshot m (ds_abs s))}"
      using R(6) old_es new_es by (intro recovers_new_snapshot [OF ok sn newer R(3) files(2,1)]) auto
    moreover have "ds_ok s' \<and> ds_abs s' = snd (install_snapshot m (ds_abs s))" if r: "r = Inr ()"
    proof -
      have s': "s' = t\<lparr> ds_file := ''entries'', ds_offsets := starts 0 rs, ds_end := length (recs_cat rs), ds_fs := d' \<rparr>"
        "fs_file d' ''entries'' = Some \<lparr> fdata = recs_cat rs, fsynced = length (recs_cat rs) \<rparr>" using R(5) r by simp_all
      have hd: "ds_header s' = new_header m" using t(1) by (simp add: s'(1) ds_header_def)
      have "entries_file (fs_file d' ''entries'') s'"
        unfolding entries_file_def using R(1) s' t(3) by (intro exI [of _ "\<lparr> fdata = recs_cat rs, fsynced = length (recs_cat rs) \<rparr>"] exI [of _ rs]) (simp add: stable_def)
      then have "ds_ok s'"
        using ok R(2,3) files hd new_snap_file_on [OF sn] log_wf_compact [OF wf(2), of "sk_meta m"] t(3,4)
        by (simp add: ds_ok_def) (simp add: s'(1))
      moreover have "ds_abs s' = snd (install_snapshot m (ds_abs s))"
        using newer k t(3,4) unfolding ds_abs_def ds_data_snap hd R(2) files(1) new_snap_file_data
        by (simp add: s'(1) install_snapshot_def durably_def el_compact_def t_def sink_holds_def)
      ultimately show ?thesis by simp
    qed
    moreover have "ds_next_part s' = ds_next_part s"
      using rw by (auto simp: rewrite_entries_def t_def Let_def split: sum.splits prod.splits)
    ultimately show ?thesis
      using R(2-4,7) io(2,5) by (auto simp: op_does_def intro: more)
  qed
qed

end
