(* ===== verification/DiskProps.thy ===== *)
theory DiskProps
  imports DiskSnap
begin

text \<open>
  The consensus storage as its client sees it: sequences of the operations of the trait \<^verbatim>\<open>Storage\<close>
  (\<^verbatim>\<open>src/src/raft/log.rs\<close>) on a \<^verbatim>\<open>DiskStorage\<close> with any number of snapshots on their way to disk, against the
  same operations on a \<^verbatim>\<open>MemStorage\<close>. Snapshots are numbered in the order they are begun, as their part
  files are.
\<close>

section \<open>Sequences of operations\<close>

datatype storage_op =
    SaveHardState hard_state
  | AppendEntries "entry list"
  | TruncateFrom nat
  | NewSnapshot snapshot_meta "member list option"
  | WriteSnapshot nat bytes
  | FlushSnapshot nat
  | InstallSnapshot nat
  | DropSnapshot nat

type_synonym disk_world = "disk_storage \<times> (nat \<times> disk_snapshot) list"

record mem_world =
  mw_mem :: mem_storage
  mw_sinks :: "(nat \<times> mem_snapshot) list"
  mw_next :: nat

definition with_fs :: "fs \<Rightarrow> disk_storage \<Rightarrow> disk_storage" where
  "with_fs d s = s\<lparr> ds_fs := d \<rparr>"

fun disk_op :: "clock \<Rightarrow> storage_op \<Rightarrow> disk_world \<Rightarrow> unit res \<times> disk_world" where
  "disk_op c (SaveHardState h) (s, ks) = (let (r, s) = ds_save_hard_state h s in (r, s, ks))"
| "disk_op c (AppendEntries es) (s, ks) = (let (r, s) = ds_append c es s in (r, s, ks))"
| "disk_op c (TruncateFrom i) (s, ks) = (let (r, s) = ds_truncate_from i s in (r, s, ks))"
| "disk_op c (NewSnapshot meta mems) (s, ks) = (case ds_new_snapshot meta mems s of
      (Inl e, s) \<Rightarrow> (Inl e, s, ks)
    | (Inr k, s) \<Rightarrow> (Inr (), s, (ds_next_part s, k) # ks))"
| "disk_op c (WriteSnapshot p bs) (s, ks) = (case map_of ks p of
      None \<Rightarrow> (Inr (), s, ks)
    | Some k \<Rightarrow> (let (r, k, d) = snap_write k bs (ds_fs s) in (r, with_fs d s, AList.update p k ks)))"
| "disk_op c (FlushSnapshot p) (s, ks) = (case map_of ks p of
      None \<Rightarrow> (Inr (), s, ks)
    | Some k \<Rightarrow> (let (r, k, d) = snap_flush k (ds_fs s) in (r, with_fs d s, AList.update p k ks)))"
| "disk_op c (InstallSnapshot p) (s, ks) = (case map_of ks p of
      None \<Rightarrow> (Inr (), s, ks)
    | Some k \<Rightarrow> (let (r, s) = ds_install_snapshot c k s in (r, s, AList.delete p ks)))"
| "disk_op c (DropSnapshot p) (s, ks) = (case map_of ks p of
      None \<Rightarrow> (Inr (), s, ks)
    | Some k \<Rightarrow> (Inr (), with_fs (snap_drop k (ds_fs s)) s, AList.delete p ks))"

fun mem_op :: "storage_op \<Rightarrow> mem_world \<Rightarrow> mem_world" where
  "mem_op (SaveHardState h) w = w\<lparr> mw_mem := snd (save_hard_state h (mw_mem w)) \<rparr>"
| "mem_op (AppendEntries es) w = w\<lparr> mw_mem := snd (append_entries es (mw_mem w)) \<rparr>"
| "mem_op (TruncateFrom i) w = w\<lparr> mw_mem := snd (truncate_from i (mw_mem w)) \<rparr>"
| "mem_op (NewSnapshot meta mems) w = (case new_snapshot meta mems (mw_mem w) of
      (Inl e, m) \<Rightarrow> w
    | (Inr k, m) \<Rightarrow> w\<lparr> mw_mem := m, mw_sinks := (Suc (mw_next w), k) # mw_sinks w, mw_next := Suc (mw_next w) \<rparr>)"
| "mem_op (WriteSnapshot p bs) w = (case map_of (mw_sinks w) p of
      None \<Rightarrow> w
    | Some k \<Rightarrow> w\<lparr> mw_sinks := AList.update p (sink_write bs k) (mw_sinks w) \<rparr>)"
| "mem_op (FlushSnapshot p) w = w"
| "mem_op (InstallSnapshot p) w = (case map_of (mw_sinks w) p of
      None \<Rightarrow> w
    | Some k \<Rightarrow> w\<lparr> mw_mem := snd (install_snapshot k (mw_mem w)), mw_sinks := AList.delete p (mw_sinks w) \<rparr>)"
| "mem_op (DropSnapshot p) w = w\<lparr> mw_sinks := AList.delete p (mw_sinks w) \<rparr>"

text \<open>What the fields of the formats can hold, and a log without gaps.\<close>

fun op_fits :: "storage_op \<Rightarrow> mem_world \<Rightarrow> bool" where
  "op_fits (SaveHardState h) w = hs_ok h"
| "op_fits (AppendEntries es) w = (follows (last_index (mw_mem w)) es \<and> list_all entry_ok es)"
| "op_fits (NewSnapshot meta mems) w = snap_ok meta mems"
| "op_fits _ w = True"

text \<open>The storages in memory that a failed operation may leave on disk.\<close>

fun op_leaves :: "storage_op \<Rightarrow> mem_world \<Rightarrow> mem_storage set" where
  "op_leaves (AppendEntries es) w = range (\<lambda>n. mw_mem (mem_op (AppendEntries (take n es)) w))"
| "op_leaves op w = {mw_mem w, mw_mem (mem_op op w)}"

fun disk_ops :: "(clock \<times> storage_op) list \<Rightarrow> disk_world \<Rightarrow> disk_world option" where
  "disk_ops [] w = Some w"
| "disk_ops ((c, op) # ops) w = (case disk_op c op w of (Inl _, w) \<Rightarrow> None | (Inr _, w) \<Rightarrow> disk_ops ops w)"

fun mem_ops :: "storage_op list \<Rightarrow> mem_world \<Rightarrow> mem_world" where
  "mem_ops [] w = w"
| "mem_ops (op # ops) w = mem_ops ops (mem_op op w)"

fun ops_fit :: "storage_op list \<Rightarrow> mem_world \<Rightarrow> bool" where
  "ops_fit [] w = True"
| "ops_fit (op # ops) w = (op_fits op w \<and> ops_fit ops (mem_op op w))"

definition start_mem :: "disk_storage \<Rightarrow> mem_world" where
  "start_mem s = \<lparr> mw_mem = ds_abs s, mw_sinks = [], mw_next = ds_next_part s \<rparr>"

section \<open>The simulation\<close>

definition sinks_hold :: "fmap \<Rightarrow> nat \<Rightarrow> (nat \<times> disk_snapshot) list \<Rightarrow> (nat \<times> mem_snapshot) list \<Rightarrow> bool" where
  "sinks_hold F n ks ms \<longleftrightarrow> (\<forall>p. case map_of ks p of
     None \<Rightarrow> map_of ms p = None
   | Some k \<Rightarrow> p \<le> n \<and> (\<exists>m. map_of ms p = Some m \<and> sink_holds F p k m))"

definition world_ok :: "disk_world \<Rightarrow> mem_world \<Rightarrow> bool" where
  "world_ok w mw \<longleftrightarrow> ds_ok (fst w) \<and> ds_abs (fst w) = mw_mem mw \<and> ds_next_part (fst w) = mw_next mw \<and>
     sinks_hold (fs_file (ds_fs (fst w))) (mw_next mw) (snd w) (mw_sinks mw)"

lemma sinks_hold_None: "sinks_hold F n ks ms \<Longrightarrow> map_of ks p = None \<Longrightarrow> map_of ms p = None"
  by (auto simp: sinks_hold_def dest: spec [of _ p])

lemma sinks_hold_Some: "sinks_hold F n ks ms \<Longrightarrow> map_of ks p = Some k \<Longrightarrow> \<exists>m. map_of ms p = Some m \<and> sink_holds F p k m \<and> p \<le> n"
  by (auto simp: sinks_hold_def dest: spec [of _ p])

lemma sinks_hold_frame:
  assumes "sinks_hold F n ks ms" and "\<And>j. F' (snap_part_name j) = F (snap_part_name j)"
  shows "sinks_hold F' n ks ms"
  using assms sink_holds_frame unfolding sinks_hold_def by (fastforce split: option.splits)

lemma sinks_hold_delete:
  assumes "sinks_hold F n ks ms" and "\<And>j. j \<noteq> p \<Longrightarrow> F' (snap_part_name j) = F (snap_part_name j)"
  shows "sinks_hold F' n (AList.delete p ks) (AList.delete p ms)"
  using assms sink_holds_frame unfolding sinks_hold_def by (fastforce split: option.splits)

lemma sinks_hold_update:
  assumes "sinks_hold F n ks ms" and "map_of ks p \<noteq> None" and "\<And>j. j \<noteq> p \<Longrightarrow> F' (snap_part_name j) = F (snap_part_name j)"
    and "sink_holds F' p k m"
  shows "sinks_hold F' n (AList.update p k ks) (AList.update p m ms)"
  using assms sink_holds_frame unfolding sinks_hold_def by (fastforce split: option.splits)

lemma sinks_hold_new:
  assumes "sinks_hold F n ks ms" and "\<And>j. j \<noteq> Suc n \<Longrightarrow> F' (snap_part_name j) = F (snap_part_name j)"
    and "sink_holds F' (Suc n) k m"
  shows "sinks_hold F' (Suc n) ((Suc n, k) # ks) ((Suc n, m) # ms)"
  using assms sink_holds_frame unfolding sinks_hold_def by (fastforce split: option.splits)

text \<open>Part files are not what an open storage rests on.\<close>

lemma ds_ok_parts:
  assumes "ds_ok s" and "fs_wf d" and "\<And>n. n \<noteq> snap_part_name p \<Longrightarrow> fs_file d n = fs_file (ds_fs s) n"
  shows "ds_ok (s\<lparr> ds_next_part := j, ds_fs := d \<rparr>)" "ds_abs (s\<lparr> ds_next_part := j, ds_fs := d \<rparr>) = ds_abs s"
    "ds_ok (with_fs d s)" "ds_abs (with_fs d s) = ds_abs s"
  using assms by (simp_all add: ds_ok_def ds_header_def entries_file_def ds_abs_def ds_data_snap with_fs_def)

definition op_step :: "disk_world \<Rightarrow> disk_world \<Rightarrow> unit res \<Rightarrow> mem_world \<Rightarrow> mem_storage set \<Rightarrow> bool" where
  "op_step w w' r mw M \<longleftrightarrow> (r = Inr () \<longrightarrow> world_ok w' mw) \<and> (r \<noteq> Inr () \<longrightarrow> recovers (ds_fs (fst w')) M) \<and>
     (faults (ds_fs (fst w)) = [] \<longrightarrow> faults (ds_fs (fst w')) = [] \<and> r = Inr ())"

lemma op_step_storage:
  assumes w: "world_ok (s, ks) mw" and does: "op_does s s' r m M {}"
  shows "op_step (s, ks) (s', ks) r (mw\<lparr> mw_mem := m \<rparr>) M"
  using assms sinks_hold_frame [of "fs_file (ds_fs s)" "mw_next mw" ks "mw_sinks mw" "fs_file (ds_fs s')"]
  by (auto simp: op_step_def op_does_def world_ok_def)

lemma op_step_sink:
  assumes w: "world_ok (s, ks) mw" and k: "map_of ks p = Some k" and M: "mw_mem mw \<in> M"
    and d: "fs_wf d" "\<And>n. n \<noteq> snap_part_name p \<Longrightarrow> fs_file d n = fs_file (ds_fs s) n"
    and r: "faults (ds_fs s) = [] \<Longrightarrow> faults d = [] \<and> r = Inr ()" and k': "r = Inr () \<Longrightarrow> sink_holds (fs_file d) p k' m'"
  shows "op_step (s, ks) (with_fs d s, AList.update p k' ks) r (mw\<lparr> mw_sinks := AList.update p m' (mw_sinks mw) \<rparr>) M"
proof -
  have ok: "ds_ok s" "ds_abs s = mw_mem mw" using w by (simp_all add: world_ok_def)
  note s' = ds_ok_parts(3,4) [OF ok(1) d]
  have "sinks_hold (fs_file d) (mw_next mw) (AList.update p k' ks) (AList.update p m' (mw_sinks mw))" if "r = Inr ()"
    using w k d(2) k' [OF that] by (intro sinks_hold_update [of "fs_file (ds_fs s)"]) (simp_all add: world_ok_def)
  then show ?thesis
    using w s' r M ds_ok_recovers [OF s'(1)] by (auto simp: op_step_def world_ok_def with_fs_def)
qed

lemma op_step_same: "world_ok w mw \<Longrightarrow> op_step w w (Inr ()) mw M"
  by (simp add: op_step_def)

lemma mw_sinks_same: "map_of ms p = Some m \<Longrightarrow> AList.update p m ms = ms"
  by (induction ms) auto

lemma disk_op_any:
  assumes w: "world_ok (s, ks) mw" and fits: "op_fits op mw" and run: "disk_op c op (s, ks) = (r, w')"
  shows "op_step (s, ks) w' r (mem_op op mw) (op_leaves op mw)"
proof -
  have ok: "ds_ok s" "ds_abs s = mw_mem mw" "ds_next_part s = mw_next mw"
    and sk: "sinks_hold (fs_file (ds_fs s)) (mw_next mw) ks (mw_sinks mw)" and wf: "fs_wf (ds_fs s)"
    using w by (simp_all add: world_ok_def ds_ok_def)
  have lg: "ms_log (mw_mem mw) = ds_log s" using ok(2) [symmetric] by (simp add: ds_abs_def)
  note same = op_step_same [OF w]
  show ?thesis
  proof (cases op)
    case (SaveHardState h)
    then show ?thesis
      using run fits op_step_storage [OF w ds_save_hard_state_any [OF ok(1)]] ok(2) by (auto split: prod.splits)
  next
    case (AppendEntries es)
    then show ?thesis
      using run fits op_step_storage [OF w ds_append_any [OF ok(1)]] ok(2)
      by (auto simp: last_index_def lg split: prod.splits)
  next
    case (TruncateFrom i)
    then show ?thesis
      using run op_step_storage [OF w ds_truncate_any [OF ok(1)]] ok(2) by (auto split: prod.splits)
  next
    case (NewSnapshot meta mems)
    obtain q s' where n: "ds_new_snapshot meta mems s = (q, s')" by (cases "ds_new_snapshot meta mems s")
    obtain d where d: "s' = s\<lparr> ds_next_part := Suc (ds_next_part s), ds_fs := d \<rparr>" "fs_wf d"
      "faults (ds_fs s) = [] \<longrightarrow> faults d = [] \<and> (\<exists>k. q = Inr k)"
      "\<forall>n. n \<noteq> snap_part_name (Suc (ds_next_part s)) \<longrightarrow> fs_file d n = fs_file (ds_fs s) n"
      "\<forall>k. q = Inr k \<longrightarrow> sink_holds (fs_file d) (Suc (ds_next_part s)) k \<lparr> sk_meta = meta, sk_members = mems, sk_data = [] \<rparr>"
      using ds_new_snapshot_any [OF wf _ n] fits NewSnapshot by auto
    have s': "ds_ok s'" "ds_abs s' = mw_mem mw" "ds_fs s' = d"
      using ds_ok_parts(1,2) [OF ok(1) d(2), of "Suc (ds_next_part s)"] d(1,4) ok(2) by simp_all
    have mem: "ms_faults (mw_mem mw) = []" using ok(2) [symmetric] by (simp add: ds_abs_def)
    show ?thesis
    proof (cases q)
      case (Inl e)
      then show ?thesis using run NewSnapshot n s' d(3) ds_ok_recovers [OF s'(1)] by (auto simp: op_step_def)
    next
      case (Inr k)
      have "sinks_hold (fs_file d) (Suc (mw_next mw)) ((Suc (mw_next mw), k) # ks)
          ((Suc (mw_next mw), \<lparr> sk_meta = meta, sk_members = mems, sk_data = [] \<rparr>) # mw_sinks mw)"
        using d(4,5) Inr ok(3) by (intro sinks_hold_new [OF sk]) auto
      then show ?thesis
        using run NewSnapshot n Inr s' d(1,3) ok(3) mem
        by (auto simp: op_step_def world_ok_def new_snapshot_def durably_def)
    qed
  next
    case (WriteSnapshot p bs)
    show ?thesis
    proof (cases "map_of ks p")
      case None
      then show ?thesis using run WriteSnapshot sinks_hold_None [OF sk] same by simp
    next
      case (Some k)
      then obtain m where m: "map_of (mw_sinks mw) p = Some m" "sink_holds (fs_file (ds_fs s)) p k m" using sinks_hold_Some [OF sk] by blast
      obtain k' d where k': "snap_write k bs (ds_fs s) = (r, k', d)" "w' = (with_fs d s, AList.update p k' ks)"
        using run WriteSnapshot Some by (auto split: prod.splits)
      show ?thesis
        using op_step_sink [OF w Some, of "op_leaves op mw" d r k' "sink_write bs m"] snap_write_any [OF wf m(2) k'(1)] m(1) WriteSnapshot
        by (simp add: k'(2))
    qed
  next
    case (FlushSnapshot p)
    show ?thesis
    proof (cases "map_of ks p")
      case None
      then show ?thesis using run FlushSnapshot same by simp
    next
      case (Some k)
      then obtain m where m: "map_of (mw_sinks mw) p = Some m" "sink_holds (fs_file (ds_fs s)) p k m" using sinks_hold_Some [OF sk] by blast
      obtain k' d where k': "snap_flush k (ds_fs s) = (r, k', d)" "w' = (with_fs d s, AList.update p k' ks)"
        using run FlushSnapshot Some by (auto split: prod.splits)
      show ?thesis
        using op_step_sink [OF w Some, of "op_leaves op mw" d r k' m] snap_flush_any [OF wf m(2) k'(1)] mw_sinks_same [OF m(1)] FlushSnapshot
        by (simp add: k'(2))
    qed
  next
    case (InstallSnapshot p)
    show ?thesis
    proof (cases "map_of ks p")
      case None
      then show ?thesis using run InstallSnapshot sinks_hold_None [OF sk] same by simp
    next
      case (Some k)
      then obtain m where m: "map_of (mw_sinks mw) p = Some m" "sink_holds (fs_file (ds_fs s)) p k m" using sinks_hold_Some [OF sk] by blast
      obtain s' where s': "ds_install_snapshot c k s = (r, s')" "w' = (s', AList.delete p ks)"
        using run InstallSnapshot Some by (auto split: prod.splits)
      have does: "op_does s s' r (snd (install_snapshot m (mw_mem mw))) {mw_mem mw, snd (install_snapshot m (mw_mem mw))} {p}"
        using ds_install_any [OF ok(1) m(2) s'(1)] ok(2) by simp
      have "sinks_hold (fs_file (ds_fs s')) (mw_next mw) (AList.delete p ks) (AList.delete p (mw_sinks mw))"
        using does by (intro sinks_hold_delete [OF sk]) (simp add: op_does_def)
      then show ?thesis
        using does m(1) InstallSnapshot ok(3) by (auto simp: op_step_def op_does_def world_ok_def s'(2))
    qed
  next
    case (DropSnapshot p)
    show ?thesis
    proof (cases "map_of ks p")
      case None
      then have "AList.delete p (mw_sinks mw) = mw_sinks mw"
        using sinks_hold_None [OF sk None] by (simp add: delete_id map_of_eq_None_iff)
      then show ?thesis using run DropSnapshot None same by simp
    next
      case (Some k)
      then obtain m where m: "map_of (mw_sinks mw) p = Some m" "sink_holds (fs_file (ds_fs s)) p k m" using sinks_hold_Some [OF sk] by blast
      note dr = snap_drop_any [OF wf m(2)]
      have "sinks_hold (fs_file (snap_drop k (ds_fs s))) (mw_next mw) (AList.delete p ks) (AList.delete p (mw_sinks mw))"
        using dr by (intro sinks_hold_delete [OF sk]) simp
      then show ?thesis
        using run DropSnapshot Some dr ds_ok_parts(3,4) [OF ok(1), of "snap_drop k (ds_fs s)" p] ok(2,3)
        by (auto simp: op_step_def world_ok_def with_fs_def)
    qed
  qed
qed

section \<open>Reading the snapshot back\<close>

lemma parse_snapshot_len: "parse_snapshot bs = Inr sh \<Longrightarrow> length bs = sh_data_at sh + sh_data_len sh"
  by (auto simp: parse_snapshot_def Let_def snap_checked_def OLD_SNAPSHOT_HEADER_LEN_def split: if_splits option.splits)

lemma ds_read_snapshot_ok:
  assumes "ds_ok s" and "fs_ok (ds_fs s)"
  shows "ds_read_snapshot off len s = (fst (read_snapshot off len (ds_abs s)), ds_fs s)"
proof (cases "fs_file (ds_fs s) ''snapshot''")
  case None
  then have "ds_snapshot_len s = 0"
    using assms(1) by (auto simp: ds_ok_def snap_on_def ds_header_def default_snap_header_def)
  then show ?thesis using None
    by (simp add: ds_read_snapshot_def read_snapshot_def durably_def ds_abs_def ds_data_def slice_def)
next
  case (Some f)
  have len: "length (fdata f) = ds_data_at s + ds_snapshot_len s"
    using assms(1) Some parse_snapshot_len [of "fdata f" "ds_header s"] by (simp add: ds_ok_def snap_on_def ds_header_def)
  then have data: "ds_data s = drop (ds_data_at s) (fdata f)" "length (ds_data s) = ds_snapshot_len s"
    by (simp_all add: ds_data_def Some)
  show ?thesis
    using assms(2) Some len
    by (auto simp: ds_read_snapshot_def read_snapshot_def durably_def ds_abs_def data Let_def slice_def fs_read_def fs_simps
        get_range_def min_def add.commute)
qed

section \<open>Properties\<close>

lemma disk_ops_any:
  assumes "world_ok w mw" and "ops_fit (map snd ops) mw"
  shows "(case disk_ops ops w of None \<Rightarrow> faults (ds_fs (fst w)) \<noteq> [] | Some w' \<Rightarrow> world_ok w' (mem_ops (map snd ops) mw) \<and>
    (faults (ds_fs (fst w)) = [] \<longrightarrow> faults (ds_fs (fst w')) = []))"
  using assms
proof (induction ops arbitrary: w mw)
  case Nil
  then show ?case by simp
next
  case (Cons cop ops)
  obtain c op where cop: "cop = (c, op)" by (cases cop)
  obtain r w' where run: "disk_op c op w = (r, w')" by (cases "disk_op c op w")
  have step: "op_step w w' r (mem_op op mw) (op_leaves op mw)"
    using disk_op_any [of "fst w" "snd w" mw op c r w'] Cons.prems run cop by simp
  show ?case
  proof (cases r)
    case (Inl e)
    then show ?thesis using step run cop by (simp add: op_step_def)
  next
    case (Inr u)
    then have "world_ok w' (mem_op op mw)" "faults (ds_fs (fst w)) = [] \<longrightarrow> faults (ds_fs (fst w')) = []"
      using step by (simp_all add: op_step_def)
    then show ?thesis
      using Cons.IH [of w' "mem_op op mw"] Cons.prems run Inr cop by (auto split: option.splits)
  qed
qed

lemma start_ok: "ds_ok s \<Longrightarrow> world_ok (s, []) (start_mem s)"
  by (simp add: world_ok_def start_mem_def sinks_hold_def)

lemma ops_fit_append: "ops_fit (xs @ ys) mw \<longleftrightarrow> ops_fit xs mw \<and> ops_fit ys (mem_ops xs mw)"
  by (induction xs arbitrary: mw) auto

lemma mem_ops_append: "mem_ops (xs @ ys) mw = mem_ops ys (mem_ops xs mw)"
  by (induction xs arbitrary: mw) auto


definition empty_storage :: "nat option list \<Rightarrow> disk_storage" where
  "empty_storage fl = \<lparr> ds_file = ''entries'', ds_hard = default_hard_state, ds_log = \<lparr> el_base = no_meta, el_entries = [] \<rparr>,
     ds_offsets = [], ds_end = 0, ds_snapshot_len = 0, ds_data_at = 0, ds_members = None, ds_next_part = 0,
     ds_fs = \<lparr> files = [(''entries'', \<lparr> fdata = [], fsynced = 0 \<rparr>)], faults = fl \<rparr> \<rparr>"

lemma empty_storage_ok: "ds_ok (empty_storage fl)"
  by (auto simp: ds_ok_def empty_storage_def fs_wf_def log_wf_def hard_on_def snap_on_def ds_header_def
      default_snap_header_def entries_file_def stable_def fs_file_def)

definition two_entries :: "entry list" where
  "two_entries = [\<lparr> e_term = 1, e_index = 1, e_command = Noop \<rparr>, \<lparr> e_term = 1, e_index = 2, e_command = Data [7] \<rparr>]"

lemma two_entries_fit: "ops_fit [AppendEntries two_entries] (start_mem (empty_storage fl))"
  by (simp add: two_entries_def start_mem_def ds_abs_def empty_storage_def last_index_def el_last_index_def no_meta_def
      entry_ok_def command_payload_def)


text \<open>
  (C4) The consensus storage refines the one in memory. On a working device no operation fails, whatever the sequence
  and with any number of snapshots in flight: afterwards term, vote, log, snapshot and membership are those
  of the storage in memory, and every range of the snapshot reads back the same.
\<close>

theorem disk_storage_refines:
  assumes "ds_ok s" and "fs_ok (ds_fs s)" and "ops_fit (map snd ops) (start_mem s)"
  shows "\<exists>w. disk_ops ops (s, []) = Some w \<and> ds_abs (fst w) = mw_mem (mem_ops (map snd ops) (start_mem s)) \<and>
    (\<forall>off len. fst (ds_read_snapshot off len (fst w))
      = fst (read_snapshot off len (mw_mem (mem_ops (map snd ops) (start_mem s)))))"
proof -
  have f: "faults (ds_fs s) = []" using assms(2) by simp
  then obtain w where w: "disk_ops ops (s, []) = Some w" "world_ok w (mem_ops (map snd ops) (start_mem s))"
    "faults (ds_fs (fst w)) = []"
    using disk_ops_any [OF start_ok [OF assms(1)] assms(3)] by (auto split: option.splits)
  then have "ds_ok (fst w)" "fs_ok (ds_fs (fst w))" by (simp_all add: world_ok_def ds_ok_def fs_ok_def)
  from ds_read_snapshot_ok [OF this] w show ?thesis by (auto simp: world_ok_def)
qed

lemma disk_storage_refines_witness:
  "\<exists>w. disk_ops [(\<lambda>_. 5, AppendEntries two_entries)] (empty_storage [], []) = Some w \<and> el_entries (ds_log (fst w)) = two_entries"
proof -
  have ok: "fs_ok (ds_fs (empty_storage []))" by (simp add: empty_storage_def fs_ok_def fs_wf_def)
  obtain w where w: "disk_ops [(\<lambda>_. 5, AppendEntries two_entries)] (empty_storage [], []) = Some w"
    "ds_abs (fst w) = mw_mem (mem_ops [AppendEntries two_entries] (start_mem (empty_storage [])))"
    using disk_storage_refines [OF empty_storage_ok ok, of "[(\<lambda>_. 5, AppendEntries two_entries)]"] two_entries_fit [of "[]"] by auto
  have "ds_log (fst w) = ms_log (ds_abs (fst w))" by (simp add: ds_abs_def)
  then have "el_entries (ds_log (fst w)) = two_entries"
    unfolding w(2) by (simp add: append_entries_def durably_def start_mem_def ds_abs_def empty_storage_def fold_push)
  with w(1) show ?thesis by blast
qed

end
