(* ===== verification/Replicated.thy ===== *)
theory Replicated
  imports StoreJobs RaftNode
begin

text \<open>
  The store driven by consensus (\<^verbatim>\<open>src/src/replicated.rs\<close>): a node, the store it drives and how far through
  the log the store is. The record \<open>replica\<close> has the fields of \<^verbatim>\<open>ReplicatedStore\<close>, the definitions the names
  of its methods with the prefix \<open>rp_\<close>. \<open>rp_clock\<close> holds the clock readings to come, two for each write to the
  store; the order in which a compaction unlinks old files is an argument. The storage is the one of the
  interface, in memory with failures (\<^verbatim>\<open>src/src/raft/log.rs\<close>), so its snapshot reader is a byte
  string. Jobs run between two calls of the replica.
\<close>

section \<open>Operations in the log\<close>

datatype op = OpPut bytes bytes | OpDelete bytes

definition op_encode :: "op \<Rightarrow> nat \<Rightarrow> bytes res" where
  "op_encode x now = (case x of
      OpPut k v \<Rightarrow> encode_record k (Some v) now
    | OpDelete k \<Rightarrow> encode_record k None now)"

definition op_decode :: "bytes \<Rightarrow> op res" where
  "op_decode bs =
     (if length bs < HEADER_LEN then Inl (Corrupt 0 0 ''replicated command is shorter than a header'')
      else
        let h = header_decode (take HEADER_LEN bs) in
        if header_record_len h \<noteq> length bs then
          Inl (Corrupt 0 0 ''replicated command length does not match its header'')
        else
          let key_end = HEADER_LEN + hdr_key_len h; key = slice HEADER_LEN key_end bs; val = drop key_end bs in
          if \<not> header_verify h key val then Inl (Corrupt 0 0 ''checksum mismatch on a replicated command'')
          else Inr (if header_is_tombstone h then OpDelete key else OpPut key val))"

section \<open>The applied index\<close>

definition APPLIED_FILE :: string where
  "APPLIED_FILE = ''applied-index''"

definition parse_applied :: "bytes \<Rightarrow> nat" where
  "parse_applied bs =
     (if length bs \<noteq> 12 then 0
      else if crc32_parts [drop 4 bs] \<noteq> word_of_nat (from_le (slice 0 4 bs)) then 0
      else from_le (slice 4 12 bs))"

definition read_applied :: "fs \<Rightarrow> nat \<times> fs" where
  "read_applied d = (case fs_read APPLIED_FILE d of
      (Inl _, d) \<Rightarrow> (0, d)
    | (Inr bs, d) \<Rightarrow> (parse_applied bs, d))"

definition applied_bytes :: "nat \<Rightarrow> bytes" where
  "applied_bytes i = le_bytes 4 (unat (crc32_parts [le_bytes 8 i])) @ le_bytes 8 i"

definition write_applied :: "store \<Rightarrow> nat \<Rightarrow> unit res \<times> store" where
  "write_applied s i = (case write_atomically APPLIED_FILE (applied_bytes i) (st_fs s) of
     (r, d) \<Rightarrow> (r, s\<lparr> st_fs := d \<rparr>))"

section \<open>Snapshots of the store\<close>

definition snapshot_record :: "bytes \<Rightarrow> bytes \<Rightarrow> mem_snapshot \<Rightarrow> mem_snapshot res" where
  "snapshot_record key val k = (case encode_record key (Some val) 0 of
      Inl e \<Rightarrow> Inl e
    | Inr bs \<Rightarrow> Inr (sink_write bs k))"

definition write_snapshot :: "store_view \<Rightarrow> mem_snapshot \<Rightarrow> fs \<Rightarrow> mem_snapshot io" where
  "write_snapshot v k d = for_each v snapshot_record k d"

record snapshot_records =
  sr_reader :: bytes
  sr_offset :: nat
  sr_previous :: "bytes option"

definition snapshot_records_new :: "bytes \<Rightarrow> snapshot_records" where
  "snapshot_records_new bs = \<lparr> sr_reader = bs, sr_offset = 0, sr_previous = None \<rparr>"

definition next_pair :: "snapshot_records \<Rightarrow> (bytes \<times> bytes) option res \<times> snapshot_records" where
  "next_pair r =
     (let p = sr_offset r; (hb, rest) = read_full HEADER_LEN (sr_reader r) in
      if length hb = 0 then (Inr None, r\<lparr> sr_reader := rest \<rparr>)
      else if length hb < HEADER_LEN then
        (Inl (Corrupt 0 p ''snapshot ends inside a record header''), r\<lparr> sr_reader := rest \<rparr>)
      else
        let h = header_decode hb; (key, rest) = read_full (hdr_key_len h) rest;
            (val, rest) = (if length key < hdr_key_len h then ([], rest) else read_full (hdr_value_len h) rest);
            r = r\<lparr> sr_reader := rest \<rparr> in
        if length key < hdr_key_len h \<or> length val < hdr_value_len h then
          (Inl (Corrupt 0 p ''snapshot ends inside a record''), r)
        else if \<not> header_verify h key val then (Inl (Corrupt 0 p ''checksum mismatch in a snapshot record''), r)
        else if header_is_tombstone h then (Inl (Corrupt 0 p ''a snapshot holds live keys, never deletions''), r)
        else if (case sr_previous r of Some q \<Rightarrow> q \<ge> key | None \<Rightarrow> False) then
          (Inl (Corrupt 0 p ''snapshot keys are not in order''), r)
        else (Inr (Some (key, val)), r\<lparr> sr_previous := Some key, sr_offset := sr_offset r + header_record_len h \<rparr>))"

section \<open>The replica\<close>

type_synonym ticks = "nat \<Rightarrow> nat \<times> nat"

record replica =
  rp_node :: node
  rp_store :: store
  rp_applied :: nat
  rp_snapshot_every :: nat
  rp_background :: bool
  rp_snapshotting :: bool
  rp_compaction_due :: bool
  rp_restoring :: bool
  rp_clock :: ticks

definition DEFAULT_SNAPSHOT_EVERY :: nat where
  "DEFAULT_SNAPSHOT_EVERY = 10000"

definition rp_snapshot_index :: "replica \<Rightarrow> nat" where
  "rp_snapshot_index r = sm_index (snapshot_meta_of (storage (rp_node r)))"

text \<open>The next two clock readings.\<close>

definition next_ticks :: "ticks \<Rightarrow> ticks" where
  "next_ticks c = (\<lambda>k. c (Suc k))"

definition put_now :: "bytes \<Rightarrow> bytes \<Rightarrow> store \<times> ticks \<Rightarrow> unit res \<times> store \<times> ticks" where
  "put_now k v sc = (case sc of (s, c) \<Rightarrow>
     (case put_deferred s k v (fst (c 0) mod 2 ^ 64) (snd (c 0) mod 2 ^ 64) of (r, s) \<Rightarrow> (r, s, next_ticks c)))"

definition delete_now :: "bytes \<Rightarrow> store \<times> ticks \<Rightarrow> bool res \<times> store \<times> ticks" where
  "delete_now k sc = (case sc of (s, c) \<Rightarrow>
     (case delete_deferred s k (fst (c 0) mod 2 ^ 64) (snd (c 0) mod 2 ^ 64) of (r, s) \<Rightarrow> (r, s, next_ticks c)))"

section \<open>Restoring\<close>

text \<open>Deleting held keys for as long as they match; those left are the result.\<close>

fun delete_stale :: "(bytes \<Rightarrow> bool) \<Rightarrow> bytes list \<Rightarrow> store \<times> ticks \<Rightarrow> bytes list res \<times> store \<times> ticks" where
  "delete_stale P [] sc = (Inr [], sc)"
| "delete_stale P (k # ks) sc =
     (if P k then (case delete_now k sc of
        (Inl e, sc) \<Rightarrow> (Inl e, sc)
      | (Inr _, sc) \<Rightarrow> delete_stale P ks sc)
      else (Inr (k # ks), sc))"

definition skip_held :: "bytes \<Rightarrow> bytes list \<Rightarrow> bytes list" where
  "skip_held key ks = (case ks of [] \<Rightarrow> [] | k # ks' \<Rightarrow> if k = key then ks' else ks)"

text \<open>One record of the snapshot.\<close>

definition restore_one :: "bytes \<Rightarrow> bytes \<Rightarrow> bytes list \<Rightarrow> store \<times> ticks \<Rightarrow> bytes list res \<times> store \<times> ticks" where
  "restore_one key val held sc = (case delete_stale (\<lambda>k. k < key) held sc of
      (Inl e, sc) \<Rightarrow> (Inl e, sc)
    | (Inr held, (s, c)) \<Rightarrow>
        let held = skip_held key held in
        case store_get s key of
          (Inl e, d) \<Rightarrow> (Inl e, s\<lparr> st_fs := d \<rparr>, c)
        | (Inr got, d) \<Rightarrow>
            let s = s\<lparr> st_fs := d \<rparr> in
            if got \<noteq> Some val then
              (case put_now key val (s, c) of
                 (Inl e, sc) \<Rightarrow> (Inl e, sc)
               | (Inr _, sc) \<Rightarrow> (Inr held, sc))
            else (Inr held, (s, c)))"

function restore_loop :: "snapshot_records \<Rightarrow> bytes list \<Rightarrow> store \<times> ticks \<Rightarrow> bytes list res \<times> store \<times> ticks" where
  "restore_loop r held sc = (case next_pair r of
      (Inl e, r) \<Rightarrow> (Inl e, sc)
    | (Inr None, r) \<Rightarrow> (Inr held, sc)
    | (Inr (Some (key, val)), r) \<Rightarrow> (case restore_one key val held sc of
          (Inl e, sc) \<Rightarrow> (Inl e, sc)
        | (Inr held, sc) \<Rightarrow> restore_loop r held sc))"
  by pat_completeness auto

termination
proof (relation "measure (\<lambda>(r, _, _). length (sr_reader r))", goal_cases)
  case 1
  show ?case by simp
next
  case (2 r held sc _ r' _ _ _ _ _ _)
  then show ?case
    by (auto simp: next_pair_def read_full_def Let_def HEADER_LEN_def split: if_splits prod.splits)
qed

declare restore_loop.simps [simp del]

definition rp_restore :: "replica \<Rightarrow> unit res \<times> replica" where
  "rp_restore r =
     (let index = rp_snapshot_index r; held = sort (store_keys (rp_store r)) in
      case snapshot_reader (storage (rp_node r)) of
        (Inl e, st) \<Rightarrow> (Inl e, r\<lparr> rp_node := (rp_node r)\<lparr> storage := st \<rparr> \<rparr>)
      | (Inr bs, st) \<Rightarrow>
          let r = r\<lparr> rp_node := (rp_node r)\<lparr> storage := st \<rparr> \<rparr> in
          case restore_loop (snapshot_records_new bs) held (rp_store r, rp_clock r) of
            (Inl e, s, c) \<Rightarrow> (Inl e, r\<lparr> rp_store := s, rp_clock := c \<rparr>)
          | (Inr held, sc) \<Rightarrow> (case delete_stale (\<lambda>_. True) held sc of
              (Inl e, s, c) \<Rightarrow> (Inl e, r\<lparr> rp_store := s, rp_clock := c \<rparr>)
            | (Inr _, s, c) \<Rightarrow>
                let r = r\<lparr> rp_store := s, rp_clock := c \<rparr> in
                case store_sync s of
                  (Inl e, s) \<Rightarrow> (Inl e, r\<lparr> rp_store := s \<rparr>)
                | (Inr _, s) \<Rightarrow> (case write_applied s index of
                    (q, s) \<Rightarrow> (q, r\<lparr> rp_store := s, rp_applied := index \<rparr>))))"

definition replica_new :: "node \<Rightarrow> store \<Rightarrow> ticks \<Rightarrow> unit res \<times> replica" where
  "replica_new n s c =
     (case read_applied (st_fs s) of (applied, d) \<Rightarrow>
      let r = \<lparr> rp_node = n, rp_store = s\<lparr> st_fs := d \<rparr>, rp_applied = applied,
                rp_snapshot_every = DEFAULT_SNAPSHOT_EVERY, rp_background = False, rp_snapshotting = False,
                rp_compaction_due = False, rp_restoring = False, rp_clock = c \<rparr> in
      if rp_snapshot_index r > rp_applied r then rp_restore r else (Inr (), r))"

definition set_snapshot_every :: "nat \<Rightarrow> replica \<Rightarrow> replica" where
  "set_snapshot_every k r = r\<lparr> rp_snapshot_every := k \<rparr>"

definition set_background_snapshots :: "bool \<Rightarrow> replica \<Rightarrow> replica" where
  "set_background_snapshots b r = r\<lparr> rp_background := b \<rparr>"

section \<open>Taking a snapshot\<close>

definition snapshot_due :: "replica \<Rightarrow> bool" where
  "snapshot_due r \<longleftrightarrow> rp_snapshot_every r \<noteq> 0 \<and> \<not> rp_snapshotting r \<and>
     rp_applied r \<ge> rp_snapshot_index r + rp_snapshot_every r"

record snapshot_job =
  sj_view :: store_view
  sj_sink :: mem_snapshot

definition start_snapshot :: "replica \<Rightarrow> snapshot_job option res \<times> replica" where
  "start_snapshot r =
     (if \<not> snapshot_due r then (Inr None, r)
      else case node_begin_compaction (rp_applied r) (rp_node r) of
        (Inl e, n) \<Rightarrow> (Inl e, r\<lparr> rp_node := n \<rparr>)
      | (Inr None, n) \<Rightarrow> (Inr None, r\<lparr> rp_node := n \<rparr>)
      | (Inr (Some k), n) \<Rightarrow> (case view (rp_store r) of
          (Inl e, s) \<Rightarrow> (Inl e, r\<lparr> rp_node := n, rp_store := s \<rparr>)
        | (Inr v, s) \<Rightarrow> (Inr (Some \<lparr> sj_view = v, sj_sink = k \<rparr>),
            r\<lparr> rp_node := n, rp_store := s, rp_snapshotting := True \<rparr>)))"

text \<open>\<^verbatim>\<open>SnapshotJob::run\<close> reads the files of the store.\<close>

definition snapshot_run :: "snapshot_job \<Rightarrow> fs \<Rightarrow> mem_snapshot io" where
  "snapshot_run j d = write_snapshot (sj_view j) (sj_sink j) d"

definition finish_snapshot :: "(nat list \<Rightarrow> nat list) \<Rightarrow> mem_snapshot \<Rightarrow> replica \<Rightarrow> unit res \<times> replica" where
  "finish_snapshot ord k r =
     (let r = r\<lparr> rp_snapshotting := False \<rparr> in
      case node_finish_compaction k (rp_node r) of
        (Inl e, n) \<Rightarrow> (Inl e, r\<lparr> rp_node := n \<rparr>)
      | (Inr done, n) \<Rightarrow>
          let r = r\<lparr> rp_node := n \<rparr> in
          if done \<and> fragmentation (store_stats (rp_store r)) > 1 / 2 then
            if rp_background r then (Inr (), r\<lparr> rp_compaction_due := True \<rparr>)
            else (case store_compact ord (rp_store r) of
              (Inl e, s) \<Rightarrow> (Inl e, r\<lparr> rp_store := s \<rparr>)
            | (Inr _, s) \<Rightarrow> (Inr (), r\<lparr> rp_store := s \<rparr>))
          else (Inr (), r))"

definition abandon_snapshot :: "replica \<Rightarrow> replica" where
  "abandon_snapshot r = r\<lparr> rp_snapshotting := False \<rparr>"

section \<open>Applying\<close>

definition apply_entry :: "entry \<Rightarrow> store \<times> ticks \<Rightarrow> unit res \<times> store \<times> ticks" where
  "apply_entry e sc = (case e_command e of
      Noop \<Rightarrow> (Inr (), sc)
    | Config _ \<Rightarrow> (Inr (), sc)
    | Data bs \<Rightarrow> (case op_decode bs of
        Inl err \<Rightarrow> (Inl err, sc)
      | Inr (OpPut k v) \<Rightarrow> put_now k v sc
      | Inr (OpDelete k) \<Rightarrow> (case delete_now k sc of
          (Inl err, sc) \<Rightarrow> (Inl err, sc)
        | (Inr _, sc) \<Rightarrow> (Inr (), sc))))"

fun apply_entries :: "entry list \<Rightarrow> replica \<Rightarrow> unit res \<times> replica" where
  "apply_entries [] r = (Inr (), r)"
| "apply_entries (e # es) r =
     (if e_index e \<le> rp_applied r then apply_entries es r
      else case apply_entry e (rp_store r, rp_clock r) of
        (Inl err, s, c) \<Rightarrow> (Inl err, r\<lparr> rp_store := s, rp_clock := c \<rparr>)
      | (Inr _, s, c) \<Rightarrow> apply_entries es (r\<lparr> rp_store := s, rp_clock := c, rp_applied := e_index e \<rparr>))"

text \<open>The end of \<^verbatim>\<open>apply\<close>: sync, record how far the store is, and take a snapshot if one is due.\<close>

definition apply_sync :: "nat \<Rightarrow> replica \<Rightarrow> unit res \<times> replica" where
  "apply_sync before r =
     (if rp_applied r > before then
        (case store_sync (rp_store r) of
           (Inl e, s) \<Rightarrow> (Inl e, r\<lparr> rp_store := s \<rparr>)
         | (Inr _, s) \<Rightarrow> (case write_applied s (rp_applied r) of (q, s) \<Rightarrow> (q, r\<lparr> rp_store := s \<rparr>)))
      else (Inr (), r))"

definition apply_snapshot :: "(nat list \<Rightarrow> nat list) \<Rightarrow> replica \<Rightarrow> unit res \<times> replica" where
  "apply_snapshot ord r =
     (if rp_background r then (Inr (), r)
      else case start_snapshot r of
        (Inl e, r) \<Rightarrow> (Inl e, r)
      | (Inr None, r) \<Rightarrow> (Inr (), r)
      | (Inr (Some j), r) \<Rightarrow> (case snapshot_run j (st_fs (rp_store r)) of
          (Inl e, d) \<Rightarrow> (Inl e, r\<lparr> rp_store := (rp_store r)\<lparr> st_fs := d \<rparr> \<rparr>)
        | (Inr k, d) \<Rightarrow> finish_snapshot ord k (r\<lparr> rp_store := (rp_store r)\<lparr> st_fs := d \<rparr> \<rparr>)))"

definition rp_bind :: "unit res \<times> replica \<Rightarrow> (replica \<Rightarrow> 'a res \<times> replica) \<Rightarrow> 'a res \<times> replica" where
  "rp_bind m f = (case m of (Inl e, r) \<Rightarrow> (Inl e, r) | (Inr _, r) \<Rightarrow> f r)"

definition apply_committed :: "(nat list \<Rightarrow> nat list) \<Rightarrow> replica \<Rightarrow> unit res \<times> replica" where
  "apply_committed ord r =
     (let before = rp_applied r; (es, n) = take_committed (rp_node r) in
      rp_bind (apply_entries es (r\<lparr> rp_node := n \<rparr>)) (\<lambda>r.
      rp_bind (apply_sync before r) (apply_snapshot ord)))"

definition rp_apply :: "(nat list \<Rightarrow> nat list) \<Rightarrow> replica \<Rightarrow> unit res \<times> replica" where
  "rp_apply ord r =
     (if rp_snapshot_index r > rp_applied r then
        if rp_background r then (Inr (), r)
        else rp_bind (rp_restore r) (apply_committed ord)
      else apply_committed ord r)"

section \<open>Jobs in the background\<close>

definition start_compaction :: "replica \<Rightarrow> compaction_job option res \<times> replica" where
  "start_compaction r =
     (if \<not> rp_compaction_due r then (Inr None, r)
      else
        let r = r\<lparr> rp_compaction_due := False \<rparr> in
        case begin_compaction (rp_store r) of
          (Inl e, s) \<Rightarrow> (Inl e, r\<lparr> rp_store := s \<rparr>)
        | (Inr j, s) \<Rightarrow> (Inr (Some j), r\<lparr> rp_store := s \<rparr>))"

definition rp_finish_compaction :: "merged_file \<Rightarrow> replica \<Rightarrow> unit res \<times> replica" where
  "rp_finish_compaction mf r = (case finish_compaction (rp_store r) mf of
      (Inl e, s) \<Rightarrow> (Inl e, r\<lparr> rp_store := s \<rparr>)
    | (Inr _, s) \<Rightarrow> (Inr (), r\<lparr> rp_store := s \<rparr>))"

definition rp_abandon_compaction :: "replica \<Rightarrow> replica" where
  "rp_abandon_compaction r = r\<lparr> rp_store := abandon_compaction (rp_store r) \<rparr>"

record rp_restore_job =
  rr_job :: restore_job
  rr_reader :: bytes
  rr_index :: nat

definition start_restore :: "replica \<Rightarrow> rp_restore_job option res \<times> replica" where
  "start_restore r =
     (if \<not> rp_background r \<or> rp_restoring r \<or> rp_snapshot_index r \<le> rp_applied r then (Inr None, r)
      else case snapshot_reader (storage (rp_node r)) of
        (Inl e, st) \<Rightarrow> (Inl e, r\<lparr> rp_node := (rp_node r)\<lparr> storage := st \<rparr> \<rparr>)
      | (Inr bs, st) \<Rightarrow>
          let r = r\<lparr> rp_node := (rp_node r)\<lparr> storage := st \<rparr> \<rparr> in
          case begin_restore (rp_store r) of
            (Inl _, s) \<Rightarrow> (Inr None, r\<lparr> rp_store := s \<rparr>)
          | (Inr j, s) \<Rightarrow> (Inr (Some \<lparr> rr_job = j, rr_reader = bs, rr_index = rp_snapshot_index r \<rparr>),
              r\<lparr> rp_store := s, rp_restoring := True \<rparr>))"

text \<open>\<^verbatim>\<open>RestoreJob::run\<close>; a job that stops early is dropped.\<close>

function push_all :: "snapshot_records \<Rightarrow> restore_job \<Rightarrow> fs \<Rightarrow> unit res \<times> restore_job \<times> fs" where
  "push_all r j d = (case next_pair r of
      (Inl e, r) \<Rightarrow> (Inl e, j, d)
    | (Inr None, r) \<Rightarrow> (Inr (), j, d)
    | (Inr (Some (key, val)), r) \<Rightarrow> (case restore_push j key val d of
          (Inl e, j, d) \<Rightarrow> (Inl e, j, d)
        | (Inr _, j, d) \<Rightarrow> push_all r j d))"
  by pat_completeness auto

termination
proof (relation "measure (\<lambda>(r, _, _). length (sr_reader r))", goal_cases)
  case 1
  show ?case by simp
next
  case (2 r j d _ r' _ _ _ _ _ _ _ _)
  then show ?case
    by (auto simp: next_pair_def read_full_def Let_def HEADER_LEN_def split: if_splits prod.splits)
qed

declare push_all.simps [simp del]

record restored_store =
  rs_file :: restored_file
  rs_index :: nat

definition restore_run :: "rp_restore_job \<Rightarrow> fs \<Rightarrow> restored_store io" where
  "restore_run j d = (case push_all (snapshot_records_new (rr_reader j)) (rr_job j) d of
      (Inl e, job, d) \<Rightarrow> (Inl e, restore_drop job d)
    | (Inr _, job, d) \<Rightarrow>
        io_bind (restore_finish job d) (\<lambda>f d. (Inr \<lparr> rs_file = f, rs_index = rr_index j \<rparr>, d)))"

definition rp_finish_restore :: "(nat list \<Rightarrow> nat list) \<Rightarrow> restored_store \<Rightarrow> replica \<Rightarrow> unit res \<times> replica" where
  "rp_finish_restore ord done r =
     (let r = r\<lparr> rp_restoring := False \<rparr> in
      case finish_restore (rp_store r) (rs_file done) of
        (Inl e, s) \<Rightarrow> (Inl e, r\<lparr> rp_store := s \<rparr>)
      | (Inr _, s) \<Rightarrow> (case store_sync s of
          (Inl e, s) \<Rightarrow> (Inl e, r\<lparr> rp_store := s \<rparr>)
        | (Inr _, s) \<Rightarrow> (case write_applied s (rs_index done) of
            (Inl e, s) \<Rightarrow> (Inl e, r\<lparr> rp_store := s, rp_applied := rs_index done \<rparr>)
          | (Inr _, s) \<Rightarrow> rp_apply ord (r\<lparr> rp_store := s, rp_applied := rs_index done \<rparr>))))"

definition rp_abandon_restore :: "replica \<Rightarrow> replica" where
  "rp_abandon_restore r = r\<lparr> rp_restoring := False, rp_store := abandon_restore (rp_store r) \<rparr>"

section \<open>Time, messages and proposals\<close>

definition rp_actions :: "(nat list \<Rightarrow> nat list) \<Rightarrow> action list res \<times> node \<Rightarrow> replica \<Rightarrow> action list res \<times> replica" where
  "rp_actions ord m r = (case m of
      (Inl e, n) \<Rightarrow> (Inl e, r\<lparr> rp_node := n \<rparr>)
    | (Inr acts, n) \<Rightarrow> rp_bind (rp_apply ord (r\<lparr> rp_node := n \<rparr>)) (\<lambda>r. (Inr acts, r)))"

definition rp_tick :: "(nat list \<Rightarrow> nat list) \<Rightarrow> replica \<Rightarrow> action list res \<times> replica" where
  "rp_tick ord r = rp_actions ord (tick (rp_node r)) r"

definition is_install_snapshot :: "message \<Rightarrow> bool" where
  "is_install_snapshot m = (case m of InstallSnapshot _ _ _ _ _ _ _ _ \<Rightarrow> True | _ \<Rightarrow> False)"

definition rp_step :: "(nat list \<Rightarrow> nat list) \<Rightarrow> nat \<Rightarrow> message \<Rightarrow> replica \<Rightarrow> action list res \<times> replica" where
  "rp_step ord sender m r =
     (if rp_restoring r \<and> is_install_snapshot m then (Inr [], r)
      else rp_actions ord (step sender m (rp_node r)) r)"

definition rp_campaign :: "replica \<Rightarrow> action list res \<times> replica" where
  "rp_campaign r = (case campaign (rp_node r) of (q, n) \<Rightarrow> (q, r\<lparr> rp_node := n \<rparr>))"

definition rp_propose :: "op \<Rightarrow> replica \<Rightarrow> (propose_error + accepted) \<times> replica" where
  "rp_propose x r =
     (let now = fst (rp_clock r 0) mod 2 ^ 64; r = r\<lparr> rp_clock := next_ticks (rp_clock r) \<rparr> in
      case op_encode x now of
        Inl e \<Rightarrow> (Inl (StorageErr e), r)
      | Inr bs \<Rightarrow> (case propose bs (rp_node r) of (q, n) \<Rightarrow> (q, r\<lparr> rp_node := n \<rparr>)))"

definition rp_propose_batch :: "bytes list \<Rightarrow> replica \<Rightarrow> (propose_error + (propose_error + nat) list \<times> action list) \<times> replica" where
  "rp_propose_batch cs r = (case propose_batch cs (rp_node r) of (q, n) \<Rightarrow> (q, r\<lparr> rp_node := n \<rparr>))"

definition rp_propose_membership :: "member list \<Rightarrow> replica \<Rightarrow> (propose_error + accepted) \<times> replica" where
  "rp_propose_membership ms r = (case propose_membership ms (rp_node r) of (q, n) \<Rightarrow> (q, r\<lparr> rp_node := n \<rparr>))"

definition rp_put :: "bytes \<Rightarrow> bytes \<Rightarrow> replica \<Rightarrow> (propose_error + accepted) \<times> replica" where
  "rp_put k v r = rp_propose (OpPut k v) r"

definition rp_delete :: "bytes \<Rightarrow> replica \<Rightarrow> (propose_error + accepted) \<times> replica" where
  "rp_delete k r = rp_propose (OpDelete k) r"

section \<open>Reads\<close>

definition rp_read_index :: "replica \<Rightarrow> (read_kind \<times> action list) \<times> replica" where
  "rp_read_index r = (case read_index (rp_node r) of (q, n) \<Rightarrow> (q, r\<lparr> rp_node := n \<rparr>))"

definition rp_read_state :: "read_kind \<Rightarrow> replica \<Rightarrow> read_state" where
  "rp_read_state q r = (case read_state_of (rp_node r) q of
      Ready i \<Rightarrow> if rp_applied r < i then Pending else Ready i
    | other \<Rightarrow> other)"

definition rp_forget_read :: "read_kind \<Rightarrow> replica \<Rightarrow> replica" where
  "rp_forget_read q r = r\<lparr> rp_node := forget_read q (rp_node r) \<rparr>"

definition rp_get :: "bytes \<Rightarrow> replica \<Rightarrow> bytes option res \<times> replica" where
  "rp_get k r = (case store_get (rp_store r) k of (q, d) \<Rightarrow> (q, r\<lparr> rp_store := (rp_store r)\<lparr> st_fs := d \<rparr> \<rparr>))"

definition rp_contains_key :: "bytes \<Rightarrow> replica \<Rightarrow> bool" where
  "rp_contains_key k r = contains_key (rp_store r) k"

definition rp_len :: "replica \<Rightarrow> nat" where
  "rp_len r = store_len (rp_store r)"

definition rp_is_empty :: "replica \<Rightarrow> bool" where
  "rp_is_empty r = store_is_empty (rp_store r)"

definition rp_ready_to_serve :: "replica \<Rightarrow> bool" where
  "rp_ready_to_serve r = ready_to_serve (rp_node r)"

definition rp_into_parts :: "replica \<Rightarrow> mem_storage \<times> store" where
  "rp_into_parts r = (into_storage (rp_node r), rp_store r)"

end
