(* ===== verification/StoreApart.thy ===== *)
theory StoreApart
  imports StoreHistory StoreJobs
begin

text \<open>
  Files that are not the store's: what the store writes, opens or removes are its data files, its hint files
  and unfinished part files, so any other file of the directory (the applied index of a replica) is as it
  was, whatever fails.
\<close>

definition outside :: "string \<Rightarrow> bool" where
  "outside n \<longleftrightarrow> (\<forall>i. n \<noteq> data_file_name i \<and> n \<noteq> hint_name i \<and> n \<noteq> hint_name i @ ''.tmp'') \<and> \<not> ends_with n ''.log.part''"

definition same_at :: "string \<Rightarrow> fs \<Rightarrow> fs \<Rightarrow> bool" where
  "same_at n d d' \<longleftrightarrow> fs_file d' n = fs_file d n"

named_theorems apart

lemma same_at_refl [simp]: "same_at n d d"
  by (simp add: same_at_def)

lemma same_at_trans: "same_at n d d1 \<Longrightarrow> same_at n d1 d2 \<Longrightarrow> same_at n d d2"
  by (simp add: same_at_def)

lemma same_at_bind:
  assumes "same_at n d (snd m)" and "\<And>x d'. m = (Inr x, d') \<Longrightarrow> same_at n d' (snd (f x d'))"
  shows "same_at n d (snd (io_bind m f))"
proof (cases m)
  case (Pair r d')
  then show ?thesis using assms by (cases r) (auto simp: io_bind_def intro: same_at_trans)
qed

section \<open>Calls\<close>

lemma same_at_put [simp]: "m \<noteq> n \<Longrightarrow> same_at n d (fs_put m f d)"
  by (simp add: same_at_def fs_file_def fs_put_def update_conv)

lemma same_at_del [simp]: "m \<noteq> n \<Longrightarrow> same_at n d (fs_del m d)"
  by (simp add: same_at_def fs_file_def fs_del_def delete_conv)

lemma same_at_op:
  assumes "\<And>d. same_at n d (snd (f d))"
  shows "same_at n d (snd (fs_op f d))"
  using assms [of d] assms [of "d\<lparr> faults := tl (faults d) \<rparr>"]
  by (auto simp: fs_op_def same_at_def fs_file_def split: list.splits option.splits)

lemma same_at_with:
  assumes "\<And>x d. same_at n d (snd (f x d))"
  shows "same_at n d (snd (fs_with m f d))"
  unfolding fs_with_def by (rule same_at_op) (use assms in \<open>auto split: option.splits\<close>)

lemma same_at_reads [apart]:
  "same_at n d (snd (fs_read m d))" "same_at n d (snd (fs_len m d))" "same_at n d (snd (fs_open m d))"
  "same_at n d (snd (fs_read_dir d))" "same_at n d (snd (fs_create_dir_all d))" "same_at n d (snd (fs_sync_dir d))"
  unfolding fs_read_def fs_len_def fs_open_def fs_read_dir_def fs_create_dir_all_def fs_sync_dir_def
  by (rule same_at_with same_at_op, simp)+

lemma same_at_writes [apart]:
  assumes "m \<noteq> n"
  shows "same_at n d (snd (fs_open_append m d))" "same_at n d (snd (fs_create m d))" "same_at n d (snd (fs_sync m d))"
    "same_at n d (snd (fs_set_len m k d))" "same_at n d (snd (fs_remove m d))"
  unfolding fs_open_append_def fs_create_def fs_sync_def fs_set_len_def fs_remove_def
  by (rule same_at_with same_at_op, use assms in \<open>simp split: option.splits\<close>)+

lemma same_at_write_all [apart]:
  assumes "m \<noteq> n"
  shows "same_at n d (snd (fs_write_all m bs d))"
proof -
  have "same_at n d (fs_append m cs (d\<lparr> faults := fl \<rparr>))" "same_at n d (fs_append m cs d)" for cs fl
    using assms by (auto simp: fs_append_def same_at_def fs_file_def fs_put_def update_conv split: option.splits)
  then show ?thesis by (auto simp: fs_write_all_def split: list.splits option.splits)
qed

lemma same_at_rename [apart]: "a \<noteq> n \<Longrightarrow> b \<noteq> n \<Longrightarrow> same_at n d (snd (fs_rename a b d))"
  unfolding fs_rename_def by (rule same_at_with) (metis same_at_del same_at_put same_at_trans snd_conv)

lemma same_at_atomically [apart]: "m \<noteq> n \<Longrightarrow> m @ ''.tmp'' \<noteq> n \<Longrightarrow> same_at n d (snd (write_atomically m bs d))"
  unfolding write_atomically_def Let_def by (intro same_at_bind apart)

lemma outside_names [apart]:
  assumes "outside n"
  shows "data_file_name i \<noteq> n" "hint_name i \<noteq> n" "hint_name i @ ''.tmp'' \<noteq> n"
  using assms by (auto simp: outside_def)

section \<open>The writer\<close>

lemma same_at_hint_write [apart]: "outside n \<Longrightarrow> same_at n d (snd (hint_write i len es d))"
  unfolding hint_write_def by (intro apart)

lemma same_at_log_open [apart]: "outside n \<Longrightarrow> same_at n d (snd (log_writer_open i d))"
  unfolding log_writer_open_def by (intro same_at_bind apart) simp_all

lemma same_at_log_flush [apart]:
  assumes "outside n"
  shows "same_at n d (snd (snd (log_flush w d)))"
proof -
  have "same_at n d (snd (fs_write_all (lw_name w) (lw_pending w) d))" by (intro apart assms)
  then show ?thesis by (auto simp: log_flush_def split: prod.splits sum.splits)
qed

lemma log_flush_id [simp]: "lw_file_id (fst (snd (log_flush w d))) = lw_file_id w"
  by (auto simp: log_flush_def split: prod.splits sum.splits)

lemma same_at_log_sync [apart]:
  assumes "outside n"
  shows "same_at n d (snd (snd (log_sync w d)))"
proof -
  obtain q w1 d1 where f: "log_flush w d = (q, w1, d1)" by (metis prod_cases3)
  have "same_at n d d1" using same_at_log_flush [OF assms, of d w] f by simp
  moreover have "same_at n d1 (snd (fs_sync (lw_name w1) d1))" by (intro apart assms)
  ultimately show ?thesis by (auto simp: log_sync_def f split: sum.splits prod.splits intro: same_at_trans)
qed

lemma same_at_log_append [apart]:
  assumes "outside n"
  shows "same_at n d (snd (snd (log_append w bs reach d)))"
proof (cases "reach \<noteq> ReachBuffer \<and> lw_pending w = []")
  case True
  obtain q d1 where q: "fs_write_all (lw_name w) bs d = (q, d1)" by (metis prod.exhaust)
  have "same_at n d (snd (fs_write_all (lw_name w) bs d))" by (intro apart assms)
  moreover have "same_at n d1 (snd (fs_sync (lw_name w) d1))" by (intro apart assms)
  ultimately show ?thesis
    using True by (auto simp: log_append_def Let_def q split: prod.splits sum.splits intro: same_at_trans)
next
  case False
  let ?w = "w\<lparr> lw_pending := lw_pending w @ bs, lw_offset := lw_offset w + length bs \<rparr>"
  show ?thesis
    using False same_at_log_flush [OF assms, of d ?w] same_at_log_sync [OF assms, of d ?w]
    by (cases reach) (auto simp: log_append_def Let_def split: prod.splits sum.splits)
qed

section \<open>The store\<close>

lemma same_at_roll [apart]:
  assumes "outside n"
  shows "same_at n (st_fs s) (st_fs (snd (roll_if_needed s k)))"
proof -
  obtain q w d where f: "log_sync (st_writer s) (st_fs s) = (q, w, d)" by (metis prod_cases3)
  have 1: "same_at n (st_fs s) d" using same_at_log_sync [OF assms, of "st_fs s" "st_writer s"] f by simp
  let ?d2 = "snd (hint_write (lw_file_id w) (lw_offset w) (st_active_hints s) d)"
  have 2: "same_at n d ?d2" by (intro apart assms)
  obtain q3 d3 where 3: "log_writer_open (Suc (lw_file_id w)) ?d2 = (q3, d3)" by (metis prod.exhaust)
  have 4: "same_at n ?d2 d3" using same_at_log_open [OF assms, of ?d2 "Suc (lw_file_id w)"] 3 by simp
  have 5: "same_at n d3 (log_drop w d3)" unfolding log_drop_def by (intro apart assms)
  have 6: "same_at n e (snd (fs_open m e))" for m e by (intro apart)
  note tr = same_at_trans [OF 1 same_at_trans [OF 2 4]]
  show ?thesis
    using 1 tr same_at_trans [OF tr 5] same_at_trans [OF same_at_trans [OF tr 5] 6]
    by (auto simp: roll_if_needed_def Let_def f 3 split: sum.splits prod.splits) (metis snd_conv)+
qed

lemma same_at_put_with [apart]:
  assumes "outside n"
  shows "same_at n (st_fs s) (st_fs (snd (put_with s k v reach t1 t2)))"
proof (cases "encode_record k (Some v) t1")
  case (Inr bs)
  obtain q s1 where r: "roll_if_needed s (length bs) = (q, s1)" by (metis prod.exhaust)
  have 1: "same_at n (st_fs s) (st_fs s1)" using same_at_roll [OF assms, of s "length bs"] r by simp
  moreover have "same_at n (st_fs s1) (snd (snd (log_append (st_writer s1) bs reach (st_fs s1))))" by (intro apart assms)
  ultimately show ?thesis
    by (auto simp: put_with_def Inr r Let_def split: sum.splits prod.splits intro: same_at_trans)
qed (simp add: put_with_def)

lemma same_at_delete_with [apart]:
  assumes "outside n"
  shows "same_at n (st_fs s) (st_fs (snd (delete_with s k reach t1 t2)))"
proof (cases "encode_record k None t1")
  case (Inr bs)
  obtain q s1 where r: "roll_if_needed s (length bs) = (q, s1)" by (metis prod.exhaust)
  have 1: "same_at n (st_fs s) (st_fs s1)" using same_at_roll [OF assms, of s "length bs"] r by simp
  moreover have "same_at n (st_fs s1) (snd (snd (log_append (st_writer s1) bs reach (st_fs s1))))" by (intro apart assms)
  ultimately show ?thesis
    by (auto simp: delete_with_def Inr r Let_def split: sum.splits prod.splits intro: same_at_trans)
qed (simp add: delete_with_def)

lemma same_at_store_sync [apart]: "outside n \<Longrightarrow> same_at n (st_fs s) (st_fs (snd (store_sync s)))"
  using same_at_log_sync [of n "st_fs s" "st_writer s"] by (auto simp: store_sync_def split: prod.splits)

section \<open>Opening\<close>

lemma same_at_remove_all: "n \<notin> set ms \<Longrightarrow> same_at n d (snd (remove_all ms d))"
  by (induction ms arbitrary: d) (auto intro!: same_at_bind apart)

lemma same_at_truncate [apart]: "outside n \<Longrightarrow> same_at n d (snd (truncate_at i k d))"
  unfolding truncate_at_def by (intro same_at_bind apart)

lemma same_at_open_scan [apart]: "outside n \<Longrightarrow> same_at n d (snd (open_scan b i len h es d))"
  unfolding open_scan_def scanner_open_at_def
  by (intro same_at_bind apart) (auto split: prod.splits option.splits intro!: same_at_bind apart)

lemma same_at_hint_start: "same_at n d (snd (hint_start opts i len d))"
  using same_at_reads(1) [of n d "hint_name i"]
  by (auto simp: hint_start_def hint_load_def Let_def split: prod.splits sum.splits)

lemma same_at_open_file [apart]:
  assumes "outside n"
  shows "same_at n d (snd (open_file opts newest i a d))"
  unfolding open_file_def Let_def
proof (rule same_at_bind, intro apart, goal_cases)
  case (1 len d1)
  obtain es h d2 where h: "hint_start opts i len d1 = ((es, h), d2)" by (metis prod.exhaust)
  then have "same_at n d1 d2" using same_at_hint_start [of n d1 opts i len] by simp
  then show ?case
    unfolding h prod.case
    by (rule same_at_trans) (auto intro!: same_at_bind apart assms)
qed

lemma same_at_open_files [apart]: "outside n \<Longrightarrow> same_at n d (snd (open_files opts newest is a d))"
  by (induction "is" arbitrary: a d) (auto intro!: same_at_bind apart)

lemma same_at_store_open [apart]:
  assumes "outside n"
  shows "same_at n d (snd (store_open opts d))"
proof -
  have "same_at n d (snd (list_data_files d))" "same_at n d (snd (hint_list d))" for d
    unfolding list_data_files_def hint_list_def by (intro same_at_bind apart; simp)+
  moreover have "n \<notin> set (filter (\<lambda>n. ends_with n ''.log.part'') ns)" "n \<notin> set (map hint_name is)" for ns "is"
    using assms by (auto simp: outside_def)
  ultimately show ?thesis
    unfolding store_open_def Let_def
    by (intro same_at_bind apart same_at_remove_all assms) (use assms in \<open>auto simp: outside_def\<close>)
qed

end
