(* ===== verification/ReplicaStore.thy ===== *)
theory ReplicaStore
  imports Replicated StoreApart
begin

text \<open>
  What the replica does to its store (\<^verbatim>\<open>src/src/replicated.rs\<close>): commands and snapshots read back, deferred
  writes extend the history by their own record, the applied index sits beside the data without
  disturbing it, a snapshot is the store's contents in key order, and a restore leaves exactly the
  snapshot's contents.
\<close>

section \<open>Commands\<close>

definition op_key :: "op \<Rightarrow> bytes" where
  "op_key x = (case x of OpPut k v \<Rightarrow> k | OpDelete k \<Rightarrow> k)"

definition op_val :: "op \<Rightarrow> bytes option" where
  "op_val x = (case x of OpPut k v \<Rightarrow> Some v | OpDelete k \<Rightarrow> None)"

lemma op_decode_rec: "rec_ok r \<Longrightarrow> op_decode (rec_bytes r) = Inr (case rval r of Some v \<Rightarrow> OpPut (rkey r) v | None \<Rightarrow> OpDelete (rkey r))"
proof -
  assume ok: "rec_ok r"
  have h: "header_decode (take HEADER_LEN (rec_bytes r)) = rec_header r"
    using decode_header_rec [OF ok] by (simp add: take_rec_bytes)
  have k: "slice HEADER_LEN (HEADER_LEN + length (rkey r)) (rec_bytes r) = rkey r" "drop (HEADER_LEN + length (rkey r)) (rec_bytes r) = rpayload r"
    by (simp_all add: rec_bytes_def slice_def)
  show ?thesis
    using rec_bytes_not_short [of r] header_verify_rec [of r]
    by (cases "rval r") (simp_all add: op_decode_def h k Let_def not_less rpayload_def del: rec_bytes_not_short header_verify_rec)
qed

lemma op_encode_rec:
  "op_encode x now = Inr bs \<longleftrightarrow> op_key x \<noteq> [] \<and> length (op_key x) < 2 ^ 32 \<and> length (case op_val x of Some v \<Rightarrow> v | None \<Rightarrow> []) < 2 ^ 32
     \<and> bs = rec_bytes (KRec (op_key x) (op_val x) now)"
  by (cases x) (simp_all add: op_encode_def encode_record_Inr rpayload_def op_key_def op_val_def)

lemma op_decode_encode:
  assumes "op_encode x now = Inr bs" and "now < 2 ^ 64"
  shows "op_decode bs = Inr x"
proof -
  have "rec_ok (KRec (op_key x) (op_val x) now)" "bs = rec_bytes (KRec (op_key x) (op_val x) now)"
    using assms by (simp_all add: op_encode_rec rec_ok_def rpayload_def)
  with op_decode_rec show ?thesis by (cases x) (auto simp: op_key_def op_val_def)
qed

section \<open>Deferred writes\<close>

definition store_idle :: "bool \<Rightarrow> store \<Rightarrow> krec list \<Rightarrow> bool" where
  "store_idle b s H \<longleftrightarrow> store_log b s H \<and> \<not> st_restoring s \<and> \<not> st_compacting s"

lemma store_idle_kv: "store_idle b s H \<Longrightarrow> store_kv s = kv_of H"
  by (auto simp: store_idle_def dest: store_log_kv)

lemma store_idle_get: "store_idle b s H \<Longrightarrow> store_get s k = (Inr (kv_of H k), st_fs s)"
  by (auto simp: store_idle_def intro: store_log_get)

lemma put_now_ok:
  assumes "store_idle b s H" and "kv_fits k v" and "store_room s (put_cost k v + n)"
  shows "\<exists>s' t. put_now k v (s, c) = (Inr (), s', next_ticks c) \<and> store_idle b s' (H @ [KRec k (Some v) t]) \<and> store_room s' n"
proof -
  obtain s' where "put_with s k v ReachBuffer (fst (c 0) mod 2 ^ 64) (snd (c 0) mod 2 ^ 64) = (Inr (), s')"
    "store_log b s' (H @ [KRec k (Some v) (fst (c 0) mod 2 ^ 64)])" "same_mode s s'" "store_room s' n"
    using store_log_put [of b s H k v "fst (c 0) mod 2 ^ 64" "snd (c 0) mod 2 ^ 64" n ReachBuffer]
      kv_fits_small [OF assms(2), of "fst (c 0)"] assms by (auto simp: store_idle_def cost_rec)
  then show ?thesis using assms(1) by (auto simp: put_now_def put_deferred_def store_idle_def same_mode_def)
qed

lemma delete_now_ok:
  assumes "store_idle b s H" and "store_room s (del_cost k + n)"
  shows "\<exists>s' t. delete_now k (s, c) = (Inr (kv_of H k \<noteq> None), s', next_ticks c) \<and>
    store_idle b s' (if kv_of H k = None then H else H @ [KRec k None t]) \<and> store_room s' n"
proof -
  obtain s' where "delete_with s k ReachBuffer (fst (c 0) mod 2 ^ 64) (snd (c 0) mod 2 ^ 64) = (Inr (kv_of H k \<noteq> None), s')"
    "store_log b s' (if kv_of H k = None then H else H @ [KRec k None (fst (c 0) mod 2 ^ 64)])" "same_mode s s'" "store_room s' n"
    using store_log_delete [of b s H "fst (c 0) mod 2 ^ 64" "snd (c 0) mod 2 ^ 64" k n ReachBuffer] assms
    by (auto simp: store_idle_def cost_rec)
  then show ?thesis using assms(1) by (auto simp: delete_now_def delete_deferred_def store_idle_def same_mode_def)
qed

lemma store_sync_idle:
  assumes "store_idle b s H"
  shows "\<exists>s'. store_sync s = (Inr (), s') \<and> store_idle b s' H \<and> is_synced s' \<and> (\<forall>n. store_room s' n = store_room s n)"
proof -
  obtain L i rs where L: "store_repr b s L i rs" "H = hist_recs (L @ [(i, rs)])" using assms by (auto simp: store_idle_def store_log_def)
  obtain s' where s': "store_sync s = (Inr (), s')" "store_repr b s' L i rs" "same_mode s s'" "is_synced s'"
    using store_sync_ok [OF L(1)] by blast
  have "lw_file_id (st_writer s') = lw_file_id (st_writer s)" using store_reprD(4) [OF L(1)] store_reprD(4) [OF s'(2)] by simp
  moreover have "st_disk_bytes s' = st_disk_bytes s"
    using s'(1) by (auto simp: store_sync_def split: prod.splits sum.splits)
  ultimately show ?thesis
    using s' L assms by (auto simp: store_idle_def store_log_def same_mode_def store_room_def)
qed

section \<open>The applied index\<close>

lemma applied_names [simp]:
  "data_file_name i \<noteq> APPLIED_FILE" "hint_name i \<noteq> APPLIED_FILE" "data_file_name i \<noteq> APPLIED_FILE @ ''.tmp''"
  "hint_name i \<noteq> APPLIED_FILE @ ''.tmp''" "APPLIED_FILE \<noteq> APPLIED_FILE @ ''.tmp''"
  by (rule last_neq, simp add: data_file_name_def hint_name_def APPLIED_FILE_def)+

lemma applied_name_ok: "name_ok ids APPLIED_FILE" "name_ok ids (APPLIED_FILE @ ''.tmp'')"
proof -
  have "split_ext ''applied-index'' = (''applied-index'', None)" by code_simp
  then show "name_ok ids APPLIED_FILE" by (simp add: name_ok_def id_of_name_def APPLIED_FILE_def)
  have "APPLIED_FILE \<noteq> []" by (simp add: APPLIED_FILE_def)
  then show "name_ok ids (APPLIED_FILE @ ''.tmp'')" unfolding name_ok_def by simp
qed

text \<open>A file that is not one of the store's does not concern it.\<close>

lemma store_repr_beside:
  assumes repr: "store_repr b s L i rs" and d: "fs_ok d"
    and same: "\<And>n. n \<notin> {APPLIED_FILE, APPLIED_FILE @ ''.tmp''} \<Longrightarrow> fs_file d n = fs_file (st_fs s) n"
  shows "store_repr b (s\<lparr> st_fs := d \<rparr>) L i rs"
proof -
  note D = store_reprD [OF repr]
  have files: "fs_file d (data_file_name j) = fs_file (st_fs s) (data_file_name j)"
    "fs_file d (hint_name j) = fs_file (st_fs s) (hint_name j)" for j
    by (rule same, simp)+
  have "dir_names d (set (adom L) \<union> {i})"
    using D(3) same applied_name_ok unfolding dir_names_def by (metis insert_iff singletonD)
  moreover have "log_holds b w d js = log_holds b w (st_fs s) js" for w js by (simp add: log_holds_def files)
  moreover have "sealed_holds b d j js = sealed_holds b (st_fs s) j js" for j js by (simp add: sealed_holds_def files)
  moreover have "hint_true b d j js = hint_true b (st_fs s) j js" for j js by (simp add: hint_true_def files)
  ultimately show ?thesis using repr d by (simp add: store_repr_def)
qed

lemma applied_outside: "outside APPLIED_FILE"
proof -
  have "hint_name i @ ''.tmp'' \<noteq> APPLIED_FILE" for i
    by (rule last_neq) (simp add: APPLIED_FILE_def)
  moreover have "\<not> ends_with APPLIED_FILE ''.log.part''" unfolding APPLIED_FILE_def ends_with_def by simp
  ultimately show ?thesis by (metis outside_def applied_names(1,2))
qed

text \<open>What a power cut leaves of the applied index is \<open>a\<close>.\<close>

definition disk_applied :: "fs \<Rightarrow> nat \<Rightarrow> bool" where
  "disk_applied d a \<longleftrightarrow> (case fs_file d APPLIED_FILE of
      None \<Rightarrow> a = 0
    | Some f \<Rightarrow> fsynced f = length (fdata f) \<and> parse_applied (fdata f) = a)"

lemma disk_applied_same: "disk_applied d a \<Longrightarrow> same_at APPLIED_FILE d d' \<Longrightarrow> disk_applied d' a"
  by (simp add: disk_applied_def same_at_def)

lemma disk_applied_cut: "disk_applied d a \<Longrightarrow> disk_applied (fs_power_cut d) a"
  by (auto simp: disk_applied_def fs_power_cut_file split: option.splits)

lemma disk_applied_read: "disk_applied d a \<Longrightarrow> fs_ok d \<Longrightarrow> read_applied d = (a, d)"
  by (auto simp: disk_applied_def read_applied_def fs_read_def fs_with_def fs_op_def fs_ok_def split: option.splits)

lemma parse_applied_bytes: "i < 2 ^ 64 \<Longrightarrow> parse_applied (applied_bytes i) = i"
  using u32_less [of "crc32_parts [le_bytes 8 i]"]
  by (simp add: parse_applied_def applied_bytes_def slice_def)

lemma write_applied_ok:
  assumes "store_idle b s H" and "i < 2 ^ 64"
  shows "\<exists>s'. write_applied s i = (Inr (), s') \<and> store_idle b s' H \<and> is_synced s' = is_synced s \<and>
    (\<forall>n. store_room s' n = store_room s n) \<and> disk_applied (st_fs s') i"
proof -
  obtain L j rs where L: "store_repr b s L j rs" "H = hist_recs (L @ [(j, rs)])" using assms(1) by (auto simp: store_idle_def store_log_def)
  obtain d where d: "write_atomically APPLIED_FILE (applied_bytes i) (st_fs s) = (Inr (), d)" "fs_ok d"
    "fs_file d APPLIED_FILE = Some \<lparr> fdata = applied_bytes i, fsynced = length (applied_bytes i) \<rparr>"
    "fs_frame {APPLIED_FILE, APPLIED_FILE @ ''.tmp''} (st_fs s) d"
    using write_atomically_ok [OF store_reprD(1) [OF L(1)]] by blast
  have "store_repr b (s\<lparr> st_fs := d \<rparr>) L j rs"
    by (rule store_repr_beside [OF L(1) d(2)]) (use d(4) in \<open>auto simp: fs_frame_def\<close>)
  moreover have "disk_applied d i"
    using d(3) parse_applied_bytes [OF assms(2)] by (simp add: disk_applied_def)
  ultimately show ?thesis
    using d(1) assms(1) L(2) by (auto simp: write_applied_def store_idle_def store_log_def is_synced_def store_room_def)
qed

end
