(* ===== verification/ReplicaRestore.thy ===== *)
theory ReplicaRestore
  imports ReplicaStore "HOL-Library.Multiset"
begin

text \<open>
  Snapshots of the store and restoring from them (\<^verbatim>\<open>write_snapshot\<close>, \<^verbatim>\<open>SnapshotRecords\<close>, \<^verbatim>\<open>restore\<close> of
  \<^verbatim>\<open>src/src/replicated.rs\<close>): the records read back as the pairs written, and walking them beside the store's own
  keys in order leaves the store with exactly those pairs.
\<close>

section \<open>The bytes of a snapshot\<close>

definition pair_rec :: "bytes \<times> bytes \<Rightarrow> krec" where
  "pair_rec p = KRec (fst p) (Some (snd p)) 0"

definition pairs_bytes :: "(bytes \<times> bytes) list \<Rightarrow> bytes" where
  "pairs_bytes kvs = concat (map (\<lambda>p. rec_bytes (pair_rec p)) kvs)"

definition pair_fits :: "bytes \<times> bytes \<Rightarrow> bool" where
  "pair_fits p \<longleftrightarrow> kv_fits (fst p) (snd p)"

lemma pair_rec_ok: "pair_fits p \<Longrightarrow> rec_ok (pair_rec p)"
  by (auto simp: pair_fits_def pair_rec_def kv_fits_def put_cost_def rec_ok_def rpayload_def)

lemma next_pair_end: "next_pair \<lparr> sr_reader = [], sr_offset = off, sr_previous = q \<rparr> = (Inr None, \<lparr> sr_reader = [], sr_offset = off, sr_previous = q \<rparr>)"
  by (simp add: next_pair_def read_full_def Let_def)

lemma next_pair_rec:
  assumes "pair_fits p" and "case q of Some k \<Rightarrow> k < fst p | None \<Rightarrow> True"
  shows "next_pair \<lparr> sr_reader = rec_bytes (pair_rec p) @ rest, sr_offset = off, sr_previous = q \<rparr> =
    (Inr (Some p), \<lparr> sr_reader = rest, sr_offset = off + length (rec_bytes (pair_rec p)), sr_previous = Some (fst p) \<rparr>)"
proof -
  let ?r = "pair_rec p"
  have ok: "rec_ok ?r" using assms(1) by (rule pair_rec_ok)
  have h: "header_decode (header_encode (rec_header ?r)) = rec_header ?r" using decode_header_rec [OF ok] by simp
  have kv: "rkey ?r = fst p" "rpayload ?r = snd p" "rval ?r \<noteq> None" by (simp_all add: pair_rec_def rpayload_def)
  have v: "header_verify (rec_header ?r) (fst p) (snd p)" using header_verify_rec [of ?r] kv by simp
  have bytes: "rec_bytes ?r @ rest = header_encode (rec_header ?r) @ fst p @ snd p @ rest" using kv by (simp add: rec_bytes_def)
  have hl: "HEADER_LEN \<noteq> 0" by (simp add: HEADER_LEN_def)
  have lens: "hdr_key_len (rec_header ?r) = length (fst p)" "hdr_value_len (rec_header ?r) = length (snd p)"
    using kv by (simp_all add: rec_header_fields)
  have he: "header_encode (rec_header ?r) \<noteq> []" using hl by (metis length_header_encode list.size(3))
  have prev: "\<not> (case q of Some k \<Rightarrow> k \<ge> fst p | None \<Rightarrow> False)" using assms(2) by (auto split: option.splits)
  show ?thesis
    using h v kv hl he lens prev by (cases q) (simp_all add: next_pair_def read_full_def Let_def bytes del: header_verify_rec)
qed

definition keys_after :: "bytes option \<Rightarrow> (bytes \<times> bytes) list \<Rightarrow> bool" where
  "keys_after q kvs \<longleftrightarrow> sorted_wrt (<) (map fst kvs) \<and> (case q of None \<Rightarrow> True | Some k \<Rightarrow> \<forall>p \<in> set kvs. k < fst p)"

lemma keys_after_Cons:
  "keys_after q (p # kvs) \<Longrightarrow> keys_after (Some (fst p)) kvs \<and> (case q of Some k \<Rightarrow> k < fst p | None \<Rightarrow> True)"
  by (auto simp: keys_after_def split: option.splits)

section \<open>Deleting stale keys\<close>

definition drop_keys :: "bytes set \<Rightarrow> (bytes \<Rightarrow> bytes option) \<Rightarrow> bytes \<Rightarrow> bytes option" where
  "drop_keys K m = (\<lambda>k. if k \<in> K then None else m k)"

abbreviation del_costs :: "bytes list \<Rightarrow> nat" where
  "del_costs ks \<equiv> sum_list (map del_cost ks)"

abbreviation put_costs :: "(bytes \<times> bytes) list \<Rightarrow> nat" where
  "put_costs kvs \<equiv> sum_list (map (\<lambda>p. put_cost (fst p) (snd p)) kvs)"

lemma delete_stale_ok:
  assumes "store_idle b s H" and "store_room s (del_costs ks + n)"
  shows "\<exists>s' c' H'. delete_stale P ks (s, c) = (Inr (dropWhile P ks), s', c') \<and> store_idle b s' H' \<and>
    kv_of H' = drop_keys (set (takeWhile P ks)) (kv_of H) \<and> store_room s' (del_costs (dropWhile P ks) + n)"
  using assms
proof (induction ks arbitrary: s c H)
  case Nil
  then show ?case by (auto simp: drop_keys_def)
next
  case (Cons k ks)
  show ?case
  proof (cases "P k")
    case True
    obtain s1 t where s1: "delete_now k (s, c) = (Inr (kv_of H k \<noteq> None), s1, next_ticks c)"
      "store_idle b s1 (if kv_of H k = None then H else H @ [KRec k None t])" "store_room s1 (del_costs ks + n)"
      using delete_now_ok [OF Cons.prems(1), of k "del_costs ks + n" c] Cons.prems(2) by (auto simp: add.assoc)
    define H1 where "H1 = (if kv_of H k = None then H else H @ [KRec k None t])"
    have kv1: "kv_of H1 = (kv_of H)(k := None)" by (auto simp: H1_def)
    obtain s' c' H' where "delete_stale P ks (s1, next_ticks c) = (Inr (dropWhile P ks), s', c')" "store_idle b s' H'"
      "kv_of H' = drop_keys (set (takeWhile P ks)) (kv_of H1)" "store_room s' (del_costs (dropWhile P ks) + n)"
      using Cons.IH [OF s1(2) [folded H1_def] s1(3)] by blast
    then show ?thesis using s1(1) True kv1 by (auto simp: drop_keys_def fun_eq_iff intro!: exI)
  next
    case False
    then show ?thesis using Cons.prems by (auto simp: drop_keys_def intro!: exI)
  qed
qed

lemma dropWhile_less_sorted:
  "sorted_wrt (<) ks \<Longrightarrow> skip_held k (dropWhile (\<lambda>x. x < k) ks) = filter (\<lambda>x. k < x) (ks :: bytes list)"
proof (induction ks)
  case (Cons x xs)
  show ?case
  proof (cases "x < k")
    case True
    then show ?thesis using Cons by (simp add: not_less_iff_gr_or_eq)
  next
    case False
    then have "filter (\<lambda>y. k < y) xs = xs" using Cons.prems by (auto simp: filter_id_conv)
    then show ?thesis using False by (auto simp: skip_held_def)
  qed
qed (simp add: skip_held_def)

lemma takeWhile_less_sorted:
  "sorted_wrt (<) ks \<Longrightarrow> set (takeWhile (\<lambda>x. x < k) ks) = {x \<in> set ks. x < (k :: bytes)}"
  by (induction ks) (auto dest: less_trans)

lemma del_costs_filter: "del_costs (filter P ks) \<le> del_costs ks"
  by (induction ks) auto

lemma skip_held_costs: "del_costs (skip_held k ks) \<le> del_costs ks"
  by (cases ks) (auto simp: skip_held_def)

lemma store_room_le: "store_room s n \<Longrightarrow> m \<le> n \<Longrightarrow> store_room s m"
  by (simp add: store_room_def)

section \<open>Restoring\<close>

lemma restore_one_ok:
  assumes idle: "store_idle b s H" and fits: "kv_fits k v" and held: "sorted_wrt (<) held"
    and room: "store_room s (del_costs held + put_cost k v + n)"
  shows "\<exists>s' c' H'. restore_one k v held (s, c) = (Inr (filter (\<lambda>x. k < x) held), s', c') \<and> store_idle b s' H' \<and>
    kv_of H' = (drop_keys {x \<in> set held. x < k} (kv_of H))(k \<mapsto> v) \<and> store_room s' (del_costs (filter (\<lambda>x. k < x) held) + n)"
proof -
  let ?P = "\<lambda>x. x < k" and ?held = "filter (\<lambda>x. k < x) held"
  obtain s1 c1 H1 where 1: "delete_stale ?P held (s, c) = (Inr (dropWhile ?P held), s1, c1)" "store_idle b s1 H1"
    "kv_of H1 = drop_keys {x \<in> set held. x < k} (kv_of H)" "store_room s1 (del_costs (dropWhile ?P held) + (put_cost k v + n))"
    using delete_stale_ok [OF idle, of held "put_cost k v + n" ?P c] room takeWhile_less_sorted [OF held, of k] by (auto simp: add.assoc)
  have skip: "skip_held k (dropWhile ?P held) = ?held" using dropWhile_less_sorted [OF held] by simp
  have le: "del_costs ?held \<le> del_costs (dropWhile ?P held)" using skip_held_costs [of k "dropWhile ?P held"] by (simp add: skip)
  have room1: "store_room s1 (put_cost k v + (del_costs ?held + n))" by (rule store_room_le [OF 1(4)]) (use le in simp)
  have get: "store_get s1 k = (Inr (kv_of H1 k), st_fs s1)" using store_idle_get [OF 1(2)] .
  show ?thesis
  proof (cases "kv_of H1 k = Some v")
    case True
    then have "restore_one k v held (s, c) = (Inr ?held, s1, c1)" by (simp add: restore_one_def 1(1) skip get Let_def)
    moreover have "kv_of H1 = (drop_keys {x \<in> set held. x < k} (kv_of H))(k \<mapsto> v)" using True 1(3) by (simp add: fun_eq_iff)
    moreover have "store_room s1 (del_costs ?held + n)" by (rule store_room_le [OF room1]) simp
    ultimately show ?thesis using 1(2) by blast
  next
    case False
    obtain s' t where "put_now k v (s1, c1) = (Inr (), s', next_ticks c1)" "store_idle b s' (H1 @ [KRec k (Some v) t])"
      "store_room s' (del_costs ?held + n)"
      using put_now_ok [OF 1(2) fits room1] by blast
    then show ?thesis using False 1(3) by (auto simp: restore_one_def 1(1) skip get Let_def intro!: exI)
  qed
qed

lemma restore_loop_ok:
  assumes "store_idle b s H" and "list_all pair_fits kvs" and "keys_after q kvs" and "sorted_wrt (<) held"
    and "store_room s (del_costs held + put_costs kvs + n)"
  shows "\<exists>held' s' c' H'. restore_loop \<lparr> sr_reader = pairs_bytes kvs, sr_offset = off, sr_previous = q \<rparr> held (s, c) = (Inr held', s', c') \<and>
    store_idle b s' H' \<and> set held' \<subseteq> set held \<and> store_room s' (del_costs held' + n) \<and>
    drop_keys (set held') (kv_of H') = (\<lambda>k. case map_of kvs k of Some v \<Rightarrow> Some v | None \<Rightarrow> if k \<in> set held then None else kv_of H k) \<and>
    (\<forall>k \<in> set held'. map_of kvs k = None)"
  using assms
proof (induction kvs arbitrary: q held s c H off)
  case Nil
  then show ?case
    by (subst restore_loop.simps) (auto simp: pairs_bytes_def next_pair_end drop_keys_def intro!: exI)
next
  case (Cons p kvs)
  obtain k v where p: "p = (k, v)" by (cases p)
  let ?held = "filter (\<lambda>x. k < x) held"
  have fits: "pair_fits p" "kv_fits k v" using Cons.prems(2) by (auto simp: p pair_fits_def)
  obtain s1 c1 H1 where 1: "restore_one k v held (s, c) = (Inr ?held, s1, c1)" "store_idle b s1 H1"
    "kv_of H1 = (drop_keys {x \<in> set held. x < k} (kv_of H))(k \<mapsto> v)" "store_room s1 (del_costs ?held + (put_costs kvs + n))"
    using restore_one_ok [OF Cons.prems(1) fits(2) Cons.prems(4), of "put_costs kvs + n" c] Cons.prems(5) by (auto simp: p add_ac)
  note after = keys_after_Cons [OF Cons.prems(3)]
  have np: "next_pair \<lparr> sr_reader = pairs_bytes (p # kvs), sr_offset = off, sr_previous = q \<rparr> =
    (Inr (Some (k, v)), \<lparr> sr_reader = pairs_bytes kvs, sr_offset = off + length (rec_bytes (pair_rec p)), sr_previous = Some k \<rparr>)"
    using next_pair_rec [OF fits(1), of q "pairs_bytes kvs" off] after by (simp add: pairs_bytes_def p)
  have srt: "sorted_wrt (<) ?held" using Cons.prems(4) by (rule sorted_wrt_filter)
  obtain held' s' c' H' where IH:
    "restore_loop \<lparr> sr_reader = pairs_bytes kvs, sr_offset = off + length (rec_bytes (pair_rec p)), sr_previous = Some k \<rparr> ?held (s1, c1) = (Inr held', s', c')"
    "store_idle b s' H'" "set held' \<subseteq> set ?held" "store_room s' (del_costs held' + n)"
    "drop_keys (set held') (kv_of H') = (\<lambda>x. case map_of kvs x of Some v \<Rightarrow> Some v | None \<Rightarrow> if x \<in> set ?held then None else kv_of H1 x)"
    "\<forall>x \<in> set held'. map_of kvs x = None"
    using Cons.IH [OF 1(2) _ _ srt, of "Some k" "off + length (rec_bytes (pair_rec p))" c1] Cons.prems(2) after 1(4)
    by (auto simp: p add.assoc)
  have run: "restore_loop \<lparr> sr_reader = pairs_bytes (p # kvs), sr_offset = off, sr_previous = q \<rparr> held (s, c) = (Inr held', s', c')"
    by (subst restore_loop.simps) (simp add: np 1(1) IH(1))
  have new: "map_of kvs k = None" using after by (auto simp: keys_after_def p map_of_eq_None_iff)
  have "drop_keys (set held') (kv_of H') = (\<lambda>x. case map_of (p # kvs) x of Some v \<Rightarrow> Some v | None \<Rightarrow> if x \<in> set held then None else kv_of H x)"
    unfolding IH(5) using new by (auto simp: fun_eq_iff p 1(3) drop_keys_def split: option.splits)
  moreover have "\<forall>x \<in> set held'. map_of (p # kvs) x = None" using IH(3,6) by (auto simp: p)
  ultimately show ?case using run IH(2-4) by (intro exI [of _ held'] exI [of _ s'] exI [of _ c'] exI [of _ H']) auto
qed

section \<open>The whole restore\<close>

text \<open>The room a restore may take: a tombstone for every key held and a record for every pair.\<close>

definition restore_cost :: "store \<Rightarrow> (bytes \<times> bytes) list \<Rightarrow> nat" where
  "restore_cost s kvs = del_costs (store_keys s) + put_costs kvs"

lemma store_idle_keys:
  assumes "store_idle b s H"
  shows "sorted_wrt (<) (sort (store_keys s))" and "set (store_keys s) = {k. kv_of H k \<noteq> None}"
proof -
  have log: "store_log b s H" using assms by (simp add: store_idle_def)
  then have "distinct (store_keys s)" by (auto simp: store_log_def store_keys_def kd_repr_def dest: store_reprD(10))
  then show "sorted_wrt (<) (sort (store_keys s))" by (simp add: strict_sorted_iff)
  show "set (store_keys s) = {k. kv_of H k \<noteq> None}"
    using store_log_mem(1) [OF log] unfolding store_keys_def set_eq_iff mem_Collect_eq in_adom by blast
qed

lemma del_costs_sort: "del_costs (sort ks) = del_costs ks"
  by (metis mset_map mset_sort sum_mset_sum_list)

lemma restore_ok:
  assumes idle: "store_idle b s H" and kvs: "list_all pair_fits kvs" "keys_after None kvs"
    and room: "store_room s (restore_cost s kvs + n)"
  shows "\<exists>held' s1 c1 s' c' H'. restore_loop (snapshot_records_new (pairs_bytes kvs)) (sort (store_keys s)) (s, c) = (Inr held', s1, c1) \<and>
    delete_stale (\<lambda>_. True) held' (s1, c1) = (Inr [], s', c') \<and> store_idle b s' H' \<and> kv_of H' = map_of kvs \<and> store_room s' n"
proof -
  let ?held = "sort (store_keys s)"
  have "store_room s (del_costs ?held + put_costs kvs + n)" using room by (simp add: restore_cost_def del_costs_sort)
  from restore_loop_ok [OF idle kvs store_idle_keys(1) [OF idle] this, of 0 c]
  obtain held' s1 c1 H1 where 1: "restore_loop (snapshot_records_new (pairs_bytes kvs)) ?held (s, c) = (Inr held', s1, c1)"
    "store_idle b s1 H1" "store_room s1 (del_costs held' + n)"
    "drop_keys (set held') (kv_of H1) = (\<lambda>k. case map_of kvs k of Some v \<Rightarrow> Some v | None \<Rightarrow> if k \<in> set ?held then None else kv_of H k)"
    unfolding snapshot_records_new_def by blast
  have dw: "dropWhile (\<lambda>_. True) held' = []" by (induction held') auto
  have tw: "takeWhile (\<lambda>_. True) held' = held'" by (induction held') auto
  obtain s' c' H' where 2: "delete_stale (\<lambda>_. True) held' (s1, c1) = (Inr [], s', c')" "store_idle b s' H'"
    "kv_of H' = drop_keys (set held') (kv_of H1)" "store_room s' n"
    using delete_stale_ok [OF 1(2,3), of "\<lambda>_. True" c1] by (auto simp: dw tw)
  have "kv_of H' k = map_of kvs k" for k
    using store_idle_keys(2) [OF idle] by (auto simp: 2(3) 1(4) split: option.splits)
  then have "kv_of H' = map_of kvs" by (simp add: fun_eq_iff)
  with 1(1) 2(1,2,4) show ?thesis by blast
qed

lemma rp_restore_ok:
  assumes idle: "store_idle b (rp_store r) H" and st: "ms_faults (storage (rp_node r)) = []"
    and snap: "ms_snapshot (storage (rp_node r)) = pairs_bytes kvs" "list_all pair_fits kvs" "keys_after None kvs"
    and idx: "rp_snapshot_index r < 2 ^ 64"
    and room: "store_room (rp_store r) (restore_cost (rp_store r) kvs + n)"
  shows "\<exists>s' c' H'. rp_restore r = (Inr (), r\<lparr> rp_store := s', rp_clock := c', rp_applied := rp_snapshot_index r \<rparr>) \<and>
    store_idle b s' H' \<and> kv_of H' = map_of kvs \<and> is_synced s' \<and> store_room s' n \<and>
    disk_applied (st_fs s') (rp_snapshot_index r)"
proof -
  obtain held' s1 c1 s2 c' H' where 1:
    "restore_loop (snapshot_records_new (pairs_bytes kvs)) (sort (store_keys (rp_store r))) (rp_store r, rp_clock r) = (Inr held', s1, c1)"
    "delete_stale (\<lambda>_. True) held' (s1, c1) = (Inr [], s2, c')" "store_idle b s2 H'" "kv_of H' = map_of kvs" "store_room s2 n"
    using restore_ok [OF idle snap(2,3) room] by blast
  obtain s3 where 3: "store_sync s2 = (Inr (), s3)" "store_idle b s3 H'" "is_synced s3" "store_room s3 n"
    using store_sync_idle [OF 1(3)] 1(5) by blast
  obtain s4 where 4: "write_applied s3 (rp_snapshot_index r) = (Inr (), s4)" "store_idle b s4 H'" "is_synced s4" "store_room s4 n"
    "disk_applied (st_fs s4) (rp_snapshot_index r)"
    using write_applied_ok [OF 3(2) idx] 3(3,4) by blast
  have rd: "snapshot_reader (storage (rp_node r)) = (Inr (pairs_bytes kvs), storage (rp_node r))"
    using st snap(1) by (simp add: snapshot_reader_def durably_def)
  have "rp_restore r = (Inr (), r\<lparr> rp_store := s4, rp_clock := c', rp_applied := rp_snapshot_index r \<rparr>)"
    using 1(1,2) 3(1) 4(1) by (simp add: rp_restore_def rd Let_def)
  with 4 1(4) show ?thesis by blast
qed

end
