(* ===== verification/ReplicaSnapshot.thy ===== *)
theory ReplicaSnapshot
  imports ReplicaRestore
begin

text \<open>
  Writing a snapshot (\<^verbatim>\<open>start_snapshot\<close>, \<^verbatim>\<open>SnapshotJob::run\<close>, \<^verbatim>\<open>finish_snapshot\<close> of \<^verbatim>\<open>src/src/replicated.rs\<close>): the
  view of a store whose buffer is flushed reads every value from the files, and the records written
  are the store's contents in key order, which a restore reads back.
\<close>

section \<open>Reading through a view\<close>

lemma list_all2_ex1: "list_all2 P xs ys \<Longrightarrow> x \<in> set xs \<Longrightarrow> \<exists>y. P x y"
  by (induction rule: list_all2_induct) auto

lemma view_read:
  assumes repr: "store_repr b s L i rs" and pend: "lw_pending (st_writer s) = []" and e: "(k, loc) \<in> set (st_keydir s)"
  shows "\<exists>v. kv_of (hist_recs (L @ [(i, rs)])) k = Some v \<and> pair_fits (k, v) \<and>
    read_value (st_readers s) loc (st_fs s) = (Inr v, st_fs s)"
proof -
  let ?G = "L @ [(i, rs)]"
  note D = store_reprD [OF repr]
  have "(k, loc) \<in> set (sort_key loc_key (st_keydir s))" using e by simp
  then obtain r where r: "entry_rec (plocs ?G) (k, loc) r"
    using merge_source(1) [OF repr] by (meson list_all2_ex1)
  obtain v where v: "rval r = Some v" and k: "rkey r = k" using entry_recD(1,2) [OF r] by blast
  obtain js where js: "(loc_file_id loc, js) \<in> set ?G" "(r, loc_file_id loc, loc_offset loc, loc_len loc) \<in> set (locs (loc_file_id loc) 0 js)"
    using entry_recD(4) [OF r] by blast
  have "sealed_holds False (st_fs s) (loc_file_id loc) js" using flushed_sealed [OF repr pend] js(1) by blast
  from sealed_read [OF this D(1) js(2)]
  have rd: "read_at (loc_file_id loc) (loc_offset loc) (loc_len loc) (st_fs s) = (Inr (rec_bytes r), st_fs s)" .
  have small: "rec_small r" using r by (simp add: entry_rec_def)
  have "loc_file_id loc \<in> set (st_readers s)" using js(1) D(9) by force
  moreover have "decode_value (rec_bytes r) loc = Inr v" by (rule decode_value_rec [OF _ v]) (use small in simp)
  ultimately have "read_value (st_readers s) loc (st_fs s) = (Inr v, st_fs s)" by (simp add: read_value_def rd)
  moreover have "kv_of (hist_recs ?G) k = Some v"
    using r v hist_kv_idx [of ?G k] by (simp add: entry_rec_def hist_kv_def)
  moreover have "pair_fits (k, v)"
    using small k v by (auto simp: rec_small_def rec_ok_def pair_fits_def kv_fits_def put_cost_def length_rec_bytes rpayload_def)
  ultimately show ?thesis by blast
qed

section \<open>The records written\<close>

definition pairs_of :: "(bytes \<Rightarrow> bytes option) \<Rightarrow> bytes list \<Rightarrow> (bytes \<times> bytes) list" where
  "pairs_of m ks = map (\<lambda>k. (k, the (m k))) ks"

lemma map_of_pairs_of: "\<forall>k. m k \<noteq> None \<longleftrightarrow> k \<in> set ks \<Longrightarrow> map_of (pairs_of m ks) = m"
proof
  fix k assume dom: "\<forall>k. m k \<noteq> None \<longleftrightarrow> k \<in> set ks"
  have "map_of (pairs_of m ks) = (Some \<circ> (\<lambda>k. the (m k))) |` set ks" unfolding pairs_of_def by (rule map_of_map_restrict)
  then show "map_of (pairs_of m ks) k = m k" using dom by (cases "k \<in> set ks") force+
qed

lemma snapshot_record_ok:
  assumes "pair_fits (k, v)"
  shows "snapshot_record k v sk = Inr (sk\<lparr> sk_data := sk_data sk @ rec_bytes (pair_rec (k, v)) \<rparr>)"
proof -
  have "encode_record k (Some v) 0 = Inr (rec_bytes (pair_rec (k, v)))"
    using assms by (auto simp: encode_record_Inr pair_fits_def kv_fits_def put_cost_def rpayload_def pair_rec_def)
  then show ?thesis by (simp add: snapshot_record_def sink_write_def)
qed

lemma for_each_entry_ok:
  assumes "\<forall>(k, loc) \<in> set es. \<exists>v. m k = Some v \<and> pair_fits (k, v) \<and> read_value readers loc d = (Inr v, d)"
  shows "for_each_entry readers snapshot_record es sk d = (Inr (sk\<lparr> sk_data := sk_data sk @ pairs_bytes (pairs_of m (adom es)) \<rparr>), d) \<and>
    list_all pair_fits (pairs_of m (adom es))"
  using assms
proof (induction es arbitrary: sk)
  case Nil
  then show ?case by (simp add: pairs_of_def pairs_bytes_def)
next
  case (Cons e es)
  obtain k loc where e: "e = (k, loc)" by (cases e)
  obtain v where "m k = Some v" "pair_fits (k, v)" "read_value readers loc d = (Inr v, d)" using Cons.prems by (auto simp: e)
  then show ?case using Cons snapshot_record_ok by (simp add: e pairs_of_def pairs_bytes_def)
qed

lemma adom_sort_key: "adom (sort_key fst al) = sort (adom al)"
  by (rule properties_for_sort [symmetric]) simp_all

lemma write_snapshot_ok:
  assumes "store_idle b s H"
  shows "\<exists>v s' kvs. view s = (Inr v, s') \<and> store_idle b s' H \<and> (\<forall>n. store_room s' n = store_room s n) \<and>
    is_synced s' = is_synced s \<and> same_at APPLIED_FILE (st_fs s) (st_fs s') \<and>
    write_snapshot v sk (st_fs s') = (Inr (sk\<lparr> sk_data := sk_data sk @ pairs_bytes kvs \<rparr>), st_fs s') \<and>
    list_all pair_fits kvs \<and> keys_after None kvs \<and> map_of kvs = kv_of H"
proof -
  obtain L i rs where L: "store_repr b s L i rs" "H = hist_recs (L @ [(i, rs)])" using assms by (auto simp: store_idle_def store_log_def)
  obtain w d where fl: "log_flush (st_writer s) (st_fs s) = (Inr (), w, d)" "lw_file_id w = i" "lw_pending w = []"
    "store_repr b (s\<lparr> st_writer := w, st_fs := d \<rparr>) L i rs"
    using store_flush_ok [OF L(1)] by blast
  define s' where "s' = s\<lparr> st_writer := w, st_fs := d \<rparr>"
  have repr: "store_repr b s' L i rs" and pend: "lw_pending (st_writer s') = []" using fl by (simp_all add: s'_def)
  let ?es = "sort_key fst (st_keydir s')" and ?ks = "sort (store_keys s')"
  have idle: "store_idle b s' H" using assms repr L(2) by (auto simp: store_idle_def store_log_def s'_def)
  have v: "view s = (Inr \<lparr> sv_entries = ?es, sv_readers = st_readers s' \<rparr>, s')"
    using open_all_ok [OF store_reprD(1) [OF repr] repr_files [OF repr]] fl(1) by (simp add: view_def s'_def Let_def)
  have "\<forall>(k, loc) \<in> set ?es. \<exists>v. kv_of H k = Some v \<and> pair_fits (k, v) \<and> read_value (st_readers s') loc (st_fs s') = (Inr v, st_fs s')"
    using view_read [OF repr pend] by (auto simp: L(2))
  from for_each_entry_ok [OF this, of sk]
  have w: "write_snapshot \<lparr> sv_entries = ?es, sv_readers = st_readers s' \<rparr> sk (st_fs s') =
      (Inr (sk\<lparr> sk_data := sk_data sk @ pairs_bytes (pairs_of (kv_of H) ?ks) \<rparr>), st_fs s')"
    and fits: "list_all pair_fits (pairs_of (kv_of H) ?ks)"
    by (simp_all add: write_snapshot_def for_each_def adom_sort_key store_keys_def)
  have "keys_after None (pairs_of (kv_of H) ?ks)"
    using store_idle_keys(1) [OF idle] by (simp add: keys_after_def pairs_of_def comp_def)
  moreover have "map_of (pairs_of (kv_of H) ?ks) = kv_of H"
    by (rule map_of_pairs_of) (use store_idle_keys(2) [OF idle] in auto)
  moreover have "store_room s' n = store_room s n" for n
    using fl(2) store_reprD(4) [OF L(1)] by (simp add: store_room_def s'_def)
  moreover have "is_synced s' = is_synced s"
    using fl(1) by (auto simp: is_synced_def s'_def log_flush_def split: if_splits sum.splits prod.splits)
  moreover have "same_at APPLIED_FILE (st_fs s) (st_fs s')"
    using same_at_log_flush [OF applied_outside, of "st_fs s" "st_writer s"] fl(1) by (simp add: s'_def)
  ultimately show ?thesis using v w fits idle by blast
qed

end
