(* ===== verification/Replay.thy ===== *)
theory Replay
  imports ReplicaSnapshot
begin

text \<open>
  What a replica's store should hold, as a function of the committed log alone: \<open>kv_at G i\<close> is the map after the first
  \<open>i\<close> commands of \<open>G\<close>. Recovery may find a store ahead of the recorded applied index; \<open>lag G a m\<close> is what it
  holds then: not a state the log ever had, but replaying from \<open>a\<close> on reaches the right one at \<open>m\<close>, because
  puts and deletes overwrite whatever was there.
\<close>

section \<open>The state machine\<close>

definition cmd_kv :: "command \<Rightarrow> (bytes \<Rightarrow> bytes option) \<Rightarrow> bytes \<Rightarrow> bytes option" where
  "cmd_kv c m = (case c of
      Data bs \<Rightarrow> (case op_decode bs of Inr x \<Rightarrow> m(op_key x := op_val x) | Inl _ \<Rightarrow> m)
    | _ \<Rightarrow> m)"

definition replay :: "(nat \<Rightarrow> command) \<Rightarrow> nat \<Rightarrow> nat \<Rightarrow> (bytes \<Rightarrow> bytes option) \<Rightarrow> bytes \<Rightarrow> bytes option" where
  "replay G a c = fold (\<lambda>i. cmd_kv (G i)) [Suc a ..< Suc c]"

definition kv_at :: "(nat \<Rightarrow> command) \<Rightarrow> nat \<Rightarrow> bytes \<Rightarrow> bytes option" where
  "kv_at G i = replay G 0 i Map.empty"

definition lag :: "(nat \<Rightarrow> command) \<Rightarrow> nat \<Rightarrow> nat \<Rightarrow> (bytes \<Rightarrow> bytes option) \<Rightarrow> bool" where
  "lag G a m kv \<longleftrightarrow> a \<le> m \<and> (\<forall>c \<ge> m. replay G a c kv = kv_at G c)"

lemma replay_refl [simp]: "c \<le> a \<Longrightarrow> replay G a c kv = kv"
  by (simp add: replay_def)

lemma replay_split:
  assumes "a \<le> b" and "b \<le> c"
  shows "replay G a c kv = replay G b c (replay G a b kv)"
proof -
  have "[Suc a ..< Suc c] = [Suc a ..< Suc b] @ [Suc b ..< Suc c]"
    using assms upt_add_eq_append [of "Suc a" "Suc b" "c - b"] by (simp del: upt_Suc)
  then show ?thesis by (simp add: replay_def del: upt_Suc)
qed

lemma replay_Suc: "replay G a (Suc a) kv = cmd_kv (G (Suc a)) kv"
  by (simp add: replay_def)

lemma kv_at_Suc: "kv_at G (Suc i) = cmd_kv (G (Suc i)) (kv_at G i)"
  by (simp add: kv_at_def replay_def)

section \<open>Replaying again\<close>

text \<open>What a run of commands writes does not depend on what was there: each key it touches gets one value.\<close>

lemma fold_cmd_key:
  "(\<forall>kv. fold cmd_kv cs kv k = kv k) \<or> (\<exists>v. \<forall>kv. fold cmd_kv cs kv k = v)"
proof (induction cs)
  case (Cons c cs)
  have "(\<forall>kv. cmd_kv c kv k = kv k) \<or> (\<exists>v. \<forall>kv. cmd_kv c kv k = v)"
  proof (cases c)
    case (Data bs)
    then show ?thesis by (cases "op_decode bs"; simp add: cmd_kv_def; metis)
  qed (simp_all add: cmd_kv_def)
  then show ?case
  proof
    assume "\<forall>kv. cmd_kv c kv k = kv k"
    then show ?case using Cons by (elim disjE) auto
  next
    assume "\<exists>v. \<forall>kv. cmd_kv c kv k = v"
    then show ?case using Cons by (elim disjE) auto
  qed
qed simp

lemma fold_cmd_again: "fold cmd_kv (xs @ ys) (fold cmd_kv xs kv) = fold cmd_kv (xs @ ys) kv"
proof
  fix k
  show "fold cmd_kv (xs @ ys) (fold cmd_kv xs kv) k = fold cmd_kv (xs @ ys) kv k"
    using fold_cmd_key [of ys k]
  proof
    assume ys: "\<forall>kv. fold cmd_kv ys kv k = kv k"
    from fold_cmd_key [of xs k] show ?thesis by rule (use ys in auto)
  qed auto
qed

lemma replay_again:
  assumes "a \<le> b" and "b \<le> c"
  shows "replay G a c (replay G a b kv) = replay G a c kv"
proof -
  have f: "replay G x y = fold cmd_kv (map G [Suc x ..< Suc y])" for x y
    unfolding replay_def fold_map comp_def ..
  have "[Suc a ..< Suc c] = [Suc a ..< Suc b] @ [Suc b ..< Suc c]"
    using assms upt_add_eq_append [of "Suc a" "Suc b" "c - b"] by (simp del: upt_Suc)
  then show ?thesis unfolding f by (simp only: map_append fold_cmd_again)
qed

lemma lag_exact: "lag G a a kv \<longleftrightarrow> kv = kv_at G a"
proof
  assume "lag G a a kv"
  then have "replay G a a kv = kv_at G a" unfolding lag_def by blast
  then show "kv = kv_at G a" by simp
next
  assume "kv = kv_at G a"
  then show "lag G a a kv" using replay_split [of 0 a _ G Map.empty, symmetric] by (simp add: lag_def kv_at_def)
qed

lemma lag_reached: "lag G a m kv \<Longrightarrow> m \<le> a \<Longrightarrow> kv = kv_at G a"
  using lag_exact [of G a kv] by (auto simp: lag_def)

lemma lag_ahead: "a \<le> m \<Longrightarrow> lag G a m (kv_at G m)"
proof -
  assume a: "a \<le> m"
  have "replay G a c (kv_at G m) = kv_at G c" if "m \<le> c" for c
  proof -
    have "kv_at G m = replay G a m (kv_at G a)" using a by (simp add: kv_at_def replay_split [of 0 a m])
    then have "replay G a c (kv_at G m) = replay G a c (kv_at G a)" using a that by (simp add: replay_again)
    then show ?thesis using a that by (simp add: kv_at_def replay_split [of 0 a c])
  qed
  with a show ?thesis by (simp add: lag_def)
qed

lemma lag_mono: "lag G a m kv \<Longrightarrow> m \<le> m' \<Longrightarrow> lag G a m' kv"
  by (auto simp: lag_def)

lemma lag_step:
  assumes "lag G a m kv"
  shows "lag G (Suc a) (max m (Suc a)) (cmd_kv (G (Suc a)) kv)"
proof -
  have "replay G (Suc a) c (cmd_kv (G (Suc a)) kv) = kv_at G c" if "max m (Suc a) \<le> c" for c
    using assms that replay_split [of a "Suc a" c G kv] by (simp add: lag_def replay_Suc)
  then show ?thesis by (simp add: lag_def)
qed

end
