(* ===== verification/ReplicaApply.thy ===== *)
theory ReplicaApply
  imports Replay NodeProps
begin

text \<open>
  Applying committed entries (\<^verbatim>\<open>apply\<close> of \<^verbatim>\<open>src/src/replicated.rs\<close>): \<open>rp_inv\<close> relates a replica to the committed log,
  and every part of \<^verbatim>\<open>apply\<close> (restoring, the entries, the sync, an inline snapshot and the compaction after it)
  succeeds on a working device and keeps it.
\<close>

section \<open>Commands that can be applied\<close>

definition cmd_fits :: "command \<Rightarrow> bool" where
  "cmd_fits c = (case c of
      Data bs \<Rightarrow> (case op_decode bs of Inr (OpPut k v) \<Rightarrow> kv_fits k v | Inr (OpDelete k) \<Rightarrow> True | Inl _ \<Rightarrow> False)
    | _ \<Rightarrow> True)"

definition cmd_cost :: "command \<Rightarrow> nat" where
  "cmd_cost c = (case c of
      Data bs \<Rightarrow> (case op_decode bs of Inr (OpPut k v) \<Rightarrow> put_cost k v | Inr (OpDelete k) \<Rightarrow> del_cost k | Inl _ \<Rightarrow> 0)
    | _ \<Rightarrow> 0)"

abbreviation cmd_costs :: "entry list \<Rightarrow> nat" where
  "cmd_costs es \<equiv> sum_list (map (\<lambda>e. cmd_cost (e_command e)) es)"

lemma apply_entry_ok:
  assumes idle: "store_idle b s H" and fits: "cmd_fits (e_command e)" and room: "store_room s (cmd_cost (e_command e) + n)"
  shows "\<exists>s' c' H'. apply_entry e (s, c) = (Inr (), s', c') \<and> store_idle b s' H' \<and>
    kv_of H' = cmd_kv (e_command e) (kv_of H) \<and> store_room s' n"
proof (cases "e_command e")
  case (Data bs)
  then obtain x where x: "op_decode bs = Inr x" using fits by (cases "op_decode bs") (auto simp: cmd_fits_def)
  show ?thesis
  proof (cases x)
    case (OpPut k v)
    have "kv_fits k v" "store_room s (put_cost k v + n)" using fits room by (simp_all add: cmd_fits_def cmd_cost_def Data x OpPut)
    from put_now_ok [OF idle this, of c] show ?thesis
      by (fastforce simp: apply_entry_def cmd_kv_def Data x OpPut op_key_def op_val_def)
  next
    case (OpDelete k)
    have "store_room s (del_cost k + n)" using room by (simp add: cmd_cost_def Data x OpDelete)
    from delete_now_ok [OF idle this, of c] obtain s' t where
      s': "delete_now k (s, c) = (Inr (kv_of H k \<noteq> None), s', next_ticks c)"
      "store_idle b s' (if kv_of H k = None then H else H @ [KRec k None t])" "store_room s' n" by blast
    have "kv_of (if kv_of H k = None then H else H @ [KRec k None t]) = (kv_of H)(k := None)" by auto
    then show ?thesis using s' by (fastforce simp: apply_entry_def cmd_kv_def Data x OpDelete op_key_def op_val_def)
  qed
qed (use idle room in \<open>auto simp: apply_entry_def cmd_kv_def cmd_cost_def\<close>)

section \<open>A run of entries\<close>

lemma apply_entries_ok:
  assumes "map e_index es = [Suc l ..< Suc c]" and "\<forall>e \<in> set es. e_command e = G (e_index e) \<and> cmd_fits (e_command e)"
    and "l \<le> rp_applied r" and "store_idle b (rp_store r) H" and "lag G (rp_applied r) m (kv_of H)"
    and "store_room (rp_store r) (cmd_costs es + n)"
  shows "\<exists>s' t' H'. apply_entries es r = (Inr (), r\<lparr> rp_store := s', rp_clock := t', rp_applied := max (rp_applied r) c \<rparr>) \<and>
    store_idle b s' H' \<and> lag G (max (rp_applied r) c) (max m c) (kv_of H') \<and> store_room s' n \<and>
    (c \<le> rp_applied r \<longrightarrow> s' = rp_store r)"
  using assms
proof (induction es arbitrary: l r H m)
  case Nil
  then have le: "c \<le> l" by (simp split: if_splits)
  then have "max (rp_applied r) c = rp_applied r" "c \<le> m" using Nil.prems(3,5) by (auto simp: lag_def)
  then show ?case using Nil.prems(4-6) by (auto intro!: exI [of _ "rp_store r"] exI [of _ "rp_clock r"] exI [of _ H] simp: max_absorb1)
next
  case (Cons e es)
  have l: "l < c" using Cons.prems(1) by (metis list.distinct(1) list.simps(9) not_less_eq upt_conv_Nil linorder_not_less)
  then have ix: "e_index e = Suc l" "map e_index es = [Suc (Suc l) ..< Suc c]"
    using Cons.prems(1) by (simp_all add: upt_conv_Cons del: upt_Suc)
  have rest: "\<forall>e \<in> set es. e_command e = G (e_index e) \<and> cmd_fits (e_command e)" using Cons.prems(2) by (meson list.set_intros(2))
  show ?case
  proof (cases "e_index e \<le> rp_applied r")
    case True
    then have "Suc l \<le> rp_applied r" using ix(1) by simp
    moreover have "store_room (rp_store r) (cmd_costs es + n)" by (rule store_room_le [OF Cons.prems(6)]) simp
    ultimately show ?thesis using Cons.IH [OF ix(2) rest _ Cons.prems(4,5)] True by simp
  next
    case False
    then have a: "rp_applied r = l" using Cons.prems(3) ix(1) by simp
    have e: "cmd_fits (e_command e)" "e_command e = G (Suc l)" using Cons.prems(2) ix(1) by auto
    obtain s1 t1 H1 where 1: "apply_entry e (rp_store r, rp_clock r) = (Inr (), s1, t1)" "store_idle b s1 H1"
      "kv_of H1 = cmd_kv (G (Suc l)) (kv_of H)" "store_room s1 (cmd_costs es + n)"
      using apply_entry_ok [OF Cons.prems(4) e(1), of "cmd_costs es + n" "rp_clock r"] Cons.prems(6) e(2) by (auto simp: add.assoc)
    let ?r = "r\<lparr> rp_store := s1, rp_clock := t1, rp_applied := Suc l \<rparr>"
    have "lag G (Suc l) (max m (Suc l)) (kv_of H1)" using lag_step Cons.prems(5) by (simp add: a 1(3))
    with 1 obtain s' t' H' where "apply_entries es ?r = (Inr (), ?r\<lparr> rp_store := s', rp_clock := t', rp_applied := max (Suc l) c \<rparr>)"
      "store_idle b s' H'" "lag G (max (Suc l) c) (max (max m (Suc l)) c) (kv_of H')" "store_room s' n"
      using Cons.IH [OF ix(2) rest, of ?r H1 "max m (Suc l)"] by auto
    moreover have "max (Suc l) c = max (rp_applied r) c" "max (max m (Suc l)) c = max m c" using l a by auto
    ultimately show ?thesis using 1(1) False ix(1) a l by auto
  qed
qed

section \<open>The invariant\<close>

text \<open>
  \<open>snap_inv\<close>: the log begins with a snapshot of the state at its base. \<open>log_inv\<close>: what is committed and still in the
  log is the committed log. \<open>rp_inv\<close>: the store is where the applied index says, or ahead of it by writes up to \<open>m\<close>;
  the node has handed over no entry that neither the store nor the snapshot has.
\<close>

definition snap_image :: "(nat \<Rightarrow> command) \<Rightarrow> nat \<Rightarrow> nat \<Rightarrow> bytes \<Rightarrow> (bytes \<times> bytes) list \<Rightarrow> bool" where
  "snap_image G a m bs kvs \<longleftrightarrow> bs = pairs_bytes kvs \<and> list_all pair_fits kvs \<and> keys_after None kvs \<and> lag G a m (map_of kvs)"

definition log_inv :: "(nat \<Rightarrow> command) \<Rightarrow> node \<Rightarrow> bool" where
  "log_inv G n \<longleftrightarrow> storage_wf (storage n) \<and> ms_faults (storage n) = [] \<and> last_index (storage n) < 2 ^ 64 \<and>
     sm_index (snapshot_meta_of (storage n)) \<le> last_applied n \<and> commit_index n \<le> last_index (storage n) \<and>
     (\<forall>i e. i \<le> commit_index n \<longrightarrow> entry_at (storage n) i = Some e \<longrightarrow> e_command e = G i)"

definition rp_inv :: "bool \<Rightarrow> (nat \<Rightarrow> command) \<Rightarrow> nat \<Rightarrow> replica \<Rightarrow> bool" where
  "rp_inv b G m r \<longleftrightarrow>
     (\<exists>H. store_idle b (rp_store r) H \<and> lag G (rp_applied r) m (kv_of H)) \<and> log_inv G (rp_node r) \<and>
     last_applied (rp_node r) \<le> max (rp_applied r) (rp_snapshot_index r) \<and>
     (\<exists>kvs. snap_image G (rp_snapshot_index r) m (ms_snapshot (storage (rp_node r))) kvs)"

text \<open>Between two calls everything is on the disk, and so is the applied index.\<close>

definition at_rest :: "replica \<Rightarrow> bool" where
  "at_rest r \<longleftrightarrow> is_synced (rp_store r) \<and> disk_applied (st_fs (rp_store r)) (rp_applied r)"

lemma snap_image_mono: "snap_image G a m bs kvs \<Longrightarrow> m \<le> m' \<Longrightarrow> snap_image G a m' bs kvs"
  by (auto simp: snap_image_def intro: lag_mono)

text \<open>A new storage has no snapshot, which is the snapshot of the empty map.\<close>

lemma snap_image_empty: "snap_image G 0 0 [] []"
  by (simp add: snap_image_def pairs_bytes_def keys_after_def lag_exact kv_at_def)

section \<open>Taking a snapshot\<close>

lemma install_own_snapshot:
  assumes inv: "log_inv G n" and new: "sm_index (snapshot_meta_of (storage n)) < i" "i \<le> last_applied n"
    and t: "term_at (storage n) i = Some t" and sk: "sk_meta sk = \<lparr> sm_index = i, sm_term = t \<rparr>"
  shows "\<exists>n'. node_finish_compaction sk n = (Inr True, n') \<and> log_inv G n' \<and> sm_index (snapshot_meta_of (storage n')) = i \<and>
    ms_snapshot (storage n') = sk_data sk \<and> last_applied n' = last_applied n \<and> commit_index n' = commit_index n"
proof -
  let ?l = "ms_log (storage n)" and ?m = "sk_meta sk"
  have wf: "log_wf ?l" and nf: "ms_faults (storage n) = []" using inv by (simp_all add: log_inv_def)
  have newer: "sm_index (el_base ?l) < sm_index ?m" and agrees: "el_term_at ?l (sm_index ?m) = Some (sm_term ?m)"
    using new t sk by (simp_all add: snapshot_meta_of_def term_at_def)
  note C = el_compact_agrees [OF wf newer agrees]
  obtain l' where l': "el_compact ?m ?l = (l', True)" "el_base l' = ?m" using newer by (simp add: el_compact_def)
  let ?st = "(storage n)\<lparr> ms_log := l', ms_snapshot := sk_data sk, ms_members := sk_members sk \<rparr>"
  have "node_finish_compaction sk n = (Inr True, n\<lparr> storage := ?st \<rparr>)"
    using newer nf by (simp add: node_finish_compaction_def install_snapshot_def durably_def l' snapshot_meta_of_def)
  moreover have "log_inv G (n\<lparr> storage := ?st \<rparr>)"
    using inv new(2) log_wf_compact [OF wf, of ?m] C l' sk
    by (auto simp: log_inv_def snapshot_meta_of_def last_index_def entry_at_def split: if_splits)
  ultimately show ?thesis using l' sk by (auto simp: snapshot_meta_of_def)
qed

lemma store_idle_compact:
  assumes "store_idle b s H" and "store_room s 1" and "\<And>ids. set (ord ids) = set ids"
  shows "\<exists>rep s' H'. store_compact ord s = (Inr rep, s') \<and> store_idle b s' H' \<and> kv_of H' = kv_of H \<and>
    is_synced s' \<and> same_at APPLIED_FILE (st_fs s) (st_fs s')"
proof -
  obtain L i rs where L: "store_repr b s L i rs" "H = hist_recs (L @ [(i, rs)])" using assms(1) by (auto simp: store_idle_def store_log_def)
  have mode: "\<not> st_compacting s" "\<not> st_restoring s" using assms(1) by (simp_all add: store_idle_def)
  obtain rep s' ms where "store_compact ord s = (Inr rep, s')" "store_repr b s' [] (i + 1) ms" "kv_of ms = kv_of H" "same_mode s s'"
    "is_synced s'" "same_at APPLIED_FILE (st_fs s) (st_fs s')"
    using store_compact_ok [OF L(1) assms(2) mode, of ord] assms(3) L(2) applied_outside
    by (auto simp: same_at_def outside_def)
  moreover from this(2) have "store_log b s' ms" unfolding store_log_def by (intro exI [of _ "[]"] exI [of _ "i + 1"] exI [of _ ms]) simp
  ultimately show ?thesis using mode by (auto simp: store_idle_def same_mode_def)
qed

text \<open>The node after an installed snapshot, and the store compacted if that is worth it.\<close>

lemma finish_snapshot_ok:
  assumes inv: "log_inv G (rp_node r)" and idle: "store_idle b (rp_store r) H" and lag: "lag G (rp_applied r) m (kv_of H)"
    and new: "rp_snapshot_index r < rp_applied r" "rp_applied r \<le> last_applied (rp_node r)"
    and la: "last_applied (rp_node r) \<le> max (rp_applied r) (rp_snapshot_index r)"
    and t: "term_at (storage (rp_node r)) (rp_applied r) = Some t" and sk: "sk_meta sk = \<lparr> sm_index = rp_applied r, sm_term = t \<rparr>"
    and kvs: "sk_data sk = pairs_bytes kvs" "list_all pair_fits kvs" "keys_after None kvs" "map_of kvs = kv_of H"
    and room: "store_room (rp_store r) 1" and ord: "\<And>ids. set (ord ids) = set ids"
  shows "\<exists>r'. finish_snapshot ord sk r = (Inr (), r') \<and> rp_inv b G m r' \<and> rp_applied r' = rp_applied r \<and>
    commit_index (rp_node r') = commit_index (rp_node r) \<and> store_kv (rp_store r') = store_kv (rp_store r) \<and>
    (at_rest r \<longrightarrow> at_rest r')"
proof -
  obtain n' where n': "node_finish_compaction sk (rp_node r) = (Inr True, n')" "log_inv G n'"
    "sm_index (snapshot_meta_of (storage n')) = rp_applied r" "ms_snapshot (storage n') = sk_data sk"
    "last_applied n' = last_applied (rp_node r)" "commit_index n' = commit_index (rp_node r)"
    using install_own_snapshot [OF inv _ new(2) t sk] new(1) unfolding rp_snapshot_index_def by blast
  have keeps: "rp_inv b G m r'" if "rp_node r' = n'" "rp_applied r' = rp_applied r" "store_idle b (rp_store r') H'" "kv_of H' = kv_of H" for r' H'
    unfolding rp_inv_def rp_snapshot_index_def using that n' la new lag kvs
    by (auto simp: snap_image_def rp_snapshot_index_def intro!: exI [of _ H'] exI [of _ kvs])
  let ?r = "r\<lparr> rp_snapshotting := False, rp_node := n' \<rparr>"
  obtain rep s' H' where c: "store_compact ord (rp_store r) = (Inr rep, s')" "store_idle b s' H'" "kv_of H' = kv_of H"
    "is_synced s'" "same_at APPLIED_FILE (st_fs (rp_store r)) (st_fs s')"
    using store_idle_compact [OF idle room ord] by blast
  have rest: "at_rest (?r\<lparr> rp_store := s' \<rparr>)" "at_rest (?r\<lparr> rp_compaction_due := True \<rparr>)" "at_rest ?r" if "at_rest r"
    using that c(4,5) disk_applied_same by (auto simp: at_rest_def)
  have "store_kv s' = store_kv (rp_store r)" using store_idle_kv [OF c(2)] store_idle_kv [OF idle] c(3) by simp
  then have "rp_inv b G m (?r\<lparr> rp_store := s' \<rparr>)" "rp_inv b G m (?r\<lparr> rp_compaction_due := True \<rparr>)" "rp_inv b G m ?r" "store_kv s' = store_kv (rp_store r)"
    using keeps [of "?r\<lparr> rp_store := s' \<rparr>", OF _ _ _ c(3)] keeps [of "?r\<lparr> rp_compaction_due := True \<rparr>" H] keeps [of ?r H] c idle
    by simp_all
  then show ?thesis using n' c(1) rest by (simp add: finish_snapshot_def Let_def)
qed

lemma apply_snapshot_ok:
  assumes inv: "rp_inv b G m r" and front: "rp_snapshot_index r \<le> rp_applied r"
    and room: "store_room (rp_store r) 1" and ord: "\<And>ids. set (ord ids) = set ids"
  shows "\<exists>r'. apply_snapshot ord r = (Inr (), r') \<and> rp_inv b G m r' \<and> rp_applied r' = rp_applied r \<and>
    commit_index (rp_node r') = commit_index (rp_node r) \<and> store_kv (rp_store r') = store_kv (rp_store r) \<and>
    (at_rest r \<longrightarrow> at_rest r')"
proof -
  let ?n = "rp_node r" and ?a = "rp_applied r"
  obtain H where H: "store_idle b (rp_store r) H" "lag G ?a m (kv_of H)" using inv by (auto simp: rp_inv_def)
  have linv: "log_inv G ?n" and la: "last_applied ?n \<le> max ?a (rp_snapshot_index r)" and nf: "ms_faults (storage ?n) = []"
    using inv by (simp_all add: rp_inv_def log_inv_def)
  show ?thesis
  proof (cases "\<not> rp_background r \<and> snapshot_due r \<and> rp_snapshot_index r < ?a \<and> ?a \<le> last_applied ?n \<and> term_at (storage ?n) ?a \<noteq> None")
    case False
    then have "apply_snapshot ord r = (Inr (), r)"
      using nf front by (auto simp: apply_snapshot_def start_snapshot_def node_begin_compaction_def rp_snapshot_index_def not_less split: option.splits)
    then show ?thesis using inv by auto
  next
    case True
    then obtain t where t: "term_at (storage ?n) ?a = Some t" by auto
    define sk where "sk = \<lparr> sk_meta = \<lparr> sm_index = ?a, sm_term = t \<rparr>, sk_members = Some (members_at ?n ?a), sk_data = [] \<rparr>"
    have bc: "node_begin_compaction ?a ?n = (Inr (Some sk), ?n)"
      using True t nf by (simp add: node_begin_compaction_def rp_snapshot_index_def new_snapshot_def durably_def sk_def)
    obtain v s1 kvs where v: "view (rp_store r) = (Inr v, s1)" "store_idle b s1 H" "\<forall>n. store_room s1 n = store_room (rp_store r) n"
      "write_snapshot v sk (st_fs s1) = (Inr (sk\<lparr> sk_data := sk_data sk @ pairs_bytes kvs \<rparr>), st_fs s1)"
      "list_all pair_fits kvs" "keys_after None kvs" "map_of kvs = kv_of H"
      "is_synced s1 = is_synced (rp_store r)" "same_at APPLIED_FILE (st_fs (rp_store r)) (st_fs s1)"
      using write_snapshot_ok [OF H(1), of sk] by blast
    let ?r = "r\<lparr> rp_snapshotting := True, rp_store := s1 \<rparr>" and ?sk = "sk\<lparr> sk_data := pairs_bytes kvs \<rparr>"
    have run: "apply_snapshot ord r = finish_snapshot ord ?sk ?r"
      using True bc v(1,4) by (simp add: apply_snapshot_def start_snapshot_def snapshot_run_def sk_def)
    have room1: "store_room (rp_store ?r) 1" using v(3) room by simp
    have "\<exists>r'. finish_snapshot ord ?sk ?r = (Inr (), r') \<and> rp_inv b G m r' \<and> rp_applied r' = rp_applied ?r \<and>
      commit_index (rp_node r') = commit_index (rp_node ?r) \<and> store_kv (rp_store r') = store_kv (rp_store ?r) \<and>
      (at_rest ?r \<longrightarrow> at_rest r')"
      by (rule finish_snapshot_ok [OF _ _ _ _ _ _ _ _ _ v(5-7) room1 ord])
        (use linv v(2) H(2) True la t in \<open>simp_all add: sk_def rp_snapshot_index_def\<close>)
    moreover have "store_kv s1 = store_kv (rp_store r)" using store_idle_kv [OF v(2)] store_idle_kv [OF H(1)] by simp
    moreover have "at_rest ?r" if "at_rest r" using that v(8,9) disk_applied_same by (auto simp: at_rest_def)
    ultimately show ?thesis unfolding run by auto
  qed
qed

section \<open>Applying\<close>

lemma apply_sync_ok:
  assumes idle: "store_idle b (rp_store r) H" and a: "rp_applied r < 2 ^ 64"
  shows "\<exists>s'. apply_sync before r = (Inr (), r\<lparr> rp_store := s' \<rparr>) \<and> store_idle b s' H \<and>
    (\<forall>n. store_room s' n = store_room (rp_store r) n) \<and> (before < rp_applied r \<longrightarrow> at_rest (r\<lparr> rp_store := s' \<rparr>))"
proof (cases "before < rp_applied r")
  case True
  obtain s1 where 1: "store_sync (rp_store r) = (Inr (), s1)" "store_idle b s1 H" "\<forall>n. store_room s1 n = store_room (rp_store r) n" "is_synced s1"
    using store_sync_idle [OF idle] by blast
  obtain s2 where "write_applied s1 (rp_applied r) = (Inr (), s2)" "store_idle b s2 H" "\<forall>n. store_room s2 n = store_room s1 n"
    "is_synced s2 = is_synced s1" "disk_applied (st_fs s2) (rp_applied r)"
    using write_applied_ok [OF 1(2) a] by blast
  then show ?thesis using 1 True by (auto simp: apply_sync_def at_rest_def intro!: exI [of _ s2])
next
  case False
  then show ?thesis using idle by (auto simp: apply_sync_def intro!: exI [of _ "rp_store r"])
qed

definition todo :: "node \<Rightarrow> entry list" where
  "todo n = fst (take_committed n)"

text \<open>The entries handed over are those of the committed log.\<close>

lemma take_committed_good:
  assumes linv: "log_inv G n" and fits: "\<forall>e \<in> set (todo n). cmd_fits (e_command e)"
  shows "\<exists>es. take_committed n = (es, n\<lparr> last_applied := max (last_applied n) (commit_index n) \<rparr>) \<and>
    map e_index es = [Suc (last_applied n) ..< Suc (commit_index n)] \<and>
    (\<forall>e \<in> set es. e_command e = G (e_index e) \<and> cmd_fits (e_command e)) \<and>
    log_inv G (n\<lparr> last_applied := max (last_applied n) (commit_index n) \<rparr>)"
proof -
  note LI = linv [unfolded log_inv_def]
  let ?is = "[Suc (last_applied n) ..< Suc (commit_index n)]"
  obtain es where es: "take_committed n = (es, n\<lparr> last_applied := max (last_applied n) (commit_index n) \<rparr>)"
    "map Some es = map (entry_at (storage n)) ?is" "map e_index es = ?is"
    using take_committed_held [of n] LI by blast
  have "e_command e = G (e_index e) \<and> cmd_fits (e_command e)" if e: "e \<in> set es" for e
  proof -
    obtain j where j: "j < length es" "e = es ! j" using e by (auto simp: in_set_conv_nth)
    have len: "length ?is = length es" using es(3) by (metis length_map)
    have "e_index e = ?is ! j" using es(3) j by (metis nth_map)
    moreover have "entry_at (storage n) (?is ! j) = Some e" using es(2) j len by (metis nth_map)
    moreover have "?is ! j \<le> commit_index n" using j(1) len nth_mem [of j ?is] by (simp del: upt_Suc)
    ultimately show ?thesis using LI fits e es(1) by (auto simp: todo_def)
  qed
  moreover have "log_inv G (n\<lparr> last_applied := max (last_applied n) (commit_index n) \<rparr>)" using LI by (auto simp: log_inv_def)
  ultimately show ?thesis using es by blast
qed

lemma apply_logged_ok:
  assumes inv: "rp_inv b G m r" and front: "rp_snapshot_index r \<le> rp_applied r"
    and fits: "\<forall>e \<in> set (todo (rp_node r)). cmd_fits (e_command e)"
    and room: "store_room (rp_store r) (cmd_costs (todo (rp_node r)) + 1)"
  shows "\<exists>es n r1 r2. take_committed (rp_node r) = (es, n) \<and> apply_entries es (r\<lparr> rp_node := n \<rparr>) = (Inr (), r1) \<and>
    apply_sync (rp_applied r) r1 = (Inr (), r2) \<and> rp_inv b G (max m (commit_index (rp_node r))) r2 \<and>
    rp_applied r2 = max (rp_applied r) (commit_index (rp_node r)) \<and> commit_index (rp_node r2) = commit_index (rp_node r) \<and>
    rp_snapshot_index r2 = rp_snapshot_index r \<and> store_room (rp_store r2) 1 \<and> (at_rest r \<longrightarrow> at_rest r2)"
proof -
  let ?n = "rp_node r" and ?a = "rp_applied r" and ?c = "commit_index (rp_node r)"
  obtain H where H: "store_idle b (rp_store r) H" "lag G ?a m (kv_of H)" using inv by (auto simp: rp_inv_def)
  have linv: "log_inv G ?n" and la: "last_applied ?n \<le> ?a" using inv front by (auto simp: rp_inv_def)
  obtain es where es: "take_committed ?n = (es, ?n\<lparr> last_applied := max (last_applied ?n) ?c \<rparr>)"
    "map e_index es = [Suc (last_applied ?n) ..< Suc ?c]" "\<forall>e \<in> set es. e_command e = G (e_index e) \<and> cmd_fits (e_command e)"
    "log_inv G (?n\<lparr> last_applied := max (last_applied ?n) ?c \<rparr>)"
    using take_committed_good [OF linv fits] by blast
  let ?r0 = "r\<lparr> rp_node := ?n\<lparr> last_applied := max (last_applied ?n) ?c \<rparr> \<rparr>"
  obtain s1 t1 H1 where 1: "apply_entries es ?r0 = (Inr (), ?r0\<lparr> rp_store := s1, rp_clock := t1, rp_applied := max ?a ?c \<rparr>)"
    "store_idle b s1 H1" "lag G (max ?a ?c) (max m ?c) (kv_of H1)" "store_room s1 1" "?c \<le> ?a \<longrightarrow> s1 = rp_store r"
    using apply_entries_ok [OF es(2,3), of ?r0 b H m 1] la H room es(1) by (auto simp: todo_def)
  let ?r1 = "?r0\<lparr> rp_store := s1, rp_clock := t1, rp_applied := max ?a ?c \<rparr>"
  obtain s2 where 2: "apply_sync ?a ?r1 = (Inr (), ?r1\<lparr> rp_store := s2 \<rparr>)" "store_idle b s2 H1" "store_room s2 1"
    "at_rest r \<longrightarrow> at_rest (?r1\<lparr> rp_store := s2 \<rparr>)"
  proof (cases "?a < ?c")
    case True
    then have "rp_applied ?r1 < 2 ^ 64" using linv by (simp add: log_inv_def)
    from apply_sync_ok [OF _ this, of b H1 ?a] that 1(2,4) True show thesis by auto
  next
    case False
    then have "apply_sync ?a ?r1 = (Inr (), ?r1\<lparr> rp_store := s1 \<rparr>)" by (simp add: apply_sync_def)
    moreover have "at_rest (?r1\<lparr> rp_store := s1 \<rparr>)" if "at_rest r" using that False 1(5) by (simp add: at_rest_def max_absorb1)
    ultimately show thesis using that [of s1] 1(2,4) by blast
  qed
  let ?r2 = "?r1\<lparr> rp_store := s2 \<rparr>"
  obtain kvs where "snap_image G (rp_snapshot_index r) m (ms_snapshot (storage ?n)) kvs" using inv by (auto simp: rp_inv_def)
  then have "snap_image G (rp_snapshot_index r) (max m ?c) (ms_snapshot (storage ?n)) kvs" by (rule snap_image_mono) simp
  then have "rp_inv b G (max m ?c) ?r2"
    unfolding rp_inv_def rp_snapshot_index_def using es(4) 2(2) 1(3) la by (auto simp: rp_snapshot_index_def)
  with es(1) 1(1) 2 show ?thesis by (simp add: rp_snapshot_index_def)
qed

lemma apply_committed_ok:
  assumes inv: "rp_inv b G m r" and front: "rp_snapshot_index r \<le> rp_applied r"
    and fits: "\<forall>e \<in> set (todo (rp_node r)). cmd_fits (e_command e)"
    and room: "store_room (rp_store r) (cmd_costs (todo (rp_node r)) + 1)" and ord: "\<And>ids. set (ord ids) = set ids"
  shows "\<exists>r'. apply_committed ord r = (Inr (), r') \<and> rp_inv b G (max m (commit_index (rp_node r))) r' \<and>
    rp_applied r' = max (rp_applied r) (commit_index (rp_node r)) \<and> (at_rest r \<longrightarrow> at_rest r')"
proof -
  obtain es n r1 r2 where 2: "take_committed (rp_node r) = (es, n)" "apply_entries es (r\<lparr> rp_node := n \<rparr>) = (Inr (), r1)"
    "apply_sync (rp_applied r) r1 = (Inr (), r2)" "rp_inv b G (max m (commit_index (rp_node r))) r2"
    "rp_applied r2 = max (rp_applied r) (commit_index (rp_node r))" "rp_snapshot_index r2 = rp_snapshot_index r"
    "store_room (rp_store r2) 1" "at_rest r \<longrightarrow> at_rest r2"
    using apply_logged_ok [OF inv front fits room] by blast
  have "rp_snapshot_index r2 \<le> rp_applied r2" using front 2(5,6) by simp
  from apply_snapshot_ok [OF 2(4) this 2(7) ord] obtain r' where
    "apply_snapshot ord r2 = (Inr (), r')" "rp_inv b G (max m (commit_index (rp_node r))) r'" "rp_applied r' = rp_applied r2"
    "at_rest r2 \<longrightarrow> at_rest r'" by blast
  then show ?thesis using 2 by (simp add: apply_committed_def rp_bind_def)
qed

end
