(* ===== verification/ReplicaProps.thy ===== *)
theory ReplicaProps
  imports ReplicaApply
begin

text \<open>
  What a replica promises (\<^verbatim>\<open>src/src/replicated.rs\<close>): its store is the committed log played out, snapshots
  carry the store from one replica to another, and a read that is ready sees at least the index it waited
  for.
\<close>

section \<open>The state machine\<close>

definition behind :: "replica \<Rightarrow> bool" where
  "behind r \<longleftrightarrow> rp_snapshot_index r > rp_applied r"

text \<open>The room applying may take: the restore if the store is behind the snapshot, the entries, and one
  file for a compaction.\<close>

definition apply_cost :: "replica \<Rightarrow> nat" where
  "apply_cost r = (if behind r then del_costs (store_keys (rp_store r)) + snapshot_len (storage (rp_node r)) else 0)
     + cmd_costs (todo (rp_node r)) + 1"

lemma put_costs_bytes: "put_costs kvs = length (pairs_bytes kvs)"
  by (induction kvs) (simp_all add: pairs_bytes_def pair_rec_def cost_rec)

text \<open>What the store held before does not matter to a restore.\<close>

lemma restore_keeps:
  assumes H: "store_idle b (rp_store r) H" and li: "log_inv G (rp_node r)"
    and la: "last_applied (rp_node r) \<le> max (rp_applied r) (rp_snapshot_index r)"
    and kvs: "snap_image G (rp_snapshot_index r) m (ms_snapshot (storage (rp_node r))) kvs" and behind: "behind r"
    and room: "store_room (rp_store r) (del_costs (store_keys (rp_store r)) + snapshot_len (storage (rp_node r)) + n)"
  shows "\<exists>r'. rp_restore r = (Inr (), r') \<and> rp_inv b G m r' \<and> rp_node r' = rp_node r \<and>
    rp_applied r' = rp_snapshot_index r \<and> store_room (rp_store r') n \<and> at_rest r'"
proof -
  note K = kvs [unfolded snap_image_def]
  have "sm_index (el_base (ms_log (storage (rp_node r)))) \<le> el_last_index (ms_log (storage (rp_node r)))"
    using li el_last_index_wf by (auto simp: log_inv_def)
  then have idx: "rp_snapshot_index r < 2 ^ 64" and nf: "ms_faults (storage (rp_node r)) = []"
    using li by (auto simp: log_inv_def rp_snapshot_index_def snapshot_meta_of_def last_index_def)
  have "store_room (rp_store r) (restore_cost (rp_store r) kvs + n)"
    using room K by (simp add: restore_cost_def put_costs_bytes snapshot_len_def)
  then obtain s' c' H' where r': "rp_restore r = (Inr (), r\<lparr> rp_store := s', rp_clock := c', rp_applied := rp_snapshot_index r \<rparr>)"
    "store_idle b s' H'" "kv_of H' = map_of kvs" "store_room s' n" "is_synced s'" "disk_applied (st_fs s') (rp_snapshot_index r)"
    using rp_restore_ok [OF H nf _ _ _ idx] K by blast
  have "rp_inv b G m (r\<lparr> rp_store := s', rp_clock := c', rp_applied := rp_snapshot_index r \<rparr>)"
    unfolding rp_inv_def using r'(2,3) K kvs li la behind
    by (auto simp: rp_snapshot_index_def behind_def intro!: exI [of _ H'])
  then show ?thesis using r' by (auto simp: at_rest_def)
qed

text \<open>Where applying starts: at the replica, or at what the restore leaves.\<close>

inductive apply_from :: "replica \<Rightarrow> replica \<Rightarrow> bool" where
  apply_front: "\<not> behind r \<Longrightarrow> apply_from r r"
| apply_behind: "behind r \<Longrightarrow> rp_restore r = (Inr (), r') \<Longrightarrow> apply_from r r'"

lemma apply_start:
  assumes "rp_inv b G m r" and "\<not> (rp_background r \<and> behind r)" and "store_room (rp_store r) (apply_cost r)"
  shows "\<exists>r0. apply_from r r0 \<and> rp_apply ord r = apply_committed ord r0 \<and> rp_inv b G m r0 \<and> rp_node r0 = rp_node r \<and>
    rp_applied r0 = max (rp_applied r) (rp_snapshot_index r) \<and> store_room (rp_store r0) (cmd_costs (todo (rp_node r)) + 1) \<and>
    rp_snapshot_index r0 \<le> rp_applied r0 \<and> (at_rest r \<longrightarrow> at_rest r0)"
proof (cases "behind r")
  case True
  obtain H kvs where "store_idle b (rp_store r) H" "snap_image G (rp_snapshot_index r) m (ms_snapshot (storage (rp_node r))) kvs"
    and n: "log_inv G (rp_node r)" "last_applied (rp_node r) \<le> max (rp_applied r) (rp_snapshot_index r)"
    using assms(1) by (auto simp: rp_inv_def)
  from restore_keeps [OF this(1) n this(2) True, of "cmd_costs (todo (rp_node r)) + 1"] True assms(3) obtain r0 where
    r0: "rp_restore r = (Inr (), r0)" "rp_inv b G m r0" "rp_node r0 = rp_node r" "rp_applied r0 = rp_snapshot_index r"
    "store_room (rp_store r0) (cmd_costs (todo (rp_node r)) + 1)" "at_rest r0"
    by (auto simp: apply_cost_def add.assoc)
  moreover have "apply_from r r0" using True r0(1) by (rule apply_behind)
  moreover have "rp_snapshot_index r0 \<le> rp_applied r0" using r0(3,4) by (simp add: rp_snapshot_index_def)
  moreover have "rp_apply ord r = apply_committed ord r0" using True assms(2) r0(1) by (simp add: rp_apply_def behind_def rp_bind_def)
  ultimately show ?thesis using True by (intro exI [of _ r0]) (simp add: behind_def)
next
  case False
  then show ?thesis
    using assms(1,3) by (intro exI [of _ r]) (simp add: rp_apply_def behind_def apply_cost_def apply_front)
qed

text \<open>
  (C6) A replica plays out the committed log: when the store is where its applied index says, or ahead of it
  only by writes of entries up to \<open>m\<close>, then on a device that works and has room \<^verbatim>\<open>apply\<close> succeeds, whether or not it
  restores a snapshot first or takes one and compacts afterwards; the applied index is then the commit index
  if that is ahead, and once it has passed \<open>m\<close> the store holds exactly what the committed commands up to it
  leave. Entries the store already has are harmless to apply again. If before the call everything was on the
  disk, and the applied index with it, so it is after.
\<close>

theorem rp_apply_correct:
  assumes "rp_inv b G m r" and "\<not> (rp_background r \<and> behind r)"
    and "\<forall>e \<in> set (todo (rp_node r)). cmd_fits (e_command e)"
    and "store_room (rp_store r) (apply_cost r)" and "\<And>ids. set (ord ids) = set ids"
  shows "\<exists>r'. rp_apply ord r = (Inr (), r') \<and> rp_inv b G (max m (commit_index (rp_node r))) r' \<and>
    rp_applied r' = max (max (rp_applied r) (rp_snapshot_index r)) (commit_index (rp_node r)) \<and>
    (m \<le> rp_applied r' \<longrightarrow> store_kv (rp_store r') = kv_at G (rp_applied r')) \<and> (at_rest r \<longrightarrow> at_rest r')"
proof -
  let ?c = "commit_index (rp_node r)"
  have exact: "store_kv (rp_store r') = kv_at G (rp_applied r')"
    if inv: "rp_inv b G (max m ?c) r'" and le: "m \<le> rp_applied r'" "?c \<le> rp_applied r'" for r'
  proof -
    obtain H where "store_idle b (rp_store r') H" "lag G (rp_applied r') (max m ?c) (kv_of H)" using inv by (auto simp: rp_inv_def)
    then show ?thesis using le lag_reached store_idle_kv by simp
  qed
  obtain r0 where r0: "rp_apply ord r = apply_committed ord r0" "rp_inv b G m r0" "rp_node r0 = rp_node r"
    "rp_applied r0 = max (rp_applied r) (rp_snapshot_index r)" "store_room (rp_store r0) (cmd_costs (todo (rp_node r)) + 1)"
    "rp_snapshot_index r0 \<le> rp_applied r0" "at_rest r \<longrightarrow> at_rest r0"
    using apply_start [OF assms(1,2,4), of ord] by blast
  from apply_committed_ok [OF r0(2,6) _ _ assms(5)] r0(3,5) assms(3) obtain r' where
    "apply_committed ord r0 = (Inr (), r')" "rp_inv b G (max m ?c) r'" "rp_applied r' = max (rp_applied r0) ?c"
    "at_rest r0 \<longrightarrow> at_rest r'" by auto
  with exact [of r'] r0(1,4,7) show ?thesis by auto
qed

definition demo_put :: op where
  "demo_put = OpPut [1] [2]"

definition demo_command :: bytes where
  "demo_command = rec_bytes (KRec [1] (Some [2]) 0)"

definition demo_commands :: "nat \<Rightarrow> command" where
  "demo_commands i = (if i = 2 then Data demo_command else Noop)"

definition demo_log :: mem_storage where
  "demo_log = mem_storage_new\<lparr> ms_log := \<lparr> el_base = no_meta, el_entries =
     [\<lparr> e_term = 1, e_index = 1, e_command = Noop \<rparr>, \<lparr> e_term = 1, e_index = 2, e_command = Data demo_command \<rparr>] \<rparr> \<rparr>"

definition demo_replica :: "store \<Rightarrow> replica" where
  "demo_replica s = \<lparr> rp_node = (node_new 1 [1] default_config demo_log)\<lparr> commit_index := 2 \<rparr>, rp_store = s, rp_applied = 0,
     rp_snapshot_every = 1, rp_background = False, rp_snapshotting = False, rp_compaction_due = False, rp_restoring = False,
     rp_clock = (\<lambda>_. (0, 0)) \<rparr>"

lemma demo_decode: "op_decode demo_command = Inr demo_put"
  using op_decode_rec [of "KRec [1] (Some [2]) 0"] by (simp add: demo_command_def demo_put_def rec_ok_def rpayload_def)

lemma demo_node:
  "storage (rp_node (demo_replica s)) = demo_log" "commit_index (rp_node (demo_replica s)) = 2" "last_applied (rp_node (demo_replica s)) = 0"
  "rp_snapshot_index (demo_replica s) = 0"
  by (simp_all add: demo_replica_def node_new_def with_members_def reload_membership_def Let_def case_prod_beta
      snapshot_meta_of_def demo_log_def no_meta_def rp_snapshot_index_def)

lemma demo_log_facts:
  "storage_wf demo_log" "last_index demo_log = 2" "ms_faults demo_log = []" "snapshot_meta_of demo_log = no_meta" "ms_snapshot demo_log = []"
  by (simp_all add: demo_log_def log_wf_follows last_index_def el_last_index_def snapshot_meta_of_def mem_storage_new_def no_meta_def)

lemma demo_entry_at: "entry_at demo_log i = (if i = 1 then Some \<lparr> e_term = 1, e_index = 1, e_command = Noop \<rparr>
    else if i = 2 then Some \<lparr> e_term = 1, e_index = 2, e_command = Data demo_command \<rparr> else None)"
  using el_entry_wf [OF demo_log_facts(1), of i] by (auto simp: entry_at_def demo_log_def no_meta_def)

lemma demo_todo: "todo (rp_node (demo_replica s)) =
    [\<lparr> e_term = 1, e_index = 1, e_command = Noop \<rparr>, \<lparr> e_term = 1, e_index = 2, e_command = Data demo_command \<rparr>]"
  by (simp add: todo_def take_committed_def committed_loop_closed demo_node upt_rec map_filter_simps demo_entry_at)

lemma demo_inv:
  assumes "store_repr True s [] 1 []" and "\<not> st_restoring s" and "\<not> st_compacting s"
  shows "rp_inv True demo_commands 0 (demo_replica s)"
proof -
  have "store_log True s []" unfolding store_log_def using assms(1) by (intro exI [of _ "[]"] exI [of _ 1]) auto
  then have "store_idle True (rp_store (demo_replica s)) []" using assms by (simp add: store_idle_def demo_replica_def)
  moreover have "kv_of [] = kv_at demo_commands 0" by (simp add: kv_at_def kv_of_def)
  moreover have "rp_applied (demo_replica s) = 0" by (simp add: demo_replica_def)
  moreover have "log_inv demo_commands (rp_node (demo_replica s))"
    by (auto simp: log_inv_def demo_node demo_log_facts no_meta_def demo_entry_at demo_commands_def)
  moreover have "\<exists>kvs. snap_image demo_commands 0 0 (ms_snapshot demo_log) kvs" using snap_image_empty demo_log_facts(5) by auto
  ultimately show ?thesis unfolding rp_inv_def by (auto simp: demo_node lag_exact)
qed

theorem rp_apply_correct_witness:
  "\<exists>s r'. store_open default_options no_files = (Inr s, st_fs s) \<and> rp_apply rev (demo_replica s) = (Inr (), r') \<and>
     rp_applied r' = 2 \<and> store_kv (rp_store r') [1] = Some [2]"
proof -
  obtain s where s: "store_open default_options no_files = (Inr s, st_fs s)" "store_repr True s [] 1 []"
    "\<not> st_restoring s" "\<not> st_compacting s"
    using store_open_empty [OF disk_empty_no_files, of default_options True] by blast
  let ?r = "demo_replica s"
  have front: "\<not> behind ?r" by (simp add: behind_def demo_node)
  have fits: "\<forall>e \<in> set (todo (rp_node ?r)). cmd_fits (e_command e)"
    by (simp add: demo_todo cmd_fits_def demo_decode demo_put_def kv_fits_def put_cost_def HEADER_LEN_def)
  have "apply_cost ?r < 100"
    using front by (simp add: apply_cost_def demo_todo cmd_cost_def demo_decode demo_put_def put_cost_def HEADER_LEN_def)
  moreover have "rp_store ?r = s" by (simp add: demo_replica_def)
  ultimately have room: "store_room (rp_store ?r) (apply_cost ?r)"
    using store_room_new [OF s(2)] by (simp add: u64_max_def)
  obtain r' where r': "rp_apply rev ?r = (Inr (), r')" "rp_applied r' = max (max (rp_applied ?r) 0) 2"
    "0 \<le> rp_applied r' \<longrightarrow> store_kv (rp_store r') = kv_at demo_commands (rp_applied r')"
    using rp_apply_correct [OF demo_inv [OF s(2-4)] _ fits room, of rev] front by (auto simp: demo_node)
  have a: "rp_applied r' = 2" using r'(2) by (simp add: demo_replica_def)
  moreover have "kv_at demo_commands 2 [1] = Some [2]"
    by (simp add: numeral_2_eq_2 kv_at_Suc cmd_kv_def demo_commands_def) (simp add: demo_decode demo_put_def op_key_def op_val_def)
  ultimately show ?thesis using s(1) r'(1,3) by auto
qed

section \<open>Snapshots from one replica to another\<close>

text \<open>
  (C14) A snapshot carries a store: the snapshot of one store, restored by a replica whatever its own store held,
  leaves that replica with exactly the contents of the first, synced, and with the applied index on the
  disk at the snapshot's.
\<close>

theorem snapshot_carries_store:
  assumes "store_idle b s H" and "store_idle b' (rp_store r) H'" and "ms_faults (storage (rp_node r)) = []"
    and "view s = (Inr v, s1)" and "write_snapshot v sk (st_fs s1) = (Inr sk', d)" and "sk_data sk = []"
    and "ms_snapshot (storage (rp_node r)) = sk_data sk'" and "rp_snapshot_index r < 2 ^ 64"
    and "store_room (rp_store r) (del_costs (store_keys (rp_store r)) + length (sk_data sk'))"
  shows "\<exists>r'. rp_restore r = (Inr (), r') \<and> store_kv (rp_store r') = store_kv s \<and> is_synced (rp_store r') \<and>
    rp_applied r' = rp_snapshot_index r \<and> fst (read_applied (st_fs (rp_store r'))) = rp_snapshot_index r"
proof -
  obtain kvs where "sk' = sk\<lparr> sk_data := pairs_bytes kvs \<rparr>" and kvs: "list_all pair_fits kvs" "keys_after None kvs" "map_of kvs = kv_of H"
    using write_snapshot_ok [OF assms(1), of sk] assms(4-6) by auto
  then have data: "ms_snapshot (storage (rp_node r)) = pairs_bytes kvs" using assms(7) by simp
  have "store_room (rp_store r) (restore_cost (rp_store r) kvs + 0)"
    using assms(9,7) data by (simp add: restore_cost_def put_costs_bytes)
  from rp_restore_ok [OF assms(2,3) data kvs(1,2) assms(8) this] obtain s' c' H1 where
    r': "rp_restore r = (Inr (), r\<lparr> rp_store := s', rp_clock := c', rp_applied := rp_snapshot_index r \<rparr>)" "store_idle b' s' H1"
    "kv_of H1 = map_of kvs" "is_synced s'" "disk_applied (st_fs s') (rp_snapshot_index r)" by blast
  have "fs_ok (st_fs s')" using r'(2) by (auto simp: store_idle_def store_log_def store_repr_def)
  then have "fst (read_applied (st_fs s')) = rp_snapshot_index r" using disk_applied_read [OF r'(5)] by simp
  then show ?thesis using r' store_idle_kv [OF assms(1)] store_idle_kv [OF r'(2)] kvs(3) by auto
qed

theorem snapshot_carries_store_witness:
  "\<exists>s v s1 sk' d r'. store_open default_options no_files = (Inr s, st_fs s) \<and> view s = (Inr v, s1) \<and>
     write_snapshot v \<lparr> sk_meta = no_meta, sk_members = None, sk_data = [] \<rparr> (st_fs s1) = (Inr sk', d) \<and>
     rp_restore (demo_replica s) = (Inr (), r') \<and> store_kv (rp_store r') = store_kv s"
proof -
  obtain s where s: "store_open default_options no_files = (Inr s, st_fs s)" "store_repr True s [] 1 []"
    "\<not> st_restoring s" "\<not> st_compacting s"
    using store_open_empty [OF disk_empty_no_files, of default_options True] by blast
  have "store_log True s []" unfolding store_log_def using s(2) by (intro exI [of _ "[]"] exI [of _ 1]) auto
  then have idle: "store_idle True s []" using s by (simp add: store_idle_def)
  let ?sk = "\<lparr> sk_meta = no_meta, sk_members = None, sk_data = [] \<rparr>"
  obtain v s1 kvs where v: "view s = (Inr v, s1)"
    "write_snapshot v ?sk (st_fs s1) = (Inr (?sk\<lparr> sk_data := sk_data ?sk @ pairs_bytes kvs \<rparr>), st_fs s1)" "map_of kvs = kv_of []"
    using write_snapshot_ok [OF idle, of ?sk] by blast
  have "kvs = []" using v(3) by (cases kvs) (auto simp: kv_of_def fun_eq_iff split: if_splits)
  have st: "rp_store (demo_replica s) = s" by (simp add: demo_replica_def)
  have "set (store_keys s) = {}" using store_idle_keys(2) [OF idle] by (simp add: kv_of_def)
  then have room: "store_room s (del_costs (store_keys s) + 0)" using store_room_new [OF s(2)] by (simp add: u64_max_def)
  show ?thesis
    using snapshot_carries_store [OF idle _ _ v(1,2), of True "demo_replica s" "[]"] idle room s(1) v \<open>kvs = []\<close>
    by (fastforce simp: st demo_node demo_log_facts pairs_bytes_def)
qed

section \<open>Reads\<close>



end
