(* ===== verification/ReplicaCrash.thy ===== *)
theory ReplicaCrash
  imports ReplicaProps
begin

text \<open>
  A power cut while a replica applies (\<^verbatim>\<open>src/src/replicated.rs\<close>): the writes of a batch reach the disk before the
  applied index that claims them, so what is recovered is never behind the recovered index, and what it is
  ahead by is replayed.
\<close>

section \<open>One entry, one record\<close>

text \<open>A write of the replica: the history grows by its record, nothing that was durable stops being so, and the
  applied index is not touched.\<close>

definition adds :: "store \<Rightarrow> hist \<Rightarrow> krec list \<Rightarrow> store \<Rightarrow> hist \<Rightarrow> bool" where
  "adds s G ks s' G' \<longleftrightarrow> holds True s' G' \<and> hist_grows G G' \<and> hist_recs G' = hist_recs G @ ks \<and> same_mode s s' \<and>
     synced_point s \<le> synced_point s' \<and> same_at APPLIED_FILE (st_fs s) (st_fs s')"

lemma marks_synced: "marks_le (marks s) (marks s') \<Longrightarrow> synced_point s \<le> synced_point s'"
  by (simp add: marks_def)

lemma rolled_hist:
  assumes "rolled L i rs L' i' rs'" and "store_repr b s' L' i' (rs' @ ks)"
  shows "holds b s' (L' @ [(i', rs' @ ks)])" and "hist_grows (L @ [(i, rs)]) (L' @ [(i', rs' @ ks)])"
    and "hist_recs (L' @ [(i', rs' @ ks)]) = hist_recs (L @ [(i, rs)]) @ ks"
  using holdsI [OF assms(2)] rolled_grows [OF assms(1)] rolled_recs [OF assms(1)] by (auto simp: hist_recs_def)

lemma put_now_adds:
  assumes s: "holds True s G" "\<not> st_restoring s" and fits: "kv_fits k v" and room: "store_room s (put_cost k v + n)"
  shows "\<exists>s' G' t. put_now k v (s, c) = (Inr (), s', next_ticks c) \<and> adds s G [KRec k (Some v) t] s' G' \<and> store_room s' n"
proof -
  obtain L i rs where L: "store_repr True s L i rs" "G = L @ [(i, rs)]" using s(1) by (auto simp: holds_def)
  let ?t = "fst (c 0) mod 2 ^ 64" and ?t2 = "snd (c 0) mod 2 ^ 64"
  let ?r = "KRec k (Some v) ?t"
  have room': "store_room s (length (rec_bytes ?r))" using room by (simp add: store_room_def cost_rec)
  obtain s' L' i' rs' where s': "put_with s k v ReachBuffer ?t ?t2 = (Inr (), s')" "store_repr True s' L' i' (rs' @ [?r])"
    "rolled L i rs L' i' rs'" "same_mode s s'" "st_disk_bytes s' = st_disk_bytes s + length (rec_bytes ?r)"
    using put_with_ok [OF L(1) kv_fits_small [OF fits, of "fst (c 0)"] _ room' s(2), of ?t2 ReachBuffer] by auto
  have "marks_le (marks s) (marks s')" using put_with_moves [OF s'(1) L(1)] store_roomD(1) [OF room'] by simp
  moreover have "same_at APPLIED_FILE (st_fs s) (st_fs s')"
    using same_at_put_with [OF applied_outside, of s k v ReachBuffer ?t ?t2] s'(1) by simp
  moreover have "store_room s' n"
    by (rule rolled_room [OF s'(3) store_reprD(4) [OF L(1)] store_reprD(4) [OF s'(2)] s'(5)]) (use room in \<open>simp_all add: cost_rec put_cost_def del_cost_def HEADER_LEN_def\<close>)
  moreover have "put_now k v (s, c) = (Inr (), s', next_ticks c)" using s'(1) by (simp add: put_now_def put_deferred_def)
  ultimately show ?thesis
    unfolding adds_def L(2) using rolled_hist [OF s'(3,2)] s'(4) marks_synced by blast
qed

lemma delete_now_adds:
  assumes s: "holds True s G" "\<not> st_restoring s" and room: "store_room s (del_cost k + n)"
  shows "\<exists>s' G' x t. delete_now k (s, c) = (Inr x, s', next_ticks c) \<and>
    adds s G (if kv_of (hist_recs G) k = None then [] else [KRec k None t]) s' G' \<and> store_room s' n"
proof -
  obtain L i rs where L: "store_repr True s L i rs" "G = L @ [(i, rs)]" using s(1) by (auto simp: holds_def)
  note log = holds_log [OF s(1)]
  let ?t = "fst (c 0) mod 2 ^ 64" and ?t2 = "snd (c 0) mod 2 ^ 64"
  let ?r = "KRec k None ?t"
  show ?thesis
  proof (cases "kv_of (hist_recs G) k = None")
    case True
    then have "map_of (st_keydir s) k = None" using store_log_mem(1) [OF log, of k] by simp
    then have "delete_now k (s, c) = (Inr False, s, next_ticks c)" using delete_with_absent [OF s(2)] by (simp add: delete_now_def delete_deferred_def)
    moreover have "adds s G [] s G" using s(1) L(2) by (auto simp: adds_def same_mode_def intro!: hist_grows_refl)
    moreover have "store_room s n" using room by (simp add: store_room_def)
    ultimately show ?thesis using True by auto
  next
    case False
    then have mem: "map_of (st_keydir s) k \<noteq> None" using store_log_mem(1) [OF log, of k] by simp
    have small: "rec_small ?r" using store_log_mem(2) [OF log] False by simp
    have room': "store_room s (length (rec_bytes ?r))" using room by (simp add: store_room_def cost_rec)
    obtain s' L' i' rs' where s': "delete_with s k ReachBuffer ?t ?t2 = (Inr True, s')" "store_repr True s' L' i' (rs' @ [?r])"
      "rolled L i rs L' i' rs'" "same_mode s s'" "st_disk_bytes s' = st_disk_bytes s + length (rec_bytes ?r)"
      using delete_with_ok [OF L(1) small _ room' s(2) mem, of ?t2 ReachBuffer] by auto
    have "marks_le (marks s) (marks s')" using delete_with_moves [OF s'(1) L(1)] store_roomD(1) [OF room'] by simp
    moreover have "same_at APPLIED_FILE (st_fs s) (st_fs s')"
      using same_at_delete_with [OF applied_outside, of s k ReachBuffer ?t ?t2] s'(1) by simp
    moreover have "store_room s' n"
      by (rule rolled_room [OF s'(3) store_reprD(4) [OF L(1)] store_reprD(4) [OF s'(2)] s'(5)]) (use room in \<open>simp_all add: cost_rec put_cost_def del_cost_def HEADER_LEN_def\<close>)
    moreover have "delete_now k (s, c) = (Inr True, s', next_ticks c)" using s'(1) by (simp add: delete_now_def delete_deferred_def)
    ultimately have "adds s G [?r] s' (L' @ [(i', rs' @ [?r])])" "store_room s' n" "delete_now k (s, c) = (Inr True, s', next_ticks c)"
      unfolding adds_def L(2) using rolled_hist [OF s'(3,2)] s'(4) marks_synced by blast+
    then show ?thesis using False by auto
  qed
qed

lemma apply_entry_adds:
  assumes s: "holds True s G" "\<not> st_restoring s" and fits: "cmd_fits (e_command e)" and room: "store_room s (cmd_cost (e_command e) + n)"
  shows "\<exists>s' c' G' ks. apply_entry e (s, c) = (Inr (), s', c') \<and> adds s G ks s' G' \<and> length ks \<le> 1 \<and>
    kv_of (hist_recs G @ ks) = cmd_kv (e_command e) (kv_of (hist_recs G)) \<and> store_room s' n"
proof (cases "e_command e")
  case (Data bs)
  then obtain x where x: "op_decode bs = Inr x" using fits by (cases "op_decode bs") (auto simp: cmd_fits_def)
  show ?thesis
  proof (cases x)
    case (OpPut k v)
    have "kv_fits k v" "store_room s (put_cost k v + n)" using fits room by (simp_all add: cmd_fits_def cmd_cost_def Data x OpPut)
    from put_now_adds [OF s this, of c] obtain s' G' t where
      "put_now k v (s, c) = (Inr (), s', next_ticks c)" "adds s G [KRec k (Some v) t] s' G'" "store_room s' n" by blast
    then show ?thesis
      by (intro exI [of _ s'] exI [of _ "next_ticks c"] exI [of _ G'] exI [of _ "[KRec k (Some v) t]"])
        (simp add: apply_entry_def cmd_kv_def Data x OpPut op_key_def op_val_def)
  next
    case (OpDelete k)
    have "store_room s (del_cost k + n)" using room by (simp add: cmd_cost_def Data x OpDelete)
    from delete_now_adds [OF s this, of c] obtain s' G' q t where
      s': "delete_now k (s, c) = (Inr q, s', next_ticks c)"
      "adds s G (if kv_of (hist_recs G) k = None then [] else [KRec k None t]) s' G'" "store_room s' n" by blast
    let ?ks = "if kv_of (hist_recs G) k = None then [] else [KRec k None t]"
    have "kv_of (hist_recs G @ ?ks) = (kv_of (hist_recs G))(k := None)" by auto
    then show ?thesis using s'
      by (intro exI [of _ s'] exI [of _ "next_ticks c"] exI [of _ G'] exI [of _ ?ks])
        (simp add: apply_entry_def cmd_kv_def Data x OpDelete op_key_def op_val_def)
  qed
next
  case Noop
  have "adds s G [] s G" using s(1) by (auto simp: adds_def same_mode_def holds_def intro!: hist_grows_refl)
  then show ?thesis using room
    by (intro exI [of _ s] exI [of _ c] exI [of _ G] exI [of _ "[]"]) (simp add: apply_entry_def cmd_kv_def cmd_cost_def Noop)
next
  case (Config ms)
  have "adds s G [] s G" using s(1) by (auto simp: adds_def same_mode_def holds_def intro!: hist_grows_refl)
  then show ?thesis using room
    by (intro exI [of _ s] exI [of _ c] exI [of _ G] exI [of _ "[]"]) (simp add: apply_entry_def cmd_kv_def cmd_cost_def Config)
qed

section \<open>What may be recovered\<close>

text \<open>
  \<open>trail G a0 a H0 H\<close>: the records after \<open>H0\<close> are those of the entries from \<open>a0\<close> to \<open>a\<close>, so however many of them survive,
  they amount to a replay of some of these entries.
\<close>

definition trail :: "(nat \<Rightarrow> command) \<Rightarrow> nat \<Rightarrow> nat \<Rightarrow> krec list \<Rightarrow> krec list \<Rightarrow> bool" where
  "trail G a0 a H0 H \<longleftrightarrow> a0 \<le> a \<and> kv_of H = replay G a0 a (kv_of H0) \<and>
     (\<forall>E Z. H = H0 @ E @ Z \<longrightarrow> (\<exists>j. a0 \<le> j \<and> j \<le> a \<and> kv_of (H0 @ E) = replay G a0 j (kv_of H0)))"

lemma trail_refl: "trail G a a H H"
  by (auto simp: trail_def)

lemma trail_step:
  assumes t: "trail G a0 a H0 H" and ks: "length ks \<le> 1" and kv: "kv_of (H @ ks) = cmd_kv (G (Suc a)) (kv_of H)"
  shows "trail G a0 (Suc a) H0 (H @ ks)"
proof -
  have a: "a0 \<le> a" and all: "kv_of H = replay G a0 a (kv_of H0)" using t by (simp_all add: trail_def)
  have new: "kv_of (H @ ks) = replay G a0 (Suc a) (kv_of H0)"
    unfolding kv all using replay_split [of a0 a "Suc a" G "kv_of H0"] a by (simp add: replay_Suc)
  have "\<exists>j. a0 \<le> j \<and> j \<le> Suc a \<and> kv_of (H0 @ E) = replay G a0 j (kv_of H0)" if e: "H @ ks = H0 @ E @ Z" for E Z
  proof (cases "Z = []")
    case True
    then show ?thesis using new e a by (intro exI [of _ "Suc a"]) simp
  next
    case False
    have "\<exists>Z'. H = H0 @ E @ Z'"
    proof (cases ks)
      case Nil
      then show ?thesis using e by auto
    next
      case (Cons k ks')
      then have "H @ [k] = (H0 @ E @ butlast Z) @ [last Z]" using e ks False by simp
      then show ?thesis by (metis append.assoc append1_eq_conv)
    qed
    then show ?thesis using t by (fastforce simp: trail_def)
  qed
  then show ?thesis using a new by (simp add: trail_def)
qed

lemma lag_replay: "lag G a m kv \<Longrightarrow> a \<le> j \<Longrightarrow> lag G a (max m j) (replay G a j kv)"
  by (auto simp: lag_def replay_again)

lemma lag_moves: "lag G a m kv \<Longrightarrow> a \<le> j \<Longrightarrow> lag G j (max m j) (replay G a j kv)"
  using replay_split [of a j _ G kv, symmetric] by (auto simp: lag_def)

definition cut_safe :: "(nat \<Rightarrow> command) \<Rightarrow> nat \<Rightarrow> nat \<Rightarrow> nat \<Rightarrow> store \<Rightarrow> hist \<Rightarrow> bool" where
  "cut_safe G m a0 a s GH \<longleftrightarrow> holds True s GH \<and> \<not> st_restoring s \<and> \<not> st_compacting s \<and> disk_applied (st_fs s) a0 \<and>
     (\<exists>G0. hist_grows G0 GH \<and> point_of G0 \<le> synced_point s \<and> lag G a0 m (kv_of (hist_recs G0)) \<and>
        trail G a0 a (hist_recs G0) (hist_recs GH))"

lemma cut_safe_recovers:
  assumes "cut_safe G m a0 a s GH"
  shows "\<exists>s' H'. store_open opts (fs_power_cut (st_fs s)) = (Inr s', st_fs s') \<and> store_idle True s' H' \<and> is_synced s' \<and>
    disk_applied (st_fs s') a0 \<and> lag G a0 (max m a) (kv_of H')"
proof -
  obtain G0 where h: "holds True s GH" "disk_applied (st_fs s) a0" "hist_grows G0 GH" "point_of G0 \<le> synced_point s"
    "lag G a0 m (kv_of (hist_recs G0))" "trail G a0 a (hist_recs G0) (hist_recs GH)"
    using assms by (auto simp: cut_safe_def)
  obtain s' E Z where s': "store_open opts (fs_power_cut (st_fs s)) = (Inr s', st_fs s')" "store_log True s' (hist_recs G0 @ E)"
    "hist_recs GH = hist_recs G0 @ E @ Z" "\<not> st_restoring s'" "\<not> st_compacting s'" "is_synced s'"
    using power_cut_keeps [OF h(1,3,4), of opts] by blast
  obtain j where j: "a0 \<le> j" "j \<le> a" "kv_of (hist_recs G0 @ E) = replay G a0 j (kv_of (hist_recs G0))"
    using h(6) s'(3) by (auto simp: trail_def)
  have "lag G a0 (max m a) (kv_of (hist_recs G0 @ E))"
    unfolding j(3) by (rule lag_mono [OF lag_replay [OF h(5) j(1)]]) (use j(2) in simp)
  moreover have "same_at APPLIED_FILE (fs_power_cut (st_fs s)) (st_fs s')"
    using same_at_store_open [OF applied_outside, of "fs_power_cut (st_fs s)" opts] s'(1) by simp
  then have "disk_applied (st_fs s') a0" using disk_applied_cut [OF h(2)] disk_applied_same by blast
  ultimately show ?thesis using s' by (auto simp: store_idle_def)
qed

text \<open>At rest, and after each step of applying.\<close>

lemma synced_all:
  assumes "holds True s GH" and "is_synced s"
  shows "point_of GH \<le> synced_point s"
  using holds_point [OF assms(1)] assms(2) by (simp add: append_point_def synced_point_def is_synced_def)

lemma cut_safe_rest:
  assumes "store_idle True s H" and "is_synced s" and "disk_applied (st_fs s) a" and "lag G a m (kv_of H)"
  shows "\<exists>GH. cut_safe G m a a s GH"
proof -
  obtain L i rs where L: "store_repr True s L i rs" "H = hist_recs (L @ [(i, rs)])" using assms(1) by (auto simp: store_idle_def store_log_def)
  have "cut_safe G m a a s (L @ [(i, rs)])"
    unfolding cut_safe_def using holdsI [OF L(1)] synced_all [OF holdsI [OF L(1)] assms(2)] assms L(2) trail_refl
    by (auto simp: store_idle_def intro!: exI [of _ "L @ [(i, rs)]"] hist_grows_refl)
  then show ?thesis by blast
qed

lemma cut_safe_adds:
  assumes c: "cut_safe G m a0 a s GH" and new: "adds s GH ks s' GH'" "length ks \<le> 1"
    and kv: "kv_of (hist_recs GH @ ks) = cmd_kv (G (Suc a)) (kv_of (hist_recs GH))"
  shows "cut_safe G m a0 (Suc a) s' GH'"
proof -
  note A = new(1) [unfolded adds_def]
  obtain G0 where g: "hist_grows G0 GH" "point_of G0 \<le> synced_point s" "lag G a0 m (kv_of (hist_recs G0))"
    "trail G a0 a (hist_recs G0) (hist_recs GH)" using c by (auto simp: cut_safe_def)
  have "trail G a0 (Suc a) (hist_recs G0) (hist_recs GH')" using trail_step [OF g(4) new(2) kv] A by simp
  moreover have "hist_grows G0 GH'" using hist_grows_trans g(1) A by blast
  moreover have "point_of G0 \<le> synced_point s'" using g(2) A by (meson order_trans)
  moreover note g(3)
  moreover have "holds True s' GH'" "\<not> st_restoring s'" "\<not> st_compacting s'" "disk_applied (st_fs s') a0"
    using c new(1) disk_applied_same by (auto simp: cut_safe_def adds_def same_mode_def)
  ultimately show ?thesis unfolding cut_safe_def by blast
qed

lemma apply_entries_cut:
  assumes "map e_index es = [Suc l ..< Suc c]" and "\<forall>e \<in> set es. e_command e = G (e_index e) \<and> cmd_fits (e_command e)"
    and "l \<le> rp_applied r" and "cut_safe G m a0 (rp_applied r) (rp_store r) GH"
    and "store_room (rp_store r) (cmd_costs es + n)"
  shows "\<exists>r' GH'. apply_entries es r = (Inr (), r') \<and> cut_safe G m a0 (rp_applied r') (rp_store r') GH' \<and>
    rp_applied r' = max (rp_applied r) c \<and> rp_node r' = rp_node r"
  using assms
proof (induction es arbitrary: l r GH)
  case Nil
  then have "c \<le> l" by (simp split: if_splits)
  then show ?case using Nil.prems(3,4) by (auto simp: max_absorb1)
next
  case (Cons e es)
  have l: "l < c" using Cons.prems(1) by (metis list.distinct(1) list.simps(9) not_less_eq upt_conv_Nil linorder_not_less)
  then have ix: "e_index e = Suc l" "map e_index es = [Suc (Suc l) ..< Suc c]"
    using Cons.prems(1) by (simp_all add: upt_conv_Cons del: upt_Suc)
  have rest: "\<forall>e \<in> set es. e_command e = G (e_index e) \<and> cmd_fits (e_command e)" using Cons.prems(2) by (meson list.set_intros(2))
  show ?case
  proof (cases "e_index e \<le> rp_applied r")
    case True
    then have "Suc l \<le> rp_applied r" using ix(1) by simp
    moreover have "store_room (rp_store r) (cmd_costs es + n)" by (rule store_room_le [OF Cons.prems(5)]) simp
    ultimately show ?thesis using Cons.IH [OF ix(2) rest _ Cons.prems(4)] True by simp
  next
    case False
    then have a: "rp_applied r = l" using Cons.prems(3) ix(1) by simp
    have e: "cmd_fits (e_command e)" "e_command e = G (Suc l)" using Cons.prems(2) ix(1) by auto
    have s: "holds True (rp_store r) GH" "\<not> st_restoring (rp_store r)" using Cons.prems(4) by (simp_all add: cut_safe_def)
    obtain s1 t1 G1 ks where 1: "apply_entry e (rp_store r, rp_clock r) = (Inr (), s1, t1)" "adds (rp_store r) GH ks s1 G1"
      "length ks \<le> 1" "kv_of (hist_recs GH @ ks) = cmd_kv (G (Suc l)) (kv_of (hist_recs GH))" "store_room s1 (cmd_costs es + n)"
      using apply_entry_adds [OF s e(1), of "cmd_costs es + n" "rp_clock r"] Cons.prems(5) e(2) by (auto simp: add.assoc)
    let ?r = "r\<lparr> rp_store := s1, rp_clock := t1, rp_applied := Suc l \<rparr>"
    have "cut_safe G m a0 (Suc l) s1 G1" using cut_safe_adds [OF Cons.prems(4) 1(2,3)] 1(4) a by simp
    with 1 obtain r' GH' where "apply_entries es ?r = (Inr (), r')" "cut_safe G m a0 (rp_applied r') (rp_store r') GH'"
      "rp_applied r' = max (Suc l) c" "rp_node r' = rp_node r"
      using Cons.IH [OF ix(2) rest, of ?r G1] by auto
    moreover have "max (Suc l) c = max (rp_applied r) c" using l a by auto
    ultimately show ?thesis using 1(1) False ix(1) by auto
  qed
qed

lemma cut_safe_synced:
  assumes "cut_safe G m a0 a s GH" and "store_sync s = (Inr (), s')"
  shows "cut_safe G m a0 a s' GH"
proof -
  obtain L i rs where L: "store_repr True s L i rs" "GH = L @ [(i, rs)]" using assms(1) by (auto simp: cut_safe_def holds_def)
  have s': "store_repr True s' L i rs" "same_mode s s'" "is_synced s'" using store_sync_ok [OF L(1)] assms(2) by auto
  note h = holdsI [OF s'(1), folded L(2)]
  have "hist_grows G0 GH \<Longrightarrow> point_of G0 \<le> synced_point s \<Longrightarrow> point_of G0 \<le> synced_point s'" for G0
  proof -
    assume "point_of G0 \<le> synced_point s"
    moreover have "synced_point s \<le> append_point s"
      using holds_sane [OF holdsI [OF L(1)]] by (simp add: synced_point_def append_point_def lw_sane_def less_eq_prod_def)
    moreover have "append_point s = point_of GH" using holds_point [OF holdsI [OF L(1)]] L(2) by simp
    ultimately show ?thesis using synced_all [OF h s'(3)] by (metis order_trans)
  qed
  moreover have "disk_applied (st_fs s') a0"
    using assms disk_applied_same [OF _ same_at_store_sync [OF applied_outside, of s]] by (simp add: cut_safe_def)
  ultimately show ?thesis using assms(1) h s'(2) by (auto simp: cut_safe_def same_mode_def)
qed

lemma cut_safe_idle: "cut_safe G m a0 a s GH \<Longrightarrow> \<exists>H. store_idle True s H"
  using holds_log by (auto simp: cut_safe_def store_idle_def)

section \<open>Starting again\<close>

lemma node_new_log: "storage (node_new i vs cfg st) = st" "commit_index (node_new i vs cfg st) = sm_index (snapshot_meta_of st)"
  "last_applied (node_new i vs cfg st) = sm_index (snapshot_meta_of st)"
  by (simp_all add: node_new_def with_members_def reload_membership_def Let_def case_prod_beta)

lemma log_inv_restart:
  assumes "log_inv G n"
  shows "log_inv G (node_new i vs cfg (storage n))"
proof -
  have wf: "log_wf (ms_log (storage n))" using assms by (simp add: log_inv_def)
  have "entry_at (storage n) j = None" if "j \<le> sm_index (snapshot_meta_of (storage n))" for j
    using that el_entry_wf [OF wf, of j] by (simp add: entry_at_def snapshot_meta_of_def)
  moreover have "sm_index (snapshot_meta_of (storage n)) \<le> last_index (storage n)"
    using el_last_index_wf [OF wf] by (simp add: last_index_def snapshot_meta_of_def)
  ultimately show ?thesis using assms by (auto simp: log_inv_def node_new_log)
qed

lemma replica_new_recovers:
  assumes li: "log_inv G n" and kvs: "snap_image G (sm_index (snapshot_meta_of (storage n))) m (ms_snapshot (storage n)) kvs"
    and s: "store_idle True s H" "is_synced s" "disk_applied (st_fs s) a"
    and a: "a < sm_index (snapshot_meta_of (storage n)) \<or> lag G a m (kv_of H)"
    and room: "store_room s (del_costs (store_keys s) + snapshot_len (storage n))"
  shows "\<exists>r. replica_new (node_new i vs cfg (storage n)) s c = (Inr (), r) \<and> rp_inv True G m r \<and> at_rest r \<and>
    storage (rp_node r) = storage n"
proof -
  let ?n = "node_new i vs cfg (storage n)"
  define r where "r = \<lparr> rp_node = ?n, rp_store = s, rp_applied = a, rp_snapshot_every = DEFAULT_SNAPSHOT_EVERY, rp_background = False,
    rp_snapshotting = False, rp_compaction_due = False, rp_restoring = False, rp_clock = c \<rparr>"
  have f: "rp_node r = ?n" "rp_store r = s" "rp_applied r = a" "rp_snapshot_index r = sm_index (snapshot_meta_of (storage n))"
    by (simp_all add: r_def rp_snapshot_index_def node_new_log)
  have "fs_ok (st_fs s)" using s(1) by (auto simp: store_idle_def store_log_def store_repr_def)
  then have "read_applied (st_fs s) = (a, st_fs s)" using disk_applied_read s(3) by blast
  then have new: "replica_new ?n s c = (if behind r then rp_restore r else (Inr (), r))"
    by (simp add: replica_new_def Let_def r_def behind_def)
  have li': "log_inv G (rp_node r)" using log_inv_restart [OF li] by (simp add: f)
  have la: "last_applied (rp_node r) \<le> max (rp_applied r) (rp_snapshot_index r)" by (simp add: f node_new_log)
  have img: "snap_image G (rp_snapshot_index r) m (ms_snapshot (storage (rp_node r))) kvs" using kvs by (simp add: f node_new_log)
  show ?thesis
  proof (cases "behind r")
    case True
    have "store_idle True (rp_store r) H" using s(1) by (simp add: f)
    from restore_keeps [OF this li' la img True, of 0] room new True show ?thesis by (auto simp: f node_new_log)
  next
    case False
    then have "lag G a m (kv_of H)" using a by (simp add: behind_def f)
    then have "rp_inv True G m r" unfolding rp_inv_def using s(1) li' la img f by auto
    moreover have "at_rest r" using s by (simp add: at_rest_def f)
    ultimately show ?thesis using new False by (simp add: f node_new_log)
  qed
qed

section \<open>Cutting the power\<close>

text \<open>
  The moments inside a call of \<^verbatim>\<open>apply\<close> at which the power may go: while a snapshot is restored, after any of its
  records; after any entry; after the sync; after the applied index is written; at the end, with the
  snapshot taken and the store compacted.
\<close>

inductive cut_point :: "(nat list \<Rightarrow> nat list) \<Rightarrow> replica \<Rightarrow> replica \<Rightarrow> bool" where
  cut_restoring: "behind r \<Longrightarrow> ms_snapshot (storage (rp_node r)) = pairs_bytes (kvs @ kvs') \<Longrightarrow> list_all pair_fits kvs \<Longrightarrow> keys_after None kvs \<Longrightarrow>
     restore_loop (snapshot_records_new (pairs_bytes kvs)) (sort (store_keys (rp_store r))) (rp_store r, rp_clock r) = (q, s, c) \<Longrightarrow>
     cut_point ord r (r\<lparr> rp_store := s, rp_clock := c \<rparr>)"
| cut_entry: "apply_from r r0 \<Longrightarrow> take_committed (rp_node r0) = (es, n) \<Longrightarrow>
     apply_entries (take k es) (r0\<lparr> rp_node := n \<rparr>) = (q, r') \<Longrightarrow> cut_point ord r r'"
| cut_synced: "apply_from r r0 \<Longrightarrow> take_committed (rp_node r0) = (es, n) \<Longrightarrow>
     apply_entries es (r0\<lparr> rp_node := n \<rparr>) = (q, r1) \<Longrightarrow> store_sync (rp_store r1) = (q', s) \<Longrightarrow> cut_point ord r (r1\<lparr> rp_store := s \<rparr>)"
| cut_recorded: "apply_from r r0 \<Longrightarrow> take_committed (rp_node r0) = (es, n) \<Longrightarrow>
     apply_entries es (r0\<lparr> rp_node := n \<rparr>) = (q, r1) \<Longrightarrow> apply_sync (rp_applied r0) r1 = (q', r') \<Longrightarrow> cut_point ord r r'"
| cut_done: "rp_apply ord r = (q, r') \<Longrightarrow> cut_point ord r r'"

text \<open>What is left after a cut at such a moment opens to a store that is good for the recovered index.\<close>

definition recoverable :: "(nat \<Rightarrow> command) \<Rightarrow> nat \<Rightarrow> options \<Rightarrow> replica \<Rightarrow> bool" where
  "recoverable G m opts r \<longleftrightarrow> log_inv G (rp_node r) \<and>
     (\<exists>kvs. snap_image G (rp_snapshot_index r) m (ms_snapshot (storage (rp_node r))) kvs) \<and>
     (\<exists>s' H' a. store_open opts (fs_power_cut (st_fs (rp_store r))) = (Inr s', st_fs s') \<and> store_idle True s' H' \<and> is_synced s' \<and>
        disk_applied (st_fs s') a \<and> (a < rp_snapshot_index r \<or> lag G a m (kv_of H')))"

lemma recoverable_cut_safe:
  assumes "cut_safe G m' a0 (rp_applied r) (rp_store r) GH" and "log_inv G (rp_node r)"
    and "snap_image G (rp_snapshot_index r) m (ms_snapshot (storage (rp_node r))) kvs" and "max m' (rp_applied r) \<le> m"
  shows "recoverable G m opts r"
proof -
  obtain s' H' where "store_open opts (fs_power_cut (st_fs (rp_store r))) = (Inr s', st_fs s')" "store_idle True s' H'" "is_synced s'"
    "disk_applied (st_fs s') a0" "lag G a0 (max m' (rp_applied r)) (kv_of H')"
    using cut_safe_recovers [OF assms(1), of opts] by blast
  then show ?thesis using assms lag_mono unfolding recoverable_def by blast
qed

lemma recoverable_mono: "recoverable G m opts r \<Longrightarrow> m \<le> m' \<Longrightarrow> recoverable G m' opts r"
  unfolding recoverable_def by (meson snap_image_mono lag_mono)

lemma recoverable_rest:
  assumes "rp_inv True G m r" and "at_rest r"
  shows "recoverable G m opts r"
proof -
  obtain H kvs where h: "store_idle True (rp_store r) H" "lag G (rp_applied r) m (kv_of H)" "log_inv G (rp_node r)"
    "snap_image G (rp_snapshot_index r) m (ms_snapshot (storage (rp_node r))) kvs" using assms(1) by (auto simp: rp_inv_def)
  obtain GH where "cut_safe G m (rp_applied r) (rp_applied r) (rp_store r) GH"
    using cut_safe_rest [OF h(1) _ _ h(2)] assms(2) by (auto simp: at_rest_def)
  from recoverable_cut_safe [OF this h(3,4)] h(2) show ?thesis by (simp add: lag_def)
qed

section \<open>A restore does not touch the applied index\<close>

lemma same_at_store_get: "same_at n (st_fs s) (snd (store_get s k))"
proof -
  have "same_at n d (snd (read_value rs loc d))" for rs loc d
    unfolding read_value_def read_at_def by (auto intro!: same_at_bind apart split: option.splits)
  then have "same_at n d (snd (io_bind (read_value rs loc d) (\<lambda>v d. (Inr (Some v), d))))" for rs loc d
    by (intro same_at_bind) simp_all
  then show ?thesis by (auto simp: store_get_def split: option.splits if_splits)
qed

lemma same_at_put_now: "same_at APPLIED_FILE (st_fs s) (st_fs (fst (snd (put_now k v (s, c)))))"
  using same_at_put_with [OF applied_outside] by (auto simp: put_now_def put_deferred_def split: prod.splits) (metis snd_conv)

lemma same_at_delete_now: "same_at APPLIED_FILE (st_fs s) (st_fs (fst (snd (delete_now k (s, c)))))"
  using same_at_delete_with [OF applied_outside] by (auto simp: delete_now_def delete_deferred_def split: prod.splits) (metis snd_conv)

lemma same_at_delete_stale: "same_at APPLIED_FILE (st_fs (fst sc)) (st_fs (fst (snd (delete_stale P ks sc))))"
proof (induction ks arbitrary: sc)
  case (Cons k ks)
  obtain s c where sc: "sc = (s, c)" by (cases sc)
  obtain q s1 c1 where d: "delete_now k (s, c) = (q, s1, c1)" by (metis prod_cases3)
  have "same_at APPLIED_FILE (st_fs s) (st_fs s1)" using same_at_delete_now [of s k c] d by simp
  then show ?case using Cons [of "(s1, c1)"] by (auto simp: sc d split: sum.splits intro: same_at_trans)
qed simp

lemma same_at_restore_one: "same_at APPLIED_FILE (st_fs (fst sc)) (st_fs (fst (snd (restore_one k v held sc))))"
proof -
  obtain q s1 c1 where d: "delete_stale (\<lambda>x. x < k) held sc = (q, s1, c1)" by (metis prod_cases3)
  obtain g e where g: "store_get s1 k = (g, e)" by (metis prod.exhaust)
  obtain q2 s2 c2 where w: "put_now k v (s1\<lparr> st_fs := e \<rparr>, c1) = (q2, s2, c2)" by (metis prod_cases3)
  have 1: "same_at APPLIED_FILE (st_fs (fst sc)) (st_fs s1)" using same_at_delete_stale [of sc "\<lambda>x. x < k" held] d by simp
  have 2: "same_at APPLIED_FILE (st_fs s1) e" using same_at_store_get [of APPLIED_FILE s1 k] g by simp
  have 3: "same_at APPLIED_FILE e (st_fs s2)" using same_at_put_now [of "s1\<lparr> st_fs := e \<rparr>" k v c1] w by simp
  show ?thesis
    using 1 same_at_trans [OF 1 2] same_at_trans [OF same_at_trans [OF 1 2] 3]
    by (auto simp: restore_one_def d g w Let_def split: sum.splits)
qed

lemma same_at_restore_loop: "same_at APPLIED_FILE (st_fs (fst sc)) (st_fs (fst (snd (restore_loop rd held sc))))"
proof (induction rd held sc rule: restore_loop.induct)
  case (1 rd held sc)
  show ?case
  proof (cases "\<exists>k v rd'. next_pair rd = (Inr (Some (k, v)), rd')")
    case True
    then obtain k v rd' where n: "next_pair rd = (Inr (Some (k, v)), rd')" by blast
    obtain q sc1 where o: "restore_one k v held sc = (q, sc1)" by (metis prod.exhaust)
    have one: "same_at APPLIED_FILE (st_fs (fst sc)) (st_fs (fst sc1))" using same_at_restore_one [of sc k v held] o by simp
    show ?thesis
    proof (cases q)
      case (Inl e)
      then show ?thesis using one by (simp add: restore_loop.simps [of rd] n o)
    next
      case (Inr h)
      have "same_at APPLIED_FILE (st_fs (fst sc1)) (st_fs (fst (snd (restore_loop rd' h sc1))))"
        by (rule "1.IH") (use n o Inr in auto)
      with one show ?thesis by (auto simp: restore_loop.simps [of rd] n o Inr intro: same_at_trans)
    qed
  next
    case False
    then show ?thesis by (auto simp: restore_loop.simps [of rd] split: sum.splits option.splits prod.splits)
  qed
qed

section \<open>Every moment is recoverable\<close>

lemma idle_cut:
  assumes "store_idle True s H" and "disk_applied (st_fs s) a"
  shows "\<exists>s' H'. store_open opts (fs_power_cut (st_fs s)) = (Inr s', st_fs s') \<and> store_idle True s' H' \<and> is_synced s' \<and> disk_applied (st_fs s') a"
proof -
  obtain L i rs where L: "store_repr True s L i rs" using assms(1) by (auto simp: store_idle_def store_log_def)
  obtain q t where "disk_repr True (fs_power_cut (st_fs s)) L i q t" using power_cut_disk [OF L] by blast
  from store_open_repr [OF this, of opts] obtain s' where s': "store_open opts (fs_power_cut (st_fs s)) = (Inr s', st_fs s')"
    "store_repr True s' L i q" "\<not> st_restoring s'" "\<not> st_compacting s'" "is_synced s'" by blast
  have "same_at APPLIED_FILE (fs_power_cut (st_fs s)) (st_fs s')"
    using same_at_store_open [OF applied_outside, of "fs_power_cut (st_fs s)" opts] s'(1) by simp
  then have "disk_applied (st_fs s') a" using disk_applied_cut [OF assms(2)] disk_applied_same by blast
  then show ?thesis using s' holds_log [OF holdsI [OF s'(2)]] by (auto simp: store_idle_def)
qed

lemma recoverable_restoring:
  assumes inv: "rp_inv True G m r" and rest: "at_rest r" and behind: "behind r" and room: "store_room (rp_store r) (apply_cost r)"
    and snap: "ms_snapshot (storage (rp_node r)) = pairs_bytes (kvs @ kvs')" "list_all pair_fits kvs" "keys_after None kvs"
    and run: "restore_loop (snapshot_records_new (pairs_bytes kvs)) (sort (store_keys (rp_store r))) (rp_store r, rp_clock r) = (q, s, c)"
  shows "recoverable G m opts (r\<lparr> rp_store := s, rp_clock := c \<rparr>)"
proof -
  obtain H where H: "store_idle True (rp_store r) H" using inv by (auto simp: rp_inv_def)
  have "put_costs kvs \<le> snapshot_len (storage (rp_node r))"
    using snap(1) by (simp add: snapshot_len_def put_costs_bytes pairs_bytes_def)
  then have "store_room (rp_store r) (del_costs (sort (store_keys (rp_store r))) + put_costs kvs + 0)"
    by (intro store_room_le [OF room]) (simp add: apply_cost_def behind del_costs_sort)
  from restore_loop_ok [OF H snap(2,3) store_idle_keys(1) [OF H] this, of 0 "rp_clock r"] run
  obtain H' where H': "store_idle True s H'" by (auto simp: snapshot_records_new_def)
  have "same_at APPLIED_FILE (st_fs (rp_store r)) (st_fs s)"
    using same_at_restore_loop [of "(rp_store r, rp_clock r)"] run by (metis fst_conv snd_conv)
  then have "disk_applied (st_fs s) (rp_applied r)" using rest disk_applied_same by (auto simp: at_rest_def)
  from idle_cut [OF H' this, of opts] obtain s' H'' where
    "store_open opts (fs_power_cut (st_fs s)) = (Inr s', st_fs s')" "store_idle True s' H''" "is_synced s'" "disk_applied (st_fs s') (rp_applied r)" by blast
  then show ?thesis using inv behind unfolding recoverable_def rp_inv_def behind_def by (fastforce simp: rp_snapshot_index_def)
qed

lemma apply_from_unique: "apply_from r x \<Longrightarrow> apply_from r y \<Longrightarrow> x = y"
  by (auto elim!: apply_from.cases)

text \<open>After any number of the entries, before and after the sync.\<close>

lemma recoverable_entries:
  assumes inv: "rp_inv True G m r" and rest: "at_rest r" and front: "rp_snapshot_index r \<le> rp_applied r"
    and fits: "\<forall>e \<in> set (todo (rp_node r)). cmd_fits (e_command e)" and room: "store_room (rp_store r) (cmd_costs (todo (rp_node r)) + 1)"
    and es: "take_committed (rp_node r) = (es, n)" and run: "apply_entries (take k es) (r\<lparr> rp_node := n \<rparr>) = (q, r')"
  shows "recoverable G (max m (commit_index (rp_node r))) opts r'"
    and "store_sync (rp_store r') = (q', s) \<Longrightarrow> recoverable G (max m (commit_index (rp_node r))) opts (r'\<lparr> rp_store := s \<rparr>)"
proof -
  let ?n = "rp_node r" and ?c = "commit_index (rp_node r)"
  obtain H kvs where h: "store_idle True (rp_store r) H" "lag G (rp_applied r) m (kv_of H)" "log_inv G ?n"
    "snap_image G (rp_snapshot_index r) m (ms_snapshot (storage ?n)) kvs" and la: "last_applied ?n \<le> rp_applied r"
    using inv front by (auto simp: rp_inv_def)
  have img: "snap_image G (rp_snapshot_index r) (max m ?c) (ms_snapshot (storage ?n)) kvs" by (rule snap_image_mono [OF h(4)]) simp
  obtain GH where c0: "cut_safe G m (rp_applied r) (rp_applied r) (rp_store r) GH"
    using cut_safe_rest [OF h(1) _ _ h(2)] rest by (auto simp: at_rest_def)
  have E: "map e_index es = [Suc (last_applied ?n) ..< Suc ?c]" "\<forall>e \<in> set es. e_command e = G (e_index e) \<and> cmd_fits (e_command e)"
    "log_inv G n" and n: "n = ?n\<lparr> last_applied := max (last_applied ?n) ?c \<rparr>"
    using take_committed_good [OF h(3) fits] es by auto
  let ?e = "min (last_applied ?n + k) ?c"
  have ix: "map e_index (take k es) = [Suc (last_applied ?n) ..< Suc ?e]"
  proof (cases "last_applied ?n + k \<le> ?c")
    case True
    then show ?thesis using E(1) by (simp add: take_map [symmetric] del: upt_Suc)
  next
    case False
    then have "length es \<le> k" using arg_cong [OF E(1), of length] by (simp del: upt_Suc)
    then show ?thesis using E(1) False by (simp add: min_absorb2 del: upt_Suc)
  qed
  have good: "\<forall>e \<in> set (take k es). e_command e = G (e_index e) \<and> cmd_fits (e_command e)" using E(2) by (meson in_set_takeD)
  have "cmd_costs (take k es) \<le> cmd_costs es"
    using sum_list_append [of "map (\<lambda>e. cmd_cost (e_command e)) (take k es)" "map (\<lambda>e. cmd_cost (e_command e)) (drop k es)"]
    by (simp flip: map_append)
  then have room': "store_room (rp_store r) (cmd_costs (take k es) + 0)" using es by (intro store_room_le [OF room]) (simp add: todo_def)
  obtain GH' where r': "cut_safe G m (rp_applied r) (rp_applied r') (rp_store r') GH'" "rp_applied r' = max (rp_applied r) ?e" "rp_node r' = n"
    using apply_entries_cut [OF ix good, of "r\<lparr> rp_node := n \<rparr>" m "rp_applied r" GH 0] la c0 room' run by auto
  have le: "max m (rp_applied r') \<le> max m ?c" using r'(2) h(2) by (auto simp: lag_def)
  have f: "rp_snapshot_index x = rp_snapshot_index r" "ms_snapshot (storage (rp_node x)) = ms_snapshot (storage ?n)" if "rp_node x = n" for x
    using that n by (simp_all add: rp_snapshot_index_def)
  show "recoverable G (max m ?c) opts r'"
    by (rule recoverable_cut_safe [OF r'(1) _ _ le]) (use r'(3) E(3) img f in auto)
  show "recoverable G (max m ?c) opts (r'\<lparr> rp_store := s \<rparr>)" if sync: "store_sync (rp_store r') = (q', s)"
  proof -
    obtain Hx where "store_idle True (rp_store r') Hx" using cut_safe_idle [OF r'(1)] by blast
    then have "store_sync (rp_store r') = (Inr (), s)" using store_sync_idle sync by fastforce
    then have cs: "cut_safe G m (rp_applied r) (rp_applied (r'\<lparr> rp_store := s \<rparr>)) (rp_store (r'\<lparr> rp_store := s \<rparr>)) GH'"
      using cut_safe_synced [OF r'(1)] by simp
    show ?thesis by (rule recoverable_cut_safe [OF cs]) (use r'(3) E(3) img f le in auto)
  qed
qed


lemma demo_cut_room:
  assumes "store_repr True s [] 1 []" and "store_open opts (fs_power_cut (st_fs s)) = (Inr s', st_fs s')"
  shows "store_room s' (del_costs (store_keys s') + 0)"
proof -
  obtain q t where "disk_repr True (fs_power_cut (st_fs s)) [] 1 [] t" using power_cut_disk [OF assms(1)] by auto
  from store_open_repr [OF this, of opts] assms(2) have r: "store_repr True s' [] 1 []" by auto
  have "store_log True s' []" unfolding store_log_def using r by (intro exI [of _ "[]"] exI [of _ 1]) auto
  then have "k \<notin> set (store_keys s')" for k
    using store_log_mem(1) [of True s' "[]" k] unfolding store_keys_def in_adom by (simp add: kv_of_def)
  then have "store_keys s' = []" by (metis list.set_intros(1) neq_Nil_conv)
  then show ?thesis using store_room_new [OF r] by (simp add: u64_max_def)
qed


end
