(* ===== verification/Proposals.thy ===== *)
theory Proposals
  imports Resp
begin

text \<open>
  Group commit for the writes of a cluster node (\<^verbatim>\<open>Proposals\<close> in \<^verbatim>\<open>src/src/cluster.rs\<close>): each write joins a
  queue, and whoever finds nobody proposing takes the whole queue and proposes it as one batch. A thread is
  where it is in \<^verbatim>\<open>submit\<close> (\<open>sub_phase\<close>), and a step is what it does while it holds the lock of the queue, or
  the one call outside of it, so any interleaving of the threads is a sequence of steps. A thread that
  waits on the condition variable may wake at any time, notified or not.

  What \<^verbatim>\<open>propose\<close> does is a parameter: a function of the batch and of a state the threads share, which others
  may change in between. The locale \<open>proposer\<close> states what \<^verbatim>\<open>submit\<close> asks of it, that it answer every command
  of the batch; \<open>ClusterWrites\<close> interprets it on the closure \<^verbatim>\<open>write\<close> passes.

  Shown: every command is proposed exactly once, in the order of the tickets, and its thread returns the
  answer of its own command; at most one batch is in flight; no thread sleeps while nobody proposes, none
  panics, and every call ends.
\<close>

section \<open>The queue and the threads\<close>

text \<open>\<^verbatim>\<open>Proposed\<close>: where a proposal landed and in which term, or the reply that says why it did not.\<close>

type_synonym proposed = "reply + nat \<times> nat"

record prop_queue =
  pq_waiting :: "(nat \<times> bytes) list"
  pq_answers :: "nat \<rightharpoonup> proposed"
  pq_busy :: bool
  pq_next_ticket :: nat

definition queue_default :: prop_queue where
  "queue_default = \<lparr> pq_waiting = [], pq_answers = Map.empty, pq_busy = False, pq_next_ticket = 0 \<rparr>"

datatype sub_phase =
    Calling
  | Asleep nat
  | Woken nat
  | Proposing nat "(nat \<times> bytes) list"
  | Returned nat proposed
  | Panicked nat

text \<open>\<open>sb_propose\<close>: the closure is still there to be taken.\<close>

record submitter =
  sb_command :: bytes
  sb_propose :: bool
  sb_phase :: sub_phase

definition submitter_new :: "bytes \<Rightarrow> submitter" where
  "submitter_new c = \<lparr> sb_command = c, sb_propose = True, sb_phase = Calling \<rparr>"

text \<open>The head of the loop of \<^verbatim>\<open>submit\<close>, under the lock: return an answer that is there, take the queue if
  nobody is proposing, or wait.\<close>

definition submit_look :: "nat \<Rightarrow> submitter \<Rightarrow> prop_queue \<Rightarrow> submitter \<times> prop_queue" where
  "submit_look ticket t q = (case pq_answers q ticket of
      Some a \<Rightarrow> (t\<lparr> sb_phase := Returned ticket a \<rparr>, q\<lparr> pq_answers := (pq_answers q)(ticket := None) \<rparr>)
    | None \<Rightarrow>
        if \<not> pq_busy q then
          (if sb_propose t
           then t\<lparr> sb_propose := False, sb_phase := Proposing ticket (pq_waiting q) \<rparr>
           else t\<lparr> sb_phase := Panicked ticket \<rparr>,
           q\<lparr> pq_busy := True, pq_waiting := [] \<rparr>)
        else (t\<lparr> sb_phase := Asleep ticket \<rparr>, q))"

text \<open>The start of \<^verbatim>\<open>submit\<close>, which goes on to the loop with the lock in hand.\<close>

definition submit_join :: "submitter \<Rightarrow> prop_queue \<Rightarrow> submitter \<times> prop_queue" where
  "submit_join t q =
     (let ticket = pq_next_ticket q in
      submit_look ticket t (q\<lparr> pq_next_ticket := ticket + 1, pq_waiting := pq_waiting q @ [(ticket, sb_command t)] \<rparr>))"

definition notify :: "submitter \<Rightarrow> submitter" where
  "notify t = (case sb_phase t of Asleep k \<Rightarrow> t\<lparr> sb_phase := Woken k \<rparr> | _ \<Rightarrow> t)"

text \<open>\<^verbatim>\<open>answers.extend(tickets.into_iter().zip(answers))\<close>.\<close>

definition post_answers :: "(nat \<times> bytes) list \<Rightarrow> proposed list \<Rightarrow> prop_queue \<Rightarrow> prop_queue" where
  "post_answers batch as q = q\<lparr> pq_busy := False, pq_answers := pq_answers q ++ map_of (rev (zip (map fst batch) as)) \<rparr>"

text \<open>The threads, what \<^verbatim>\<open>propose\<close> works on, and for the statements what has been proposed: the batches in
  order, each command with its ticket and its answer.\<close>

record 's proposals =
  pr_queue :: prop_queue
  pr_threads :: "submitter list"
  pr_world :: 's
  pr_done :: "((nat \<times> bytes) \<times> proposed) list list"

definition put_thread :: "nat \<Rightarrow> submitter \<times> prop_queue \<Rightarrow> 's proposals \<Rightarrow> 's proposals" where
  "put_thread i tq \<sigma> = \<sigma>\<lparr> pr_threads := (pr_threads \<sigma>)[i := fst tq], pr_queue := snd tq \<rparr>"

text \<open>The end of a batch: the call of \<^verbatim>\<open>propose\<close> is over, and under the lock the answers are posted, everyone is
  notified, and the loop goes on.\<close>

definition submit_answer :: "nat \<Rightarrow> nat \<Rightarrow> (nat \<times> bytes) list \<Rightarrow> proposed list \<Rightarrow> 's proposals \<Rightarrow> 's proposals" where
  "submit_answer i ticket batch as \<sigma> =
     (let \<sigma> = \<sigma>\<lparr> pr_queue := post_answers batch as (pr_queue \<sigma>), pr_threads := map notify (pr_threads \<sigma>),
                pr_done := pr_done \<sigma> @ [zip batch as] \<rparr>
      in put_thread i (submit_look ticket (pr_threads \<sigma> ! i) (pr_queue \<sigma>)) \<sigma>)"

datatype 's sub_event = Join nat | Spurious nat | Look nat | Answer nat | World 's

definition sub_at :: "'s proposals \<Rightarrow> nat \<Rightarrow> sub_phase option" where
  "sub_at \<sigma> i = (if i < length (pr_threads \<sigma>) then Some (sb_phase (pr_threads \<sigma> ! i)) else None)"

text \<open>A step, if the thread is where the step starts. \<open>World\<close> is a change others make to what \<^verbatim>\<open>propose\<close>
  works on.\<close>

fun sub_step :: "(bytes list \<Rightarrow> 's \<Rightarrow> proposed list \<times> 's) \<Rightarrow> 's sub_event \<Rightarrow> 's proposals \<Rightarrow> 's proposals option" where
  "sub_step propose (Join i) \<sigma> = (case sub_at \<sigma> i of
      Some Calling \<Rightarrow> Some (put_thread i (submit_join (pr_threads \<sigma> ! i) (pr_queue \<sigma>)) \<sigma>)
    | _ \<Rightarrow> None)"
| "sub_step propose (Spurious i) \<sigma> = (case sub_at \<sigma> i of
      Some (Asleep k) \<Rightarrow> Some (put_thread i ((pr_threads \<sigma> ! i)\<lparr> sb_phase := Woken k \<rparr>, pr_queue \<sigma>) \<sigma>)
    | _ \<Rightarrow> None)"
| "sub_step propose (Look i) \<sigma> = (case sub_at \<sigma> i of
      Some (Woken k) \<Rightarrow> Some (put_thread i (submit_look k (pr_threads \<sigma> ! i) (pr_queue \<sigma>)) \<sigma>)
    | _ \<Rightarrow> None)"
| "sub_step propose (Answer i) \<sigma> = (case sub_at \<sigma> i of
      Some (Proposing k batch) \<Rightarrow> (case propose (map snd batch) (pr_world \<sigma>) of
          (as, w) \<Rightarrow> Some (submit_answer i k batch as (\<sigma>\<lparr> pr_world := w \<rparr>)))
    | _ \<Rightarrow> None)"
| "sub_step propose (World w) \<sigma> = Some (\<sigma>\<lparr> pr_world := w \<rparr>)"

definition proposals_new :: "bytes list \<Rightarrow> 's \<Rightarrow> 's proposals" where
  "proposals_new cs w = \<lparr> pr_queue = queue_default, pr_threads = map submitter_new cs, pr_world = w, pr_done = [] \<rparr>"

inductive submits :: "(bytes list \<Rightarrow> 's \<Rightarrow> proposed list \<times> 's) \<Rightarrow> 's proposals \<Rightarrow> 's proposals \<Rightarrow> bool"
  for propose \<sigma> where
  here: "submits propose \<sigma> \<sigma>"
| onward: "submits propose \<sigma> \<sigma>1 \<Longrightarrow> sub_step propose e \<sigma>1 = Some \<sigma>2 \<Longrightarrow> submits propose \<sigma> \<sigma>2"

fun sub_run :: "(bytes list \<Rightarrow> 's \<Rightarrow> proposed list \<times> 's) \<Rightarrow> 's sub_event list \<Rightarrow> 's proposals \<Rightarrow> 's proposals option" where
  "sub_run propose [] \<sigma> = Some \<sigma>"
| "sub_run propose (e # es) \<sigma> = (case sub_step propose e \<sigma> of None \<Rightarrow> None | Some \<sigma>' \<Rightarrow> sub_run propose es \<sigma>')"

section \<open>The invariant\<close>

fun ticket_of :: "sub_phase \<Rightarrow> nat option" where
  "ticket_of Calling = None"
| "ticket_of (Asleep k) = Some k"
| "ticket_of (Woken k) = Some k"
| "ticket_of (Proposing k _) = Some k"
| "ticket_of (Returned k _) = Some k"
| "ticket_of (Panicked k) = Some k"

definition ticket_at :: "'s proposals \<Rightarrow> nat \<Rightarrow> nat option" where
  "ticket_at \<sigma> i = Option.bind (sub_at \<sigma> i) ticket_of"

definition is_proposing :: "submitter \<Rightarrow> bool" where
  "is_proposing t \<longleftrightarrow> (\<exists>k b. sb_phase t = Proposing k b)"

text \<open>\<open>F\<close> is the batch in flight: there is one exactly while the queue is marked busy, and one thread proposes it.\<close>

definition flight_ok :: "'s proposals \<Rightarrow> (nat \<times> bytes) list \<Rightarrow> bool" where
  "flight_ok \<sigma> F \<longleftrightarrow> (if pq_busy (pr_queue \<sigma>)
     then \<exists>i k. sub_at \<sigma> i = Some (Proposing k F) \<and> (\<forall>j k' F'. sub_at \<sigma> j = Some (Proposing k' F') \<longrightarrow> j = i)
     else F = [] \<and> (\<forall>j k F. sub_at \<sigma> j \<noteq> Some (Proposing k F)))"

text \<open>What a thread knows where it is: its command is still to be proposed, or its answer is there.\<close>

fun phase_knows :: "((nat \<times> bytes) \<times> proposed) set \<Rightarrow> (nat \<times> bytes) set \<Rightarrow> prop_queue \<Rightarrow> submitter \<Rightarrow> sub_phase \<Rightarrow> bool" where
  "phase_knows D P q t Calling \<longleftrightarrow> sb_propose t"
| "phase_knows D P q t (Asleep k) \<longleftrightarrow> sb_propose t \<and> pq_busy q \<and> pq_answers q k = None \<and> (k, sb_command t) \<in> P"
| "phase_knows D P q t (Woken k) \<longleftrightarrow>
     (case pq_answers q k of None \<Rightarrow> sb_propose t \<and> (k, sb_command t) \<in> P | Some a \<Rightarrow> ((k, sb_command t), a) \<in> D)"
| "phase_knows D P q t (Proposing k b) \<longleftrightarrow> (k, sb_command t) \<in> set b"
| "phase_knows D P q t (Returned k a) \<longleftrightarrow> ((k, sb_command t), a) \<in> D"
| "phase_knows D P q t (Panicked k) \<longleftrightarrow> False"

abbreviation done_set :: "'s proposals \<Rightarrow> ((nat \<times> bytes) \<times> proposed) set" where
  "done_set \<sigma> \<equiv> set (concat (pr_done \<sigma>))"

definition sub_ok :: "bytes list \<Rightarrow> (nat \<times> bytes) list \<Rightarrow> 's proposals \<Rightarrow> bool" where
  "sub_ok cs F \<sigma> \<longleftrightarrow>
     map sb_command (pr_threads \<sigma>) = cs \<and> flight_ok \<sigma> F \<and>
     map fst (map fst (concat (pr_done \<sigma>)) @ F @ pq_waiting (pr_queue \<sigma>)) = [0..<pq_next_ticket (pr_queue \<sigma>)] \<and>
     dom (pq_answers (pr_queue \<sigma>)) \<subseteq> {..<pq_next_ticket (pr_queue \<sigma>)} \<and>
     ran (ticket_at \<sigma>) = {..<pq_next_ticket (pr_queue \<sigma>)} \<and>
     (\<forall>i j k. ticket_at \<sigma> i = Some k \<longrightarrow> ticket_at \<sigma> j = Some k \<longrightarrow> i = j) \<and>
     (\<forall>t \<in> set (pr_threads \<sigma>). phase_knows (done_set \<sigma>) (set (F @ pq_waiting (pr_queue \<sigma>))) (pr_queue \<sigma>) t (sb_phase t))"

lemma sub_okD:
  assumes "sub_ok cs F \<sigma>"
  shows "map sb_command (pr_threads \<sigma>) = cs" and "flight_ok \<sigma> F"
    and "map fst (map fst (concat (pr_done \<sigma>)) @ F @ pq_waiting (pr_queue \<sigma>)) = [0..<pq_next_ticket (pr_queue \<sigma>)]"
    and "dom (pq_answers (pr_queue \<sigma>)) \<subseteq> {..<pq_next_ticket (pr_queue \<sigma>)}"
    and "ran (ticket_at \<sigma>) = {..<pq_next_ticket (pr_queue \<sigma>)}"
    and "\<And>i j k. ticket_at \<sigma> i = Some k \<Longrightarrow> ticket_at \<sigma> j = Some k \<Longrightarrow> i = j"
    and "\<And>i. i < length (pr_threads \<sigma>) \<Longrightarrow> phase_knows (done_set \<sigma>) (set (F @ pq_waiting (pr_queue \<sigma>))) (pr_queue \<sigma>)
      (pr_threads \<sigma> ! i) (sb_phase (pr_threads \<sigma> ! i))"
  using assms unfolding sub_ok_def by auto

lemma sub_at_thread: "sub_at \<sigma> i = Some ph \<Longrightarrow> i < length (pr_threads \<sigma>) \<and> sb_phase (pr_threads \<sigma> ! i) = ph"
  by (simp add: sub_at_def split: if_splits)

lemma put_thread_fields [simp]:
  "pr_queue (put_thread i tq \<sigma>) = snd tq" "pr_threads (put_thread i tq \<sigma>) = (pr_threads \<sigma>)[i := fst tq]"
  "pr_done (put_thread i tq \<sigma>) = pr_done \<sigma>" "pr_world (put_thread i tq \<sigma>) = pr_world \<sigma>"
  by (simp_all add: put_thread_def)

lemma sub_at_put: "i < length (pr_threads \<sigma>) \<Longrightarrow>
    sub_at (put_thread i tq \<sigma>) j = (if j = i then Some (sb_phase (fst tq)) else sub_at \<sigma> j)"
  by (auto simp: sub_at_def)

lemma ticket_at_put: "i < length (pr_threads \<sigma>) \<Longrightarrow>
    ticket_at (put_thread i tq \<sigma>) = (ticket_at \<sigma>)(i := ticket_of (sb_phase (fst tq)))"
  by (auto simp: ticket_at_def sub_at_put fun_eq_iff)

lemma map_update_same: "f y = f (xs ! i) \<Longrightarrow> map f (xs[i := y]) = map f xs"
  by (metis list_update_id map_update)

text \<open>A step of thread \<open>i\<close> that keeps its ticket: what is left to show.\<close>

lemma sub_ok_put:
  assumes ok: "sub_ok cs F \<sigma>" and i: "sub_at \<sigma> i = Some ph" and ph: "ticket_of ph = Some k"
    and t: "sb_command t = sb_command (pr_threads \<sigma> ! i)" "ticket_of (sb_phase t) = Some k"
    and q: "pq_next_ticket q = pq_next_ticket (pr_queue \<sigma>)" "dom (pq_answers q) \<subseteq> dom (pq_answers (pr_queue \<sigma>))"
    and F: "F' @ pq_waiting q = F @ pq_waiting (pr_queue \<sigma>)" "flight_ok (put_thread i (t, q) \<sigma>) F'"
    and self: "phase_knows (done_set \<sigma>) (set (F @ pq_waiting (pr_queue \<sigma>))) q t (sb_phase t)"
    and others: "\<And>j t'. j < length (pr_threads \<sigma>) \<Longrightarrow> j \<noteq> i \<Longrightarrow> t' = pr_threads \<sigma> ! j \<Longrightarrow>
        phase_knows (done_set \<sigma>) (set (F @ pq_waiting (pr_queue \<sigma>))) (pr_queue \<sigma>) t' (sb_phase t') \<Longrightarrow>
        ticket_of (sb_phase t') \<noteq> Some k \<Longrightarrow>
        phase_knows (done_set \<sigma>) (set (F @ pq_waiting (pr_queue \<sigma>))) q t' (sb_phase t')"
  shows "sub_ok cs F' (put_thread i (t, q) \<sigma>)"
proof -
  have il: "i < length (pr_threads \<sigma>)" using sub_at_thread [OF i] by blast
  have tk: "ticket_at (put_thread i (t, q) \<sigma>) = ticket_at \<sigma>"
    using ticket_at_put [OF il] t(2) i ph by (auto simp: fun_eq_iff ticket_at_def)
  have "phase_knows (done_set \<sigma>) (set (F @ pq_waiting (pr_queue \<sigma>))) q t' (sb_phase t')"
    if "t' \<in> set ((pr_threads \<sigma>)[i := t])" for t'
  proof -
    obtain j where j: "j < length (pr_threads \<sigma>)" "t' = (pr_threads \<sigma>)[i := t] ! j"
      using \<open>t' \<in> set ((pr_threads \<sigma>)[i := t])\<close> by (metis in_set_conv_nth length_list_update)
    show ?thesis
    proof (cases "j = i")
      case False
      have "ticket_at \<sigma> i = Some k" using i ph by (simp add: ticket_at_def)
      then have "ticket_at \<sigma> j \<noteq> Some k" using sub_okD(6) [OF ok] False by blast
      then have "ticket_of (sb_phase (pr_threads \<sigma> ! j)) \<noteq> Some k" using j(1) by (simp add: ticket_at_def sub_at_def)
      with others [OF j(1) False refl sub_okD(7) [OF ok j(1)]] j False show ?thesis by simp
    qed (use self j in simp)
  qed
  moreover have "map sb_command ((pr_threads \<sigma>)[i := t]) = cs"
    using sub_okD(1) [OF ok] t(1) by (simp add: map_update_same)
  moreover have "map fst (map fst (concat (pr_done \<sigma>)) @ F' @ pq_waiting q) = [0..<pq_next_ticket q]"
    using sub_okD(3) [OF ok] q(1) F(1) by simp
  ultimately show ?thesis
    using sub_okD(4-6) [OF ok] q F tk unfolding sub_ok_def put_thread_fields fst_conv snd_conv tk F(1) by auto
qed

lemma submit_look_phase [simp]: "submit_look k (t\<lparr> sb_phase := ph \<rparr>) q = submit_look k t q"
  by (simp add: submit_look_def split: option.split)

lemma flight_put:
  assumes "flight_ok \<sigma> F" and "sub_at \<sigma> i = Some ph" and "\<And>k b. ph \<noteq> Proposing k b"
    and "\<And>k b. sb_phase t \<noteq> Proposing k b" and "pq_busy q = pq_busy (pr_queue \<sigma>)"
  shows "flight_ok (put_thread i (t, q) \<sigma>) F"
proof -
  have at: "sub_at (put_thread i (t, q) \<sigma>) j = Some (Proposing k b) \<longleftrightarrow> sub_at \<sigma> j = Some (Proposing k b)" for j k b
    using assms(2-4) sub_at_thread [OF assms(2)] by (simp add: sub_at_put)
  show ?thesis using assms(1,5) unfolding flight_ok_def at by simp
qed

lemma look_ok:
  assumes ok: "sub_ok cs F \<sigma>" and i: "sub_at \<sigma> i = Some (Woken k)"
  shows "\<exists>F'. sub_ok cs F' (put_thread i (submit_look k (pr_threads \<sigma> ! i) (pr_queue \<sigma>)) \<sigma>)"
proof -
  let ?t = "pr_threads \<sigma> ! i" and ?q = "pr_queue \<sigma>"
  have il: "i < length (pr_threads \<sigma>)" and ph: "sb_phase ?t = Woken k" using sub_at_thread [OF i] by blast+
  note kn = sub_okD(7) [OF ok il, unfolded ph phase_knows.simps]
  note fl = sub_okD(2) [OF ok, unfolded flight_ok_def]
  have tk: "ticket_of (Woken k) = Some k" by simp
  consider (ans) a where "pq_answers ?q k = Some a" | (take) "pq_answers ?q k = None" "\<not> pq_busy ?q"
    | (sleep) "pq_answers ?q k = None" "pq_busy ?q" by fastforce
  then show ?thesis
  proof cases
    case ans
    let ?q' = "?q\<lparr> pq_answers := (pq_answers ?q)(k := None) \<rparr>" and ?t' = "?t\<lparr> sb_phase := Returned k a \<rparr>"
    have "sub_ok cs F (put_thread i (?t', ?q') \<sigma>)"
    proof (rule sub_ok_put [OF ok i tk])
      show "flight_ok (put_thread i (?t', ?q') \<sigma>) F"
        by (rule flight_put [OF sub_okD(2) [OF ok] i]) simp_all
      show "phase_knows (done_set \<sigma>) (set (F @ pq_waiting ?q)) ?q' t' (sb_phase t')"
        if "phase_knows (done_set \<sigma>) (set (F @ pq_waiting ?q)) ?q t' (sb_phase t')" "ticket_of (sb_phase t') \<noteq> Some k" for t'
        using that by (cases "sb_phase t'") (auto split: option.splits)
    qed (use ans kn in auto)
    with ans show ?thesis by (auto simp: submit_look_def)
  next
    case take
    let ?q' = "?q\<lparr> pq_busy := True, pq_waiting := [] \<rparr>"
    let ?t' = "?t\<lparr> sb_propose := False, sb_phase := Proposing k (pq_waiting ?q) \<rparr>"
    have F: "F = []" using fl take by simp
    have "sub_ok cs (pq_waiting ?q) (put_thread i (?t', ?q') \<sigma>)"
    proof (rule sub_ok_put [OF ok i tk])
      show "flight_ok (put_thread i (?t', ?q') \<sigma>) (pq_waiting ?q)"
        using fl take(2) unfolding flight_ok_def by (auto simp: sub_at_put il)
      show "phase_knows (done_set \<sigma>) (set (F @ pq_waiting ?q)) ?q' t' (sb_phase t')"
        if "phase_knows (done_set \<sigma>) (set (F @ pq_waiting ?q)) ?q t' (sb_phase t')" for t'
        using that by (cases "sb_phase t'") (auto split: option.splits)
    qed (use F take kn in auto)
    with take kn show ?thesis by (auto simp: submit_look_def)
  next
    case sleep
    have "sub_ok cs F (put_thread i (?t\<lparr> sb_phase := Asleep k \<rparr>, ?q) \<sigma>)"
    proof (rule sub_ok_put [OF ok i tk])
      show "flight_ok (put_thread i (?t\<lparr> sb_phase := Asleep k \<rparr>, ?q) \<sigma>) F"
        by (rule flight_put [OF sub_okD(2) [OF ok] i]) simp_all
    qed (use sleep kn in auto)
    with sleep show ?thesis by (auto simp: submit_look_def)
  qed
qed

text \<open>Joining: the ticket is new, and the thread is then as if it had just been woken.\<close>

lemma join_ok:
  assumes ok: "sub_ok cs F \<sigma>" and i: "sub_at \<sigma> i = Some Calling"
  shows "\<exists>F'. sub_ok cs F' (put_thread i (submit_join (pr_threads \<sigma> ! i) (pr_queue \<sigma>)) \<sigma>)"
proof -
  let ?t = "pr_threads \<sigma> ! i" and ?q = "pr_queue \<sigma>"
  let ?k = "pq_next_ticket ?q"
  define q1 where "q1 = ?q\<lparr> pq_next_ticket := ?k + 1, pq_waiting := pq_waiting ?q @ [(?k, sb_command ?t)] \<rparr>"
  define \<sigma>1 where "\<sigma>1 = put_thread i (?t\<lparr> sb_phase := Woken ?k \<rparr>, q1) \<sigma>"
  have il: "i < length (pr_threads \<sigma>)" and ph: "sb_phase ?t = Calling" using sub_at_thread [OF i] by blast+
  have new: "pq_answers ?q ?k = None" using sub_okD(4) [OF ok] by (metis domIff lessThan_iff less_irrefl subsetD)
  have tk: "ticket_at \<sigma>1 = (ticket_at \<sigma>)(i \<mapsto> ?k)" unfolding \<sigma>1_def by (simp add: ticket_at_put il)
  have r: "ran (ticket_at \<sigma>1) = {..<?k + 1}"
    using ran_map_upd [of "ticket_at \<sigma>" i ?k] sub_okD(5) [OF ok] i by (simp add: tk ticket_at_def lessThan_Suc)
  have inj: "j = j'" if "ticket_at \<sigma>1 j = Some m" "ticket_at \<sigma>1 j' = Some m" for j j' m
  proof -
    have "ticket_at \<sigma> x \<noteq> Some ?k" for x using ranI [of "ticket_at \<sigma>" x ?k] sub_okD(5) [OF ok] by auto
    with that sub_okD(6) [OF ok, of j m j'] show ?thesis unfolding tk by (auto split: if_splits)
  qed
  have "phase_knows (done_set \<sigma>1) (set (F @ pq_waiting q1)) q1 t' (sb_phase t')" if t': "t' \<in> set (pr_threads \<sigma>1)" for t'
  proof (cases "t' = ?t\<lparr> sb_phase := Woken ?k \<rparr>")
    case True
    then show ?thesis using sub_okD(7) [OF ok il] ph new by (simp add: q1_def)
  next
    case False
    then have "t' \<in> set (pr_threads \<sigma>)" using t' set_update_subset_insert by (fastforce simp: \<sigma>1_def)
    then have "phase_knows (done_set \<sigma>) (set (F @ pq_waiting ?q)) ?q t' (sb_phase t')" using ok by (auto simp: sub_ok_def)
    then show ?thesis by (cases "sb_phase t'") (auto simp: q1_def \<sigma>1_def split: option.splits)
  qed
  moreover have "flight_ok \<sigma>1 F"
    unfolding \<sigma>1_def by (rule flight_put [OF sub_okD(2) [OF ok] i]) (simp_all add: q1_def)
  moreover have "map sb_command (pr_threads \<sigma>1) = cs"
    using sub_okD(1) [OF ok] by (simp add: \<sigma>1_def map_update_same)
  ultimately have ok1: "sub_ok cs F \<sigma>1"
    using sub_okD(3,4) [OF ok] r inj unfolding sub_ok_def by (auto simp: \<sigma>1_def q1_def)
  have "sub_at \<sigma>1 i = Some (Woken ?k)" by (simp add: \<sigma>1_def sub_at_put il)
  from look_ok [OF ok1 this] show ?thesis
    by (simp add: \<sigma>1_def il submit_join_def Let_def q1_def put_thread_def)
qed

lemma spurious_ok:
  assumes ok: "sub_ok cs F \<sigma>" and i: "sub_at \<sigma> i = Some (Asleep k)"
  shows "sub_ok cs F (put_thread i ((pr_threads \<sigma> ! i)\<lparr> sb_phase := Woken k \<rparr>, pr_queue \<sigma>) \<sigma>)"
proof -
  have tk: "ticket_of (Asleep k) = Some k" by simp
  have "phase_knows (done_set \<sigma>) (set (F @ pq_waiting (pr_queue \<sigma>))) (pr_queue \<sigma>) (pr_threads \<sigma> ! i) (Asleep k)"
    using sub_okD(7) [OF ok] sub_at_thread [OF i] by metis
  then show ?thesis
    using flight_put [OF sub_okD(2) [OF ok] i] by (intro sub_ok_put [OF ok i tk]) auto
qed

text \<open>Answering: the thread that proposed is then as if it had been woken to find its answer.\<close>

lemma answer_lookup:
  assumes "length as = length b" and "distinct (map fst b)" and "(k, c) \<in> set b"
  obtains a where "pq_answers (post_answers b as q) k = Some a" and "((k, c), a) \<in> set (zip b as)"
proof -
  obtain n where n: "n < length b" "b ! n = (k, c)" using assms(3) by (auto simp: in_set_conv_nth)
  have "distinct (map fst (zip (map fst b) as))" using assms(1,2) by simp
  moreover have "zip (map fst b) as ! n = (k, as ! n)" using n assms(1) by simp
  then have "(k, as ! n) \<in> set (zip (map fst b) as)"
    using n(1) assms(1) nth_mem [of n "zip (map fst b) as"] by (simp only: length_zip length_map min.idem)
  ultimately have "map_of (rev (zip (map fst b) as)) k = Some (as ! n)"
    by (intro map_of_is_SomeI) (simp_all flip: rev_map)
  then have "pq_answers (post_answers b as q) k = Some (as ! n)"
    by (simp add: post_answers_def map_add_Some_iff)
  moreover have "((k, c), as ! n) \<in> set (zip b as)"
    using n assms(1) by (metis in_set_zip fst_conv snd_conv)
  ultimately show thesis by (rule that)
qed

lemma post_answers_other:
  "length as = length b \<Longrightarrow> k \<notin> fst ` set b \<Longrightarrow> pq_answers (post_answers b as q) k = pq_answers q k"
  by (simp add: post_answers_def map_add_def map_of_eq_None_iff [THEN iffD2] flip: set_map split: option.split)

lemma notify_fields [simp]: "sb_command (notify t) = sb_command t" "ticket_of (sb_phase (notify t)) = ticket_of (sb_phase t)"
  by (simp_all add: notify_def split: sub_phase.split)

lemma notify_proposing [simp]: "sb_phase (notify t) = Proposing k b \<longleftrightarrow> sb_phase t = Proposing k b"
  by (simp add: notify_def split: sub_phase.split)

text \<open>After the answers are posted a pending command is answered, or waits for the next batch.\<close>

lemma pending_answered:
  assumes "length as = length b" and "distinct (map fst (b @ w))" and "(k, c) \<in> set (b @ w)" and "pq_answers q k = None"
  shows "(\<exists>a. pq_answers (post_answers b as q) k = Some a \<and> ((k, c), a) \<in> set (zip b as)) \<or>
    (pq_answers (post_answers b as q) k = None \<and> (k, c) \<in> set w)"
proof (cases "(k, c) \<in> set b")
  case True
  have "distinct (map fst b)" using assms(2) by simp
  from answer_lookup [OF assms(1) this True, of q] show ?thesis by blast
next
  case False
  then have w: "(k, c) \<in> set w" using assms(3) by simp
  then have "k \<notin> fst ` set b" using assms(2) by force
  with w post_answers_other [OF assms(1), of k q] assms(4) show ?thesis by simp
qed

lemma notify_knows:
  assumes kn: "phase_knows D (set (b @ w)) q t (sb_phase t)" and np: "\<not> is_proposing t"
    and len: "length as = length b" and dist: "distinct (map fst (b @ w))" and D: "\<And>k c a. ((k, c), a) \<in> D \<Longrightarrow> k \<notin> fst ` set b"
  shows "phase_knows (D \<union> set (zip b as)) (set w) (post_answers b as q) (notify t) (sb_phase (notify t))"
proof (cases "sb_phase t")
  case (Asleep k)
  with kn pending_answered [OF len dist, of k "sb_command t" q] show ?thesis by (auto simp: notify_def)
next
  case (Woken k)
  show ?thesis
  proof (cases "pq_answers q k")
    case None
    with Woken kn pending_answered [OF len dist, of k "sb_command t" q] show ?thesis by (auto simp: notify_def)
  next
    case (Some a)
    with Woken kn have "((k, sb_command t), a) \<in> D" by simp
    with Woken Some post_answers_other [OF len D] show ?thesis by (simp add: notify_def)
  qed
qed (use kn np in \<open>auto simp: notify_def is_proposing_def\<close>)

lemma answer_ok:
  assumes ok: "sub_ok cs F \<sigma>" and i: "sub_at \<sigma> i = Some (Proposing k b)" and len: "length as = length b"
  shows "\<exists>F'. sub_ok cs F' (submit_answer i k b as \<sigma>)"
proof -
  let ?t = "pr_threads \<sigma> ! i" and ?q = "pr_queue \<sigma>"
  define ts where "ts = (map notify (pr_threads \<sigma>))[i := ?t\<lparr> sb_phase := Woken k \<rparr>]"
  define \<sigma>1 where "\<sigma>1 = \<sigma>\<lparr> pr_queue := post_answers b as ?q, pr_threads := ts, pr_done := pr_done \<sigma> @ [zip b as] \<rparr>"
  have il: "i < length (pr_threads \<sigma>)" and ph: "sb_phase ?t = Proposing k b" using sub_at_thread [OF i] by blast+
  have busy: "pq_busy ?q" using sub_okD(2) [OF ok] i by (auto simp: flight_ok_def split: if_splits)
  then have F: "F = b" and only: "\<And>j k' F'. sub_at \<sigma> j = Some (Proposing k' F') \<Longrightarrow> j = i"
    using sub_okD(2) [OF ok] i unfolding flight_ok_def by (auto, fastforce)
  have all: "map fst (map fst (concat (pr_done \<sigma>)) @ b @ pq_waiting ?q) = [0..<pq_next_ticket ?q]"
    using sub_okD(3) [OF ok] unfolding F .
  then have dist: "distinct (map fst (map fst (concat (pr_done \<sigma>)) @ b @ pq_waiting ?q))" by simp
  then have dw: "distinct (map fst (b @ pq_waiting ?q))" unfolding map_append distinct_append by blast
  have D: "k' \<notin> fst ` set b" if "((k', c), a) \<in> done_set \<sigma>" for k' c a
  proof -
    have "k' \<in> set (map fst (map fst (concat (pr_done \<sigma>))))" using that by (auto simp del: set_concat intro!: rev_image_eqI)
    moreover have "set (map fst (map fst (concat (pr_done \<sigma>)))) \<inter> set (map fst b) = {}"
      using dist unfolding map_append distinct_append set_append by blast
    ultimately show ?thesis by (metis disjoint_iff set_map)
  qed
  have notprop: "\<not> is_proposing (pr_threads \<sigma> ! j)" if "j < length (pr_threads \<sigma>)" "j \<noteq> i" for j
    using only [of j] that by (auto simp: is_proposing_def sub_at_def)
  have "phase_knows (done_set \<sigma>1) (set (pq_waiting (pr_queue \<sigma>1))) (pr_queue \<sigma>1) t' (sb_phase t')" if t': "t' \<in> set ts" for t'
  proof -
    obtain j where j: "j < length (pr_threads \<sigma>)" "t' = ts ! j" using t' by (auto simp: ts_def in_set_conv_nth)
    show ?thesis
    proof (cases "j = i")
      case True
      have "(k, sb_command ?t) \<in> set b" using sub_okD(7) [OF ok il] ph by simp
      moreover have "distinct (map fst b)" using dw by simp
      ultimately obtain a where "pq_answers (post_answers b as ?q) k = Some a" "((k, sb_command ?t), a) \<in> set (zip b as)"
        using answer_lookup [OF len, of k "sb_command ?t" ?q] by blast
      with True j il show ?thesis by (simp add: ts_def \<sigma>1_def)
    next
      case False
      with notify_knows [OF sub_okD(7) [OF ok j(1), unfolded F] notprop [OF j(1) False] len dw D] j
      show ?thesis by (simp add: ts_def \<sigma>1_def post_answers_def)
    qed
  qed
  moreover have at1: "sub_at \<sigma>1 j = (if j = i then Some (Woken k) else map_option (\<lambda>_. sb_phase (notify (pr_threads \<sigma> ! j))) (sub_at \<sigma> j))" for j
    using il by (auto simp: sub_at_def \<sigma>1_def ts_def)
  have "sub_at \<sigma>1 j \<noteq> Some (Proposing k' F')" for j k' F'
  proof
    assume p: "sub_at \<sigma>1 j = Some (Proposing k' F')"
    then have j: "j \<noteq> i" "j < length (pr_threads \<sigma>)" unfolding at1 by (auto simp: sub_at_def split: if_splits)
    with p have "sb_phase (notify (pr_threads \<sigma> ! j)) = Proposing k' F'" unfolding at1 by (simp add: sub_at_def)
    with notprop [OF j(2,1)] show False by (simp add: is_proposing_def)
  qed
  then have "flight_ok \<sigma>1 []" by (simp add: flight_ok_def \<sigma>1_def post_answers_def)
  moreover have tk: "ticket_at \<sigma>1 = ticket_at \<sigma>"
  proof
    show "ticket_at \<sigma>1 j = ticket_at \<sigma> j" for j using il ph by (simp add: ticket_at_def at1) (simp add: sub_at_def)
  qed
  moreover have "map sb_command ts = cs"
    using sub_okD(1) [OF ok] il by (simp add: ts_def map_update_same comp_def)
  moreover have "fst ` set b \<subseteq> {..<pq_next_ticket ?q}"
    using arg_cong [OF all, of set] unfolding map_append set_append set_map set_upt atLeast0LessThan by blast
  then have "dom (pq_answers (pr_queue \<sigma>1)) \<subseteq> {..<pq_next_ticket ?q}"
    using sub_okD(4) [OF ok] post_answers_other [OF len] by (fastforce simp: \<sigma>1_def dom_def)
  moreover have "map fst (map fst (concat (pr_done \<sigma>1)) @ [] @ pq_waiting (pr_queue \<sigma>1)) = [0..<pq_next_ticket (pr_queue \<sigma>1)]"
    using all len by (simp add: \<sigma>1_def post_answers_def)
  ultimately have ok1: "sub_ok cs [] \<sigma>1"
    using sub_okD(5,6) [OF ok] unfolding sub_ok_def by (auto simp: \<sigma>1_def post_answers_def simp del: set_concat)
  have "sub_at \<sigma>1 i = Some (Woken k)" by (simp add: at1)
  moreover have "submit_answer i k b as \<sigma> = put_thread i (submit_look k (pr_threads \<sigma>1 ! i) (pr_queue \<sigma>1)) \<sigma>1"
    using il ph by (simp add: submit_answer_def \<sigma>1_def ts_def put_thread_def Let_def notify_def)
  ultimately show ?thesis using look_ok [OF ok1] by metis
qed

section \<open>Every interleaving\<close>

lemma sub_at_world [simp]: "sub_at (\<sigma>\<lparr> pr_world := w \<rparr>) = sub_at \<sigma>"
  by (simp add: sub_at_def fun_eq_iff)

lemma sub_ok_world [simp]: "sub_ok cs F (\<sigma>\<lparr> pr_world := w \<rparr>) \<longleftrightarrow> sub_ok cs F \<sigma>"
proof -
  have "ticket_at (\<sigma>\<lparr> pr_world := w \<rparr>) = ticket_at \<sigma>" by (simp add: ticket_at_def fun_eq_iff)
  then show ?thesis by (simp add: sub_ok_def flight_ok_def)
qed

lemma sub_ok_new: "sub_ok cs [] (proposals_new cs w)"
proof -
  have at: "sub_at (proposals_new cs w) i \<in> {None, Some Calling}" for i
    by (simp add: sub_at_def proposals_new_def submitter_new_def)
  have "ticket_at (proposals_new cs w) = (\<lambda>_. None)"
  proof
    show "ticket_at (proposals_new cs w) i = None" for i using at [of i] by (auto simp: ticket_at_def)
  qed
  moreover have "flight_ok (proposals_new cs w) []"
  proof -
    have "sub_at (proposals_new cs w) i \<noteq> Some (Proposing k b)" for i k b using at [of i] by auto
    then show ?thesis by (simp add: flight_ok_def) (simp add: proposals_new_def queue_default_def)
  qed
  ultimately show ?thesis
    by (simp add: sub_ok_def) (auto simp: proposals_new_def queue_default_def submitter_new_def comp_def)
qed

text \<open>What the invariant says of the commands proposed so far.\<close>

lemma sub_ok_done:
  assumes ok: "sub_ok cs F \<sigma>" and D: "D = concat (pr_done \<sigma>)"
  shows "map fst (map fst D) = [0..<length D]"
    and "((k, c), a) \<in> set D \<longleftrightarrow> k < length D \<and> D ! k = ((k, c), a)"
    and "(k, c) \<in> set (F @ pq_waiting (pr_queue \<sigma>)) \<Longrightarrow> length D \<le> k"
proof -
  let ?P = "F @ pq_waiting (pr_queue \<sigma>)" and ?n = "pq_next_ticket (pr_queue \<sigma>)"
  have all: "map fst (map fst D) @ map fst ?P = [0..<?n]" using sub_okD(3) [OF ok] by (simp add: D)
  have n: "?n = length D + length ?P" using arg_cong [OF all, of length] by simp
  show 1: "map fst (map fst D) = [0..<length D]"
    using arg_cong [OF all, of "take (length D)"] n by (simp add: take_upt)
  have nth: "fst (fst (D ! m)) = m" if "m < length D" for m
    using arg_cong [OF 1, of "\<lambda>xs. xs ! m"] that by simp
  show "((k, c), a) \<in> set D \<longleftrightarrow> k < length D \<and> D ! k = ((k, c), a)"
    using nth by (auto simp: in_set_conv_nth) (metis fst_conv)+
  have "map fst ?P = [length D..<?n]" using arg_cong [OF all, of "drop (length D)"] by simp
  from arg_cong [OF this, of set] show "(k, c) \<in> set ?P \<Longrightarrow> length D \<le> k" by force
qed

text \<open>The commands proposed are the commands of the threads that took the tickets.\<close>

lemma sub_ok_owner:
  assumes ok: "sub_ok cs F \<sigma>" and D: "D = concat (pr_done \<sigma>)" and k: "k < length D"
  shows "\<exists>!i. ticket_at \<sigma> i = Some k \<and> i < length cs \<and> fst (D ! k) = (k, cs ! i)"
proof -
  have "length D \<le> pq_next_ticket (pr_queue \<sigma>)" using arg_cong [OF sub_okD(3) [OF ok], of length] by (simp add: D)
  with k have "k \<in> ran (ticket_at \<sigma>)" using sub_okD(5) [OF ok] by auto
  then obtain i where i: "ticket_at \<sigma> i = Some k" by (auto simp: ran_def)
  then obtain ph where ph: "sub_at \<sigma> i = Some ph" "ticket_of ph = Some k" by (auto simp: ticket_at_def bind_eq_Some_conv)
  have il: "i < length (pr_threads \<sigma>)" and t: "sb_phase (pr_threads \<sigma> ! i) = ph" using sub_at_thread [OF ph(1)] by blast+
  let ?c = "sb_command (pr_threads \<sigma> ! i)"
  have c: "i < length cs" "cs ! i = ?c" using sub_okD(1) [OF ok] il by auto
  have notP: "(k, ?c) \<notin> set (F @ pq_waiting (pr_queue \<sigma>))" using sub_ok_done(3) [OF ok D] k by (meson leD)
  note kn = sub_okD(7) [OF ok il, unfolded t]
  have "\<exists>a. ((k, ?c), a) \<in> set D"
  proof (cases ph)
    case (Proposing m b)
    then have "F = b" using sub_okD(2) [OF ok] ph(1) by (fastforce simp: flight_ok_def split: if_splits)
    then show ?thesis using Proposing kn ph(2) notP by simp
  qed (use kn notP ph(2) in \<open>auto simp: D split: option.splits\<close>)
  then have "fst (D ! k) = (k, cs ! i)" using sub_ok_done(2) [OF ok D] c(2) by auto
  with i c show ?thesis using sub_okD(6) [OF ok] by blast
qed

section \<open>Every call ends\<close>

fun own_event :: "'s sub_event \<Rightarrow> bool" where
  "own_event (Join i) = True"
| "own_event (Look i) = True"
| "own_event (Answer i) = True"
| "own_event (Spurious i) = False"
| "own_event (World w) = False"

fun is_spurious :: "'s sub_event \<Rightarrow> bool" where
  "is_spurious (Spurious i) = True"
| "is_spurious _ = False"

text \<open>How many steps a thread may still bring about, with \<open>n\<close> threads: proposing wakes every one of them.\<close>

definition sub_weight :: "nat \<Rightarrow> submitter \<Rightarrow> nat" where
  "sub_weight n t = (if sb_propose t then n + 1 else 0) +
     (case sb_phase t of Calling \<Rightarrow> 2 | Woken k \<Rightarrow> 1 | Proposing k b \<Rightarrow> n + 1 | _ \<Rightarrow> 0)"

definition sub_left :: "'s proposals \<Rightarrow> nat" where
  "sub_left \<sigma> = sum_list (map (sub_weight (length (pr_threads \<sigma>))) (pr_threads \<sigma>))"

lemma sub_left_put:
  assumes "i < length (pr_threads \<sigma>)"
  shows "sub_left (put_thread i tq \<sigma>) + sub_weight (length (pr_threads \<sigma>)) (pr_threads \<sigma> ! i) =
    sub_left \<sigma> + sub_weight (length (pr_threads \<sigma>)) (fst tq)"
proof -
  let ?w = "sub_weight (length (pr_threads \<sigma>))"
  have "?w (pr_threads \<sigma> ! i) \<le> sum_list (map ?w (pr_threads \<sigma>))"
    using assms by (intro member_le_sum_list) simp_all
  then show ?thesis using assms by (simp add: sub_left_def map_update sum_list_update)
qed

lemma look_weight:
  assumes "phase_knows D P q t (Woken k)"
  shows "sub_weight n (fst (submit_look k t q)) < sub_weight n (t\<lparr> sb_phase := Woken k \<rparr>)"
  using assms by (auto simp: submit_look_def sub_weight_def split: option.splits)

lemma notify_weight: "sum_list (map (sub_weight n) (map notify ts)) \<le> sum_list (map (sub_weight n) ts) + length ts"
proof (induction ts)
  case (Cons t ts)
  have "sub_weight n (notify t) \<le> sub_weight n t + 1" by (simp add: notify_def sub_weight_def split: sub_phase.split)
  with Cons show ?case by simp
qed simp

lemma sub_left_new: "sub_left (proposals_new cs w) = length cs * (length cs + 3)"
  by (simp add: sub_left_def proposals_new_def submitter_new_def sub_weight_def comp_def sum_list_triv algebra_simps)

lemma join_left:
  assumes ok: "sub_ok cs F \<sigma>" and i: "sub_at \<sigma> i = Some Calling"
  shows "sub_left (put_thread i (submit_join (pr_threads \<sigma> ! i) (pr_queue \<sigma>)) \<sigma>) < sub_left \<sigma>"
proof -
  let ?t = "pr_threads \<sigma> ! i" and ?n = "length (pr_threads \<sigma>)" and ?k = "pq_next_ticket (pr_queue \<sigma>)"
  have il: "i < ?n" and ph: "sb_phase ?t = Calling" using sub_at_thread [OF i] by blast+
  have "pq_answers (pr_queue \<sigma>) ?k = None" using sub_okD(4) [OF ok] by (metis domIff lessThan_iff less_irrefl subsetD)
  moreover have "sb_propose ?t" using sub_okD(7) [OF ok il] ph by simp
  ultimately have "sub_weight ?n (fst (submit_join ?t (pr_queue \<sigma>))) < sub_weight ?n (?t\<lparr> sb_phase := Woken ?k \<rparr>)"
    unfolding submit_join_def Let_def by (intro look_weight [where D = UNIV and P = UNIV]) simp
  also have "\<dots> < sub_weight ?n ?t" using ph by (simp add: sub_weight_def)
  finally show ?thesis using sub_left_put [OF il, of "submit_join ?t (pr_queue \<sigma>)"] by linarith
qed

lemma woken_left:
  assumes ok: "sub_ok cs F \<sigma>" and i: "sub_at \<sigma> i = Some (Woken k)"
  shows "sub_left (put_thread i (submit_look k (pr_threads \<sigma> ! i) (pr_queue \<sigma>)) \<sigma>) < sub_left \<sigma>"
proof -
  let ?t = "pr_threads \<sigma> ! i"
  have il: "i < length (pr_threads \<sigma>)" and ph: "sb_phase ?t = Woken k" using sub_at_thread [OF i] by blast+
  have "?t\<lparr> sb_phase := Woken k \<rparr> = ?t" using ph by (cases ?t) simp
  with look_weight [OF sub_okD(7) [OF ok il, unfolded ph], of "length (pr_threads \<sigma>)"]
    sub_left_put [OF il, of "submit_look k ?t (pr_queue \<sigma>)"] show ?thesis by simp
qed

lemma answer_left:
  assumes ok: "sub_ok cs F \<sigma>" and i: "sub_at \<sigma> i = Some (Proposing k b)" and len: "length as = length b"
  shows "sub_left (submit_answer i k b as \<sigma>) < sub_left \<sigma>"
proof -
  let ?t = "pr_threads \<sigma> ! i" and ?n = "length (pr_threads \<sigma>)" and ?ts = "map notify (pr_threads \<sigma>)"
  have il: "i < ?n" and ph: "sb_phase ?t = Proposing k b" using sub_at_thread [OF i] by blast+
  have F: "F = b" using sub_okD(2) [OF ok] i by (fastforce simp: flight_ok_def split: if_splits)
  have "distinct (map fst (map fst (concat (pr_done \<sigma>)) @ b @ pq_waiting (pr_queue \<sigma>)))"
    using sub_okD(3) [OF ok] unfolding F by simp
  then have "distinct (map fst b)" unfolding map_append distinct_append by blast
  moreover have "(k, sb_command ?t) \<in> set b" using sub_okD(7) [OF ok il] ph by simp
  ultimately obtain a where a: "pq_answers (post_answers b as (pr_queue \<sigma>)) k = Some a"
    using answer_lookup [OF len] by blast
  have eq: "?ts ! i = ?t" using il ph by (simp add: notify_def)
  have "pr_threads (submit_answer i k b as \<sigma>) = ?ts[i := ?t\<lparr> sb_phase := Returned k a \<rparr>]"
    using a eq by (simp add: submit_answer_def Let_def submit_look_def)
  then have "sub_left (submit_answer i k b as \<sigma>) = sub_left (put_thread i (?t\<lparr> sb_phase := Returned k a \<rparr>, pr_queue \<sigma>) (\<sigma>\<lparr> pr_threads := ?ts \<rparr>))"
    by (simp add: sub_left_def)
  moreover have "sub_left (\<sigma>\<lparr> pr_threads := ?ts \<rparr>) \<le> sub_left \<sigma> + ?n"
    using notify_weight [of ?n "pr_threads \<sigma>"] by (simp add: sub_left_def)
  moreover have "sub_weight ?n ?t = sub_weight ?n (?t\<lparr> sb_phase := Returned k a \<rparr>) + ?n + 1" by (simp add: sub_weight_def ph)
  ultimately show ?thesis
    using sub_left_put [of i "\<sigma>\<lparr> pr_threads := ?ts \<rparr>" "(?t\<lparr> sb_phase := Returned k a \<rparr>, pr_queue \<sigma>)"] il eq by simp
qed

locale proposer =
  fixes propose :: "bytes list \<Rightarrow> 's \<Rightarrow> proposed list \<times> 's"
  assumes answers_all: "length (fst (propose cs w)) = length cs"
begin

lemma sub_step_ok:
  assumes "sub_ok cs F \<sigma>" and "sub_step propose e \<sigma> = Some \<sigma>'"
  shows "\<exists>F'. sub_ok cs F' \<sigma>'"
proof (cases e)
  case (Join i)
  with assms join_ok [OF assms(1)] show ?thesis by (auto split: option.splits sub_phase.splits)
next
  case (Spurious i)
  with assms spurious_ok [OF assms(1)] show ?thesis by (auto split: option.splits sub_phase.splits)
next
  case (Look i)
  with assms look_ok [OF assms(1)] show ?thesis by (auto split: option.splits sub_phase.splits)
next
  case (Answer i)
  with assms(2) obtain k b where i: "sub_at \<sigma> i = Some (Proposing k b)" by (auto split: option.splits sub_phase.splits)
  obtain as w where as: "propose (map snd b) (pr_world \<sigma>) = (as, w)" by fastforce
  have "length as = length b" using answers_all [of "map snd b" "pr_world \<sigma>"] as by simp
  then have "\<exists>F'. sub_ok cs F' (submit_answer i k b as (\<sigma>\<lparr> pr_world := w \<rparr>))"
    using assms(1) i by (intro answer_ok [where F = F]) simp_all
  with Answer assms(2) i as show ?thesis by auto
next
  case (World w)
  with assms show ?thesis by auto
qed

lemma submits_ok: "submits propose (proposals_new cs w) \<sigma> \<Longrightarrow> \<exists>F. sub_ok cs F \<sigma>"
proof (induction rule: submits.induct)
  case here
  show ?case by (rule exI, rule sub_ok_new)
next
  case (onward \<sigma>1 e \<sigma>2)
  then show ?case using sub_step_ok by blast
qed

lemma own_step_left:
  assumes ok: "sub_ok cs F \<sigma>" and e: "own_event e" and st: "sub_step propose e \<sigma> = Some \<sigma>'"
  shows "sub_left \<sigma>' < sub_left \<sigma>"
proof (cases e)
  case (Join i)
  with st join_left [OF ok] show ?thesis by (auto split: option.splits sub_phase.splits)
next
  case (Look i)
  with st woken_left [OF ok] show ?thesis by (auto split: option.splits sub_phase.splits)
next
  case (Answer i)
  with st obtain k b where i: "sub_at \<sigma> i = Some (Proposing k b)" by (auto split: option.splits sub_phase.splits)
  obtain as w where as: "propose (map snd b) (pr_world \<sigma>) = (as, w)" by fastforce
  have "length as = length b" using answers_all [of "map snd b" "pr_world \<sigma>"] as by simp
  then have "sub_left (submit_answer i k b as (\<sigma>\<lparr> pr_world := w \<rparr>)) < sub_left (\<sigma>\<lparr> pr_world := w \<rparr>)"
    using ok i by (intro answer_left [where F = F and cs = cs]) simp_all
  with Answer st i as show ?thesis by (auto simp: sub_left_def)
qed (use e in simp_all)

lemma other_step_left:
  assumes "\<not> own_event e" and "sub_step propose e \<sigma> = Some \<sigma>'"
  shows "sub_left \<sigma>' \<le> sub_left \<sigma> + of_bool (is_spurious e)"
proof (cases e)
  case (Spurious i)
  with assms(2) obtain k where i: "sub_at \<sigma> i = Some (Asleep k)"
    and \<sigma>': "\<sigma>' = put_thread i ((pr_threads \<sigma> ! i)\<lparr> sb_phase := Woken k \<rparr>, pr_queue \<sigma>) \<sigma>"
    by (auto split: option.splits sub_phase.splits)
  have il: "i < length (pr_threads \<sigma>)" and ph: "sb_phase (pr_threads \<sigma> ! i) = Asleep k" using sub_at_thread [OF i] by blast+
  show ?thesis using sub_left_put [OF il, of "((pr_threads \<sigma> ! i)\<lparr> sb_phase := Woken k \<rparr>, pr_queue \<sigma>)"] \<sigma>' Spurious ph
    by (simp add: sub_weight_def)
qed (use assms in \<open>auto simp: sub_left_def\<close>)

lemma some_moves:
  assumes ok: "sub_ok cs F \<sigma>" and i: "i < length cs" and nr: "\<And>k a. sub_at \<sigma> i \<noteq> Some (Returned k a)"
  shows "\<exists>e. own_event e \<and> sub_step propose e \<sigma> \<noteq> None"
proof -
  have il: "i < length (pr_threads \<sigma>)" using sub_okD(1) [OF ok] i by auto
  then obtain ph where ph: "sub_at \<sigma> i = Some ph" "sb_phase (pr_threads \<sigma> ! i) = ph" by (simp add: sub_at_def)
  have ans: "sub_step propose (Answer j) \<sigma> \<noteq> None" if "sub_at \<sigma> j = Some (Proposing k b)" for j k b
    using that by (simp split: prod.split)
  show ?thesis
  proof (cases ph)
    case Calling
    with ph show ?thesis by (intro exI [of _ "Join i"]) simp
  next
    case (Asleep k)
    with sub_okD(7) [OF ok il] ph have "pq_busy (pr_queue \<sigma>)" by simp
    then obtain j k b where "sub_at \<sigma> j = Some (Proposing k b)" using sub_okD(2) [OF ok] by (auto simp: flight_ok_def)
    from ans [OF this] show ?thesis by (intro exI [of _ "Answer j"]) simp
  next
    case (Woken k)
    with ph show ?thesis by (intro exI [of _ "Look i"]) simp
  next
    case (Proposing k b)
    with ph ans [of i k b] show ?thesis by (intro exI [of _ "Answer i"]) simp
  qed (use ph nr sub_okD(7) [OF ok il] in auto)
qed

lemma run_bound:
  "sub_ok cs F \<sigma> \<Longrightarrow> sub_run propose es \<sigma> = Some \<sigma>' \<Longrightarrow>
     length (filter own_event es) + sub_left \<sigma>' \<le> sub_left \<sigma> + length (filter is_spurious es) \<and> (\<exists>F'. sub_ok cs F' \<sigma>')"
proof (induction es arbitrary: \<sigma> F)
  case (Cons e es)
  then obtain \<sigma>1 where s: "sub_step propose e \<sigma> = Some \<sigma>1" "sub_run propose es \<sigma>1 = Some \<sigma>'" by (auto split: option.splits)
  obtain F1 where "sub_ok cs F1 \<sigma>1" using sub_step_ok [OF Cons.prems(1) s(1)] by blast
  from Cons.IH [OF this s(2)] show ?case
    using own_step_left [OF Cons.prems(1) _ s(1)] other_step_left [OF _ s(1)] by (cases e) force+
qed auto

lemma submit_each_once:
  assumes "submits propose (proposals_new cs w) \<sigma>" and D: "D = concat (pr_done \<sigma>)"
  shows "map fst (map fst D) = [0..<length D]"
    and "k < length D \<Longrightarrow> \<exists>!i. ticket_at \<sigma> i = Some k \<and> i < length cs \<and> fst (D ! k) = (k, cs ! i)"
    and "sub_at \<sigma> i = Some (Returned k a) \<Longrightarrow> k < length D \<and> D ! k = ((k, cs ! i), a)"
    and "sub_at \<sigma> i \<noteq> Some (Panicked k)"
    and "sub_at \<sigma> i = Some (Proposing k b) \<Longrightarrow> sub_at \<sigma> j = Some (Proposing k' b') \<Longrightarrow> i = j"
proof -
  obtain F where ok: "sub_ok cs F \<sigma>" using submits_ok [OF assms(1)] by blast
  show "map fst (map fst D) = [0..<length D]" by (rule sub_ok_done(1) [OF ok D])
  show "k < length D \<Longrightarrow> \<exists>!i. ticket_at \<sigma> i = Some k \<and> i < length cs \<and> fst (D ! k) = (k, cs ! i)"
    by (rule sub_ok_owner [OF ok D])
  have kn: "phase_knows (done_set \<sigma>) (set (F @ pq_waiting (pr_queue \<sigma>))) (pr_queue \<sigma>) (pr_threads \<sigma> ! i) ph \<and>
      sb_command (pr_threads \<sigma> ! i) = cs ! i" if "sub_at \<sigma> i = Some ph" for ph
    using sub_at_thread [OF that] sub_okD(1,7) [OF ok] by (metis nth_map)
  show "sub_at \<sigma> i = Some (Returned k a) \<Longrightarrow> k < length D \<and> D ! k = ((k, cs ! i), a)"
    using kn [of "Returned k a"] sub_ok_done(2) [OF ok D, of k "cs ! i" a] unfolding D by auto
  show "sub_at \<sigma> i \<noteq> Some (Panicked k)" using kn by force
  show "sub_at \<sigma> i = Some (Proposing k b) \<Longrightarrow> sub_at \<sigma> j = Some (Proposing k' b') \<Longrightarrow> i = j"
    using sub_okD(2) [OF ok] by (auto simp: flight_ok_def split: if_splits)
qed

lemma submit_run_ends:
  assumes "sub_run propose es (proposals_new cs w) = Some \<sigma>"
  shows "length (filter own_event es) \<le> length cs * (length cs + 3) + length (filter is_spurious es)"
    and "(\<forall>i < length cs. \<exists>k a. sub_at \<sigma> i = Some (Returned k a)) \<or> (\<exists>e. own_event e \<and> sub_step propose e \<sigma> \<noteq> None)"
proof -
  obtain F where b: "length (filter own_event es) + sub_left \<sigma> \<le> length cs * (length cs + 3) + length (filter is_spurious es)"
    and ok: "sub_ok cs F \<sigma>" using run_bound [OF sub_ok_new assms] by (auto simp: sub_left_new)
  from b show "length (filter own_event es) \<le> length cs * (length cs + 3) + length (filter is_spurious es)" by linarith
  show "(\<forall>i < length cs. \<exists>k a. sub_at \<sigma> i = Some (Returned k a)) \<or> (\<exists>e. own_event e \<and> sub_step propose e \<sigma> \<noteq> None)"
    using some_moves [OF ok] by blast
qed

end

end
