(* ===== verification/PeerLinks.thy ===== *)
theory PeerLinks
  imports RaftNode RaftWire Resp "HOL-Library.Sublist"
begin

text \<open>
  How a cluster node reaches the others (\<^verbatim>\<open>src/src/cluster.rs\<close>): the addresses of a member as they travel in the
  log, the address book, and one thread per peer (\<^verbatim>\<open>send_to_peer\<close>) that takes messages off its queue, dials
  when it has no connection, and writes them. A link is such a thread; the links are kept in the order
  they were started, and the book holds the number of a peer's link where the code holds the sending end of
  its queue, so a link that is dropped from the book still empties its queue. Whether a thread can be
  started, a dial succeeds and how much of a frame the socket takes are arguments.

  Shown: a member's addresses come back from its context exactly if the first has no space; what the book
  holds after following a membership; and that what arrives over the connections of a link is, in order, some of
  what was queued, each message whole, with the time between dials doubling up to a second.
\<close>

section \<open>Addresses\<close>

record peer =
  pe_id :: nat
  pe_raft_addr :: bytes
  pe_client_addr :: bytes

definition member_context :: "bytes \<Rightarrow> bytes \<Rightarrow> bytes" where
  "member_context raft_addr client_addr = raft_addr @ ascii '' '' @ client_addr"

definition split_once :: "byte \<Rightarrow> bytes \<Rightarrow> (bytes \<times> bytes) option" where
  "split_once b bs = (if b \<in> set bs then Some (takeWhile (\<lambda>x. x \<noteq> b) bs, tl (dropWhile (\<lambda>x. x \<noteq> b) bs)) else None)"

definition parse_context :: "bytes \<Rightarrow> (bytes \<times> bytes) option" where
  "parse_context context = (if utf8_ok context then split_once 0x20 context else None)"

section \<open>Links\<close>

definition FIRST_BACKOFF :: nat where
  "FIRST_BACKOFF = 20"

definition MAX_BACKOFF :: nat where
  "MAX_BACKOFF = 1000"

text \<open>The queue, what has been handed to each connection so far, the last of them the one that is open if one
  is, and the time of the next sleep. \<open>lk_slept\<close> records the sleeps, in milliseconds.\<close>

record link =
  lk_addr :: bytes
  lk_queue :: "message list"
  lk_streams :: "bytes list"
  lk_open :: bool
  lk_backoff :: nat
  lk_slept :: "nat list"

definition link_new :: "bytes \<Rightarrow> link" where
  "link_new addr = \<lparr> lk_addr = addr, lk_queue = [], lk_streams = [], lk_open = False, lk_backoff = FIRST_BACKOFF,
     lk_slept = [] \<rparr>"

definition link_dial :: "link \<Rightarrow> link" where
  "link_dial l = (if lk_open l then l
     else l\<lparr> lk_open := True, lk_streams := lk_streams l @ [[]], lk_backoff := FIRST_BACKOFF \<rparr>)"

definition link_put :: "bytes \<Rightarrow> link \<Rightarrow> link" where
  "link_put bs l = l\<lparr> lk_streams := butlast (lk_streams l) @ [last (lk_streams l) @ bs] \<rparr>"

text \<open>One turn of the loop of \<^verbatim>\<open>send_to_peer\<close>. \<open>dials\<close>: a dial would succeed. \<open>broke\<close>: how much of the frame
  gets out if the write or the flush fails.\<close>

definition send_turn :: "nat \<Rightarrow> bool \<Rightarrow> nat option \<Rightarrow> link \<Rightarrow> link option" where
  "send_turn me dials broke l = (case lk_queue l of
      [] \<Rightarrow> None
    | m # q \<Rightarrow>
        let l = l\<lparr> lk_queue := q \<rparr> in
        if \<not> lk_open l \<and> \<not> dials then
          Some (l\<lparr> lk_slept := lk_slept l @ [lk_backoff l], lk_backoff := min (lk_backoff l * 2) MAX_BACKOFF \<rparr>)
        else
          let l = link_dial l; frame = write_message me m in
          (case broke of
             None \<Rightarrow> Some (link_put frame l)
           | Some k \<Rightarrow> Some ((link_put (take k frame) l)\<lparr> lk_open := False \<rparr>)))"

definition link_queue :: "message \<Rightarrow> link \<Rightarrow> link" where
  "link_queue m l = l\<lparr> lk_queue := lk_queue l @ [m] \<rparr>"

datatype link_event = Queue message | Turn bool "nat option"

fun link_run :: "nat \<Rightarrow> link_event list \<Rightarrow> link \<Rightarrow> link option" where
  "link_run me [] l = Some l"
| "link_run me (Queue m # es) l = link_run me es (link_queue m l)"
| "link_run me (Turn dials broke # es) l = (case send_turn me dials broke l of None \<Rightarrow> None | Some l \<Rightarrow> link_run me es l)"

section \<open>The address book\<close>

record address_book =
  ab_me :: nat
  ab_configured :: "nat \<rightharpoonup> peer"
  ab_senders :: "nat \<rightharpoonup> nat"
  ab_client_addrs :: "nat \<rightharpoonup> bytes"
  ab_seen :: nat

text \<open>\<open>ok\<close>: the thread for that peer can be started.\<close>

definition connect :: "(nat \<Rightarrow> bool) \<Rightarrow> nat \<Rightarrow> bytes \<Rightarrow> bytes \<Rightarrow> address_book \<times> link list \<Rightarrow> address_book \<times> link list" where
  "connect ok i raft_addr client_addr bl = (case bl of (b, ls) \<Rightarrow>
     if i = ab_me b \<or> ab_senders b i \<noteq> None then (b, ls)
     else if ok i then
       (b\<lparr> ab_senders := (ab_senders b)(i \<mapsto> length ls), ab_client_addrs := (ab_client_addrs b)(i \<mapsto> client_addr) \<rparr>,
        ls @ [link_new raft_addr])
     else (b, ls))"

definition connect_member :: "(nat \<Rightarrow> bool) \<Rightarrow> member \<Rightarrow> address_book \<times> link list \<Rightarrow> address_book \<times> link list" where
  "connect_member ok m bl = (case ab_configured (fst bl) (mid m) of
      Some p \<Rightarrow> connect ok (mid m) (pe_raft_addr p) (pe_client_addr p) bl
    | None \<Rightarrow> (case parse_context (m_context m) of
          Some (raft, client) \<Rightarrow> connect ok (mid m) raft client bl
        | None \<Rightarrow> bl))"

definition book_retain :: "member list \<Rightarrow> address_book \<Rightarrow> address_book" where
  "book_retain ms b =
     (let keep = set (map mid ms) \<union> dom (ab_configured b) in
      b\<lparr> ab_senders := ab_senders b |` keep, ab_client_addrs := ab_client_addrs b |` keep \<rparr>)"

definition book_update :: "(nat \<Rightarrow> bool) \<Rightarrow> member list \<Rightarrow> address_book \<times> link list \<Rightarrow> address_book \<times> link list" where
  "book_update ok ms bl = (case fold (connect_member ok) ms bl of (b, ls) \<Rightarrow> (book_retain ms b, ls))"

text \<open>\<^verbatim>\<open>Shared::dispatch\<close>: a message for a peer that has a link goes to its queue, any other is dropped.\<close>

definition dispatch_one :: "address_book \<Rightarrow> action \<Rightarrow> link list \<Rightarrow> link list" where
  "dispatch_one b a ls = (case ab_senders b (send_to a) of
      Some k \<Rightarrow> ls[k := link_queue (send_msg a) (ls ! k)]
    | None \<Rightarrow> ls)"

definition dispatch_actions :: "address_book \<Rightarrow> action list \<Rightarrow> link list \<Rightarrow> link list" where
  "dispatch_actions b acts ls = fold (dispatch_one b) acts ls"

section \<open>What a connection delivers\<close>

lemma cut_frame:
  assumes "sendable m" and "me < 2 ^ 64" and "k < length (write_message me m)"
  shows "fst (read_from_peer (take k (write_message me m))) = []"
proof -
  let ?body = "encode_msg m"
  define p where "p = le_bytes 4 MAGIC @ le_bytes 4 (length ?body + 12) @ le_bytes 4 (unat (crc32_parts [?body])) @ le_bytes 8 me"
  have fits: "length ?body + 12 \<le> MAX_FRAME" using assms(1) by (simp add: sendable_def)
  have w: "write_message me m = p @ ?body" using write_message_frame [OF fits, of me "[]"] by (simp add: p_def)
  have l: "length p = 20" by (simp add: p_def)
  have f: "from_le (slice 4 8 p) = length ?body + 12" "from_le (slice 0 4 p) = MAGIC"
    using fits by (simp_all add: p_def slice_def MAX_FRAME_def MAGIC_def)
  show ?thesis
  proof (cases "k < 20")
    case True
    then show ?thesis by (simp add: read_from_peer_short)
  next
    case False
    have t: "take 20 (take k (write_message me m)) = p" "drop 20 (take k (write_message me m)) = take (k - 20) ?body"
      "length (take k (write_message me m)) = k" using False l assms(3) by (simp_all add: w drop_take)
    have "k - 20 < length ?body" using assms(3) l False unfolding w by simp
    then have "fst (read_message (take k (write_message me m))) = Inl (Io UnexpectedEof ''failed to fill whole buffer'')"
      unfolding read_message_def PREFIX_LEN_def t Let_def f using False fits by simp
    then show ?thesis
      by (cases "read_message (take k (write_message me m))") (simp add: read_from_peer.simps [of "take k _"])
  qed
qed

text \<open>A stream that carries the messages \<open>ms\<close> whole, and perhaps the beginning of one more.\<close>

definition carries :: "nat \<Rightarrow> bytes \<Rightarrow> message list \<Rightarrow> bool" where
  "carries me bs ms \<longleftrightarrow> list_all sendable ms \<and>
     (\<exists>m k. sendable m \<and> k < length (write_message me m) \<and> bs = frames (map (Pair me) ms) @ take k (write_message me m))"

lemma carries_prefix:
  assumes "me < 2 ^ 64" and "carries me bs ms" and "prefix p bs"
  shows "\<exists>j. fst (read_from_peer p) = map (Pair me) (take j ms)"
  using assms(2,3)
proof (induction ms arbitrary: bs p)
  case Nil
  then obtain m k where m: "sendable m" "k < length (write_message me m)" "bs = take k (write_message me m)"
    by (auto simp: carries_def)
  then have "p = take (min (length p) k) (write_message me m)" using Nil.prems(2) by (metis prefix_def append_eq_conv_conj min.commute take_take)
  then show ?case using cut_frame [OF m(1) assms(1), of "min (length p) k"] m(2) by (metis min.strict_coboundedI2 take_Nil list.map(1))
next
  case (Cons x ms)
  let ?f = "write_message me x"
  obtain bs' where bs': "bs = ?f @ bs'" "carries me bs' ms" "sendable x" using Cons.prems(1) by (auto simp: carries_def)
  show ?case
  proof (cases "length p < length ?f")
    case True
    then have "p = take (length p) ?f" using Cons.prems(2) bs'(1) by (metis prefix_def append_eq_append_conv_if append_eq_conv_conj less_or_eq_imp_le)
    then show ?thesis using cut_frame [OF bs'(3) assms(1) True] by (metis take_0 list.map(1))
  next
    case False
    then obtain p' where p': "p = ?f @ p'" "prefix p' bs'"
      using Cons.prems(2) bs'(1) by (metis append_eq_append_conv_if prefix_def prefix_length_prefix prefixI same_prefix_prefix not_less)
    then obtain j where "fst (read_from_peer p') = map (Pair me) (take j ms)" using Cons.IH [OF bs'(2)] by blast
    then have "fst (read_from_peer p) = map (Pair me) (take (Suc j) (x # ms))"
      using read_from_peer_frames [of "[(me, x)]" p'] bs'(3) assms(1) p'(1) by simp
    then show ?thesis ..
  qed
qed

lemma carries_all:
  assumes "me < 2 ^ 64" and "carries me bs ms"
  shows "fst (read_from_peer bs) = map (Pair me) ms"
proof -
  obtain m k where m: "sendable m" "k < length (write_message me m)" "list_all sendable ms"
    "bs = frames (map (Pair me) ms) @ take k (write_message me m)" using assms(2) by (auto simp: carries_def)
  have "all_sendable (map (Pair me) ms)" using m(3) assms(1) by (auto simp: list_all_iff)
  from read_from_peer_frames [OF this, of "take k (write_message me m)"] show ?thesis
    using m(4) cut_frame [OF m(1) assms(1) m(2)] by simp
qed

definition link_ok :: "nat \<Rightarrow> nat \<Rightarrow> message list \<Rightarrow> message list list \<Rightarrow> link \<Rightarrow> bool" where
  "link_ok me L Q mss l \<longleftrightarrow> list_all2 (carries me) (lk_streams l) mss \<and> subseq (concat mss @ lk_queue l) Q \<and>
     length Q \<le> length (concat mss @ lk_queue l) + L \<and>
     (lk_open l \<longrightarrow> lk_streams l \<noteq> [] \<and> last (lk_streams l) = frames (map (Pair me) (last mss))) \<and>
     FIRST_BACKOFF \<le> lk_backoff l \<and> lk_backoff l \<le> MAX_BACKOFF \<and>
     (\<forall>t \<in> set (lk_slept l). FIRST_BACKOFF \<le> t \<and> t \<le> MAX_BACKOFF)"

lemma link_ok_new: "link_ok me 0 [] [] (link_new addr)"
  by (simp add: link_ok_def link_new_def FIRST_BACKOFF_def MAX_BACKOFF_def)

lemma link_ok_loose: "link_ok me L Q mss l \<Longrightarrow> link_ok me (Suc L) Q mss l"
  by (simp add: link_ok_def)

lemma link_ok_queue: "link_ok me L Q mss l \<Longrightarrow> link_ok me L (Q @ [m]) mss (link_queue m l)"
  unfolding link_ok_def link_queue_def by (simp flip: append_assoc)

lemma carries_whole: "list_all sendable ms \<Longrightarrow> carries me (frames (map (Pair me) ms)) ms"
  unfolding carries_def
proof (intro conjI exI)
  show "sendable (ReadIndex 0 0)" by (simp add: sendable_def put_u64_Cons MAX_FRAME_def)
  show "0 < length (write_message me (ReadIndex 0 0))" by (simp add: write_message_def Let_def)
qed simp_all

text \<open>Writing a frame, or the beginning of one, to the connection that is open.\<close>

lemma link_ok_put:
  assumes ok: "link_ok me (Suc L) Q mss l" and op: "lk_open l" and m: "sendable m" and q: "subseq (concat mss @ m # lk_queue l) Q"
  shows "\<exists>mss'. link_ok me L Q mss' (link_put (write_message me m) l)"
    and "\<exists>mss'. link_ok me (Suc L) Q mss' ((link_put (take k (write_message me m)) l)\<lparr> lk_open := False \<rparr>)"
proof -
  obtain ss b ns n where s: "lk_streams l = ss @ [b]" and n: "mss = ns @ [n]"
    using ok op unfolding link_ok_def by (metis append_butlast_last_id list_all2_Nil list_all2_Nil2)
  have b: "b = frames (map (Pair me) n)" and ss: "list_all2 (carries me) ss ns" and cb: "carries me b n"
  proof -
    have all: "list_all2 (carries me) (ss @ [b]) (ns @ [n])" using ok s n by (simp add: link_ok_def)
    have "length ss = length ns" using list_all2_lengthD [OF all] by simp
    with all show "list_all2 (carries me) ss ns" "carries me b n" by (simp_all add: list_all2_append)
    show "b = frames (map (Pair me) n)" using ok op s n by (simp add: link_ok_def)
  qed
  note app = list_all2_append [OF list_all2_lengthD [OF ss]]
  have n1: "list_all sendable (n @ [m])" using cb m by (simp add: carries_def)
  have whole: "carries me (b @ write_message me m) (n @ [m])" using carries_whole [OF n1, of me] b by simp
  have "link_ok me L Q (ns @ [n @ [m]]) (link_put (write_message me m) l)"
    using ok s n q ss whole b by (simp add: link_ok_def link_put_def app)
  then show "\<exists>mss'. link_ok me L Q mss' (link_put (write_message me m) l)" ..
  show "\<exists>mss'. link_ok me (Suc L) Q mss' ((link_put (take k (write_message me m)) l)\<lparr> lk_open := False \<rparr>)"
  proof (cases "k < length (write_message me m)")
    case True
    then have "carries me (b @ take k (write_message me m)) n" using n1 m b unfolding carries_def by auto
    moreover have "subseq (concat mss @ lk_queue l) Q" using ok by (simp add: link_ok_def)
    ultimately have "link_ok me (Suc L) Q mss ((link_put (take k (write_message me m)) l)\<lparr> lk_open := False \<rparr>)"
      using ok s n ss by (simp add: link_ok_def link_put_def app)
    then show ?thesis ..
  next
    case False
    then have "link_ok me (Suc L) Q (ns @ [n @ [m]]) ((link_put (take k (write_message me m)) l)\<lparr> lk_open := False \<rparr>)"
      using ok s n q ss whole b by (simp add: link_ok_def link_put_def app)
    then show ?thesis ..
  qed
qed

lemma link_ok_dial: "link_ok me L Q mss l \<Longrightarrow> \<exists>mss'. link_ok me L Q mss' (link_dial l) \<and> concat mss' = concat mss \<and> lk_open (link_dial l) \<and>
    lk_queue (link_dial l) = lk_queue l"
proof (cases "lk_open l")
  case False
  assume ok: "link_ok me L Q mss l"
  have "carries me [] []" using carries_whole [of "[]" me] by simp
  with ok False have "link_ok me L Q (mss @ [[]]) (link_dial l)"
    by (auto simp: link_ok_def link_dial_def FIRST_BACKOFF_def MAX_BACKOFF_def intro: list_all2_appendI)
  with False show ?thesis by (intro exI [of _ "mss @ [[]]"]) (simp add: link_dial_def)
qed (auto simp: link_dial_def)

lemma subseq_drop_mid: "subseq (xs @ y # ys) zs \<Longrightarrow> subseq (xs @ ys) zs"
  by (meson list_emb_append_mono subseq_Cons' subseq_order.refl subseq_order.trans)

fun turn_fails :: "link_event \<Rightarrow> bool" where
  "turn_fails (Turn dials broke) \<longleftrightarrow> \<not> dials \<or> broke \<noteq> None"
| "turn_fails (Queue m) \<longleftrightarrow> False"

lemma send_turn_ok:
  assumes ok: "link_ok me L Q mss l" and t: "send_turn me dials broke l = Some l'" and s: "list_all sendable Q"
  shows "\<exists>mss'. link_ok me (L + of_bool (turn_fails (Turn dials broke))) Q mss' l'"
proof -
  obtain m q where q: "lk_queue l = m # q" using t by (auto simp: send_turn_def split: list.splits)
  let ?l = "l\<lparr> lk_queue := q \<rparr>"
  have sub: "subseq (concat mss @ m # q) Q" using ok q by (simp add: link_ok_def)
  then have m: "sendable m" using s by (auto simp: list_all_iff elim: list_emb_set [where x = m])
  have ok1: "link_ok me (Suc L) Q mss ?l" using ok q subseq_drop_mid [OF sub] by (simp add: link_ok_def)
  show ?thesis
  proof (cases "\<not> lk_open l \<and> \<not> dials")
    case True
    then have "l' = ?l\<lparr> lk_slept := lk_slept l @ [lk_backoff l], lk_backoff := min (lk_backoff l * 2) MAX_BACKOFF \<rparr>"
      using t q by (simp add: send_turn_def)
    then show ?thesis using ok1 True by (auto simp: link_ok_def MAX_BACKOFF_def FIRST_BACKOFF_def)
  next
    case False
    obtain mss1 where d: "link_ok me (Suc L) Q mss1 (link_dial ?l)" "concat mss1 = concat mss" "lk_open (link_dial ?l)"
      "lk_queue (link_dial ?l) = q" using link_ok_dial [OF ok1] by auto
    have "l' = (case broke of None \<Rightarrow> link_put (write_message me m) (link_dial ?l)
        | Some k \<Rightarrow> (link_put (take k (write_message me m)) (link_dial ?l))\<lparr> lk_open := False \<rparr>)"
      using t q False by (auto simp: send_turn_def Let_def split: option.splits)
    moreover have "\<exists>mss'. link_ok me L Q mss' (link_put (write_message me m) (link_dial ?l))"
      "\<exists>mss'. link_ok me (Suc L) Q mss' ((link_put (take k (write_message me m)) (link_dial ?l))\<lparr> lk_open := False \<rparr>)" for k
      using link_ok_put [OF d(1,3) m] d(2,4) sub by auto
    ultimately show ?thesis using link_ok_loose by (cases broke; cases dials) fastforce+
  qed
qed

fun queued :: "link_event list \<Rightarrow> message list" where
  "queued [] = []"
| "queued (Queue m # es) = m # queued es"
| "queued (Turn _ _ # es) = queued es"

lemma link_run_ok:
  assumes "link_run me es l = Some l'" and "link_ok me L Q mss l" and "list_all sendable (Q @ queued es)"
  shows "\<exists>mss'. link_ok me (L + length (filter turn_fails es)) (Q @ queued es) mss' l'"
  using assms
proof (induction me es l arbitrary: L Q mss rule: link_run.induct)
  case (2 me m es l)
  then show ?case using 2(1) [OF _ link_ok_queue [OF 2(3)]] by simp
next
  case (3 me dials broke es l)
  then obtain l1 where l1: "send_turn me dials broke l = Some l1" "link_run me es l1 = Some l'" by (auto split: option.splits)
  have "list_all sendable Q" using 3(4) by simp
  from send_turn_ok [OF 3(3) l1(1) this] obtain mss1 where
    "link_ok me (L + of_bool (turn_fails (Turn dials broke))) Q mss1 l1" ..
  from 3(1) [OF l1(1,2) this] 3(4) show ?case by (cases "turn_fails (Turn dials broke)") simp_all
qed auto

text \<open>
  (C20) The link to a peer: what the peer reads off the connections of a link is, in order, some of the
  messages that were queued, each whole and with this node as its sender, and nothing else, wherever dials
  failed or connections broke; a stream that is cut short yields a beginning of them. A message is
  lost only to a dial or a write that failed, so a link that meets no failure delivers everything taken off its
  queue. The sleeps after a failed dial last between 20 milliseconds and a second.
\<close>

theorem sender_in_order:
  assumes "link_run me es (link_new addr) = Some l" and "me < 2 ^ 64" and "list_all sendable (queued es)"
  shows "\<exists>mss. length mss = length (lk_streams l) \<and> subseq (concat mss @ lk_queue l) (queued es) \<and>
    length (queued es) \<le> length (concat mss) + length (lk_queue l) + length (filter turn_fails es) \<and>
    (\<forall>i < length mss. fst (read_from_peer (lk_streams l ! i)) = map (Pair me) (mss ! i) \<and>
       (\<forall>p. prefix p (lk_streams l ! i) \<longrightarrow> (\<exists>j. fst (read_from_peer p) = map (Pair me) (take j (mss ! i))))) \<and>
    (\<forall>t \<in> set (lk_slept l). 20 \<le> t \<and> t \<le> 1000)"
proof -
  obtain mss where ok: "link_ok me (length (filter turn_fails es)) (queued es) mss l"
    using link_run_ok [OF assms(1) link_ok_new] assms(3) by auto
  have "carries me (lk_streams l ! i) (mss ! i)" if "i < length mss" for i
    using ok that by (simp add: link_ok_def list_all2_conv_all_nth)
  then have "fst (read_from_peer (lk_streams l ! i)) = map (Pair me) (mss ! i) \<and>
      (\<forall>p. prefix p (lk_streams l ! i) \<longrightarrow> (\<exists>j. fst (read_from_peer p) = map (Pair me) (take j (mss ! i))))"
    if "i < length mss" for i
    using carries_prefix [OF assms(2)] carries_all [OF assms(2)] that by blast
  with ok show ?thesis
    by (intro exI [of _ mss]) (auto simp: link_ok_def FIRST_BACKOFF_def MAX_BACKOFF_def dest: list_all2_lengthD)
qed

definition demo_link_events :: "link_event list" where
  "demo_link_events = [Queue (ReadIndex 1 1), Turn False None, Queue (ReadIndex 1 2), Queue (RequestVote 2 0 0),
     Turn True None, Turn True (Some 7), Queue (ReadIndex 2 3), Turn True None]"

theorem sender_in_order_witness:
  "\<exists>l mss. link_run 1 demo_link_events (link_new []) = Some l \<and> lk_slept l = [20] \<and> length mss = 2 \<and>
     subseq (concat mss) [ReadIndex 1 1, ReadIndex 1 2, RequestVote 2 0 0, ReadIndex 2 3] \<and> 2 \<le> length (concat mss) \<and>
     (\<forall>i < 2. fst (read_from_peer (lk_streams l ! i)) = map (Pair 1) (mss ! i))"
proof -
  let ?w = "write_message 1"
  have q: "queued demo_link_events = [ReadIndex 1 1, ReadIndex 1 2, RequestVote 2 0 0, ReadIndex 2 3]"
    by (simp add: demo_link_events_def)
  obtain l where l: "link_run 1 demo_link_events (link_new []) = Some l" "lk_slept l = [20]" "length (lk_streams l) = 2" "lk_queue l = []"
    by (simp add: demo_link_events_def link_new_def link_queue_def send_turn_def link_dial_def link_put_def Let_def FIRST_BACKOFF_def)
  have "list_all sendable (queued demo_link_events)"
    by (simp add: q sendable_def put_u64_Cons MAX_FRAME_def)
  from sender_in_order [OF l(1) _ this] obtain mss where "length mss = 2" "subseq (concat mss) (queued demo_link_events)"
    "length (queued demo_link_events) \<le> length (concat mss) + length (filter turn_fails demo_link_events)"
    "\<forall>i < length mss. fst (read_from_peer (lk_streams l ! i)) = map (Pair 1) (mss ! i)"
    using l by auto
  with l show ?thesis unfolding q by (intro exI [of _ l] exI [of _ mss]) (simp add: demo_link_events_def)
qed

section \<open>A member's addresses\<close>

lemma utf8_head_append: "bs \<noteq> [] \<Longrightarrow> fst (utf8_head bs) \<Longrightarrow> utf8_head (bs @ cs) = utf8_head bs"
  by (auto simp: utf8_head_def Let_def in_range_def nth_append split: if_splits prod.splits)

lemma utf8_head_fits: "bs \<noteq> [] \<Longrightarrow> fst (utf8_head bs) \<Longrightarrow> snd (utf8_head bs) \<le> length bs"
  by (auto simp: utf8_head_def Let_def in_range_def Suc_le_eq split: if_splits prod.splits)

lemma utf8_ok_append: "utf8_ok bs \<Longrightarrow> utf8_ok cs \<Longrightarrow> utf8_ok (bs @ cs)"
proof (induction bs rule: utf8_ok.induct)
  case (1 bs)
  show ?case
  proof (cases "bs = []")
    case False
    then have h: "fst (utf8_head bs)" "utf8_ok (drop (snd (utf8_head bs)) bs)" using 1(2) by (simp_all add: utf8_ok.simps [of bs])
    from 1(1) [OF False h(2) 1(3)] show ?thesis
      using utf8_head_append [OF False h(1), of cs] utf8_head_fits [OF False h(1)] h(1)
      by (subst utf8_ok.simps) (simp add: False)
  qed (use 1 in simp)
qed

lemma split_once_first: "b \<notin> set xs \<Longrightarrow> split_once b (xs @ b # ys) = Some (xs, ys)"
  by (induction xs) (auto simp: split_once_def)

text \<open>
  (C25) The addresses of a member survive the log exactly if the first holds no space: a member's context is both
  addresses with a space between, and it is taken apart at the first space. \<^verbatim>\<open>RAFT.ADD\<close> takes any text, so
  an address with a space in it is accepted and then dialled wrongly by every other node.
\<close>

theorem member_context_round_trip:
  assumes "utf8_ok raft_addr" and "utf8_ok client_addr"
  shows "parse_context (member_context raft_addr client_addr) = Some (raft_addr, client_addr) \<longleftrightarrow> 0x20 \<notin> set raft_addr"
proof -
  have sp: "ascii '' '' = [0x20]" by (simp add: ascii_def)
  have "utf8_ok [0x20]" by (rule utf8_ok_ascii) simp
  then have "utf8_ok (member_context raft_addr client_addr)"
    using assms by (simp add: member_context_def sp utf8_ok_append del: append_Cons append_Nil)
  then have p: "parse_context (member_context raft_addr client_addr) = split_once 0x20 (raft_addr @ 0x20 # client_addr)"
    by (simp add: parse_context_def member_context_def sp)
  show ?thesis
  proof (cases "0x20 \<in> set raft_addr")
    case True
    then have "0x20 \<notin> set (takeWhile (\<lambda>x. x \<noteq> 0x20) (raft_addr @ 0x20 # client_addr))" by (auto dest: set_takeWhileD)
    with True show ?thesis unfolding p split_once_def by auto
  qed (simp add: p split_once_first)
qed

theorem member_context_round_trip_witness:
  "parse_context (member_context (ascii ''a:1'') (ascii ''b:2'')) = Some (ascii ''a:1'', ascii ''b:2'') \<and>
   parse_context (member_context (ascii ''a 1'') (ascii ''b:2'')) \<noteq> Some (ascii ''a 1'', ascii ''b:2'')"
proof -
  have "utf8_ok (ascii ''a:1'')" "utf8_ok (ascii ''b:2'')" "utf8_ok (ascii ''a 1'')"
    by (intro utf8_ok_ascii; simp add: ascii_def)+
  with member_context_round_trip [of "ascii ''a:1''" "ascii ''b:2''"] member_context_round_trip [of "ascii ''a 1''" "ascii ''b:2''"]
  show ?thesis by (simp add: ascii_def)
qed

section \<open>Following the membership\<close>

definition book_ok :: "address_book \<times> link list \<Rightarrow> bool" where
  "book_ok bl = (case bl of (b, ls) \<Rightarrow> ab_senders b (ab_me b) = None \<and> dom (ab_client_addrs b) = dom (ab_senders b) \<and>
     ran (ab_senders b) \<subseteq> {..<length ls} \<and> inj_on (ab_senders b) (dom (ab_senders b)))"

text \<open>Where a member is reached: where the configuration says, or else where its context says.\<close>

definition address_of :: "address_book \<Rightarrow> member \<Rightarrow> (bytes \<times> bytes) option" where
  "address_of b m = (case ab_configured b (mid m) of
      Some p \<Rightarrow> Some (pe_raft_addr p, pe_client_addr p)
    | None \<Rightarrow> parse_context (m_context m))"

lemma connect_member_alt:
  "connect_member ok m (b, ls) = (case address_of b m of
      Some (raft, client) \<Rightarrow> connect ok (mid m) raft client (b, ls)
    | None \<Rightarrow> (b, ls))"
  by (simp add: connect_member_def address_of_def split: option.splits)

lemma ran_upd_subset: "ran (m(k \<mapsto> v)) \<subseteq> insert v (ran m)"
  by (auto simp: ran_def)

lemma connect_ok:
  assumes "book_ok (b, ls)" and "connect ok i raft client (b, ls) = (b', ls')"
  shows "book_ok (b', ls')" and "ab_me b' = ab_me b" and "ab_configured b' = ab_configured b"
    and "ab_senders b j \<noteq> None \<Longrightarrow> ab_senders b' j = ab_senders b j \<and> ab_client_addrs b' j = ab_client_addrs b j"
    and "\<exists>new. ls' = ls @ new"
proof -
  show "book_ok (b', ls')"
  proof (cases "i = ab_me b \<or> ab_senders b i \<noteq> None \<or> \<not> ok i")
    case False
    then have b': "b' = b\<lparr> ab_senders := (ab_senders b)(i \<mapsto> length ls), ab_client_addrs := (ab_client_addrs b)(i \<mapsto> client) \<rparr>"
      and ls': "ls' = ls @ [link_new raft]" using assms(2) by (auto simp: connect_def)
    have r: "ran (ab_senders b) \<subseteq> {..<length ls}" using assms(1) by (simp add: book_ok_def)
    have "inj_on ((ab_senders b)(i \<mapsto> length ls)) (insert i (dom (ab_senders b)))"
    proof -
      have "ab_senders b x \<noteq> Some (length ls)" for x using r by (auto simp: ran_def)
      then show ?thesis using assms(1) by (auto simp: book_ok_def inj_on_def)
    qed
    moreover have "ran ((ab_senders b)(i \<mapsto> length ls)) \<subseteq> {..<length ls'}"
      using ran_upd_subset [of "ab_senders b" i "length ls"] r by (auto simp: ls')
    ultimately show ?thesis using False assms(1) by (simp add: book_ok_def b')
  qed (use assms in \<open>auto simp: connect_def split: if_splits\<close>)
qed (use assms in \<open>auto simp: connect_def split: if_splits\<close>)

text \<open>One call of \<open>connect\<close> per member, in order.\<close>

lemma connect_all:
  assumes "book_ok (b, ls)" and "fold (connect_member (\<lambda>_. True)) ms (b, ls) = (b', ls')"
  shows "book_ok (b', ls') \<and> ab_me b' = ab_me b \<and> ab_configured b' = ab_configured b \<and> (\<exists>new. ls' = ls @ new) \<and>
    (\<forall>j. ab_senders b' j \<noteq> None \<longleftrightarrow>
       ab_senders b j \<noteq> None \<or> j \<noteq> ab_me b \<and> (\<exists>m \<in> set ms. mid m = j \<and> address_of b m \<noteq> None)) \<and>
    (\<forall>j. ab_senders b j \<noteq> None \<longrightarrow> ab_senders b' j = ab_senders b j \<and> ab_client_addrs b' j = ab_client_addrs b j) \<and>
    (\<forall>j k. ab_senders b j = None \<longrightarrow> ab_senders b' j = Some k \<longrightarrow>
       (\<exists>m \<in> set ms. \<exists>client. mid m = j \<and> address_of b m = Some (lk_addr (ls' ! k), client) \<and> ab_client_addrs b' j = Some client))"
  using assms
proof (induction ms arbitrary: b ls)
  case (Cons m ms)
  obtain b1 ls1 where c: "connect_member (\<lambda>_. True) m (b, ls) = (b1, ls1)" by fastforce
  have rest: "fold (connect_member (\<lambda>_. True)) ms (b1, ls1) = (b', ls')" using Cons.prems(2) c by simp
  show ?case
  proof (cases "address_of b m")
    case None
    then have "b1 = b" "ls1 = ls" using c by (simp_all add: connect_member_alt)
    with Cons.IH [of b ls] Cons.prems(1) rest None show ?thesis by auto
  next
    case (Some rc)
    obtain raft client where rc: "rc = (raft, client)" by fastforce
    have c1: "connect (\<lambda>_. True) (mid m) raft client (b, ls) = (b1, ls1)" using c Some rc by (simp add: connect_member_alt)
    note ok1 = connect_ok [OF Cons.prems(1) c1]
    have adr: "address_of b1 = address_of b" using ok1(3) by (simp add: address_of_def fun_eq_iff)
    note ih = Cons.IH [OF ok1(1) rest, unfolded adr ok1(2,3)]
    show ?thesis
    proof (cases "mid m = ab_me b \<or> ab_senders b (mid m) \<noteq> None")
      case True
      then have "b1 = b" "ls1 = ls" using c1 by (simp_all add: connect_def)
      with ih True show ?thesis by auto
    next
      case False
      then have b1: "ab_senders b1 = (ab_senders b)(mid m \<mapsto> length ls)" "ab_client_addrs b1 = (ab_client_addrs b)(mid m \<mapsto> client)"
        and ls1: "ls1 = ls @ [link_new raft]" using c1 by (auto simp: connect_def)
      obtain new where new: "ls' = ls1 @ new" using ih by blast
      then have first: "lk_addr (ls' ! length ls) = raft" by (simp add: ls1 link_new_def)
      have "\<exists>m' \<in> set (m # ms). \<exists>client. mid m' = j \<and> address_of b m' = Some (lk_addr (ls' ! k), client) \<and> ab_client_addrs b' j = Some client"
        if "ab_senders b j = None" "ab_senders b' j = Some k" for j k
      proof (cases "j = mid m")
        case True
        then have "ab_senders b1 j \<noteq> None" by (simp add: b1)
        then have "ab_senders b' j = Some (length ls)" "ab_client_addrs b' j = Some client" using ih True by (simp_all add: b1)
        with True that Some rc first show ?thesis by auto
      next
        case False
        then have "ab_senders b1 j = None" using that by (simp add: b1)
        with ih that(2) show ?thesis by auto
      qed
      moreover have "ab_senders b' j \<noteq> None \<longleftrightarrow>
         ab_senders b j \<noteq> None \<or> j \<noteq> ab_me b \<and> (\<exists>m' \<in> set (m # ms). mid m' = j \<and> address_of b m' \<noteq> None)" for j
        using ih Some False by (auto simp: b1)
      moreover have "ab_senders b' j = ab_senders b j \<and> ab_client_addrs b' j = ab_client_addrs b j" if "ab_senders b j \<noteq> None" for j
        using ih ok1(4) [OF that] that by metis
      ultimately show ?thesis using ih new by (simp add: ls1)
    qed
  qed
qed auto

text \<open>
  (C22) Following a membership: if every thread starts, the book afterwards reaches exactly the members other than
  this node whose address is known, with the peers of the configuration and the members it already reached;
  a peer that was reached and stays keeps its link and its address, a new one is dialled where the
  configuration says, or else where its context says, and nobody shares a link. This node is never dialled.
\<close>

theorem book_follows_membership:
  assumes "book_ok (b, ls)" and "book_update (\<lambda>_. True) ms (b, ls) = (b', ls')"
  shows "book_ok (b', ls') \<and> take (length ls) ls' = ls \<and>
    (\<forall>j. ab_senders b' j \<noteq> None \<longleftrightarrow>
       (j \<in> mid ` set ms \<or> ab_configured b j \<noteq> None) \<and> ab_senders b j \<noteq> None \<or>
       j \<noteq> ab_me b \<and> (\<exists>m \<in> set ms. mid m = j \<and> address_of b m \<noteq> None)) \<and>
    (\<forall>j k. ab_senders b' j = Some k \<longrightarrow> (if ab_senders b j \<noteq> None
       then ab_senders b j = Some k \<and> ab_client_addrs b' j = ab_client_addrs b j
       else \<exists>m \<in> set ms. \<exists>client. mid m = j \<and> address_of b m = Some (lk_addr (ls' ! k), client) \<and>
         ab_client_addrs b' j = Some client))"
proof -
  obtain b1 where f: "fold (connect_member (\<lambda>_. True)) ms (b, ls) = (b1, ls')" and b': "b' = book_retain ms b1"
    using assms(2) by (auto simp: book_update_def split: prod.splits)
  note c = connect_all [OF assms(1) f]
  let ?keep = "mid ` set ms \<union> dom (ab_configured b)"
  have s: "ab_senders b' = ab_senders b1 |` ?keep" "ab_client_addrs b' = ab_client_addrs b1 |` ?keep" "ab_me b' = ab_me b1"
    using c by (simp_all add: b' book_retain_def Let_def)
  have "book_ok (b1, ls')" using c by blast
  then have "book_ok (b', ls')"
    by (auto simp: book_ok_def s restrict_map_def ran_def dom_def inj_on_def split: if_splits)
  moreover have "take (length ls) ls' = ls" using c by auto
  moreover have "ab_senders b' j \<noteq> None \<longleftrightarrow>
       (j \<in> mid ` set ms \<or> ab_configured b j \<noteq> None) \<and> ab_senders b j \<noteq> None \<or>
       j \<noteq> ab_me b \<and> (\<exists>m \<in> set ms. mid m = j \<and> address_of b m \<noteq> None)" for j
  proof -
    have "ab_senders b' j \<noteq> None \<longleftrightarrow> (j \<in> mid ` set ms \<or> ab_configured b j \<noteq> None) \<and> ab_senders b1 j \<noteq> None"
      by (auto simp: s restrict_map_def)
    moreover have "ab_senders b1 j \<noteq> None \<longleftrightarrow>
       ab_senders b j \<noteq> None \<or> j \<noteq> ab_me b \<and> (\<exists>m \<in> set ms. mid m = j \<and> address_of b m \<noteq> None)" using c by blast
    ultimately show ?thesis by blast
  qed
  moreover have "if ab_senders b j \<noteq> None
       then ab_senders b j = Some k \<and> ab_client_addrs b' j = ab_client_addrs b j
       else \<exists>m \<in> set ms. \<exists>client. mid m = j \<and> address_of b m = Some (lk_addr (ls' ! k), client) \<and>
         ab_client_addrs b' j = Some client" if "ab_senders b' j = Some k" for j k
  proof -
    have j: "ab_senders b1 j = Some k" "ab_client_addrs b' j = ab_client_addrs b1 j"
      using that by (auto simp: s restrict_map_def split: if_splits)
    show ?thesis unfolding j(2) using c j(1) by auto
  qed
  ultimately show ?thesis by blast
qed

definition demo_book :: address_book where
  "demo_book = \<lparr> ab_me = 1, ab_configured = [2 \<mapsto> \<lparr> pe_id = 2, pe_raft_addr = ascii ''r2'', pe_client_addr = ascii ''c2'' \<rparr>],
     ab_senders = Map.empty, ab_client_addrs = Map.empty, ab_seen = 0 \<rparr>"

definition demo_members :: "member list" where
  "demo_members = [voter 1 (ascii ''r1 c1''), voter 2 (ascii ''other''), learner 3 (ascii ''r3 c3''), voter 4 (ascii ''r4'')]"

theorem book_follows_membership_witness:
  "\<exists>b' ls'. book_update (\<lambda>_. True) demo_members (demo_book, []) = (b', ls') \<and> book_ok (b', ls') \<and>
     {j. ab_senders b' j \<noteq> None} = {2, 3} \<and>
     (\<exists>k. ab_senders b' 2 = Some k \<and> lk_addr (ls' ! k) = ascii ''r2'') \<and> ab_client_addrs b' 3 = Some (ascii ''c3'')"
proof -
  have t: "utf8_ok (ascii ''r1 c1'')" "utf8_ok (ascii ''r3 c3'')" "utf8_ok (ascii ''r4'')"
    by (intro utf8_ok_ascii; simp add: ascii_def)+
  have a: "address_of demo_book (voter 2 (ascii ''other'')) = Some (ascii ''r2'', ascii ''c2'')"
    "address_of demo_book (learner 3 (ascii ''r3 c3'')) = Some (ascii ''r3'', ascii ''c3'')"
    "address_of demo_book (voter 4 (ascii ''r4'')) = None"
    using t by (simp_all add: address_of_def demo_book_def voter_def learner_def parse_context_def split_once_def ascii_def)
  have m: "mid (voter i x) = i" "mid (learner i x) = i" for i x by (simp_all add: voter_def learner_def)
  have ok: "book_ok (demo_book, [])" by (simp add: book_ok_def demo_book_def)
  obtain b' ls' where u: "book_update (\<lambda>_. True) demo_members (demo_book, []) = (b', ls')" by fastforce
  note f = book_follows_membership [OF ok u]
  have none: "ab_senders demo_book j = None" "ab_me demo_book = 1" for j by (simp_all add: demo_book_def)
  have dom: "ab_senders b' j \<noteq> None \<longleftrightarrow> j \<noteq> 1 \<and> (\<exists>m \<in> set demo_members. mid m = j \<and> address_of demo_book m \<noteq> None)" for j
    using f [THEN conjunct2, THEN conjunct2, THEN conjunct1, rule_format, of j] by (simp add: none)
  have "{j. ab_senders b' j \<noteq> None} = {2, 3}"
    unfolding dom by (auto simp: demo_members_def m a)
  moreover have new: "\<exists>x \<in> set demo_members. \<exists>client. mid x = j \<and> address_of demo_book x = Some (lk_addr (ls' ! k), client) \<and>
         ab_client_addrs b' j = Some client" if "ab_senders b' j = Some k" for j k
    using f [THEN conjunct2, THEN conjunct2, THEN conjunct2, rule_format, OF that] by (simp add: none)
  moreover have "\<exists>k. ab_senders b' 2 = Some k \<and> lk_addr (ls' ! k) = ascii ''r2''"
  proof -
    have "ab_senders b' 2 \<noteq> None" unfolding dom by (auto simp: demo_members_def m a)
    then obtain k where k: "ab_senders b' 2 = Some k" by blast
    with new [OF k] show ?thesis by (auto simp: demo_members_def m a)
  qed
  moreover have "ab_client_addrs b' 3 = Some (ascii ''c3'')"
  proof -
    have "ab_senders b' 3 \<noteq> None" unfolding dom by (auto simp: demo_members_def m a)
    then obtain k where k: "ab_senders b' 3 = Some k" by blast
    with new [OF k] show ?thesis by (auto simp: demo_members_def m a)
  qed
  ultimately show ?thesis using u f by blast
qed

end
