(* ===== verification/ClusterNode.thy ===== *)
theory ClusterNode
  imports Proposals PeerLinks Server Replicated
begin

text \<open>
  A replicated node as a running process (\<^verbatim>\<open>src/src/cluster.rs\<close>): the ticker, the peer and client connections and
  the background jobs, all sharing one replica. The record \<open>shared\<close> is what they share; the queue of
  proposals is the one of \<open>Proposals\<close>. A definition is what a thread does in one go, under one lock or between
  two waits, in the order of the source; a result \<open>Inl\<close> of a step, a tick or a job is the process ending
  (\<^verbatim>\<open>storage_failed\<close>). What the system decides is an argument: whether a thread can be started (\<open>ok\<close> for the
  link to a peer), the clock, the order in which a compaction unlinks files or the table iterates (\<open>ord\<close>).

  A command that has to wait comes in three parts: what it does first, the check it waits for with \<^verbatim>\<open>wait_for\<close>,
  and the reply. \<^verbatim>\<open>wait_for\<close> itself is \<open>WaitFor\<close>.
\<close>

definition COMMIT_TIMEOUT :: nat where
  "COMMIT_TIMEOUT = 5000"  \<comment> \<open>milliseconds\<close>

record cluster_config =
  cc_id :: nat
  cc_peers :: "peer list"
  cc_join :: bool
  cc_tick_ms :: nat
  cc_raft :: config
  cc_snapshot_every :: nat

section \<open>What the threads share\<close>

record shared =
  sh_replica :: replica
  sh_changes :: nat
  sh_book :: address_book
  sh_links :: "link list"

definition changed :: "shared \<Rightarrow> shared" where
  "changed sh = sh\<lparr> sh_changes := sh_changes sh + 1 \<rparr>"

definition client_addr :: "nat \<Rightarrow> shared \<Rightarrow> bytes option" where
  "client_addr i sh = ab_client_addrs (sh_book sh) i"

definition sh_dispatch :: "action list \<Rightarrow> shared \<Rightarrow> shared" where
  "sh_dispatch acts sh = sh\<lparr> sh_links := dispatch_actions (sh_book sh) acts (sh_links sh) \<rparr>"

definition follow_membership :: "(nat \<Rightarrow> bool) \<Rightarrow> shared \<Rightarrow> shared" where
  "follow_membership ok sh =
     (let n = rp_node (sh_replica sh); index = membership_index n in
      if ab_seen (sh_book sh) = index then sh
      else (case book_update ok (members n) (sh_book sh, sh_links sh) of
          (b, ls) \<Rightarrow> sh\<lparr> sh_book := b\<lparr> ab_seen := index \<rparr>, sh_links := ls \<rparr>))"

definition sh_step :: "(nat list \<Rightarrow> nat list) \<Rightarrow> (nat \<Rightarrow> bool) \<Rightarrow> nat \<Rightarrow> message \<Rightarrow> shared \<Rightarrow> shared res" where
  "sh_step ord ok sender m sh = (case rp_step ord sender m (sh_replica sh) of
      (Inl e, r) \<Rightarrow> Inl e
    | (Inr acts, r) \<Rightarrow> Inr (sh_dispatch acts (changed (follow_membership ok (sh\<lparr> sh_replica := r \<rparr>)))))"

text \<open>A peer's connection: its messages in order, until the stream ends or is refused.\<close>

fun step_all :: "(nat list \<Rightarrow> nat list) \<Rightarrow> (nat \<Rightarrow> bool) \<Rightarrow> (nat \<times> message) list \<Rightarrow> shared \<Rightarrow> shared res" where
  "step_all ord ok [] sh = Inr sh"
| "step_all ord ok ((sender, m) # ms) sh = (case sh_step ord ok sender m sh of
      Inl e \<Rightarrow> Inl e
    | Inr sh \<Rightarrow> step_all ord ok ms sh)"

definition serve_peer :: "(nat list \<Rightarrow> nat list) \<Rightarrow> (nat \<Rightarrow> bool) \<Rightarrow> bytes \<Rightarrow> shared \<Rightarrow> shared res" where
  "serve_peer ord ok stream sh = step_all ord ok (fst (read_from_peer stream)) sh"

section \<open>Starting\<close>

definition frame_limit_error :: error where
  "frame_limit_error = Io OtherKind ''max_append_bytes plus max_entry_bytes must stay under the frame limit''"

definition fits_frame :: "config \<Rightarrow> bool" where
  "fits_frame c \<longleftrightarrow> max_append_bytes c + max_entry_bytes c + 1024 \<le> MAX_FRAME"

text \<open>The first membership of a new cluster; a node that joins one has none.\<close>

definition bootstrap_members :: "cluster_config \<Rightarrow> bytes \<Rightarrow> bytes \<Rightarrow> member list" where
  "bootstrap_members cfg raft_local client_local =
     (if cc_join cfg then []
      else sort_key mid (map (\<lambda>p. voter (pe_id p) (member_context (pe_raft_addr p) (pe_client_addr p))) (cc_peers cfg) @
             [voter (cc_id cfg) (member_context raft_local client_local)]))"

fun connect_peers :: "(nat \<Rightarrow> bool) \<Rightarrow> peer list \<Rightarrow> address_book \<times> link list \<Rightarrow> address_book \<times> link list" where
  "connect_peers ok [] bl = bl"
| "connect_peers ok (p # ps) bl = connect_peers ok ps (connect ok (pe_id p) (pe_raft_addr p) (pe_client_addr p) bl)"

text \<open>\<^verbatim>\<open>bind\<close>, with the addresses the listeners got and what opening the two directories gave.\<close>

definition cluster_bind ::
  "(nat \<Rightarrow> bool) \<Rightarrow> cluster_config \<Rightarrow> bytes \<Rightarrow> bytes \<Rightarrow> mem_storage res \<Rightarrow> store res \<Rightarrow> ticks \<Rightarrow> shared res" where
  "cluster_bind ok cfg raft_local client_local storage_opened store_opened clk =
     (if \<not> fits_frame (cc_raft cfg) then Inl frame_limit_error
      else case storage_opened of
        Inl e \<Rightarrow> Inl e
      | Inr st \<Rightarrow> (case store_opened of
          Inl e \<Rightarrow> Inl e
        | Inr s \<Rightarrow>
            (case replica_new (with_members (cc_id cfg) (bootstrap_members cfg raft_local client_local) (cc_raft cfg) st) s clk of
               (Inl e, _) \<Rightarrow> Inl e
             | (Inr _, r) \<Rightarrow>
                 let r = set_background_snapshots True (set_snapshot_every (cc_snapshot_every cfg) r);
                     b = \<lparr> ab_me = cc_id cfg, ab_configured = map_of (rev (map (\<lambda>p. (pe_id p, p)) (cc_peers cfg))),
                           ab_senders = Map.empty, ab_client_addrs = Map.empty, ab_seen = membership_index (rp_node r) \<rparr>;
                     (b, ls) = book_update ok (members (rp_node r)) (connect_peers ok (cc_peers cfg) (b, []))
                 in Inr \<lparr> sh_replica = r, sh_changes = 0, sh_book = b, sh_links = ls \<rparr>)))"

definition tick_interval :: "cluster_config \<Rightarrow> nat" where
  "tick_interval cfg = max (cc_tick_ms cfg) 1"

section \<open>The ticker and the jobs it starts\<close>

datatype job = SnapshotJob snapshot_job | CompactionJob compaction_job | RestoreJob rp_restore_job

text \<open>A job that cannot be started is reported and dropped.\<close>

definition or_none :: "'a option res \<times> replica \<Rightarrow> 'a option \<times> replica" where
  "or_none x = (case x of (Inr j, r) \<Rightarrow> (j, r) | (Inl _, r) \<Rightarrow> (None, r))"

definition ticker_locked ::
  "(nat list \<Rightarrow> nat list) \<Rightarrow> (nat \<Rightarrow> bool) \<Rightarrow> shared
   \<Rightarrow> error + (action list \<times> snapshot_job option \<times> compaction_job option \<times> rp_restore_job option) \<times> shared" where
  "ticker_locked ord ok sh = (case rp_tick ord (sh_replica sh) of
      (Inl e, r) \<Rightarrow> Inl e
    | (Inr acts, r) \<Rightarrow>
        let sh = follow_membership ok (sh\<lparr> sh_replica := r \<rparr>);
            (restore, r) = or_none (start_restore (sh_replica sh));
            (compaction, r) = or_none (start_compaction r);
            (snapshot, r) = or_none (start_snapshot r)
        in Inr ((acts, snapshot, compaction, restore), sh\<lparr> sh_replica := r \<rparr>))"

definition spawn_job :: "bool \<Rightarrow> (replica \<Rightarrow> replica) \<Rightarrow> job option \<Rightarrow> job list \<times> shared \<Rightarrow> job list \<times> shared" where
  "spawn_job spawned abandon j js = (case j of
      None \<Rightarrow> js
    | Some j \<Rightarrow> (case js of (started, sh) \<Rightarrow>
        if spawned then (started @ [j], sh) else (started, sh\<lparr> sh_replica := abandon (sh_replica sh) \<rparr>)))"

text \<open>One turn of the ticker: the jobs it started, with what it left. \<open>spawned\<close> says which threads could be
  started, for the restore, the compaction and the snapshot.\<close>

definition ticker_turn ::
  "(nat list \<Rightarrow> nat list) \<Rightarrow> (nat \<Rightarrow> bool) \<Rightarrow> bool \<times> bool \<times> bool \<Rightarrow> shared \<Rightarrow> error + job list \<times> shared" where
  "ticker_turn ord ok spawned sh = (case ticker_locked ord ok sh of
      Inl e \<Rightarrow> Inl e
    | Inr ((acts, snapshot, compaction, restore), sh) \<Rightarrow> (case spawned of (sr, sc, ss) \<Rightarrow>
        Inr (spawn_job ss abandon_snapshot (map_option SnapshotJob snapshot)
          (spawn_job sc rp_abandon_compaction (map_option CompactionJob compaction)
            (spawn_job sr rp_abandon_restore (map_option RestoreJob restore)
              ([], sh_dispatch acts (changed sh)))))))"

text \<open>A job runs without the lock on the files of the store, and takes the lock to install the result.\<close>

datatype finished = SnapshotDone "mem_snapshot res" | CompactionDone "merged_file res" | RestoreDone "restored_store res"

definition on_files :: "(fs \<Rightarrow> 'a io) \<Rightarrow> shared \<Rightarrow> 'a res \<times> shared" where
  "on_files f sh = (let r = sh_replica sh; s = rp_store r in
     case f (st_fs s) of (x, d) \<Rightarrow> (x, sh\<lparr> sh_replica := r\<lparr> rp_store := s\<lparr> st_fs := d \<rparr> \<rparr> \<rparr>))"

fun job_run :: "job \<Rightarrow> shared \<Rightarrow> finished \<times> shared" where
  "job_run (SnapshotJob j) sh = map_prod SnapshotDone id (on_files (snapshot_run j) sh)"
| "job_run (CompactionJob j) sh = map_prod CompactionDone id (on_files (compaction_run j) sh)"
| "job_run (RestoreJob j) sh = map_prod RestoreDone id (on_files (restore_run j) sh)"

definition install :: "unit res \<times> replica \<Rightarrow> shared \<Rightarrow> shared res" where
  "install x sh = (case x of (Inl e, r) \<Rightarrow> Inl e | (Inr _, r) \<Rightarrow> Inr (sh\<lparr> sh_replica := r \<rparr>))"

fun job_finish :: "(nat list \<Rightarrow> nat list) \<Rightarrow> finished \<Rightarrow> shared \<Rightarrow> shared res" where
  "job_finish ord (SnapshotDone (Inr sink)) sh = install (finish_snapshot ord sink (sh_replica sh)) sh"
| "job_finish ord (SnapshotDone (Inl e)) sh = Inr (sh\<lparr> sh_replica := abandon_snapshot (sh_replica sh) \<rparr>)"
| "job_finish ord (CompactionDone (Inr mf)) sh = install (rp_finish_compaction mf (sh_replica sh)) sh"
| "job_finish ord (CompactionDone (Inl e)) sh = Inr (sh\<lparr> sh_replica := rp_abandon_compaction (sh_replica sh) \<rparr>)"
| "job_finish ord (RestoreDone (Inr d)) sh = map_sum id changed (install (rp_finish_restore ord d (sh_replica sh)) sh)"
| "job_finish ord (RestoreDone (Inl e)) sh = Inr (changed (sh\<lparr> sh_replica := rp_abandon_restore (sh_replica sh) \<rparr>))"

section \<open>Replies\<close>

definition cn_wrong_arity :: "bytes \<Rightarrow> reply" where
  "cn_wrong_arity name = reply_err (ascii ''wrong number of arguments for '' @ [39] @ to_ascii_lowercase name @
     [39] @ ascii '' command'')"

definition not_leader :: "shared \<Rightarrow> replica \<Rightarrow> reply" where
  "not_leader sh r = (case Option.bind (leader_id (rp_node r)) (\<lambda>i. client_addr i sh) of
      Some addr \<Rightarrow> ErrorReply (ascii ''MOVED 0 '' @ addr)
    | None \<Rightarrow> ErrorReply (ascii ''CLUSTERDOWN no leader is known; the cluster has no majority''))"

fun propose_error_text :: "propose_error \<Rightarrow> string" where
  "propose_error_text (NotLeader (Some i)) = ''not the leader, try node '' @ dec_digits i"
| "propose_error_text (NotLeader None) = ''not the leader''"
| "propose_error_text (TooLarge len most) =
     ''command of '' @ dec_digits len @ '' bytes exceeds the '' @ dec_digits most @ '' byte entry limit''"
| "propose_error_text (StorageErr e) = error_text e"
| "propose_error_text (Membership why) = why"

text \<open>\<^verbatim>\<open>str::parse::<u64>\<close>.\<close>

definition parse_id :: "bytes \<Rightarrow> nat option" where
  "parse_id bs =
     (if \<not> utf8_ok bs then None
      else let t = map byte_char (if bs \<noteq> [] \<and> hd bs = 0x2B then tl bs else bs) in
        if t = [] \<or> \<not> list_all is_digit t then None
        else let n = parse_digits t in if n < 2 ^ 64 then Some n else None)"

section \<open>Reads\<close>

definition read_start :: "shared \<Rightarrow> read_kind \<times> shared" where
  "read_start sh = (case rp_read_index (sh_replica sh) of
     ((request, acts), r) \<Rightarrow> (request, sh_dispatch acts (sh\<lparr> sh_replica := r \<rparr>)))"

definition read_check :: "read_kind \<Rightarrow> (replica \<Rightarrow> reply \<times> replica) \<Rightarrow> shared \<Rightarrow> (reply \<times> shared) option" where
  "read_check request f sh = (let r = sh_replica sh in
     case rp_read_state request r of
       Pending \<Rightarrow> None
     | Ready _ \<Rightarrow> (case f r of (reply, r) \<Rightarrow> Some (reply, sh\<lparr> sh_replica := r \<rparr>))
     | Failed \<Rightarrow> Some (not_leader sh r, sh))"

definition read_end :: "read_kind \<Rightarrow> reply option \<Rightarrow> shared \<Rightarrow> reply \<times> shared" where
  "read_end request outcome sh =
     (case outcome of
        Some reply \<Rightarrow> reply
      | None \<Rightarrow> ErrorReply (ascii ''TIMEOUT the read could not be confirmed in time; no majority answered''),
      sh\<lparr> sh_replica := rp_forget_read request (sh_replica sh) \<rparr>)"

definition get_reply :: "bytes \<Rightarrow> replica \<Rightarrow> reply \<times> replica" where
  "get_reply key r = (case rp_get key r of
      (Inr (Some v), r) \<Rightarrow> (Bulk v, r)
    | (Inr None, r) \<Rightarrow> (Null, r)
    | (Inl e, r) \<Rightarrow> (reply_err (ascii (error_text e)), r))"

text \<open>\<^verbatim>\<open>MGET\<close>: a key that cannot be read counts as missing.\<close>

fun mget_replies :: "bytes list \<Rightarrow> replica \<Rightarrow> reply list \<times> replica" where
  "mget_replies [] r = ([], r)"
| "mget_replies (k # ks) r = (case rp_get k r of (x, r) \<Rightarrow>
     (case mget_replies ks r of (rs, r) \<Rightarrow> ((case x of Inr (Some v) \<Rightarrow> Bulk v | _ \<Rightarrow> Null) # rs, r)))"

section \<open>Writes\<close>

text \<open>The closure \<^verbatim>\<open>write\<close> hands to \<^verbatim>\<open>submit\<close>.\<close>

definition write_propose :: "bytes list \<Rightarrow> shared \<Rightarrow> proposed list \<times> shared" where
  "write_propose commands sh =
     (let term = n_term (rp_node (sh_replica sh)) in
      case rp_propose_batch commands (sh_replica sh) of
        (Inr (results, acts), r) \<Rightarrow>
          (map (map_sum (\<lambda>e. reply_err (ascii (propose_error_text e))) (\<lambda>index. (index, term))) results,
           sh_dispatch acts (sh\<lparr> sh_replica := r \<rparr>))
      | (Inl (NotLeader l), r) \<Rightarrow> (replicate (length commands) (Inl (not_leader sh r)), sh\<lparr> sh_replica := r \<rparr>)
      | (Inl e, r) \<Rightarrow> (replicate (length commands) (Inl (reply_err (ascii (propose_error_text e)))), sh\<lparr> sh_replica := r \<rparr>))"

definition write_command :: "op \<Rightarrow> nat \<Rightarrow> reply + bytes" where
  "write_command x now = map_sum (\<lambda>e. reply_err (ascii (error_text e))) id (op_encode x now)"

definition write_check :: "nat \<Rightarrow> nat \<Rightarrow> replica \<Rightarrow> reply option" where
  "write_check index term r =
     (if rp_applied r \<ge> index then Some reply_ok
      else if n_term (rp_node r) \<noteq> term \<or> role (rp_node r) \<noteq> Leader then
        Some (ErrorReply (ascii ''NOTLEADER leadership was lost before the write committed; its fate is unknown''))
      else None)"

definition write_end :: "reply option \<Rightarrow> reply" where
  "write_end outcome = (case outcome of
      Some reply \<Rightarrow> reply
    | None \<Rightarrow> ErrorReply (ascii ''TIMEOUT the write did not commit in time; it may still do so''))"

section \<open>Changes of the membership\<close>

type_synonym edit = "member list \<Rightarrow> bytes + member list"

definition change_start :: "(nat \<Rightarrow> bool) \<Rightarrow> edit \<Rightarrow> shared \<Rightarrow> (reply + nat \<times> nat) \<times> shared" where
  "change_start ok edit sh = (case edit (members (rp_node (sh_replica sh))) of
      Inl why \<Rightarrow> (Inl (reply_err why), sh)
    | Inr ms \<Rightarrow> (case rp_propose_membership ms (sh_replica sh) of
        (Inr acc, r) \<Rightarrow>
          (Inr (acc_index acc, n_term (rp_node r)),
           sh_dispatch (acc_actions acc) (follow_membership ok (sh\<lparr> sh_replica := r \<rparr>)))
      | (Inl (NotLeader l), r) \<Rightarrow> (Inl (not_leader sh r), sh\<lparr> sh_replica := r \<rparr>)
      | (Inl e, r) \<Rightarrow> (Inl (reply_err (ascii (propose_error_text e))), sh\<lparr> sh_replica := r \<rparr>)))"

definition change_check :: "nat \<Rightarrow> nat \<Rightarrow> replica \<Rightarrow> reply option" where
  "change_check index term r =
     (if commit_index (rp_node r) \<ge> index then Some reply_ok
      else if n_term (rp_node r) \<noteq> term then
        Some (ErrorReply (ascii ''NOTLEADER leadership was lost before the change committed; its fate is unknown''))
      else None)"

definition change_end :: "reply option \<Rightarrow> reply" where
  "change_end outcome = (case outcome of
      Some reply \<Rightarrow> reply
    | None \<Rightarrow> ErrorReply (ascii ''TIMEOUT the change did not commit in time; it may still do so''))"

definition add_member :: "nat \<Rightarrow> bytes \<Rightarrow> edit" where
  "add_member i context ms =
     (if list_ex (\<lambda>m. mid m = i) ms then Inl (ascii ''node '' @ nat_text i @ ascii '' is already a member'')
      else Inr (sort_key mid (ms @ [learner i context])))"

definition remove_member :: "nat \<Rightarrow> edit" where
  "remove_member i ms =
     (let left = filter (\<lambda>m. mid m \<noteq> i) ms in
      if length left = length ms then Inl (ascii ''node '' @ nat_text i @ ascii '' is not a member'') else Inr left)"

section \<open>Commands\<close>

fun role_text :: "role \<Rightarrow> string" where
  "role_text Leader = ''leader''"
| "role_text Candidate = ''candidate''"
| "role_text PreCandidate = ''pre-candidate''"
| "role_text Follower = ''follower''"

fun joined :: "bytes list \<Rightarrow> bytes" where
  "joined [] = []"
| "joined [x] = x"
| "joined (x # xs) = x @ [0x2C] @ joined xs"

definition info_text :: "replica \<Rightarrow> bytes" where
  "info_text r =
     (let n = rp_node r; line = (\<lambda>name x. ascii name @ x @ crlf) in
      concat [line ''id:'' (nat_text (n_id n)), line ''role:'' (ascii (role_text (role n))),
        line ''term:'' (nat_text (n_term n)),
        line ''leader:'' (case leader_id n of Some i \<Rightarrow> nat_text i | None \<Rightarrow> ascii ''none''),
        line ''commit_index:'' (nat_text (commit_index n)), line ''applied_index:'' (nat_text (rp_applied r)),
        line ''last_index:'' (nat_text (last_index (storage n))),
        line ''snapshot_index:'' (nat_text (rp_snapshot_index r)), line ''keys:'' (nat_text (rp_len r)),
        line ''members:'' (joined (map (\<lambda>m. nat_text (mid m)) (members n))),
        line ''voters:'' (joined (map (\<lambda>m. nat_text (mid m)) (filter (\<lambda>m. \<not> is_learner m) (members n))))])"

text \<open>What a command asks for: a reply at once, a read, a write, or a change of the membership.\<close>

datatype request =
    Reply reply
  | ReadReq "replica \<Rightarrow> reply \<times> replica"
  | WriteReq op
  | ChangeReq edit
  | InfoReq

definition cn_dispatch :: "(bytes list \<Rightarrow> bytes list) \<Rightarrow> bytes list \<Rightarrow> request" where
  "cn_dispatch ord args =
     (let name = to_ascii_uppercase (from_utf8_lossy (hd args));
          rest = tl args;
          arity = Reply (cn_wrong_arity name)
      in
      if name = ascii ''PING'' then (case rest of
          [] \<Rightarrow> Reply (Simple (ascii ''PONG''))
        | [msg] \<Rightarrow> Reply (Bulk msg)
        | _ \<Rightarrow> arity)
      else if name = ascii ''ECHO'' then (case rest of [msg] \<Rightarrow> Reply (Bulk msg) | _ \<Rightarrow> arity)
      else if name = ascii ''QUIT'' then Reply reply_ok
      else if name = ascii ''COMMAND'' then Reply (Array [])
      else if name = ascii ''CLIENT'' then Reply reply_ok
      else if name = ascii ''SELECT'' then (case rest of
          [db] \<Rightarrow> Reply (if db = ascii ''0'' then reply_ok else reply_err (ascii ''DB index is out of range''))
        | _ \<Rightarrow> arity)
      else if name = ascii ''GET'' then (case rest of [key] \<Rightarrow> ReadReq (get_reply key) | _ \<Rightarrow> arity)
      else if name = ascii ''MGET'' then
        (if rest = [] then arity else ReadReq (\<lambda>r. map_prod Array id (mget_replies rest r)))
      else if name = ascii ''EXISTS'' then
        (if rest = [] then arity
         else ReadReq (\<lambda>r. (Integer (int (length (filter (\<lambda>k. rp_contains_key k r) rest))), r)))
      else if name = ascii ''DBSIZE'' then
        (if rest = [] then ReadReq (\<lambda>r. (Integer (int (rp_len r)), r)) else arity)
      else if name = ascii ''KEYS'' then (case rest of
          [pattern] \<Rightarrow> ReadReq (\<lambda>r. (Array (map Bulk (sort (filter (glob_match pattern) (ord (store_keys (rp_store r)))))), r))
        | _ \<Rightarrow> arity)
      else if name = ascii ''SET'' then (case rest of
          [key, val] \<Rightarrow> WriteReq (OpPut key val)
        | _ # _ # _ \<Rightarrow> Reply (reply_err (ascii ''this cluster'' @ [39] @ ascii ''s SET takes no options''))
        | _ \<Rightarrow> arity)
      else if name = ascii ''DEL'' then (case rest of
          [] \<Rightarrow> arity
        | [key] \<Rightarrow> WriteReq (OpDelete key)
        | _ \<Rightarrow> Reply (reply_err (ascii ''this cluster'' @ [39] @ ascii ''s DEL takes one key'')))
      else if name = ascii ''RAFT.ADD'' then (case rest of
          [i, raft, client] \<Rightarrow> (case parse_id i of
              None \<Rightarrow> Reply (reply_err (ascii ''RAFT.ADD wants a numeric node id''))
            | Some i \<Rightarrow>
                if \<not> utf8_ok raft \<or> \<not> utf8_ok client then Reply (reply_err (ascii ''addresses must be text''))
                else ChangeReq (add_member i (member_context raft client)))
        | _ \<Rightarrow> arity)
      else if name = ascii ''RAFT.REMOVE'' then (case rest of
          [i] \<Rightarrow> (case parse_id i of
              None \<Rightarrow> Reply (reply_err (ascii ''RAFT.REMOVE wants a numeric node id''))
            | Some i \<Rightarrow> ChangeReq (remove_member i))
        | _ \<Rightarrow> arity)
      else if name = ascii ''RAFT'' \<or> name = ascii ''INFO'' then InfoReq
      else Reply (reply_err (ascii ''unknown command '' @ [39] @ to_ascii_lowercase name @ [39])))"

section \<open>A client's connection\<close>

text \<open>What is still to be read, what the writer holds and what has been flushed.\<close>

record client =
  ct_in :: instream
  ct_out :: bytes
  ct_sent :: bytes

definition client_flush :: "client \<Rightarrow> client" where
  "client_flush c = c\<lparr> ct_sent := ct_sent c @ ct_out c, ct_out := [] \<rparr>"

datatype turn = Again | Serve "bytes list" | Ended "unit res"

text \<open>The first half of a turn of \<^verbatim>\<open>serve_client\<close>: a command, an empty line, or the end. A writer that is dropped
  flushes what it holds.\<close>

definition serve_read :: "client \<Rightarrow> turn \<times> client" where
  "serve_read c = (case read_command (ct_in c) of
      (Inr (Some args), i) \<Rightarrow> (if args = [] then Again else Serve args, c\<lparr> ct_in := i \<rparr>)
    | (Inr None, i) \<Rightarrow> (Ended (Inr ()), client_flush (c\<lparr> ct_in := i \<rparr>))
    | (Inl (Io InvalidData detail), i) \<Rightarrow>
        (Ended (Inr ()), client_flush (c\<lparr> ct_in := i, ct_out := ct_out c @
           write_to (reply_err (ascii (''Protocol error: '' @ detail))) \<rparr>))
    | (Inl e, i) \<Rightarrow> (Ended (Inl e), client_flush (c\<lparr> ct_in := i \<rparr>)))"

text \<open>The second half, once the command has its reply. \<open>emptied\<close>: it was the last thing in the reader's buffer.\<close>

definition serve_reply :: "bool \<Rightarrow> bytes list \<Rightarrow> reply \<Rightarrow> client \<Rightarrow> turn \<times> client" where
  "serve_reply emptied args reply c =
     (let quit = eq_ignore_ascii_case (hd args) (ascii ''QUIT'');
          c = c\<lparr> ct_out := ct_out c @ write_to reply \<rparr>;
          c = (if quit \<or> emptied \<or> in_bytes (ct_in c) = [] then client_flush c else c)
      in (if quit then Ended (Inr ()) else Again, c))"

end
