(* ===== verification/ClusterWrites.thy ===== *)
theory ClusterWrites
  imports ClusterNode NodeProps
begin

text \<open>
  The writes of a cluster node, from the client's command to the log: the closure that \<^verbatim>\<open>write\<close> hands to
  \<^verbatim>\<open>submit\<close> meets what \<open>Proposals\<close> asks of it, so every write is proposed once and in order, and every
  call of \<^verbatim>\<open>submit\<close> ends.
\<close>

lemma batch_answers_length: "length (snd (batch_entries t limit next cs)) = length cs"
  by (induction t limit "next" cs rule: batch_entries.induct) (auto simp: Let_def case_prod_beta)

lemma propose_batch_length:
  assumes "propose_batch cs n = (Inr (as, acts), n')"
  shows "length as = length cs"
proof -
  obtain es as' where b: "batch_entries (n_term n) (max_entry_bytes (n_config n)) (last_index (storage n) + 1) cs = (es, as')"
    by fastforce
  then have "length as' = length cs" using batch_answers_length by (metis snd_conv)
  moreover have "as = as'"
    using assms b
    by (auto simp: propose_batch_def propose_batch_op_def run_op_def nwith_def nfail_def nseq_def nbind_def nret_def
        split: if_splits prod.splits sum.splits)
  ultimately show ?thesis by simp
qed

lemma write_propose_length: "length (fst (write_propose cs sh)) = length cs"
  using propose_batch_length
  by (auto simp: write_propose_def rp_propose_batch_def Let_def split: prod.splits sum.splits propose_error.splits)

interpretation wp: proposer write_propose
  by unfold_locales (rule write_propose_length)

text \<open>
  (C17) Group commit of a cluster node: however the clients' threads interleave, and whatever else
  happens to the replica in between, at most one batch is being proposed at a time; the commands proposed
  so far, batch after batch, are those of the tickets \<open>0, 1, 2, \<dots>\<close> in order, each the command of exactly one
  thread; a thread that has returned has the answer given to its own command; and no thread finds itself
  proposing twice, where the code would panic.
\<close>

theorem writes_proposed_once:
  fixes sh :: shared
  assumes "submits write_propose (proposals_new cs sh) \<sigma>"
  defines "D \<equiv> concat (pr_done \<sigma>)"
  shows "map (fst \<circ> fst) D = [0..<length D] \<and>
    (\<forall>k < length D. \<exists>!i. ticket_at \<sigma> i = Some k \<and> i < length cs \<and> fst (D ! k) = (k, cs ! i)) \<and>
    (\<forall>i k a. sub_at \<sigma> i = Some (Returned k a) \<longrightarrow> k < length D \<and> D ! k = ((k, cs ! i), a)) \<and>
    (\<forall>i k. sub_at \<sigma> i \<noteq> Some (Panicked k)) \<and>
    (\<forall>i j k b k' b'. sub_at \<sigma> i = Some (Proposing k b) \<longrightarrow> sub_at \<sigma> j = Some (Proposing k' b') \<longrightarrow> i = j)"
proof -
  have D: "D = concat (pr_done \<sigma>)" by (simp add: D_def)
  note once = wp.submit_each_once [OF assms(1) D]
  have "map (fst \<circ> fst) D = [0..<length D]" using once(1) by simp
  moreover have "\<forall>k < length D. \<exists>!i. ticket_at \<sigma> i = Some k \<and> i < length cs \<and> fst (D ! k) = (k, cs ! i)"
    using once(2) by blast
  moreover have "\<forall>i k a. sub_at \<sigma> i = Some (Returned k a) \<longrightarrow> k < length D \<and> D ! k = ((k, cs ! i), a)"
    using once(3) by blast
  moreover have "\<forall>i k. sub_at \<sigma> i \<noteq> Some (Panicked k)" using once(4) by blast
  ultimately show ?thesis using once(5) by blast
qed

lemma sub_run_submits: "sub_run f es \<sigma> = Some \<sigma>' \<Longrightarrow> submits f \<sigma>0 \<sigma> \<Longrightarrow> submits f \<sigma>0 \<sigma>'"
  by (induction es arbitrary: \<sigma>) (auto split: option.splits intro: submits.onward)

text \<open>Three writes: the first is proposed alone, the other two together behind it.\<close>

definition demo_writes :: "bytes list" where
  "demo_writes = [[1], [2], [3]]"

definition demo_schedule :: "shared sub_event list" where
  "demo_schedule = [Join 0, Join 1, Join 2, Answer 0, Look 1, Look 2, Answer 1, Look 2]"

lemma demo_writes_run:
  "\<exists>\<sigma>. sub_run write_propose demo_schedule (proposals_new demo_writes sh) = Some \<sigma> \<and> length (pr_done \<sigma>) = 2 \<and>
     length (concat (pr_done \<sigma>)) = 3 \<and> (\<exists>k a. sub_at \<sigma> 2 = Some (Returned k a))"
proof -
  obtain a sh1 where 1: "write_propose [[1]] sh = ([a], sh1)"
    using write_propose_length [of "[[1]]" sh] by (cases "write_propose [[1]] sh") (auto simp: length_Suc_conv)
  obtain b c sh2 where 2: "write_propose [[2], [3]] sh1 = ([b, c], sh2)"
    using write_propose_length [of "[[2], [3]]" sh1] by (cases "write_propose [[2], [3]] sh1") (auto simp: length_Suc_conv)
  show ?thesis
    by (simp add: demo_schedule_def demo_writes_def proposals_new_def sub_at_def submit_join_def submit_look_def
        put_thread_def submit_answer_def post_answers_def notify_def queue_default_def submitter_new_def Let_def 1 2)
qed

theorem writes_proposed_once_witness:
  "\<forall>sh. \<exists>\<sigma>. submits write_propose (proposals_new demo_writes sh) \<sigma> \<and> length (concat (pr_done \<sigma>)) = 3 \<and>
     map (fst \<circ> fst) (concat (pr_done \<sigma>)) = [0, 1, 2] \<and> (\<exists>k a. sub_at \<sigma> 2 = Some (Returned k a) \<and>
       concat (pr_done \<sigma>) ! k = ((k, [3]), a))"
proof
  fix sh
  obtain \<sigma> where s: "sub_run write_propose demo_schedule (proposals_new demo_writes sh) = Some \<sigma>"
    "length (concat (pr_done \<sigma>)) = 3" "\<exists>k a. sub_at \<sigma> 2 = Some (Returned k a)" using demo_writes_run by blast
  have r: "submits write_propose (proposals_new demo_writes sh) \<sigma>" by (rule sub_run_submits [OF s(1) submits.here])
  obtain k a where k: "sub_at \<sigma> 2 = Some (Returned k a)" using s(3) by blast
  note once = writes_proposed_once [OF r]
  have "map (fst \<circ> fst) (concat (pr_done \<sigma>)) = [0, 1, 2]" using once s(2) by (simp add: upt_rec)
  moreover have "concat (pr_done \<sigma>) ! k = ((k, demo_writes ! 2), a)" using once k by blast
  ultimately show "\<exists>\<sigma>. submits write_propose (proposals_new demo_writes sh) \<sigma> \<and> length (concat (pr_done \<sigma>)) = 3 \<and>
     map (fst \<circ> fst) (concat (pr_done \<sigma>)) = [0, 1, 2] \<and> (\<exists>k a. sub_at \<sigma> 2 = Some (Returned k a) \<and>
       concat (pr_done \<sigma>) ! k = ((k, [3]), a))"
    using r s(2) k by (auto simp: demo_writes_def)
qed

text \<open>
  (C18) Every call of \<^verbatim>\<open>submit\<close> ends: among \<open>n\<close> threads at most \<open>n * (n + 3)\<close> steps are ever taken besides those
  a spurious wake-up adds, and as long as a call has not returned some thread can take one, so nobody
  sleeps while nobody proposes.
\<close>

theorem write_calls_end:
  assumes "sub_run write_propose es (proposals_new cs sh) = Some \<sigma>"
  shows "length (filter own_event es) \<le> length cs * (length cs + 3) + length (filter is_spurious es) \<and>
    ((\<forall>i < length cs. \<exists>k a. sub_at \<sigma> i = Some (Returned k a)) \<or> (\<exists>e. own_event e \<and> sub_step write_propose e \<sigma> \<noteq> None))"
  using wp.submit_run_ends [OF assms] by blast

theorem write_calls_end_witness:
  "\<forall>sh. \<exists>\<sigma>. sub_run write_propose (take 3 demo_schedule) (proposals_new demo_writes sh) = Some \<sigma> \<and>
     sub_at \<sigma> 2 = Some (Asleep 2) \<and> (\<exists>e. own_event e \<and> sub_step write_propose e \<sigma> \<noteq> None)"
proof
  fix sh
  obtain \<sigma> where s: "sub_run write_propose (take 3 demo_schedule) (proposals_new demo_writes sh) = Some \<sigma>" "sub_at \<sigma> 2 = Some (Asleep 2)"
    by (simp add: demo_schedule_def demo_writes_def proposals_new_def sub_at_def submit_join_def submit_look_def
        put_thread_def queue_default_def submitter_new_def Let_def)
  have "\<not> (\<forall>i < length demo_writes. \<exists>k a. sub_at \<sigma> i = Some (Returned k a))"
    using s(2) by (auto simp: demo_writes_def intro!: exI [of _ 2])
  with write_calls_end [OF s(1)] s show "\<exists>\<sigma>. sub_run write_propose (take 3 demo_schedule) (proposals_new demo_writes sh) = Some \<sigma> \<and>
     sub_at \<sigma> 2 = Some (Asleep 2) \<and> (\<exists>e. own_event e \<and> sub_step write_propose e \<sigma> \<noteq> None)" by blast
qed

end
