(* ===== verification/WaitFor.thy ===== *)
theory WaitFor
  imports ClusterNode
begin

text \<open>
  Waiting for the replica (\<^verbatim>\<open>Shared::wait_for\<close> and \<^verbatim>\<open>Shared::changed\<close> in \<^verbatim>\<open>src/src/cluster.rs\<close>). A waiter reads the
  count of changes, checks the replica under the shared lock, and sleeps only if the count is still the one it
  read; a step is one of these, or a change of the replica under the lock, or the announcement that follows
  one. The time that is left is decided outside, so the step that would sleep says whether the deadline has
  passed. Besides the shared state the model records every state the replica went through and which of
  them was the last to be announced.

  Shown: no wake-up is lost.
\<close>

datatype 'a wait_phase =
    Entering
  | Counted nat
  | Unready nat
  | AsleepAt nat
  | Got 'a
  | Late

record 'a waiter =
  wt_check :: "replica \<Rightarrow> 'a option"
  wt_phase :: "'a wait_phase"
  wt_saw :: nat

definition waiter_new :: "(replica \<Rightarrow> 'a option) \<Rightarrow> 'a waiter" where
  "waiter_new check = \<lparr> wt_check = check, wt_phase = Entering, wt_saw = 0 \<rparr>"

record 'a waits =
  ws_shared :: shared
  ws_waiters :: "'a waiter list"
  ws_past :: "replica list"
  ws_announced :: nat

definition waits_new :: "(replica \<Rightarrow> 'a option) list \<Rightarrow> shared \<Rightarrow> 'a waits" where
  "waits_new checks sh = \<lparr> ws_shared = sh, ws_waiters = map waiter_new checks, ws_past = [sh_replica sh], ws_announced = 0 \<rparr>"

definition wait_count :: "shared \<Rightarrow> 'a waiter \<Rightarrow> 'a waiter" where
  "wait_count sh t = t\<lparr> wt_phase := Counted (sh_changes sh) \<rparr>"

definition wait_look :: "nat \<Rightarrow> nat \<Rightarrow> shared \<Rightarrow> 'a waiter \<Rightarrow> 'a waiter" where
  "wait_look now seen sh t = (case wt_check t (sh_replica sh) of
      Some a \<Rightarrow> t\<lparr> wt_phase := Got a, wt_saw := now \<rparr>
    | None \<Rightarrow> t\<lparr> wt_phase := Unready seen, wt_saw := now \<rparr>)"

text \<open>The inner loop, under the lock of the count.\<close>

definition wait_sleep :: "nat \<Rightarrow> bool \<Rightarrow> shared \<Rightarrow> 'a waiter \<Rightarrow> 'a waiter" where
  "wait_sleep seen expired sh t =
     (if sh_changes sh \<noteq> seen then t\<lparr> wt_phase := Entering \<rparr>
      else if expired then t\<lparr> wt_phase := Late \<rparr>
      else t\<lparr> wt_phase := AsleepAt seen \<rparr>)"

definition rouse :: "'a waiter \<Rightarrow> 'a waiter" where
  "rouse t = (case wt_phase t of AsleepAt n \<Rightarrow> t\<lparr> wt_phase := Unready n \<rparr> | _ \<Rightarrow> t)"

datatype wait_event = Count nat | CheckNow nat | Settle nat bool | WakeAny nat | Mutate shared | Announce

definition now :: "'a waits \<Rightarrow> nat" where
  "now w = length (ws_past w) - 1"

definition put_waiter :: "nat \<Rightarrow> 'a waiter \<Rightarrow> 'a waits \<Rightarrow> 'a waits" where
  "put_waiter i t w = w\<lparr> ws_waiters := (ws_waiters w)[i := t] \<rparr>"

definition waiter_at :: "'a waits \<Rightarrow> nat \<Rightarrow> 'a wait_phase option" where
  "waiter_at w i = (if i < length (ws_waiters w) then Some (wt_phase (ws_waiters w ! i)) else None)"

text \<open>\<open>Mutate\<close> leaves the count as it is: whoever changes the replica announces it afterwards.\<close>

fun wait_step :: "wait_event \<Rightarrow> 'a waits \<Rightarrow> 'a waits option" where
  "wait_step (Count i) w = (case waiter_at w i of
      Some Entering \<Rightarrow> Some (put_waiter i (wait_count (ws_shared w) (ws_waiters w ! i)) w)
    | _ \<Rightarrow> None)"
| "wait_step (CheckNow i) w = (case waiter_at w i of
      Some (Counted n) \<Rightarrow> Some (put_waiter i (wait_look (now w) n (ws_shared w) (ws_waiters w ! i)) w)
    | _ \<Rightarrow> None)"
| "wait_step (Settle i expired) w = (case waiter_at w i of
      Some (Unready n) \<Rightarrow> Some (put_waiter i (wait_sleep n expired (ws_shared w) (ws_waiters w ! i)) w)
    | _ \<Rightarrow> None)"
| "wait_step (WakeAny i) w = (case waiter_at w i of
      Some (AsleepAt n) \<Rightarrow> Some (put_waiter i (rouse (ws_waiters w ! i)) w)
    | _ \<Rightarrow> None)"
| "wait_step (Mutate sh) w = (if sh_changes sh = sh_changes (ws_shared w)
     then Some (w\<lparr> ws_shared := sh, ws_past := ws_past w @ [sh_replica sh] \<rparr>) else None)"
| "wait_step Announce w = Some (w\<lparr> ws_shared := changed (ws_shared w), ws_waiters := map rouse (ws_waiters w),
     ws_announced := now w \<rparr>)"

inductive waits_run :: "'a waits \<Rightarrow> 'a waits \<Rightarrow> bool" for w where
  here: "waits_run w w"
| onward: "waits_run w w1 \<Longrightarrow> wait_step e w1 = Some w2 \<Longrightarrow> waits_run w w2"

section \<open>The invariant\<close>

fun wait_knows :: "nat \<Rightarrow> nat \<Rightarrow> replica list \<Rightarrow> 'a waiter \<Rightarrow> 'a wait_phase \<Rightarrow> bool" where
  "wait_knows c a past t Entering \<longleftrightarrow> True"
| "wait_knows c a past t (Counted n) \<longleftrightarrow> n \<le> c"
| "wait_knows c a past t (Unready n) \<longleftrightarrow> n \<le> c \<and> wt_saw t < length past \<and> wt_check t (past ! wt_saw t) = None \<and>
     (n = c \<longrightarrow> a \<le> wt_saw t)"
| "wait_knows c a past t (AsleepAt n) \<longleftrightarrow> n = c \<and> wt_saw t < length past \<and> wt_check t (past ! wt_saw t) = None \<and> a \<le> wt_saw t"
| "wait_knows c a past t (Got x) \<longleftrightarrow> wt_saw t < length past \<and> wt_check t (past ! wt_saw t) = Some x"
| "wait_knows c a past t Late \<longleftrightarrow> True"

definition waits_ok :: "(replica \<Rightarrow> 'a option) list \<Rightarrow> 'a waits \<Rightarrow> bool" where
  "waits_ok checks w \<longleftrightarrow> map wt_check (ws_waiters w) = checks \<and> ws_past w \<noteq> [] \<and>
     last (ws_past w) = sh_replica (ws_shared w) \<and> ws_announced w \<le> now w \<and>
     (\<forall>t \<in> set (ws_waiters w). wait_knows (sh_changes (ws_shared w)) (ws_announced w) (ws_past w) t (wt_phase t))"

lemma waits_ok_put:
  assumes "waits_ok checks w" and "i < length (ws_waiters w)" and "wt_check t = wt_check (ws_waiters w ! i)"
    and "wait_knows (sh_changes (ws_shared w)) (ws_announced w) (ws_past w) t (wt_phase t)"
  shows "waits_ok checks (put_waiter i t w)"
  using assms set_update_subset_insert [of "ws_waiters w" i t]
  by (auto simp: waits_ok_def put_waiter_def now_def map_update_same)

lemma wait_step_ok:
  assumes ok: "waits_ok checks w" and st: "wait_step e w = Some w'"
  shows "waits_ok checks w'"
proof (cases e)
  case (Count i)
  with st ok show ?thesis
    by (auto simp: waiter_at_def wait_count_def intro!: waits_ok_put split: option.splits wait_phase.splits if_splits)
next
  case (CheckNow i)
  with st obtain n where i: "i < length (ws_waiters w)" "wt_phase (ws_waiters w ! i) = Counted n"
    and w': "w' = put_waiter i (wait_look (now w) n (ws_shared w) (ws_waiters w ! i)) w"
    by (auto simp: waiter_at_def split: option.splits wait_phase.splits if_splits)
  have "wait_knows (sh_changes (ws_shared w)) (ws_announced w) (ws_past w) (ws_waiters w ! i) (Counted n)"
    using ok i nth_mem [OF i(1)] unfolding waits_ok_def by metis
  moreover have "ws_past w ! now w = sh_replica (ws_shared w)" "now w < length (ws_past w)" "ws_announced w \<le> now w"
    using ok by (auto simp: waits_ok_def now_def last_conv_nth)
  ultimately show ?thesis
    unfolding w' by (intro waits_ok_put [OF ok i(1)]) (auto simp: wait_look_def split: option.splits)
next
  case (Settle i expired)
  with st obtain n where i: "i < length (ws_waiters w)" "wt_phase (ws_waiters w ! i) = Unready n"
    and w': "w' = put_waiter i (wait_sleep n expired (ws_shared w) (ws_waiters w ! i)) w"
    by (auto simp: waiter_at_def split: option.splits wait_phase.splits if_splits)
  have "wait_knows (sh_changes (ws_shared w)) (ws_announced w) (ws_past w) (ws_waiters w ! i) (Unready n)"
    using ok i nth_mem [OF i(1)] unfolding waits_ok_def by metis
  then show ?thesis unfolding w' by (intro waits_ok_put [OF ok i(1)]) (auto simp: wait_sleep_def)
next
  case (WakeAny i)
  with st obtain n where i: "i < length (ws_waiters w)" "wt_phase (ws_waiters w ! i) = AsleepAt n"
    and w': "w' = put_waiter i (rouse (ws_waiters w ! i)) w"
    by (auto simp: waiter_at_def split: option.splits wait_phase.splits if_splits)
  have "wait_knows (sh_changes (ws_shared w)) (ws_announced w) (ws_past w) (ws_waiters w ! i) (AsleepAt n)"
    using ok i nth_mem [OF i(1)] unfolding waits_ok_def by metis
  then show ?thesis unfolding w' by (intro waits_ok_put [OF ok i(1)]) (auto simp: rouse_def i(2))
next
  case (Mutate sh)
  have "wait_knows c a (past @ [r]) t ph" if "wait_knows c a past t ph" for c a past r t and ph :: "'a wait_phase"
    using that by (cases ph) (auto simp: nth_append)
  with Mutate st ok show ?thesis by (auto simp: waits_ok_def now_def split: if_splits)
next
  case Announce
  have "wait_knows (Suc c) (now w) past (rouse t) (wt_phase (rouse t))" if "wait_knows c a past t (wt_phase t)" for c a past and t :: "'a waiter"
    using that by (cases "wt_phase t") (auto simp: rouse_def)
  moreover have "wt_check (rouse t) = wt_check t" for t :: "'a waiter" by (simp add: rouse_def split: wait_phase.split)
  ultimately show ?thesis using Announce st ok by (auto simp: waits_ok_def now_def changed_def) blast
qed

lemma waits_run_ok: "waits_run (waits_new checks sh) w \<Longrightarrow> waits_ok checks w"
proof (induction rule: waits_run.induct)
  case here
  show ?case by (auto simp: waits_ok_def waits_new_def waiter_new_def now_def comp_def)
qed (rule wait_step_ok)

text \<open>A message and a tick are announced, whatever they change.\<close>

lemma follow_changes [simp]: "sh_changes (follow_membership ok sh) = sh_changes sh"
  by (simp add: follow_membership_def Let_def split: prod.split)

lemma step_announced: "sh_step ord ok sender m sh = Inr sh' \<Longrightarrow> sh_changes sh' = sh_changes sh + 1"
  by (auto simp: sh_step_def sh_dispatch_def changed_def split: prod.splits sum.splits)

lemma spawn_job_changes [simp]: "sh_changes (snd (spawn_job b f j js)) = sh_changes (snd js)"
  by (simp add: spawn_job_def split: option.split prod.split)

lemma tick_announced:
  assumes "ticker_turn ord ok spawned sh = Inr (js, sh')"
  shows "sh_changes sh' = sh_changes sh + 1"
proof -
  obtain acts sj cj rj sh1 where l: "ticker_locked ord ok sh = Inr ((acts, sj, cj, rj), sh1)"
    using assms by (auto simp: ticker_turn_def split: sum.splits prod.splits)
  have "sh_changes sh1 = sh_changes sh"
    using l by (auto simp: ticker_locked_def Let_def split: prod.splits sum.splits)
  moreover obtain sr sc ss where sp: "spawned = (sr, sc, ss)" by (cases spawned)
  have "(js, sh') = spawn_job ss abandon_snapshot (map_option SnapshotJob sj)
          (spawn_job sc rp_abandon_compaction (map_option CompactionJob cj)
            (spawn_job sr rp_abandon_restore (map_option RestoreJob rj) ([], sh_dispatch acts (changed sh1))))"
    using assms l sp by (simp add: ticker_turn_def)
  then have "sh_changes sh' = sh_changes (sh_dispatch acts (changed sh1))"
    by (metis spawn_job_changes snd_conv)
  ultimately show ?thesis by (simp add: sh_dispatch_def changed_def)
qed

text \<open>
  (C19) No wake-up is lost: a waiter that sleeps has checked the replica as it was when the last change was
  announced, or later, and found no answer, so once every change is announced the replica as it is has no
  answer for it; an announcement leaves nobody asleep; and an answer is what the check gave for a state
  the replica was in. Every message and every tick ends with an announcement.
\<close>

theorem no_lost_wakeup:
  assumes "waits_run (waits_new checks sh) w" and "i < length checks"
  shows "(\<forall>n. waiter_at w i = Some (AsleepAt n) \<longrightarrow>
       (\<exists>v. ws_announced w \<le> v \<and> v \<le> now w \<and> (checks ! i) (ws_past w ! v) = None) \<and>
       (ws_announced w = now w \<longrightarrow> (checks ! i) (sh_replica (ws_shared w)) = None)) \<and>
    (\<forall>x. waiter_at w i = Some (Got x) \<longrightarrow> (\<exists>r \<in> set (ws_past w). (checks ! i) r = Some x)) \<and>
    (\<forall>w' n. wait_step Announce w = Some w' \<longrightarrow> waiter_at w' i \<noteq> Some (AsleepAt n)) \<and>
    (\<forall>ord ok sender m sh1 sh2. sh_step ord ok sender m sh1 = Inr sh2 \<longrightarrow> sh_changes sh2 = sh_changes sh1 + 1) \<and>
    (\<forall>ord ok spawned js sh1 sh2. ticker_turn ord ok spawned sh1 = Inr (js, sh2) \<longrightarrow> sh_changes sh2 = sh_changes sh1 + 1)"
proof -
  have ok: "waits_ok checks w" by (rule waits_run_ok [OF assms(1)])
  then have il: "i < length (ws_waiters w)" and ck: "wt_check (ws_waiters w ! i) = checks ! i"
    using assms(2) by (auto simp: waits_ok_def)
  have kn: "wait_knows (sh_changes (ws_shared w)) (ws_announced w) (ws_past w) (ws_waiters w ! i) (wt_phase (ws_waiters w ! i))"
    using ok nth_mem [OF il] by (auto simp: waits_ok_def)
  have last: "ws_past w \<noteq> []" "ws_past w ! now w = sh_replica (ws_shared w)" using ok by (auto simp: waits_ok_def now_def last_conv_nth)
  have "(\<exists>v. ws_announced w \<le> v \<and> v \<le> now w \<and> (checks ! i) (ws_past w ! v) = None) \<and>
       (ws_announced w = now w \<longrightarrow> (checks ! i) (sh_replica (ws_shared w)) = None)" if "waiter_at w i = Some (AsleepAt n)" for n
  proof -
    have v: "ws_announced w \<le> wt_saw (ws_waiters w ! i)" "wt_saw (ws_waiters w ! i) \<le> now w"
      "(checks ! i) (ws_past w ! wt_saw (ws_waiters w ! i)) = None"
      using that kn ck by (auto simp: waiter_at_def il now_def)
    then show ?thesis using last(2) by (metis le_antisym)
  qed
  moreover have "\<exists>r \<in> set (ws_past w). (checks ! i) r = Some x" if "waiter_at w i = Some (Got x)" for x
    using that kn ck by (auto simp: waiter_at_def il intro!: bexI [OF _ nth_mem])
  moreover have "waiter_at w' i \<noteq> Some (AsleepAt n)" if "wait_step Announce w = Some w'" for w' n
    using that by (auto simp: waiter_at_def il rouse_def split: wait_phase.splits)
  ultimately show ?thesis using step_announced tick_announced by blast
qed

text \<open>A leader whose store has applied nothing yet, and a client that waits for its write at index 2.\<close>

definition demo_idle :: "shared \<Rightarrow> shared" where
  "demo_idle sh = sh\<lparr> sh_replica := (sh_replica sh)\<lparr> rp_applied := 0, rp_node := (rp_node (sh_replica sh))\<lparr> role := Leader \<rparr> \<rparr> \<rparr>"

theorem no_lost_wakeup_witness:
  "\<forall>sh. \<exists>w n. waits_run (waits_new [write_check 2 (n_term (rp_node (sh_replica (demo_idle sh))))] (demo_idle sh)) w \<and>
     waiter_at w 0 = Some (AsleepAt n) \<and> ws_announced w = now w \<and>
     write_check 2 (n_term (rp_node (sh_replica (demo_idle sh)))) (sh_replica (ws_shared w)) = None"
proof
  fix sh
  let ?t = "n_term (rp_node (sh_replica (demo_idle sh)))"
  let ?w0 = "waits_new [write_check 2 ?t] (demo_idle sh)"
  have c: "write_check 2 ?t (sh_replica (demo_idle sh)) = None" by (simp add: write_check_def demo_idle_def n_term_def)
  define w1 where "w1 = put_waiter 0 (wait_count (ws_shared ?w0) (ws_waiters ?w0 ! 0)) ?w0"
  define w2 where "w2 = put_waiter 0 (wait_look (now w1) (sh_changes (demo_idle sh)) (ws_shared w1) (ws_waiters w1 ! 0)) w1"
  define w3 where "w3 = put_waiter 0 (wait_sleep (sh_changes (demo_idle sh)) False (ws_shared w2) (ws_waiters w2 ! 0)) w2"
  note defs = waits_new_def waiter_new_def waiter_at_def put_waiter_def wait_count_def wait_look_def wait_sleep_def now_def
  have 1: "wait_step (Count 0) ?w0 = Some w1" by (simp add: w1_def defs)
  have 2: "wait_step (CheckNow 0) w1 = Some w2" unfolding w2_def by (simp add: w1_def defs)
  have 3: "wait_step (Settle 0 False) w2 = Some w3" unfolding w3_def by (simp add: w1_def w2_def defs c)
  have r: "waits_run ?w0 w3" using waits_run.onward [OF waits_run.onward [OF waits_run.onward [OF waits_run.here 1] 2] 3] .
  have a: "waiter_at w3 0 = Some (AsleepAt (sh_changes (demo_idle sh)))" "ws_announced w3 = now w3"
    by (simp_all add: w1_def w2_def w3_def defs c)
  have "write_check 2 ?t (sh_replica (ws_shared w3)) = None" using no_lost_wakeup [OF r, of 0] a by simp
  with r a show "\<exists>w n. waits_run ?w0 w \<and> waiter_at w 0 = Some (AsleepAt n) \<and> ws_announced w = now w \<and>
      write_check 2 ?t (sh_replica (ws_shared w)) = None" by blast
qed

end
