(* ===== verification/ClusterProps.thy ===== *)
theory ClusterProps
  imports ClusterNode RaftCluster
begin

text \<open>
  What a running node adds to its replica: the configuration \<^verbatim>\<open>bind\<close> accepts keeps every message a leader makes
  within a frame; and two runs in which the runtime draws the wrong conclusion from the state of the node.
\<close>

section \<open>Messages fit their frame\<close>

lemma enc_total_member: "enc_total es \<le> b" if "length es \<le> 1" "\<forall>e \<in> set es. encoded_len e \<le> b"
  using that by (cases es) auto

lemma batch_bytes:
  assumes "storage_wf s" and "\<forall>e \<in> set (el_entries (ms_log s)). encoded_len e \<le> b"
  shows "enc_total (entries_within s i budget) \<le> max budget b"
proof -
  obtain n where n: "entries_within s i budget = take n (entries_from s i)"
    "1 < n \<Longrightarrow> enc_total (take n (entries_from s i)) \<le> budget"
    using entries_within_batch [OF assms(1), of i budget] by blast
  have "set (entries_from s i) \<subseteq> set (el_entries (ms_log s))"
    by (auto simp: entries_from_def el_entries_from_def Let_def dest: in_set_dropD split: option.splits)
  then have small: "\<forall>e \<in> set (take n (entries_from s i)). encoded_len e \<le> b" using assms(2) in_set_takeD by fast
  show ?thesis
  proof (cases "1 < n")
    case False
    then have "enc_total (take n (entries_from s i)) \<le> b" by (intro enc_total_member small) simp
    then show ?thesis by (simp add: n(1))
  qed (use n in simp)
qed


text \<open>A leader with a batch of two entries for node 2.\<close>

definition frame_cfg :: cluster_config where
  "frame_cfg = \<lparr>cc_id = 1, cc_peers = [], cc_join = False, cc_tick_ms = 10, cc_raft = demo_config, cc_snapshot_every = 0\<rparr>"

definition frame_node :: node where
  "frame_node = cl_nodes demo_cluster 1"

lemma frame_node_facts:
  "n_config frame_node = demo_config" "storage_wf (storage frame_node)"
  "list_all (\<lambda>e. encoded_len e \<le> max (max_entry_bytes demo_config) ENTRY_OVERHEAD) (el_entries (ms_log (storage frame_node)))"
  "length (put_members (ms_members (storage frame_node))) \<le> 900"
  "fst (append_message_for 3 (frame_node, [])) = Inr (Send 3 (AppendEntries 1 0 0 demo_entries 2 0))"
  by code_simp+


section \<open>A write that was overwritten is acknowledged\<close>

text \<open>
  Node 1 leads term 1, proposes \<^verbatim>\<open>[7]\<close> at index 2 and is cut off. Node 2 takes over in term 2 with the vote of
  node 3, and the two commit another entry at index 2. One append of node 2 reaches node 1: it overwrites the
  proposal and commits what replaced it.
\<close>

definition lost_start :: "event list" where
  "lost_start = [Campaign 1, Deliver 1 2 (RequestVote 1 0 0), Deliver 2 1 (RequestVoteReply 1 True),
     Deliver 1 2 (AppendEntries 1 0 0 [back_entry 1 1] 0 0), Deliver 1 3 (AppendEntries 1 0 0 [back_entry 1 1] 0 0)]"

definition lost_events :: "event list" where
  "lost_events = [Tick 3, Tick 3, Tick 3, Campaign 2, Deliver 2 3 (RequestVote 2 1 1), Deliver 3 2 (RequestVoteReply 2 True),
     Deliver 2 3 (AppendEntries 2 1 1 [back_entry 2 2] 0 0), Deliver 3 2 (AppendEntriesReply 2 True 2 0 None 0), Tick 2, Tick 2]"

definition lost_event :: event where
  "lost_event = Deliver 2 1 (AppendEntries 2 1 1 [back_entry 2 2] 2 0)"

abbreviation lost_run :: "cluster \<Rightarrow> event list \<Rightarrow> cluster option" where
  "lost_run \<equiv> run_events demo_config demo_boot"

definition lost_before :: cluster where
  "lost_before = the (lost_run (cluster_init demo_config demo_boot) lost_start)"

definition lost_waiting :: cluster where
  "lost_waiting = the (lost_run (apply_event demo_config demo_boot lost_before (Propose 1 [7])) lost_events)"

definition lost_after :: cluster where
  "lost_after = apply_event demo_config demo_boot lost_waiting lost_event"

lemma lost_runs:
  "lost_run (cluster_init demo_config demo_boot) lost_start \<noteq> None"
  "lost_run (apply_event demo_config demo_boot lost_before (Propose 1 [7])) lost_events \<noteq> None"
  "enabled lost_waiting lost_event"
  by code_simp+

lemma lost_proposed:
  "(case propose [7] (cl_nodes lost_before 1) of (Inr acc, n) \<Rightarrow> acc_index acc = 2 \<and> n_term n = 1 | _ \<Rightarrow> False)"
  by code_simp

lemma lost_facts:
  "n_term (cl_nodes lost_waiting 1) = 1" "role (cl_nodes lost_waiting 1) = Leader" "commit_index (cl_nodes lost_waiting 1) = 0"
  "commit_index (cl_nodes lost_after 1) = 2"
  "list_all (\<lambda>i. list_all (\<lambda>e. e_command e \<noteq> Data [7]) (el_entries (ms_log (storage (cl_nodes lost_after i))))) [1, 2, 3]"
  by code_simp+

text \<open>
  (C23) \<^verbatim>\<open>write\<close> can acknowledge a write that is lost: there is a run in which the leader of term 1 accepts a
  command at index 2, its client waits, and after one more message the client is told OK while no node
  holds the command any more; the check looks at the applied index before it looks at the term.
\<close>

theorem overwritten_write_acknowledged:
  "\<exists>c0 c e acc n es. reach demo_config demo_boot c0 \<and> propose [7] (cl_nodes c0 1) = (Inr acc, n) \<and> acc_index acc = 2 \<and> n_term n = 1 \<and>
     run_events demo_config demo_boot (apply_event demo_config demo_boot c0 (Propose 1 [7])) es = Some c \<and> enabled c e \<and>
     write_check (acc_index acc) (n_term n) (r\<lparr> rp_node := cl_nodes c 1, rp_applied := commit_index (cl_nodes c 1) \<rparr>) = None \<and>
     (let n' = cl_nodes (apply_event demo_config demo_boot c e) 1 in
      write_check (acc_index acc) (n_term n) (r\<lparr> rp_node := n', rp_applied := commit_index n' \<rparr>) = Some reply_ok) \<and>
     list_all (\<lambda>i. list_all (\<lambda>e. e_command e \<noteq> Data [7])
       (el_entries (ms_log (storage (cl_nodes (apply_event demo_config demo_boot c e) i))))) [1, 2, 3]"
proof -
  obtain acc n where p: "propose [7] (cl_nodes lost_before 1) = (Inr acc, n)" "acc_index acc = 2" "n_term n = 1"
    using lost_proposed by (auto split: prod.splits sum.splits)
  have 1: "reach demo_config demo_boot lost_before"
    by (rule reach_run [OF reach.init, of _ _ lost_start]) (use lost_runs(1) in \<open>auto simp: lost_before_def\<close>)
  have 2: "lost_run (apply_event demo_config demo_boot lost_before (Propose 1 [7])) lost_events = Some lost_waiting"
    using lost_runs(2) by (auto simp: lost_waiting_def)
  have 3: "write_check 2 1 (r\<lparr> rp_node := cl_nodes lost_waiting 1, rp_applied := commit_index (cl_nodes lost_waiting 1) \<rparr>) = None"
    by (simp add: write_check_def lost_facts del: One_nat_def)
  have 4: "write_check 2 1 (r\<lparr> rp_node := cl_nodes lost_after 1, rp_applied := commit_index (cl_nodes lost_after 1) \<rparr>) = Some reply_ok"
    by (simp add: write_check_def lost_facts del: One_nat_def)
  show ?thesis
    by (intro exI [of _ lost_before] exI [of _ lost_waiting] exI [of _ lost_event] exI [of _ acc] exI [of _ n]
        exI [of _ lost_events] conjI 1 2 p lost_runs(3))
       (use 3 4 lost_facts(5) p in \<open>simp_all add: lost_after_def Let_def\<close>)
qed

section \<open>A membership the address book does not follow\<close>

text \<open>
  Node 1 leads term 1 and proposes a fourth member at index 3; node 2, which leads term 2 without having seen
  it, replaces index 2 and puts a fifth member at index 3.
\<close>

lemma encode_members_length: "length (encode_members ms) = 4 + sum_list (map (\<lambda>m. 13 + length (m_context m)) ms)"
  by (induction ms) (simp_all add: encode_members_def put_member_def put_bool_def)

lemma encoded_len_eval [code]:
  "encoded_len e = ENTRY_OVERHEAD + (case e_command e of Noop \<Rightarrow> 0 | Data bs \<Rightarrow> length bs
     | Config ms \<Rightarrow> 4 + sum_list (map (\<lambda>m. 13 + length (m_context m)) ms))"
  by (simp add: encoded_len_def command_payload_def encode_members_length split: command.splits)

definition missed_before :: node where
  "missed_before = snd (propose_membership (demo_boot @ [learner 4 []]) (snd (propose [7]
     (snd (step 2 (AppendEntriesReply 1 True 1 0 None 0) (snd (step 2 (RequestVoteReply 1 True)
       (snd (campaign (with_members 1 demo_boot demo_config mem_storage_new))))))))))"

definition missed_after :: node where
  "missed_after = snd (step 2 (AppendEntries 2 1 1 [back_entry 2 2,
     \<lparr>e_term = 2, e_index = 3, e_command = Config (demo_boot @ [learner 5 []])\<rparr>] 0 0) missed_before)"

lemma missed_facts:
  "map mid (members missed_before) = [1, 2, 3, 4]" "membership_index missed_before = 3"
  "map mid (members missed_after) = [1, 2, 3, 5]" "membership_index missed_after = 3"
  by code_simp+

lemma follow_seen: "ab_seen (sh_book (follow_membership ok sh)) = membership_index (rp_node (sh_replica sh))"
  by (auto simp: follow_membership_def Let_def split: prod.splits)


end
