(* ===== verification/Spec2Isabelle.thy ===== *)
theory Spec2Isabelle
  imports StoreJobs GroupCommit RaftCluster NodeProps DiskProps ReplicaCrash ClusterWrites WaitFor ClusterProps
begin

text \<open>
  A verification of minicask: an embedded key/value store over append-only files, a Redis-protocol server on
  top of it, and a Raft consensus library that replicates it.

  \<^bold>\<open>The program.\<close> A store (\<^verbatim>\<open>src/src/store.rs\<close>) keeps an index in memory of where in its data files the
  latest record of each key lies. Records (\<^verbatim>\<open>record.rs\<close>) carry a CRC-32 (\<^verbatim>\<open>crc.rs\<close>); the active data file is
  written through a buffer (\<^verbatim>\<open>log.rs\<close>); a hint file beside a sealed data file holds its part of the index
  (\<^verbatim>\<open>hint.rs\<close>). Opening a directory replays hints and files, cutting off a torn append at the end of the
  newest. The server (\<^verbatim>\<open>server.rs\<close>) reads commands (\<^verbatim>\<open>resp.rs\<close>), runs them under one lock, and holds
  replies back until a shared fsync has covered the writes they report. A consensus node
  (\<^verbatim>\<open>raft/node.rs\<close>) is a state machine without I/O of its own: ticks and messages go in, actions come out, and
  everything it must not forget goes through a storage (\<^verbatim>\<open>raft/log.rs\<close> for the interface and the one in
  memory, \<^verbatim>\<open>raft/storage.rs\<close> for the one on disk). \<^verbatim>\<open>raft/wire.rs\<close> frames messages for a socket. A replica
  (\<^verbatim>\<open>replicated.rs\<close>) is a node and the store it drives: committed commands are applied to the store, how far it
  is goes into a file beside the data, and snapshots of the store replace the front of the log. A cluster node
  (\<^verbatim>\<open>cluster.rs\<close>) is a replica as a process: a ticker, a thread per connection and per peer, background jobs, and
  clients whose writes are proposed in batches and acknowledged once applied.

  \<^bold>\<open>The theories, bottom up.\<close>
  \<^item> \<open>Prelude\<close>: Rust's integers, byte strings, errors (\<^verbatim>\<open>error.rs\<close>), little-endian encoding, slices, association
    lists; the collections \<open>le_simps\<close>, \<open>codec_simps\<close> and \<open>fs_simps\<close>.
  \<^item> \<open>Crc\<close>, \<open>RecordFormat\<close>: \<^verbatim>\<open>crc.rs\<close> over words of 32 bits, equal to the bit-serial register and sensitive to
    every burst of up to four bytes; \<^verbatim>\<open>record.rs\<close> with its round trip.
  \<^item> \<open>FileSystem\<close>, \<open>BufFile\<close>, \<open>FsFaults\<close>: one directory. A file is its bytes and how many of them are synced. A
    schedule in the state says which of the calls to come fail, and how much of a failing write reaches the
    file; the empty schedule is a working device. \<open>fs_power_cut\<close> keeps exactly what was synced, \<open>fs_crash\<close> at
    least that and any part of the rest. \<open>io_ok\<close> is a Hoare triple for calls under any schedule.
  \<^item> \<open>DataLog\<close>, \<open>HintFile\<close>: the writer, the scanner and positional reads of \<^verbatim>\<open>log.rs\<close>; \<^verbatim>\<open>hint.rs\<close>.
  \<^item> \<open>Store\<close>: the record \<open>store\<close> has the fields of \<^verbatim>\<open>Store\<close>, and one definition stands for each method, with
    the name of the method. \<open>StoreInv\<close>: a directory is specified by a history, the records of each file in
    order; \<open>store_repr\<close> relates a store to its history. \<open>StoreWrite\<close>, \<open>StoreOpen\<close>, \<open>StoreCompact\<close>,
    \<open>StoreJobs\<close>: writes, opening, compaction and the background jobs keep it. \<open>KvStore\<close>: the contract of a map with
    failures as the locale \<open>kv_store\<close>, interpreted on the store in its modes. \<open>StoreProps\<close>: the
    properties. \<open>StoreHistory\<close>: how far the history is durable as the store is used, for its clients;
    \<open>StoreApart\<close>: the files it leaves alone.
  \<^item> \<open>Resp\<close>, \<open>Server\<close>, \<open>GroupCommit\<close>: \<^verbatim>\<open>resp.rs\<close> with a locale for codecs over a stream; every command of
    \<^verbatim>\<open>server.rs\<close> against a specification over a map; the threads of the server as interleaved steps over one
    state, \<^verbatim>\<open>GroupCommit::wait\<close> cut at its lock operations.
  \<^item> \<open>Codec\<close>, \<open>RaftLog\<close>, \<open>RaftMessage\<close>, \<open>RaftWire\<close>: byte readers with a locale for prefix codecs; the log after a
    snapshot and the storage in memory; messages, and their frames.
  \<^item> \<open>DiskStorage\<close>, \<open>DiskEntries\<close>, \<open>DiskOpen\<close>, \<open>DiskOps\<close>, \<open>DiskSnap\<close>, \<open>DiskProps\<close>: \<^verbatim>\<open>raft/storage.rs\<close>; the bytes of
    its three files; recovery; each operation under any schedule of faults; snapshots in flight; sequences of
    operations against the storage in memory.
  \<^item> \<open>RaftNode\<close>: every method of \<^verbatim>\<open>Node\<close> as a step on the record \<open>node\<close>, returning actions or the storage's error.
    \<open>NodeRel\<close>: the locale \<open>op_rel\<close> proves a relation between a node before and after for every operation from
    one obligation per primitive; \<open>NodeWf\<close>, \<open>NodeStatic\<close> and \<open>NodeVote\<close> interpret it. \<open>NodeProps\<close>: properties of
    single operations. \<open>RaftCluster\<close>: a network that loses, duplicates and reorders messages, nodes that
    crash and restart and storages that fail, as a step relation with its invariants.
  \<^item> \<open>Replicated\<close>: every method of \<^verbatim>\<open>ReplicatedStore\<close> as a step on the record \<open>replica\<close>. \<open>ReplicaStore\<close>: commands,
    deferred writes and the applied index; \<open>ReplicaRestore\<close>, \<open>ReplicaSnapshot\<close>: a restore leaves exactly the
    pairs of the snapshot, a snapshot is the store in key order; \<open>Replay\<close>: the contents the committed log
    stands for, and why replaying is harmless; \<open>ReplicaApply\<close>: the invariant of a replica and that
    applying keeps it; \<open>ReplicaProps\<close>: the properties; \<open>ReplicaCrash\<close>: a power cut at any moment of applying.
  \<^item> \<open>Proposals\<close>, \<open>PeerLinks\<close>, \<open>ClusterNode\<close>: \<^verbatim>\<open>cluster.rs\<close>. The queue of proposals with the threads of \<^verbatim>\<open>submit\<close> cut
    at its lock operations and what it asks of its caller as the locale \<open>proposer\<close>; the links to the peers and the
    address book; everything else, one definition per thing a thread does in one go. \<open>ClusterWrites\<close>: the
    locale interpreted on \<^verbatim>\<open>write\<close>. \<open>WaitFor\<close>: \<^verbatim>\<open>wait_for\<close> against changes of the replica. \<open>ClusterProps\<close>: frames, and
    two runs that go wrong.

  \<^bold>\<open>What is shown.\<close> The store answers every sequence of operations as a map does and survives reopening,
  power cuts, torn appends and compaction as documented; the server answers as its specification says, and a
  reply to a write leaves only when the write survives a power cut; waiting for the disk always ends. The
  consensus storage refines the one in memory, and a crash at any point of any operation leaves the state
  before it or after it. A replica's store holds what the committed commands up to its applied index leave,
  whatever it restores, replays, snapshots or compacts on the way, and a power cut never leaves the applied
  index ahead of the store. A cluster with fixed membership has at most one leader per term; a
  node votes once per term; logs have no gaps; the commit index of a leader advances only over entries of its
  term that a majority has. Clients of a cluster node have their writes proposed exactly once and get their own
  answers, and neither they nor anyone waiting for the replica sleeps through what they wait for; a peer's
  link delivers whole messages in order, and none too long to be accepted. Formats read back what was written and refuse bursts of damage. Some
  theorems are about behaviour that is not what the code or its comments intend, and say so.

  \<^bold>\<open>Bounds and fuel.\<close> No definition runs on fuel: loops are structural or have a measure (bytes left to read; for
  the threads of \<^verbatim>\<open>submit\<close> the bound \<open>n * (n + 3)\<close> on the steps of \<open>n\<close> calls).
  Lengths and offsets are natural numbers; where the code narrows to 32 bits the model does too
  (\<open>as_u32\<close>), and statements say when a record or a field has to fit. Indices and terms are natural numbers,
  reduced modulo \<open>2^64\<close> where the code adds to a value read from disk. Clock readings, random seeds and the
  order in which a hash map is walked are arguments.

  \<^bold>\<open>Not modelled.\<close> The command-line programs, which parse arguments and print. Sockets are streams of bytes, and
  accepting connections is left out; of the threads of \<^verbatim>\<open>cluster.rs\<close> only those of \<^verbatim>\<open>submit\<close> and \<^verbatim>\<open>wait_for\<close> are
  interleaved, the others run a step at a time under the lock. A directory entry is taken to be
  durable as soon as it is made, so the calls that sync the directory have no effect. Safety of membership changes and
  agreement of committed logs across the cluster are not proved.
\<close>

end
